(* ===== verification/Prelude.thy ===== *)
theory Prelude
  imports Main "HOL-Library.Word"
begin

text \<open>
  The prelude of the development: names for the machine types of the C sources, the
  collections of rewrite rules the component theories share, the generic lemmas on
  words and lists, and the interfaces (locales) through which one component relies
  on another.  Every locale declared here is interpreted in the theory of the
  component that provides it.
\<close>

section \<open>Machine types\<close>

type_synonym u8 = "8 word"
type_synonym u16 = "16 word"
type_synonym u32 = "32 word"
type_synonym u64 = "64 word"
type_synonym size_t = "64 word"
type_synonym bytes = "u8 list"

named_theorems word_nat \<open>reading word arithmetic as arithmetic of natural numbers\<close>
named_theorems inv_pres \<open>an operation preserves the invariant of its component\<close>

section \<open>Words read as natural numbers\<close>

lemma unat_diff_le [word_nat]:
  fixes a b :: "'a::len word"
  assumes "b \<le> a"
  shows "unat (a - b) = unat a - unat b"
  using assms by (rule unat_sub)

lemma unat_sum_lt [word_nat]:
  fixes a b :: "'a::len word"
  assumes "unat a + unat b < 2 ^ LENGTH('a)"
  shows "unat (a + b) = unat a + unat b"
  using assms by (simp add: unat_add_lem)

lemma unat_double_lt [word_nat]:
  fixes a :: "'a::len word"
  assumes "2 * unat a < 2 ^ LENGTH('a)"
  shows "unat (2 * a) = 2 * unat a"
  using assms unat_sum_lt [of a a] by (metis mult_2)

lemma unat_of_nat_lt [word_nat]:
  assumes "n < 2 ^ LENGTH('a)"
  shows "unat (of_nat n :: 'a::len word) = n"
  using assms by (rule of_nat_inverse [OF refl])

lemma unat_of_nat_length [simp]:
  fixes w :: "'a::len word"
  assumes "length xs = unat w"
  shows "(of_nat (length xs) :: 'a word) = w"
  using assms by simp

section \<open>Little-endian words in a byte buffer\<close>

definition le16_at :: "bytes \<Rightarrow> nat \<Rightarrow> u16" where
  "le16_at bs i = or (ucast (bs ! i)) (push_bit 8 (ucast (bs ! (i + 1))))"

section \<open>Files as their bytes\<close>

abbreviation MAX_OFFSET :: nat where "MAX_OFFSET \<equiv> 2 ^ 63 - 1"

text \<open>Writing at an offset: a hole before it is filled with zeros.\<close>

definition file_store :: "bytes \<Rightarrow> nat \<Rightarrow> bytes \<Rightarrow> bytes" where
  "file_store f off bs =
     (if bs = [] then f
      else take off (f @ replicate (off - length f) 0) @ bs @ drop (off + length bs) f)"

lemma file_store_Nil [simp]: "file_store f off [] = f"
  by (simp add: file_store_def)

lemma length_file_store:
  "length (file_store f off bs) = (if bs = [] then length f else max (length f) (off + length bs))"
  by (auto simp: file_store_def)

lemma file_store_at_end:
  assumes "w \<le> length f"
  shows "take (w + length bs) (file_store f w bs) = take w f @ bs" "w + length bs \<le> length (file_store f w bs)"
  using assms by (auto simp: file_store_def)

lemma file_store_prefix:
  assumes "w \<le> length f"
  shows "take w (file_store f w bs) = take w f" "w \<le> length (file_store f w bs)"
  using assms by (auto simp: file_store_def)

lemma nth_file_store:
  assumes "i < length (file_store f off bs)"
  shows "file_store f off bs ! i =
    (if off \<le> i \<and> i < off + length bs then bs ! (i - off) else if i < length f then f ! i else 0)"
proof (cases "bs = []")
  case False
  define p where "p = take off (f @ replicate (off - length f) 0)"
  have p: "length p = off" "file_store f off bs = p @ bs @ drop (off + length bs) f"
    using False by (auto simp: p_def file_store_def)
  have "p ! i = (if i < length f then f ! i else 0)" if "i < off"
    using that by (auto simp: p_def nth_append)
  moreover have "off + length bs \<le> i \<Longrightarrow> i < length f"
    using assms False by (simp add: length_file_store split: if_splits)
  ultimately show ?thesis
    using assms p(1) unfolding p(2) by (auto simp: nth_append)
qed (use assms in auto)

lemma file_store_append:
  "file_store (file_store f off xs) (off + length xs) ys = file_store f off (xs @ ys)"
proof (cases "xs = [] \<or> ys = []")
  case False
  define p where "p = take off (f @ replicate (off - length f) 0)"
  have p: "length p = off" "file_store f off xs = p @ xs @ drop (off + length xs) f"
    using False by (auto simp: p_def file_store_def)
  have "file_store (p @ xs @ drop (off + length xs) f) (off + length xs) ys
      = p @ xs @ ys @ drop (off + (length xs + length ys)) f"
    using False p(1) by (simp add: file_store_def add.commute add.left_commute)
  then show ?thesis using False unfolding p(2) by (simp add: file_store_def p_def)
qed auto

section \<open>Lists read as the contents of a queue\<close>

lemma take_drop_map_upt:
  assumes "n \<le> m"
  shows "take n (map f [0..<m]) = map f [0..<n]"
    and "drop n (map f [0..<m]) = map (\<lambda>i. f (n + i)) [0..<m - n]"
  using assms by (auto intro: nth_equalityI simp: nth_append)

lemma map_upt_split:
  assumes "n \<le> m"
  shows "map f [0..<m] = map f [0..<n] @ map (\<lambda>i. f (n + i)) [0..<m - n]"
  using assms by (auto intro!: nth_equalityI simp: nth_append)

section \<open>The contract of a byte queue\<close>

text \<open>
  What the clients of the ring buffer rely on: a write that succeeds appends the bytes it
  was given, a read sees the oldest bytes, releasing bytes removes the oldest ones, and a
  write never fails while there is room for it.
\<close>

locale byte_queue =
  fixes contents :: "'q \<Rightarrow> 'a list"
    and inv :: "'q \<Rightarrow> bool"
    and capacity :: "'q \<Rightarrow> nat"
    and put :: "'q \<Rightarrow> 'a list \<Rightarrow> size_t \<Rightarrow> 'q option"
    and peek :: "'q \<Rightarrow> size_t \<Rightarrow> 'a list option"
    and release :: "'q \<Rightarrow> size_t \<Rightarrow> 'q option"
  assumes put_some: "inv q \<Longrightarrow> length xs = unat n \<Longrightarrow> put q xs n = Some q' \<Longrightarrow>
        inv q' \<and> contents q' = contents q @ xs \<and> capacity q' = capacity q"
    and put_none: "inv q \<Longrightarrow>
        (put q xs n = None) = (capacity q < length (contents q) + unat n)"
    and peek_eq: "inv q \<Longrightarrow>
        peek q n = (if unat n \<le> length (contents q)
                    then Some (take (unat n) (contents q)) else None)"
    and release_some: "inv q \<Longrightarrow> release q n = Some q' \<Longrightarrow>
        unat n \<le> length (contents q) \<and> inv q' \<and>
        contents q' = drop (unat n) (contents q) \<and> capacity q' = capacity q"
    and release_none: "inv q \<Longrightarrow>
        (release q n = None) = (length (contents q) < unat n)"
    and fits: "inv q \<Longrightarrow> length (contents q) \<le> capacity q"

text \<open>A client's calls, and what a run of them writes and reads.\<close>

datatype 'a queue_call = Call_Put "'a list" | Call_Get nat

fun queue_run ::
  "('q \<Rightarrow> 'a list \<Rightarrow> size_t \<Rightarrow> 'q option) \<Rightarrow> ('q \<Rightarrow> size_t \<Rightarrow> 'a list option) \<Rightarrow>
   ('q \<Rightarrow> size_t \<Rightarrow> 'q option) \<Rightarrow> 'a queue_call list \<Rightarrow> 'q \<Rightarrow>
   ('a list \<times> 'a list \<times> 'q)" where
  "queue_run put peek release [] q = ([], [], q)"
| "queue_run put peek release (Call_Put xs # cs) q =
     (case put q xs (of_nat (length xs)) of
        None \<Rightarrow> queue_run put peek release cs q
      | Some q' \<Rightarrow> (case queue_run put peek release cs q' of
                      (w, r, q'') \<Rightarrow> (xs @ w, r, q'')))"
| "queue_run put peek release (Call_Get n # cs) q =
     (case peek q (of_nat n) of
        None \<Rightarrow> queue_run put peek release cs q
      | Some xs \<Rightarrow> (case release q (of_nat n) of
            None \<Rightarrow> queue_run put peek release cs q
          | Some q' \<Rightarrow> (case queue_run put peek release cs q' of
                          (w, r, q'') \<Rightarrow> (w, xs @ r, q''))))"

definition call_fits :: "'a queue_call \<Rightarrow> bool" where
  "call_fits c = (case c of Call_Put xs \<Rightarrow> length xs < 2 ^ 64 | Call_Get n \<Rightarrow> n < 2 ^ 64)"

context byte_queue
begin

lemma release_after_peek:
  assumes "inv q" "peek q n = Some xs"
  obtains q' where "release q n = Some q'" "contents q = xs @ contents q'" "inv q'"
    "capacity q' = capacity q"
proof -
  have n: "unat n \<le> length (contents q)" and xs: "xs = take (unat n) (contents q)"
    using peek_eq [OF assms(1), of n] assms(2) by (auto split: if_splits)
  then obtain q' where q': "release q n = Some q'"
    using release_none [OF assms(1), of n] by (cases "release q n") auto
  then show thesis
    using that [of q'] release_some [OF assms(1) q'] xs by simp
qed

lemma queue_run_fifo:
  assumes "inv q" "\<forall>c\<in>set cs. call_fits c" "queue_run put peek release cs q = (w, r, q')"
  shows "inv q' \<and> contents q @ w = r @ contents q' \<and> capacity q' = capacity q"
  using assms
proof (induction cs arbitrary: q w r)
  case Nil
  then show ?case by simp
next
  case (Cons c cs)
  show ?case
  proof (cases c)
    case (Call_Put xs)
    have len: "length xs = unat (of_nat (length xs) :: size_t)"
      using Cons.prems(2) Call_Put by (simp add: call_fits_def unat_of_nat_lt)
    show ?thesis
    proof (cases "put q xs (of_nat (length xs))")
      case None
      then show ?thesis using Cons Call_Put by simp
    next
      case (Some q1)
      note p = put_some [OF Cons.prems(1) len Some]
      show ?thesis
        using Cons.IH [of q1] Cons.prems p Some Call_Put by (auto split: prod.splits)
    qed
  next
    case (Call_Get n)
    show ?thesis
    proof (cases "peek q (of_nat n)")
      case None
      then show ?thesis using Cons Call_Get by simp
    next
      case (Some xs)
      obtain q1 where "release q (of_nat n) = Some q1" "contents q = xs @ contents q1"
        "inv q1" "capacity q1 = capacity q"
        using release_after_peek [OF Cons.prems(1) Some] .
      then show ?thesis
        using Cons.IH [of q1] Cons.prems Some Call_Get by (auto split: prod.splits)
    qed
  qed
qed

end

section \<open>The contract of an incremental consumer\<close>

text \<open>
  Validators and stream readers of the program are fed a stream in chunks whose borders
  the producer chooses.  The contract says that feeding two chunks is feeding their
  concatenation, so that the borders do not matter.
\<close>

locale guarded_feed =
  fixes ok :: "'s \<Rightarrow> bool"
    and feed :: "'s \<Rightarrow> 'b list \<Rightarrow> 's"
  assumes feed_ok: "ok s \<Longrightarrow> ok (feed s xs)"
    and feed_append: "ok s \<Longrightarrow> feed s (xs @ ys) = feed (feed s xs) ys"
    and feed_empty: "ok s \<Longrightarrow> feed s [] = s"
begin

lemma feed_concat: "ok s \<Longrightarrow> feed s (concat cs) = foldl feed s cs"
  by (induction cs arbitrary: s) (simp_all add: feed_append feed_empty feed_ok)

lemma same_stream_same_state:
  assumes "ok s" "concat cs = concat ds"
  shows "foldl feed s cs = foldl feed s ds"
  using assms by (simp add: feed_concat [symmetric])

end

text \<open>The consumers that keep the contract in every state.\<close>

locale chunked_feed =
  fixes feed :: "'s \<Rightarrow> 'b list \<Rightarrow> 's"
  assumes feed_split: "feed s (xs @ ys) = feed (feed s xs) ys"
    and feed_nil: "feed s [] = s"

sublocale chunked_feed \<subseteq> guarded_feed "\<lambda>_. True" feed
  by unfold_locales (simp_all add: feed_split feed_nil)

context chunked_feed
begin

lemmas feed_chunks = feed_concat [OF TrueI]

lemmas same_stream = same_stream_same_state [OF TrueI]

end

section \<open>Big-endian words in a byte buffer\<close>

definition join16 :: "u8 \<Rightarrow> u8 \<Rightarrow> u16" where
  "join16 a b = or (push_bit 8 (ucast a)) (ucast b)"

definition join32 :: "u16 \<Rightarrow> u16 \<Rightarrow> u32" where
  "join32 a b = or (push_bit 16 (ucast a)) (ucast b)"

definition join64 :: "u32 \<Rightarrow> u32 \<Rightarrow> u64" where
  "join64 a b = or (push_bit 32 (ucast a)) (ucast b)"

named_theorems word_split \<open>taking words apart into halves and joining them again\<close>

lemma join16_split [word_split]: "join16 (ucast (drop_bit 8 v)) (ucast v) = v"
  by (rule bit_word_eqI) (auto simp: join16_def bit_simps)

lemma split16_join [word_split]:
  "(ucast (drop_bit 8 (join16 a b)) :: u8) = a" "(ucast (join16 a b) :: u8) = b"
  by (rule bit_word_eqI; auto simp: join16_def bit_simps dest: bit_imp_le_length)+

lemma join32_split [word_split]: "join32 (ucast (drop_bit 16 v)) (ucast v) = v"
  by (rule bit_word_eqI) (auto simp: join32_def bit_simps)

lemma split32_join [word_split]:
  "(ucast (drop_bit 16 (join32 a b)) :: u16) = a" "(ucast (join32 a b) :: u16) = b"
  by (rule bit_word_eqI; auto simp: join32_def bit_simps dest: bit_imp_le_length)+

lemma join64_split [word_split]: "join64 (ucast (drop_bit 32 v)) (ucast v) = v"
  by (rule bit_word_eqI) (auto simp: join64_def bit_simps)

lemma split64_join [word_split]:
  "(ucast (drop_bit 32 (join64 a b)) :: u32) = a" "(ucast (join64 a b) :: u32) = b"
  by (rule bit_word_eqI; auto simp: join64_def bit_simps dest: bit_imp_le_length)+

section \<open>The contract of a fixed-width header\<close>

text \<open>
  A header of a wire format: encoding refuses what is not well formed and otherwise yields
  a fixed number of bytes; decoding reads that many bytes, accepts exactly the encodings and
  gives back the header.
\<close>

locale header_codec =
  fixes encode :: "'h \<Rightarrow> bytes option"
    and decode :: "bytes \<Rightarrow> 'h option"
    and wf :: "'h \<Rightarrow> bool"
    and width :: nat
  assumes encode_none: "encode h = None \<longleftrightarrow> \<not> wf h"
    and encode_width: "encode h = Some bs \<Longrightarrow> length bs = width"
    and decode_encode: "encode h = Some bs \<Longrightarrow> decode bs = Some h"
    and encode_decode: "decode bs = Some h \<Longrightarrow> length bs = width \<Longrightarrow> encode h = Some bs"
begin

lemma encode_some: "wf h \<Longrightarrow> \<exists>bs. encode h = Some bs \<and> length bs = width"
  using encode_none encode_width by (cases "encode h") auto

lemma encode_inj:
  assumes "encode g = Some bs" "encode h = Some bs"
  shows "g = h"
  using decode_encode [OF assms(1)] decode_encode [OF assms(2)] by simp

lemma decode_iff:
  assumes "length bs = width"
  shows "decode bs = Some h \<longleftrightarrow> encode h = Some bs"
  using encode_decode [OF _ assms] decode_encode by blast

lemma decode_wf: "decode bs = Some h \<Longrightarrow> length bs = width \<Longrightarrow> wf h"
  using encode_decode [of bs h] encode_none [of h] by auto

end

section \<open>The contract of a spill store\<close>

text \<open>
  What the recorder relies on when its ring is full: a store of bytes in order, that tells
  how many it holds, accepts a block whole or not at all, and hands out the oldest bytes or
  nothing.  The environment of a call (what the disk answers) is its first argument.
\<close>

locale spill_store =
  fixes contents :: "'s \<Rightarrow> bytes"
    and inv :: "'s \<Rightarrow> bool"
    and backlog :: "'s \<Rightarrow> u64"
    and enqueue :: "'e \<Rightarrow> 's \<Rightarrow> bytes \<Rightarrow> bool \<times> 's"
    and read_block :: "'e \<Rightarrow> 's \<Rightarrow> nat \<Rightarrow> bytes option \<times> 's"
  assumes backlog: "inv s \<Longrightarrow> unat (backlog s) = length (contents s)"
    and enqueue: "inv s \<Longrightarrow> enqueue e s xs = (ok, s') \<Longrightarrow>
        inv s' \<and> contents s' = contents s @ (if ok then xs else [])"
    and read_some: "inv s \<Longrightarrow> read_block e s n = (Some xs, s') \<Longrightarrow>
        inv s' \<and> xs = take n (contents s) \<and> contents s' = drop n (contents s)"
    and read_none: "inv s \<Longrightarrow> read_block e s n = (None, s') \<Longrightarrow>
        inv s' \<and> contents s' = contents s"

text \<open>A run of calls, with what it put in and what it got out.\<close>

datatype 'e spill_call = Spill_Put 'e bytes | Spill_Get 'e nat

fun spill_run ::
  "('e \<Rightarrow> 's \<Rightarrow> bytes \<Rightarrow> bool \<times> 's) \<Rightarrow> ('e \<Rightarrow> 's \<Rightarrow> nat \<Rightarrow> bytes option \<times> 's) \<Rightarrow>
   'e spill_call list \<Rightarrow> 's \<Rightarrow> bytes \<times> bytes \<times> 's" where
  "spill_run enq rd [] s = ([], [], s)"
| "spill_run enq rd (Spill_Put e xs # cs) s =
     (case enq e s xs of (ok, s1) \<Rightarrow>
      case spill_run enq rd cs s1 of (w, r, s2) \<Rightarrow> (if ok then xs @ w else w, r, s2))"
| "spill_run enq rd (Spill_Get e n # cs) s =
     (case rd e s n of (res, s1) \<Rightarrow>
      case spill_run enq rd cs s1 of (w, r, s2) \<Rightarrow>
        (w, (case res of None \<Rightarrow> r | Some xs \<Rightarrow> xs @ r), s2))"

context spill_store
begin

lemma spill_run_fifo:
  assumes "inv s" "spill_run enqueue read_block cs s = (w, r, s')"
  shows "inv s' \<and> contents s @ w = r @ contents s'"
  using assms
proof (induction cs arbitrary: s w r)
  case (Cons c cs)
  show ?case
  proof (cases c)
    case (Spill_Put e xs)
    obtain ok s1 where e1: "enqueue e s xs = (ok, s1)" by fastforce
    obtain w1 where "spill_run enqueue read_block cs s1 = (w1, r, s')"
      "w = (if ok then xs @ w1 else w1)"
      using Cons.prems(2) e1 Spill_Put by (auto split: prod.splits)
    then show ?thesis
      using Cons.IH [of s1 w1 r] enqueue [OF Cons.prems(1) e1] by (cases ok) auto
  next
    case (Spill_Get e n)
    obtain res s1 where r1: "read_block e s n = (res, s1)" by fastforce
    obtain q where q: "spill_run enqueue read_block cs s1 = (w, q, s')"
      "r = (case res of None \<Rightarrow> q | Some xs \<Rightarrow> xs @ q)"
      using Cons.prems(2) r1 Spill_Get by (auto split: prod.splits)
    show ?thesis
    proof (cases res)
      case None
      then show ?thesis
        using Cons.IH [of s1 w q] read_none [OF Cons.prems(1) r1 [unfolded None]] q by simp
    next
      case (Some xs)
      note rs = read_some [OF Cons.prems(1) r1 [unfolded Some]]
      then have "contents s = xs @ contents s1" by simp
      then show ?thesis using Cons.IH [of s1 w q] conjunct1 [OF rs] q Some by simp
    qed
  qed
qed simp

end

section \<open>The contract of a state machine with an invariant\<close>

locale inv_machine =
  fixes step :: "'e \<Rightarrow> 's \<Rightarrow> 's"
    and good :: "'s \<Rightarrow> bool"
  assumes step_good: "good s \<Longrightarrow> good (step e s)"
begin

lemma run_good: "good s \<Longrightarrow> good (fold step es s)"
  by (induction es arbitrary: s) (simp_all add: step_good)

end

end
