(* ===== verification/Ringbuffer.thy ===== *)
theory Ringbuffer
  imports Prelude
begin

text \<open>
  The byte ring of common/ringbuffer.c.  The C code maps the same memory twice, one copy
  after the other, so that an index between 0 and twice the size is valid and both copies
  show the same bytes; the model keeps the one physical copy and reduces an index modulo
  its length.  A pointer into the mapping is its index.  The size and the two indices are
  64-bit words and every test is written with their wrapping arithmetic.  A call that
  returns 1 or NULL is None.  The calls of this theory run one at a time; the
  producer/consumer interleavings of the same code are in Ringbuffer_Concurrent.
\<close>

section \<open>State\<close>

record ringbuffer =
  rb_buffer :: bytes
  rb_size :: size_t
  rb_head :: size_t
  rb_tail :: size_t

text \<open>What the calls to the operating system in rb\_init return.\<close>

record rb_os =
  os_page_size :: int
  os_memfd_ok :: bool
  os_ftruncate_ok :: "size_t \<Rightarrow> bool"
  os_reserve_ok :: "size_t \<Rightarrow> bool"
  os_map_first_ok :: bool
  os_map_second_ok :: bool

section \<open>Operations\<close>

text \<open>The test the producer's three calls share: true where they refuse.\<close>

definition rb_no_room :: "size_t \<Rightarrow> size_t \<Rightarrow> size_t \<Rightarrow> size_t \<Rightarrow> bool" where
  "rb_no_room bsize head tail n =
     (let map_size = bsize * 2 in
      tail < head \<or> bsize - (tail - head) < n \<or> map_size \<le> tail \<or> map_size - tail < n)"

text \<open>memcpy into and out of the doubled mapping.\<close>

fun mem_store :: "bytes \<Rightarrow> nat \<Rightarrow> bytes \<Rightarrow> bytes" where
  "mem_store m i [] = m"
| "mem_store m i (x # xs) = mem_store (m[i mod length m := x]) (Suc i) xs"

definition mem_load :: "bytes \<Rightarrow> nat \<Rightarrow> nat \<Rightarrow> bytes" where
  "mem_load m i n = map (\<lambda>k. m ! ((i + k) mod length m)) [0..<n]"

definition rb_init :: "rb_os \<Rightarrow> size_t \<Rightarrow> nat + ringbuffer" where
  "rb_init os sz =
     (let page = (if os_page_size os \<le> 0 then 4096 else os_page_size os) in
      if sz mod word_of_int page \<noteq> 0 then Inl 1
      else if \<not> os_memfd_ok os then Inl 2
      else if \<not> os_ftruncate_ok os sz then Inl 3
      else if \<not> os_reserve_ok os (2 * sz) then Inl 4
      else if \<not> os_map_first_ok os then Inl 5
      else if \<not> os_map_second_ok os then Inl 6
      else Inr \<lparr>rb_buffer = replicate (unat sz) 0, rb_size = sz,
                rb_head = 0, rb_tail = 0\<rparr>)"

definition rb_put :: "ringbuffer \<Rightarrow> bytes \<Rightarrow> size_t \<Rightarrow> ringbuffer option" where
  "rb_put rb data n =
     (let head = rb_head rb; tail = rb_tail rb in
      if rb_no_room (rb_size rb) head tail n then None
      else Some (rb\<lparr>rb_buffer := mem_store (rb_buffer rb) (unat tail) (take (unat n) data),
                    rb_tail := tail + n\<rparr>))"

definition rb_write_ptr :: "ringbuffer \<Rightarrow> size_t \<Rightarrow> size_t option" where
  "rb_write_ptr rb n =
     (let head = rb_head rb; tail = rb_tail rb in
      if rb_no_room (rb_size rb) head tail n then None else Some tail)"

definition rb_write_finished :: "ringbuffer \<Rightarrow> size_t \<Rightarrow> ringbuffer option" where
  "rb_write_finished rb n =
     (let head = rb_head rb; tail = rb_tail rb in
      if rb_no_room (rb_size rb) head tail n then None
      else Some (rb\<lparr>rb_tail := tail + n\<rparr>))"

definition rb_read_ptr :: "ringbuffer \<Rightarrow> size_t \<Rightarrow> size_t option" where
  "rb_read_ptr rb n =
     (let head = rb_head rb; tail = rb_tail rb; map_size = rb_size rb * 2 in
      if tail < head then None
      else if tail - head < n then None
      else if map_size \<le> head \<or> map_size - head < n then None
      else Some head)"

definition rb_read_finished :: "ringbuffer \<Rightarrow> size_t \<Rightarrow> ringbuffer option" where
  "rb_read_finished rb n =
     (if rb_tail rb - rb_head rb < n then None
      else let rb1 = rb\<lparr>rb_head := rb_head rb + n\<rparr> in
           Some (if rb_size rb1 \<le> rb_head rb1
                 then rb1\<lparr>rb_head := rb_head rb1 - rb_size rb1,
                         rb_tail := rb_tail rb1 - rb_size rb1\<rparr>
                 else rb1))"

text \<open>How the clients use a pointer: they fill, or copy out, the bytes behind it.\<close>

definition rb_fill :: "ringbuffer \<Rightarrow> size_t \<Rightarrow> bytes \<Rightarrow> ringbuffer" where
  "rb_fill rb p data = rb\<lparr>rb_buffer := mem_store (rb_buffer rb) (unat p) data\<rparr>"

definition rb_peek :: "ringbuffer \<Rightarrow> size_t \<Rightarrow> bytes option" where
  "rb_peek rb n = map_option (\<lambda>p. mem_load (rb_buffer rb) (unat p) (unat n)) (rb_read_ptr rb n)"

definition rb_put_zero_copy :: "ringbuffer \<Rightarrow> bytes \<Rightarrow> size_t \<Rightarrow> ringbuffer option" where
  "rb_put_zero_copy rb data n =
     (case rb_write_ptr rb n of
        None \<Rightarrow> None
      | Some p \<Rightarrow> rb_write_finished (rb_fill rb p (take (unat n) data)) n)"

section \<open>Abstraction and invariant\<close>

definition rb_used :: "ringbuffer \<Rightarrow> nat" where
  "rb_used rb = unat (rb_tail rb) - unat (rb_head rb)"

definition rb_contents :: "ringbuffer \<Rightarrow> bytes" where
  "rb_contents rb = mem_load (rb_buffer rb) (unat (rb_head rb)) (rb_used rb)"

definition rb_capacity :: "ringbuffer \<Rightarrow> nat" where
  "rb_capacity rb = unat (rb_size rb)"

definition rb_inv :: "ringbuffer \<Rightarrow> bool" where
  "rb_inv rb =
     (length (rb_buffer rb) = unat (rb_size rb) \<and>
      2 * unat (rb_size rb) < 2 ^ 64 \<and>
      rb_head rb < rb_size rb \<and> rb_head rb \<le> rb_tail rb \<and>
      unat (rb_tail rb) \<le> unat (rb_head rb) + unat (rb_size rb))"

section \<open>The doubled mapping\<close>

lemma mod_offset_le:
  fixes a b i n :: nat
  assumes "(i + a) mod n = (i + b) mod n" "a \<le> b" "b < n"
  shows "a = b"
proof -
  have "n dvd (i + b) - (i + a)"
    using assms by (metis mod_eq_dvd_iff_nat add_left_mono)
  then have "n dvd b - a" by simp
  then show ?thesis using assms by (auto dest: dvd_imp_le)
qed

lemma mod_offset_eq:
  fixes a b i n :: nat
  assumes "(i + a) mod n = (i + b) mod n" "a < n" "b < n"
  shows "a = b"
  using mod_offset_le [of i a n b] mod_offset_le [of i b n a] assms by fastforce

lemma length_mem_store [simp]: "length (mem_store m i xs) = length m"
  by (induction m i xs rule: mem_store.induct) simp_all

lemma length_mem_load [simp]: "length (mem_load m i n) = n"
  by (simp add: mem_load_def)

lemma mem_store_other:
  assumes "\<forall>k<length xs. (i + k) mod length m \<noteq> j"
  shows "mem_store m i xs ! j = m ! j"
  using assms
proof (induction m i xs rule: mem_store.induct)
  case (2 m i x xs)
  have "\<forall>k<length xs. (Suc i + k) mod length (m[i mod length m := x]) \<noteq> j"
    using 2(2) by (metis Suc_less_eq add_Suc add_Suc_right length_Cons length_list_update)
  moreover have "i mod length m \<noteq> j" using 2(2) by force
  ultimately show ?case using 2(1) by simp
qed simp

lemma mem_store_at:
  assumes "length xs \<le> length m" "k < length xs"
  shows "mem_store m i xs ! ((i + k) mod length m) = xs ! k"
  using assms
proof (induction m i xs arbitrary: k rule: mem_store.induct)
  case (2 m i x xs)
  show ?case
  proof (cases k)
    case 0
    have "\<forall>k<length xs. (Suc i + k) mod length m \<noteq> i mod length m"
    proof (intro allI impI)
      fix k assume "k < length xs"
      then show "(Suc i + k) mod length m \<noteq> i mod length m"
        using mod_offset_eq [of i "Suc k" "length m" 0] 2(2) by fastforce
    qed
    then have "mem_store (m[i mod length m := x]) (Suc i) xs ! (i mod length m)
        = m[i mod length m := x] ! (i mod length m)"
      by (intro mem_store_other) simp
    moreover have "i mod length m < length m" using 2(2) by (intro mod_less_divisor) fastforce
    ultimately show ?thesis using 0 by simp
  next
    case (Suc k')
    then show ?thesis using 2(1) [of k'] 2(2,3) by simp
  qed
qed simp

lemma mem_load_store_same:
  assumes "length xs \<le> length m"
  shows "mem_load (mem_store m i xs) i (length xs) = xs"
  using assms by (auto intro: nth_equalityI simp: mem_load_def mem_store_at)

lemma mem_load_store_before:
  assumes "n + length xs \<le> length m"
  shows "mem_load (mem_store m (i + n) xs) i n = mem_load m i n"
proof -
  have "mem_store m (i + n) xs ! ((i + k) mod length m) = m ! ((i + k) mod length m)"
    if "k < n" for k
  proof (rule mem_store_other, intro allI impI)
    fix l assume "l < length xs"
    then show "(i + n + l) mod length m \<noteq> (i + k) mod length m"
      using mod_offset_eq [of i "n + l" "length m" k] that assms by (auto simp: add.assoc)
  qed
  then show ?thesis by (simp add: mem_load_def)
qed

lemma mem_load_add: "mem_load m i (a + b) = mem_load m i a @ mem_load m (i + a) b"
  using map_upt_split [of a "a + b"] by (simp add: mem_load_def add.assoc)

lemma mem_load_wrap: "length m \<le> i \<Longrightarrow> mem_load m i n = mem_load m (i - length m) n"
  by (auto simp: mem_load_def le_mod_geq)

lemma take_mem_load: "a \<le> n \<Longrightarrow> take a (mem_load m i n) = mem_load m i a"
  by (simp add: mem_load_def take_drop_map_upt)

lemma drop_mem_load: "a \<le> n \<Longrightarrow> drop a (mem_load m i n) = mem_load m (i + a) (n - a)"
  using mem_load_add [of m i a "n - a"] by simp

section \<open>Reading the words\<close>

lemma rb_no_room_nat:
  assumes "2 * unat b < 2 ^ 64" "h < b" "h \<le> t" "unat t \<le> unat h + unat b"
  shows "rb_no_room b h t n \<longleftrightarrow> unat b < (unat t - unat h) + unat n"
proof -
  have b2: "unat (b * 2) = 2 * unat b"
    using unat_double_lt [of b] assms(1) by (simp add: mult.commute)
  have th: "unat (t - h) = unat t - unat h" using assms by (simp add: word_nat)
  have hb: "unat h < unat b" using assms(2) by (simp add: word_less_nat_alt)
  have "unat (b - (t - h)) = unat b - (unat t - unat h)"
    using assms th by (simp add: word_nat word_le_nat_alt)
  moreover have "\<not> t < h" using assms by simp
  moreover have "unat t < 2 * unat b" using assms hb by linarith
  moreover have "unat (b * 2 - t) = 2 * unat b - unat t"
    using calculation b2 by (simp add: word_nat word_le_nat_alt)
  ultimately show ?thesis
    using b2 hb assms(3,4)
    by (auto simp: rb_no_room_def Let_def word_less_nat_alt word_le_nat_alt)
qed

section \<open>Every operation on the queue it stands for\<close>

lemmas rb_words = word_less_nat_alt word_le_nat_alt

lemma rb_inv_nat:
  assumes "rb_inv rb"
  shows "length (rb_buffer rb) = unat (rb_size rb)"
    "2 * unat (rb_size rb) < 2 ^ 64"
    "unat (rb_head rb) < unat (rb_size rb)" "unat (rb_head rb) \<le> unat (rb_tail rb)"
    "unat (rb_tail rb) \<le> unat (rb_head rb) + unat (rb_size rb)"
  using assms by (auto simp: rb_inv_def rb_words)

lemma rb_no_room_inv:
  assumes "rb_inv rb"
  shows "rb_no_room (rb_size rb) (rb_head rb) (rb_tail rb) n
         \<longleftrightarrow> rb_capacity rb < length (rb_contents rb) + unat n"
  using assms rb_no_room_nat
  by (auto simp: rb_inv_def rb_capacity_def rb_contents_def rb_used_def)

lemma rb_init_inv [inv_pres]:
  assumes "rb_init os sz = Inr rb" "0 < sz" "2 * unat sz < 2 ^ 64"
  shows "rb_inv rb" "rb_contents rb = []" "rb_capacity rb = unat sz"
  using assms
  by (auto simp: rb_init_def rb_inv_def rb_contents_def rb_used_def rb_capacity_def
      mem_load_def Let_def rb_words split: if_splits)

text \<open>The tail an accepted write leaves.\<close>

lemma rb_tail_advance:
  assumes "rb_inv rb" "\<not> rb_no_room (rb_size rb) (rb_head rb) (rb_tail rb) n"
  shows "unat (rb_tail rb + n) = unat (rb_tail rb) + unat n"
    "unat (rb_tail rb) + unat n \<le> unat (rb_head rb) + unat (rb_size rb)"
proof -
  note b = rb_inv_nat [OF assms(1)]
  show le: "unat (rb_tail rb) + unat n \<le> unat (rb_head rb) + unat (rb_size rb)"
    using assms b rb_no_room_inv [OF assms(1), of n]
    by (simp add: rb_capacity_def rb_contents_def rb_used_def)
  then show "unat (rb_tail rb + n) = unat (rb_tail rb) + unat n"
    using b by (intro unat_sum_lt) simp
qed

lemma rb_append:
  assumes inv: "rb_inv rb" and room: "\<not> rb_no_room (rb_size rb) (rb_head rb) (rb_tail rb) n"
    and len: "length xs = unat n"
  defines "rb' \<equiv> rb\<lparr>rb_buffer := mem_store (rb_buffer rb) (unat (rb_tail rb)) xs,
                   rb_tail := rb_tail rb + n\<rparr>"
  shows "rb_inv rb' \<and> rb_contents rb' = rb_contents rb @ xs \<and> rb_capacity rb' = rb_capacity rb"
proof -
  note b = rb_inv_nat [OF inv] and t = rb_tail_advance [OF inv room]
  have used: "rb_used rb' = rb_used rb + length xs"
    using b t len by (simp add: rb'_def rb_used_def)
  have tail: "unat (rb_tail rb) = unat (rb_head rb) + rb_used rb"
    using b by (simp add: rb_used_def)
  have fit: "rb_used rb + length xs \<le> length (rb_buffer rb)"
    using b t len by (simp add: rb_used_def)
  have "rb_contents rb' = rb_contents rb @ xs"
    using fit mem_load_store_before [OF fit, of "unat (rb_head rb)"]
      mem_load_store_same [of xs "rb_buffer rb" "unat (rb_tail rb)"]
    unfolding rb_contents_def used mem_load_add by (simp add: rb'_def tail)
  moreover have "rb_inv rb'"
    using b t unfolding rb_inv_def rb'_def rb_words by simp
  ultimately show ?thesis by (simp add: rb'_def rb_capacity_def)
qed

lemma rb_put_some:
  assumes "rb_inv rb" "length xs = unat n" "rb_put rb xs n = Some rb'"
  shows "rb_inv rb' \<and> rb_contents rb' = rb_contents rb @ xs \<and> rb_capacity rb' = rb_capacity rb"
  using assms rb_append [of rb n xs] by (auto simp: rb_put_def Let_def split: if_splits)

lemma rb_put_none:
  assumes "rb_inv rb"
  shows "rb_put rb xs n = None \<longleftrightarrow> rb_capacity rb < length (rb_contents rb) + unat n"
  using rb_no_room_inv [OF assms, of n] by (auto simp: rb_put_def Let_def)

text \<open>The zero-copy path used by the capture callbacks is the same operation.\<close>

lemma rb_put_zero_copy_eq: "rb_put_zero_copy rb xs n = rb_put rb xs n"
  by (simp add: rb_put_zero_copy_def rb_put_def rb_write_ptr_def rb_write_finished_def
      rb_fill_def Let_def)

lemma rb_read_ptr_eq:
  assumes "rb_inv rb"
  shows "rb_read_ptr rb n
         = (if unat n \<le> length (rb_contents rb) then Some (rb_head rb) else None)"
proof -
  note b = rb_inv_nat [OF assms]
  have b2: "unat (rb_size rb * 2) = 2 * unat (rb_size rb)"
    using unat_double_lt [of "rb_size rb"] b by (simp add: mult.commute)
  moreover have "unat (rb_tail rb - rb_head rb) = unat (rb_tail rb) - unat (rb_head rb)"
    using b by (simp add: word_nat rb_words)
  moreover have "unat (rb_size rb * 2 - rb_head rb) = 2 * unat (rb_size rb) - unat (rb_head rb)"
    using b b2 by (simp add: word_nat rb_words)
  ultimately show ?thesis
    using b by (auto simp: rb_read_ptr_def Let_def rb_words rb_contents_def rb_used_def)
qed

lemma rb_peek_eq:
  assumes "rb_inv rb"
  shows "rb_peek rb n = (if unat n \<le> length (rb_contents rb)
                         then Some (take (unat n) (rb_contents rb)) else None)"
  using rb_read_ptr_eq [OF assms, of n]
  by (auto simp: rb_peek_def rb_contents_def take_mem_load)

lemma rb_read_finished_none:
  assumes "rb_inv rb"
  shows "rb_read_finished rb n = None \<longleftrightarrow> length (rb_contents rb) < unat n"
  using rb_inv_nat [OF assms]
  by (auto simp: rb_read_finished_def Let_def rb_words rb_contents_def rb_used_def word_nat)

lemma rb_read_finished_some:
  assumes inv: "rb_inv rb" and fin: "rb_read_finished rb n = Some rb'"
  shows "unat n \<le> length (rb_contents rb) \<and> rb_inv rb' \<and>
         rb_contents rb' = drop (unat n) (rb_contents rb) \<and> rb_capacity rb' = rb_capacity rb"
proof -
  note b = rb_inv_nat [OF inv]
  have n: "unat n \<le> rb_used rb"
    using fin rb_read_finished_none [OF inv, of n]
    by (fastforce simp: rb_contents_def)
  have tail: "unat (rb_tail rb) = unat (rb_head rb) + rb_used rb"
    using b by (simp add: rb_used_def)
  have head: "unat (rb_head rb + n) = unat (rb_head rb) + unat n"
    using b n tail by (intro unat_sum_lt) simp
  have drop: "drop (unat n) (rb_contents rb)
      = mem_load (rb_buffer rb) (unat (rb_head rb) + unat n) (rb_used rb - unat n)"
    using n by (simp add: rb_contents_def drop_mem_load)
  show ?thesis
  proof (cases "rb_size rb \<le> rb_head rb + n")
    case True
    have h: "unat (rb_head rb + n - rb_size rb) = unat (rb_head rb) + unat n - unat (rb_size rb)"
      using True head by (simp add: word_nat)
    have t: "unat (rb_tail rb - rb_size rb) = unat (rb_tail rb) - unat (rb_size rb)"
      using True head n tail by (intro unat_diff_le) (simp add: rb_words)
    have rb': "rb' = rb\<lparr>rb_head := rb_head rb + n - rb_size rb,
                        rb_tail := rb_tail rb - rb_size rb\<rparr>"
      using fin True by (simp add: rb_read_finished_def Let_def split: if_splits)
    have le: "unat (rb_size rb) \<le> unat (rb_head rb) + unat n"
      using True head by (simp add: rb_words)
    have "rb_inv rb'"
      using b n tail le unfolding rb' rb_inv_def rb_words by (auto simp: h t)
    moreover have "rb_used rb' = rb_used rb - unat n"
      using b le by (simp add: rb_used_def rb' h t)
    then have "rb_contents rb' = drop (unat n) (rb_contents rb)"
      unfolding drop using b(1) le mem_load_wrap [of "rb_buffer rb" "unat (rb_head rb) + unat n"]
      by (simp add: rb_contents_def) (simp add: rb' h)
    ultimately show ?thesis using n by (simp add: rb' rb_capacity_def rb_contents_def)
  next
    case False
    have rb': "rb' = rb\<lparr>rb_head := rb_head rb + n\<rparr>"
      using fin False by (simp add: rb_read_finished_def Let_def split: if_splits)
    have "rb_inv rb'"
      using b n tail False head unfolding rb' rb_inv_def rb_words by simp
    moreover have "rb_contents rb' = drop (unat n) (rb_contents rb)"
      unfolding drop using head by (simp add: rb_contents_def rb' rb_used_def)
    ultimately show ?thesis using n by (simp add: rb' rb_capacity_def rb_contents_def)
  qed
qed

lemma rb_fits: "rb_inv rb \<Longrightarrow> length (rb_contents rb) \<le> rb_capacity rb"
  using rb_inv_nat [of rb] by (simp add: rb_contents_def rb_used_def rb_capacity_def)

section \<open>The ring is a byte queue\<close>

interpretation rb: byte_queue rb_contents rb_inv rb_capacity rb_put rb_peek rb_read_finished
  by unfold_locales
    (fact rb_put_some rb_put_none rb_peek_eq rb_read_finished_some rb_read_finished_none rb_fits)+

interpretation rbz: byte_queue rb_contents rb_inv rb_capacity rb_put_zero_copy rb_peek
  rb_read_finished
  by unfold_locales (unfold rb_put_zero_copy_eq, (fact rb.put_some rb.put_none rb.peek_eq
    rb.release_some rb.release_none rb.fits)+)

section \<open>Properties\<close>

text \<open>C1: A ring the initialiser accepted behaves as a queue of bytes for any sequence of
  calls: the bytes the accepted writes brought are, in order, the bytes the accepted reads
  delivered followed by the bytes still in the ring, and the ring stays well formed.\<close>

theorem rb_fifo:
  assumes "rb_init os sz = Inr rb" "0 < sz" "2 * unat sz < 2 ^ 64"
    and "\<forall>c\<in>set cs. call_fits c"
    and "queue_run rb_put rb_peek rb_read_finished cs rb = (w, r, rb')"
  shows "rb_inv rb' \<and> w = r @ rb_contents rb' \<and> length (rb_contents rb') \<le> unat sz"
proof -
  have "rb_inv rb' \<and> rb_contents rb @ w = r @ rb_contents rb' \<and> rb_capacity rb' = rb_capacity rb"
    using assms(4,5) rb_init_inv(1) [OF assms(1-3)] by (intro rb.queue_run_fifo)
  then show ?thesis using rb_init_inv [OF assms(1-3)] rb_fits [of rb'] by simp
qed

definition small_os :: rb_os where
  "small_os = \<lparr>os_page_size = 4, os_memfd_ok = True, os_ftruncate_ok = (\<lambda>_. True),
     os_reserve_ok = (\<lambda>_. True), os_map_first_ok = True, os_map_second_ok = True\<rparr>"

definition small_ring :: ringbuffer where
  "small_ring = \<lparr>rb_buffer = [0, 0, 0, 0], rb_size = 4, rb_head = 0, rb_tail = 0\<rparr>"

definition small_calls :: "u8 queue_call list" where
  "small_calls = [Call_Put [1, 2, 3], Call_Get 2, Call_Put [4, 5], Call_Put [6, 7], Call_Get 3]"

lemma small_ring_run:
  "queue_run rb_put rb_peek rb_read_finished small_calls small_ring =
     ([1, 2, 3, 4, 5], [1, 2, 3, 4, 5],
      \<lparr>rb_buffer = [5, 2, 3, 4], rb_size = 4, rb_head = 1, rb_tail = 1\<rparr>)"
  by code_simp

theorem rb_fifo_witness:
  "rb_inv \<lparr>rb_buffer = [5, 2, 3, 4], rb_size = 4, rb_head = 1, rb_tail = 1\<rparr>"
proof -
  have "rb_init small_os 4 = Inr small_ring" by code_simp
  moreover have "\<forall>c\<in>set small_calls. call_fits c"
    by (simp add: small_calls_def call_fits_def)
  ultimately show ?thesis
    using rb_fifo [OF _ _ _ _ small_ring_run, of small_os 4] by simp
qed

end
