(* ===== verification/Ringbuffer_Concurrent.thy ===== *)
theory Ringbuffer_Concurrent
  imports Ringbuffer
begin

text \<open>
  The ring of common/ringbuffer.c with its producer and its consumer on two threads.  An
  action is one access of the C code to the shared indices.  The producer loads the head,
  then the tail, then tests; rb\_put then adds to the tail, while rb\_write\_ptr hands out
  the pointer and rb\_write\_finished loads and tests once more before it adds.  The
  consumer (rb\_read\_finished) tests, adds to the head, subtracts the size from the head
  and then, in a second access, from the tail.  A run is any sequence of actions the two
  threads can take.  Fields with the prefix gh are auxiliary: no action reads them.
\<close>

section \<open>The two threads\<close>

datatype producer =
    P_Idle
  | P_Head size_t
  | P_Both size_t size_t
  | P_Filled size_t
  | P_FinHead size_t size_t
  | P_FinBoth size_t size_t size_t
  | P_Granted size_t

datatype consumer = C_Idle | C_Tested size_t | C_Moved | C_Half

record shared =
  sh_size :: size_t
  sh_head :: size_t
  sh_tail :: size_t
  sh_producer :: producer
  sh_consumer :: consumer
  gh_written :: nat
  gh_read :: nat
  gh_head_wraps :: nat
  gh_tail_wraps :: nat
  gh_seen :: nat

datatype action =
    Load_Head | Load_Tail | Test_Put size_t | Test_Ptr size_t | Test_Finish | Publish
  | Test_Read size_t | Add_Head | Wrap_Head | Wrap_Tail

definition load_head :: "shared \<Rightarrow> (size_t \<Rightarrow> producer) \<Rightarrow> shared" where
  "load_head s p = s\<lparr>sh_producer := p (sh_head s), gh_seen := gh_written s - gh_read s\<rparr>"

fun ring_act :: "action \<Rightarrow> shared \<Rightarrow> shared option" where
  "ring_act Load_Head s =
     (case sh_producer s of
        P_Idle \<Rightarrow> Some (load_head s P_Head)
      | P_Filled n \<Rightarrow> Some (load_head s (P_FinHead n))
      | _ \<Rightarrow> None)"
| "ring_act Load_Tail s =
     (case sh_producer s of
        P_Head h \<Rightarrow> Some (s\<lparr>sh_producer := P_Both h (sh_tail s)\<rparr>)
      | P_FinHead n h \<Rightarrow> Some (s\<lparr>sh_producer := P_FinBoth n h (sh_tail s)\<rparr>)
      | _ \<Rightarrow> None)"
| "ring_act (Test_Put n) s =
     (case sh_producer s of
        P_Both h t \<Rightarrow> Some (s\<lparr>sh_producer :=
          (if rb_no_room (sh_size s) h t n then P_Idle else P_Granted n)\<rparr>)
      | _ \<Rightarrow> None)"
| "ring_act (Test_Ptr n) s =
     (case sh_producer s of
        P_Both h t \<Rightarrow> Some (s\<lparr>sh_producer :=
          (if rb_no_room (sh_size s) h t n then P_Idle else P_Filled n)\<rparr>)
      | _ \<Rightarrow> None)"
| "ring_act Test_Finish s =
     (case sh_producer s of
        P_FinBoth n h t \<Rightarrow> Some (s\<lparr>sh_producer :=
          (if rb_no_room (sh_size s) h t n then P_Idle else P_Granted n)\<rparr>)
      | _ \<Rightarrow> None)"
| "ring_act Publish s =
     (case sh_producer s of
        P_Granted n \<Rightarrow> Some (s\<lparr>sh_producer := P_Idle, sh_tail := sh_tail s + n,
                               gh_written := gh_written s + unat n\<rparr>)
      | _ \<Rightarrow> None)"
| "ring_act (Test_Read n) s =
     (case sh_consumer s of
        C_Idle \<Rightarrow> Some (if sh_tail s - sh_head s < n then s else s\<lparr>sh_consumer := C_Tested n\<rparr>)
      | _ \<Rightarrow> None)"
| "ring_act Add_Head s =
     (case sh_consumer s of
        C_Tested n \<Rightarrow> Some (s\<lparr>sh_consumer := C_Moved, sh_head := sh_head s + n,
                              gh_read := gh_read s + unat n\<rparr>)
      | _ \<Rightarrow> None)"
| "ring_act Wrap_Head s =
     (case sh_consumer s of
        C_Moved \<Rightarrow> Some (if sh_size s \<le> sh_head s
          then s\<lparr>sh_consumer := C_Half, sh_head := sh_head s - sh_size s,
                 gh_head_wraps := gh_head_wraps s + 1\<rparr>
          else s\<lparr>sh_consumer := C_Idle\<rparr>)
      | _ \<Rightarrow> None)"
| "ring_act Wrap_Tail s =
     (case sh_consumer s of
        C_Half \<Rightarrow> Some (s\<lparr>sh_consumer := C_Idle, sh_tail := sh_tail s - sh_size s,
                         gh_tail_wraps := gh_tail_wraps s + 1\<rparr>)
      | _ \<Rightarrow> None)"

fun ring_schedule :: "action list \<Rightarrow> shared \<Rightarrow> shared option" where
  "ring_schedule [] s = Some s"
| "ring_schedule (a # as) s = (case ring_act a s of None \<Rightarrow> None | Some s' \<Rightarrow> ring_schedule as s')"

definition ring_start :: "size_t \<Rightarrow> shared" where
  "ring_start sz = \<lparr>sh_size = sz, sh_head = 0, sh_tail = 0, sh_producer = P_Idle,
     sh_consumer = C_Idle, gh_written = 0, gh_read = 0, gh_head_wraps = 0, gh_tail_wraps = 0,
     gh_seen = 0\<rparr>"

text \<open>The states a run reaches while no load of the head finds the ring exactly full.\<close>

inductive slack_reach :: "size_t \<Rightarrow> shared \<Rightarrow> bool" for sz where
  start: "slack_reach sz (ring_start sz)"
| step: "slack_reach sz s \<Longrightarrow> ring_act a s = Some s' \<Longrightarrow> gh_seen s' < unat sz \<Longrightarrow>
    slack_reach sz s'"

section \<open>Invariant\<close>

text \<open>What the producer knows after it loaded the head, after it loaded both indices, and
  when a test granted it room.\<close>

definition saw_head :: "shared \<Rightarrow> size_t \<Rightarrow> bool" where
  "saw_head s h =
     (gh_seen s < unat (sh_size s) \<and> gh_written s \<le> gh_read s + gh_seen s \<and>
      (\<exists>hw. unat h + hw * unat (sh_size s) + gh_seen s = gh_written s \<and>
            hw \<le> gh_tail_wraps s + 1))"

definition saw_both :: "shared \<Rightarrow> size_t \<Rightarrow> size_t \<Rightarrow> bool" where
  "saw_both s h t =
     (gh_seen s < unat (sh_size s) \<and> gh_written s \<le> gh_read s + gh_seen s \<and> sh_tail s \<le> t \<and>
      (\<exists>hw tw. unat h + hw * unat (sh_size s) + gh_seen s = gh_written s \<and>
               unat t + tw * unat (sh_size s) = gh_written s \<and> hw \<le> tw + 1))"

definition granted :: "shared \<Rightarrow> size_t \<Rightarrow> bool" where
  "granted s n =
     (gh_written s + unat n \<le> gh_read s + unat (sh_size s) \<and>
      unat (sh_tail s) + unat n \<le> 2 * unat (sh_size s))"

definition producer_ok :: "shared \<Rightarrow> bool" where
  "producer_ok s =
     (case sh_producer s of
        P_Idle \<Rightarrow> True
      | P_Head h \<Rightarrow> saw_head s h
      | P_Both h t \<Rightarrow> saw_both s h t
      | P_Filled n \<Rightarrow> granted s n
      | P_FinHead n h \<Rightarrow> granted s n \<and> saw_head s h
      | P_FinBoth n h t \<Rightarrow> granted s n \<and> saw_both s h t
      | P_Granted n \<Rightarrow> granted s n)"

definition indices_ok :: "shared \<Rightarrow> bool" where
  "indices_ok s =
     (let B = unat (sh_size s) in
      2 * B < 2 ^ 64 \<and> gh_read s \<le> gh_written s \<and> gh_written s \<le> gh_read s + B \<and>
      unat (sh_head s) + gh_head_wraps s * B = gh_read s \<and>
      unat (sh_tail s) + gh_tail_wraps s * B = gh_written s \<and>
      unat (sh_tail s) \<le> 2 * B \<and>
      (case sh_consumer s of
         C_Idle \<Rightarrow> gh_head_wraps s = gh_tail_wraps s \<and> unat (sh_head s) < B
       | C_Tested n \<Rightarrow> gh_head_wraps s = gh_tail_wraps s \<and> unat (sh_head s) < B \<and>
           gh_read s + unat n \<le> gh_written s
       | C_Moved \<Rightarrow> gh_head_wraps s = gh_tail_wraps s \<and> unat (sh_head s) < 2 * B
       | C_Half \<Rightarrow> gh_head_wraps s = gh_tail_wraps s + 1 \<and> unat (sh_head s) < B))"

definition ring_ok :: "shared \<Rightarrow> bool" where
  "ring_ok s = (indices_ok s \<and> producer_ok s)"

lemma producer_ok_mono:
  assumes "producer_ok s" "sh_producer s' = sh_producer s" "sh_size s' = sh_size s"
    "gh_written s' = gh_written s" "gh_seen s' = gh_seen s" "gh_read s \<le> gh_read s'"
    "sh_tail s' \<le> sh_tail s" "gh_tail_wraps s \<le> gh_tail_wraps s'"
  shows "producer_ok s'"
proof -
  have "saw_head s h \<Longrightarrow> saw_head s' h" for h
    using assms by (fastforce simp: saw_head_def)
  moreover have "saw_both s h t \<Longrightarrow> saw_both s' h t" for h t
    using assms by (fastforce simp: saw_both_def)
  moreover have "granted s n \<Longrightarrow> granted s' n" for n
    using assms by (auto simp: granted_def rb_words)
  ultimately show ?thesis
    using assms(1,2) by (auto simp: producer_ok_def split: producer.splits)
qed

text \<open>A test that grants room grants room that is really free.\<close>

lemma grant_safe:
  fixes b h t n :: size_t
  assumes room: "\<not> rb_no_room b h t n" and b2: "2 * unat b < 2 ^ 64"
    and seen: "seen < unat b" "W \<le> R + seen"
    and h: "unat h + hw * unat b + seen = W" and t: "unat t + tw * unat b = W"
    and hw: "hw \<le> tw + 1"
  shows "W + unat n \<le> R + unat b \<and> unat t + unat n \<le> 2 * unat b"
proof -
  have two: "unat (b * 2) = 2 * unat b"
    using unat_double_lt [of b] b2 by (simp add: mult.commute)
  have ht: "unat h \<le> unat t" and tB: "unat t < 2 * unat b"
    using room two by (auto simp: rb_no_room_def Let_def rb_words)
  have "unat n \<le> unat (b * 2 - t)"
    using room by (auto simp: rb_no_room_def Let_def rb_words)
  then have n: "unat t + unat n \<le> 2 * unat b"
    using tB two by (simp add: word_nat rb_words)
  consider "hw = tw" | "hw = tw + 1" | "hw + 1 \<le> tw" using hw by linarith
  then show ?thesis
  proof cases
    case 1
    then have d: "unat t - unat h = seen" using h t by simp
    have "unat (b - (t - h)) = unat b - seen"
      using d ht seen by (simp add: word_nat rb_words)
    moreover have "unat n \<le> unat (b - (t - h))"
      using room by (auto simp: rb_no_room_def Let_def rb_words)
    ultimately show ?thesis using n seen by linarith
  next
    case 2
    then have "unat h + tw * unat b + unat b + seen = W" using h by simp
    then show ?thesis using n t seen by linarith
  next
    case 3
    then have "hw * unat b + unat b \<le> tw * unat b"
      using mult_le_mono1 [OF 3, of "unat b"] by simp
    then show ?thesis using ht h t seen by linarith
  qed
qed

lemma start_ok: "0 < sz \<Longrightarrow> 2 * unat sz < 2 ^ 64 \<Longrightarrow> ring_ok (ring_start sz)"
  by (simp add: ring_ok_def indices_ok_def producer_ok_def ring_start_def rb_words)

text \<open>The accesses of the consumer.\<close>

lemma test_read_ok:
  assumes "ring_ok s" "ring_act (Test_Read n) s = Some s'"
  shows "ring_ok s'"
proof -
  have c: "sh_consumer s = C_Idle" using assms(2) by (auto split: consumer.splits)
  then have i: "unat (sh_tail s) = unat (sh_head s) + (gh_written s - gh_read s)"
    using assms(1) by (auto simp: ring_ok_def indices_ok_def Let_def)
  then have "unat (sh_tail s - sh_head s) = gh_written s - gh_read s"
    by (simp add: word_nat rb_words)
  then have "indices_ok s'"
    using assms c by (auto simp: ring_ok_def indices_ok_def Let_def rb_words split: if_splits)
  moreover have "producer_ok s'"
    using assms c by (intro producer_ok_mono [of s s']) (auto simp: ring_ok_def split: if_splits)
  ultimately show ?thesis by (simp add: ring_ok_def)
qed

lemma add_head_ok:
  assumes "ring_ok s" "ring_act Add_Head s = Some s'"
  shows "ring_ok s'"
proof -
  obtain n where c: "sh_consumer s = C_Tested n"
    using assms(2) by (auto split: consumer.splits)
  have s': "s' = s\<lparr>sh_consumer := C_Moved, sh_head := sh_head s + n,
                   gh_read := gh_read s + unat n\<rparr>"
    using assms(2) c by simp
  have "unat (sh_head s + n) = unat (sh_head s) + unat n"
    using assms(1) c by (intro unat_sum_lt) (auto simp: ring_ok_def indices_ok_def Let_def)
  then have "indices_ok s'"
    using assms(1) c unfolding s' by (auto simp: ring_ok_def indices_ok_def Let_def)
  moreover have "producer_ok s'"
    using assms(1) s' by (intro producer_ok_mono [of s s']) (auto simp: ring_ok_def)
  ultimately show ?thesis by (simp add: ring_ok_def)
qed

lemma wrap_head_ok:
  assumes "ring_ok s" "ring_act Wrap_Head s = Some s'"
  shows "ring_ok s'"
proof -
  have c: "sh_consumer s = C_Moved" using assms(2) by (auto split: consumer.splits)
  have "sh_size s \<le> sh_head s \<Longrightarrow>
      unat (sh_head s - sh_size s) = unat (sh_head s) - unat (sh_size s)"
    by (rule unat_diff_le)
  then have "indices_ok s'"
    using assms c by (auto simp: ring_ok_def indices_ok_def Let_def rb_words split: if_splits)
  moreover have "producer_ok s'"
    using assms c by (intro producer_ok_mono [of s s']) (auto simp: ring_ok_def split: if_splits)
  ultimately show ?thesis by (simp add: ring_ok_def)
qed

lemma wrap_tail_ok:
  assumes "ring_ok s" "ring_act Wrap_Tail s = Some s'"
  shows "ring_ok s'"
proof -
  have c: "sh_consumer s = C_Half" using assms(2) by (auto split: consumer.splits)
  have s': "s' = s\<lparr>sh_consumer := C_Idle, sh_tail := sh_tail s - sh_size s,
                   gh_tail_wraps := gh_tail_wraps s + 1\<rparr>"
    using assms(2) c by simp
  have le: "sh_size s \<le> sh_tail s"
    using assms(1) c by (auto simp: ring_ok_def indices_ok_def Let_def rb_words)
  then have t: "unat (sh_tail s - sh_size s) = unat (sh_tail s) - unat (sh_size s)"
    by (rule unat_diff_le)
  have f: "gh_head_wraps s = gh_tail_wraps s + 1" "unat (sh_head s) < unat (sh_size s)"
    "unat (sh_tail s) + gh_tail_wraps s * unat (sh_size s) = gh_written s"
    using assms(1) c by (simp_all add: ring_ok_def indices_ok_def Let_def)
  moreover have "indices_ok s" using assms(1) by (simp add: ring_ok_def)
  ultimately have "indices_ok s'"
    using le t unfolding s' by (simp add: indices_ok_def Let_def rb_words) linarith
  moreover have "sh_tail s - sh_size s \<le> sh_tail s"
    unfolding word_le_nat_alt t by simp
  then have "producer_ok s'"
    using assms(1) unfolding s'
    by - (rule producer_ok_mono [of s], simp_all add: ring_ok_def)
  ultimately show ?thesis by (simp add: ring_ok_def)
qed

text \<open>The accesses of the producer.\<close>

lemma indices_ok_producer [simp]:
  "indices_ok (s\<lparr>sh_producer := p\<rparr>) = indices_ok s"
  "indices_ok (s\<lparr>sh_producer := p, gh_seen := k\<rparr>) = indices_ok s"
  by (simp_all add: indices_ok_def cong: consumer.case_cong)

lemma saw_granted_producer [simp]:
  "saw_both (s\<lparr>sh_producer := p\<rparr>) h t = saw_both s h t"
  "granted (s\<lparr>sh_producer := p\<rparr>) n = granted s n"
  "granted (s\<lparr>sh_producer := p, gh_seen := k\<rparr>) n = granted s n"
  by (simp_all add: saw_both_def granted_def)

lemma load_head_saw:
  assumes "indices_ok s" "gh_written s - gh_read s < unat (sh_size s)"
  shows "saw_head (s\<lparr>sh_producer := p, gh_seen := gh_written s - gh_read s\<rparr>) (sh_head s)"
proof -
  have "gh_head_wraps s \<le> Suc (gh_tail_wraps s)"
    using assms(1) by (auto simp: indices_ok_def Let_def split: consumer.splits)
  moreover have "unat (sh_head s) + gh_head_wraps s * unat (sh_size s)
      + (gh_written s - gh_read s) = gh_written s"
    using assms(1) by (simp add: indices_ok_def Let_def)
  ultimately show ?thesis using assms(2) by (auto simp: saw_head_def)
qed

lemma load_tail_saw:
  assumes "indices_ok s" "saw_head s h"
  shows "saw_both s h (sh_tail s)"
proof -
  have "unat (sh_tail s) + gh_tail_wraps s * unat (sh_size s) = gh_written s"
    using assms(1) by (simp add: indices_ok_def Let_def)
  then show ?thesis using assms(2) by (auto simp: saw_both_def saw_head_def)
qed

lemma test_granted:
  assumes "indices_ok s" "saw_both s h t" "\<not> rb_no_room (sh_size s) h t n"
  shows "granted s n"
proof -
  obtain hw tw where w: "unat h + hw * unat (sh_size s) + gh_seen s = gh_written s"
    "unat t + tw * unat (sh_size s) = gh_written s" "hw \<le> tw + 1"
    using assms(2) by (auto simp: saw_both_def)
  have "unat (sh_tail s) \<le> unat t" using assms(2) by (simp add: saw_both_def rb_words)
  moreover have "2 * unat (sh_size s) < 2 ^ 64"
    using assms(1) by (simp add: indices_ok_def Let_def)
  ultimately show ?thesis
    using grant_safe [OF assms(3) _ _ _ w, of "gh_read s"] assms(2)
    by (simp add: granted_def saw_both_def)
qed

lemma load_head_ok:
  assumes "ring_ok s" "ring_act Load_Head s = Some s'" "gh_seen s' < unat (sh_size s)"
  shows "ring_ok s'"
  using assms load_head_saw [of s]
  by (auto simp: ring_ok_def producer_ok_def load_head_def split: producer.splits)

lemma load_tail_ok:
  assumes "ring_ok s" "ring_act Load_Tail s = Some s'"
  shows "ring_ok s'"
  using assms load_tail_saw [of s]
  by (auto simp: ring_ok_def producer_ok_def split: producer.splits)

lemma test_ok:
  assumes "ring_ok s" "a = Test_Put n \<or> a = Test_Ptr n \<or> a = Test_Finish"
    "ring_act a s = Some s'"
  shows "ring_ok s'"
  using assms test_granted [of s]
  by (auto simp: ring_ok_def producer_ok_def split: producer.splits if_splits)

lemma publish_ok:
  assumes "ring_ok s" "ring_act Publish s = Some s'"
  shows "ring_ok s'"
proof -
  obtain n where p: "sh_producer s = P_Granted n"
    using assms(2) by (auto split: producer.splits)
  have g: "gh_written s + unat n \<le> gh_read s + unat (sh_size s)"
    "unat (sh_tail s) + unat n \<le> 2 * unat (sh_size s)" "indices_ok s"
    using assms(1) p by (simp_all add: ring_ok_def producer_ok_def granted_def)
  have "unat (sh_tail s + n) = unat (sh_tail s) + unat n"
    using g by (intro unat_sum_lt) (auto simp: indices_ok_def Let_def)
  then show ?thesis
    using g p assms(2)
    by (auto simp: ring_ok_def producer_ok_def indices_ok_def Let_def split: consumer.splits)
qed

lemma ring_act_ok:
  assumes "ring_ok s" "ring_act a s = Some s'" "gh_seen s' < unat (sh_size s)"
  shows "ring_ok s'"
  using assms
  by (cases a) (blast intro: load_head_ok load_tail_ok test_ok publish_ok test_read_ok add_head_ok
      wrap_head_ok wrap_tail_ok)+

lemma ring_act_size: "ring_act a s = Some s' \<Longrightarrow> sh_size s' = sh_size s"
  by (cases a) (auto simp: load_head_def split: producer.splits consumer.splits if_splits)

lemma slack_reach_ok:
  assumes "slack_reach sz s" "0 < sz" "2 * unat sz < 2 ^ 64"
  shows "ring_ok s \<and> sh_size s = sz"
  using assms
proof (induction rule: slack_reach.induct)
  case start
  then show ?case using start_ok [of sz] by (simp add: ring_start_def)
next
  case (step s a s')
  then show ?case using ring_act_ok [of s a s'] ring_act_size [of a s s'] by simp
qed

section \<open>Properties\<close>


text \<open>Running a schedule, and checking on the way that no load found the ring full.\<close>

fun slack_schedule :: "size_t \<Rightarrow> action list \<Rightarrow> shared \<Rightarrow> shared option" where
  "slack_schedule sz [] s = Some s"
| "slack_schedule sz (a # as) s =
     (case ring_act a s of
        None \<Rightarrow> None
      | Some s' \<Rightarrow> if gh_seen s' < unat sz then slack_schedule sz as s' else None)"

lemma slack_schedule_reach:
  "slack_schedule sz as s = Some s' \<Longrightarrow> slack_reach sz s \<Longrightarrow> slack_reach sz s'"
  by (induction as arbitrary: s)
    (auto split: option.splits if_splits intro: slack_reach.step)

definition advance_two :: "action list" where
  "advance_two = [Load_Head, Load_Tail, Test_Put 2, Publish, Test_Read 2, Add_Head, Wrap_Head]"

definition read_two_and_wrap :: "action list" where
  "read_two_and_wrap = [Test_Read 2, Add_Head, Wrap_Head, Wrap_Tail]"

lemma busy_state:
  "slack_reach 4 (the (slack_schedule 4 (advance_two @ [Load_Head, Load_Tail, Test_Put 3])
                        (ring_start 4)))"
proof -
  have "slack_schedule 4 (advance_two @ [Load_Head, Load_Tail, Test_Put 3]) (ring_start 4) \<noteq> None"
    by code_simp
  then show ?thesis using slack_schedule_reach [OF _ slack_reach.start] by force
qed




end
