(* ===== verification/Ddd_Device.thy ===== *)
theory Ddd_Device
  imports Prelude
begin

text \<open>
  The stateless part of common/ddd\_protocol.c: which USB device is a Domesday Duplicator
  and of which profile, the sample rates its decimation register stands for, the texts
  formatted from its identity block and its USB topology, and the choice of the stream
  endpoint.  A pointer that may be NULL is an option; a byte array with its length is a
  list; an output string is the list of its bytes before the terminating NUL.
\<close>

section \<open>Profiles\<close>

datatype ddd_device_profile =
    DDD_DEVICE_NOT_DDD
  | DDD_DEVICE_LEGACY
  | DDD_DEVICE_PROTOCOL_V1
  | DDD_DEVICE_UNSUPPORTED

abbreviation DDD_LEGACY_VENDOR_ID :: u16 where "DDD_LEGACY_VENDOR_ID \<equiv> 0x1D50"
abbreviation DDD_LEGACY_PRODUCT_ID :: u16 where "DDD_LEGACY_PRODUCT_ID \<equiv> 0x603B"
abbreviation DDD_CURRENT_VENDOR_ID :: u16 where "DDD_CURRENT_VENDOR_ID \<equiv> 0x1209"
abbreviation DDD_CURRENT_PRODUCT_ID :: u16 where "DDD_CURRENT_PRODUCT_ID \<equiv> 0x2347"

definition ddd_is_known_device_id :: "u16 \<Rightarrow> u16 \<Rightarrow> bool" where
  "ddd_is_known_device_id vendor_id product_id =
     ((vendor_id = DDD_LEGACY_VENDOR_ID \<and> product_id = DDD_LEGACY_PRODUCT_ID) \<or>
      (vendor_id = DDD_CURRENT_VENDOR_ID \<and> product_id = DDD_CURRENT_PRODUCT_ID))"

definition ddd_classify_device :: "u16 \<Rightarrow> u16 \<Rightarrow> u16 \<Rightarrow> ddd_device_profile" where
  "ddd_classify_device vendor_id product_id bcd_device =
     (if vendor_id = DDD_LEGACY_VENDOR_ID \<and> product_id = DDD_LEGACY_PRODUCT_ID
      then DDD_DEVICE_LEGACY
      else if vendor_id = DDD_CURRENT_VENDOR_ID \<and> product_id = DDD_CURRENT_PRODUCT_ID
      then (if (ucast (drop_bit 8 bcd_device) :: u8) = 1
            then DDD_DEVICE_PROTOCOL_V1 else DDD_DEVICE_UNSUPPORTED)
      else DDD_DEVICE_NOT_DDD)"

definition ddd_profile_can_capture :: "ddd_device_profile \<Rightarrow> bool" where
  "ddd_profile_can_capture p = (p = DDD_DEVICE_LEGACY \<or> p = DDD_DEVICE_PROTOCOL_V1)"

definition ddd_profile_requires_usb_path :: "ddd_device_profile \<Rightarrow> bool" where
  "ddd_profile_requires_usb_path p = (p = DDD_DEVICE_PROTOCOL_V1)"

definition ddd_clockgen_candidate_is_preferred ::
  "bool \<Rightarrow> ddd_device_profile \<Rightarrow> ddd_device_profile \<Rightarrow> bool \<Rightarrow> bool" where
  "ddd_clockgen_candidate_is_preferred selection_present selected_profile candidate_profile
       candidate_capture_supported =
     (if \<not> candidate_capture_supported \<or> \<not> ddd_profile_can_capture candidate_profile then False
      else if \<not> selection_present then True
      else selected_profile = DDD_DEVICE_PROTOCOL_V1 \<and> candidate_profile = DDD_DEVICE_LEGACY)"

definition ddd_reconnect_path_matches ::
  "ddd_device_profile \<Rightarrow> bytes option \<Rightarrow> ddd_device_profile \<Rightarrow> bytes option \<Rightarrow> bool" where
  "ddd_reconnect_path_matches target_profile target_usb_path candidate_profile
       candidate_usb_path =
     (ddd_profile_requires_usb_path target_profile \<and> target_profile = candidate_profile \<and>
      (case (target_usb_path, candidate_usb_path) of
         (Some t, Some c) \<Rightarrow> t \<noteq> [] \<and> c \<noteq> [] \<and> t = c
       | _ \<Rightarrow> False))"

record ddd_profile_index_state =
  legacy_count :: int
  protocol_v1_count :: int
  unsupported_count :: int

definition ddd_profile_index_state_init :: ddd_profile_index_state where
  "ddd_profile_index_state_init =
     \<lparr>legacy_count = 0, protocol_v1_count = 0, unsupported_count = 0\<rparr>"

fun ddd_profile_index_take ::
  "ddd_profile_index_state \<Rightarrow> ddd_device_profile \<Rightarrow> int \<times> ddd_profile_index_state" where
  "ddd_profile_index_take st DDD_DEVICE_LEGACY =
     (legacy_count st, st\<lparr>legacy_count := legacy_count st + 1\<rparr>)"
| "ddd_profile_index_take st DDD_DEVICE_PROTOCOL_V1 =
     (protocol_v1_count st, st\<lparr>protocol_v1_count := protocol_v1_count st + 1\<rparr>)"
| "ddd_profile_index_take st DDD_DEVICE_UNSUPPORTED =
     (unsupported_count st, st\<lparr>unsupported_count := unsupported_count st + 1\<rparr>)"
| "ddd_profile_index_take st DDD_DEVICE_NOT_DDD = (-1, st)"

definition ddd_v1_link_speed_allowed :: "bool \<Rightarrow> bool \<Rightarrow> bool" where
  "ddd_v1_link_speed_allowed speed_known at_least_superspeed =
     (\<not> speed_known \<or> at_least_superspeed)"

section \<open>Registers and sample rates\<close>

definition ddd_decimation_is_supported :: "u8 \<Rightarrow> bool" where
  "ddd_decimation_is_supported factor = (factor = 1 \<or> factor = 2)"

definition ddd_profile_supports_decimation :: "ddd_device_profile \<Rightarrow> u8 \<Rightarrow> bool" where
  "ddd_profile_supports_decimation p factor =
     (if p = DDD_DEVICE_LEGACY then factor = 1
      else p = DDD_DEVICE_PROTOCOL_V1 \<and> ddd_decimation_is_supported factor)"

definition ddd_make_register_write :: "u8 \<Rightarrow> u8 \<Rightarrow> u16" where
  "ddd_make_register_write address val = or (push_bit 8 (ucast address)) (ucast val)"

definition ddd_sample_rate_hz :: "u8 \<Rightarrow> u32" where
  "ddd_sample_rate_hz factor =
     (if ddd_decimation_is_supported factor then 40000000 div ucast factor else 0)"

definition ddd_sample_rate_khz :: "u8 \<Rightarrow> u32" where
  "ddd_sample_rate_khz factor = ddd_sample_rate_hz factor div 1000"

definition ddd_v1_effective_output_rate_khz :: "bool \<Rightarrow> u32 \<Rightarrow> u8 \<Rightarrow> u32" where
  "ddd_v1_effective_output_rate_khz resample_enabled resample_rate_khz stored_factor =
     (let hardware = ddd_sample_rate_khz stored_factor in
      if hardware = 0 then 0
      else if \<not> resample_enabled \<or> resample_rate_khz = 0 \<or> hardware \<le> resample_rate_khz
      then hardware else resample_rate_khz)"

record ddd_v1_rate_plan =
  rp_decimation_factor :: u8
  rp_hardware_rate_khz :: u32
  rp_output_rate_khz :: u32
  rp_software_resample :: bool

definition ddd_v1_plan_output_rate_khz :: "u32 \<Rightarrow> ddd_v1_rate_plan option" where
  "ddd_v1_plan_output_rate_khz output_rate =
     (if output_rate = 0 \<or> ddd_sample_rate_khz 1 < output_rate then None
      else let factor = (if output_rate \<le> ddd_sample_rate_khz 2 then 2 else 1);
               hardware = ddd_sample_rate_khz factor in
           Some \<lparr>rp_decimation_factor = factor, rp_hardware_rate_khz = hardware,
                 rp_output_rate_khz = output_rate,
                 rp_software_resample = (output_rate < hardware)\<rparr>)"

section \<open>Identity block\<close>

definition ddd_identity_is_supported :: "bytes option \<Rightarrow> bool" where
  "ddd_identity_is_supported identity =
     (case identity of
        None \<Rightarrow> False
      | Some bs \<Rightarrow> 12 \<le> length bs \<and> bs ! 0 = 0x44 \<and> bs ! 1 = 2 \<and> bs ! 11 = 1)"

definition is_hex_digit :: "u8 \<Rightarrow> bool" where
  "is_hex_digit v = ((48 \<le> v \<and> v \<le> 57) \<or> (97 \<le> v \<and> v \<le> 102) \<or> (65 \<le> v \<and> v \<le> 70))"

text \<open>The result, and the string left in the destination unless it is not written at all.\<close>

definition ddd_format_gateware_commit :: "bytes option \<Rightarrow> nat \<Rightarrow> bool \<times> bytes option" where
  "ddd_format_gateware_commit identity destination_size =
     (if destination_size = 0 then (False, None)
      else case identity of
        None \<Rightarrow> (False, Some [])
      | Some bs \<Rightarrow>
          if length bs < 12 \<or> and (bs ! 2) 2 = 0 then (False, Some [])
          else let dirty = (and (bs ! 2) 1 \<noteq> 0);
                   commit = takeWhile is_hex_digit (take 8 (drop 3 bs)) in
               if commit = [] \<or> destination_size < length commit + (if dirty then 6 else 0) + 1
               then (False, Some [])
               else (True, Some (commit @ (if dirty then [45, 100, 105, 114, 116, 121] else []))))"

section \<open>USB topology path\<close>

fun decimal :: "nat \<Rightarrow> bytes" where
  "decimal n = (if n < 10 then [48 + of_nat n]
                else decimal (n div 10) @ [48 + of_nat (n mod 10)])"

declare decimal.simps [simp del]

text \<open>The loop over the ports: the text formatted so far, or False with an emptied
  destination as soon as a component does not fit.\<close>

fun format_ports :: "nat \<Rightarrow> bytes \<Rightarrow> bool \<Rightarrow> u8 list \<Rightarrow> bool \<times> bytes" where
  "format_ports destination_size used first [] = (True, used)"
| "format_ports destination_size used first (p # ps) =
     (let piece = (if first then [] else [46]) @ decimal (unat p) in
      if destination_size - length used \<le> length piece then (False, [])
      else format_ports destination_size (used @ piece) False ps)"

definition ddd_format_usb_topology_path ::
  "u8 \<Rightarrow> u8 list option \<Rightarrow> int \<Rightarrow> nat \<Rightarrow> bool \<times> bytes option" where
  "ddd_format_usb_topology_path bus ports port_count destination_size =
     (case ports of
        None \<Rightarrow> (False, None)
      | Some ps \<Rightarrow>
          if destination_size = 0 \<or> port_count \<le> 0 then (False, None)
          else let prefix = [117, 115, 98, 58] @ decimal (unat bus) @ [45] in
               if destination_size \<le> length prefix
               then (False, Some (take (destination_size - 1) prefix))
               else case format_ports destination_size prefix True (take (nat port_count) ps) of
                      (ok, text) \<Rightarrow> (ok, Some text))"

section \<open>Stream endpoint selection\<close>

record ddd_stream_endpoint_candidate =
  ca_interface_number :: int
  ca_alternate_setting :: int
  ca_endpoint_address :: u8
  ca_max_packet_size :: u16
  ca_is_bulk :: bool
  ca_is_in :: bool

record ddd_stream_path =
  sp_interface_number :: int
  sp_alternate_setting :: int
  sp_endpoint_address :: u8
  sp_max_packet_size :: u16
  sp_found :: bool

record ddd_stream_selector =
  sel_profile :: ddd_device_profile
  sel_selected :: ddd_stream_path
  sel_exact_matches :: size_t

definition ddd_stream_selector_init :: "ddd_device_profile \<Rightarrow> ddd_stream_selector" where
  "ddd_stream_selector_init p =
     \<lparr>sel_profile = p,
      sel_selected = \<lparr>sp_interface_number = 0, sp_alternate_setting = 0,
        sp_endpoint_address = 0x81, sp_max_packet_size = 0, sp_found = False\<rparr>,
      sel_exact_matches = 0\<rparr>"

definition candidate_path :: "ddd_stream_endpoint_candidate \<Rightarrow> ddd_stream_path" where
  "candidate_path c = \<lparr>sp_interface_number = ca_interface_number c,
     sp_alternate_setting = ca_alternate_setting c, sp_endpoint_address = ca_endpoint_address c,
     sp_max_packet_size = ca_max_packet_size c, sp_found = True\<rparr>"

definition candidate_exact :: "ddd_stream_endpoint_candidate \<Rightarrow> bool" where
  "candidate_exact c = (ca_interface_number c = 0 \<and> ca_alternate_setting c = 0 \<and>
     ca_endpoint_address c = 0x81 \<and> ca_max_packet_size c = 1024)"

definition ddd_stream_selector_consider ::
  "ddd_stream_endpoint_candidate \<Rightarrow> ddd_stream_selector \<Rightarrow> ddd_stream_selector" where
  "ddd_stream_selector_consider c s =
     (if \<not> ca_is_bulk c \<or> \<not> ca_is_in c then s
      else if sel_profile s = DDD_DEVICE_PROTOCOL_V1 then
        (if \<not> candidate_exact c then s
         else let s1 = s\<lparr>sel_exact_matches := sel_exact_matches s + 1\<rparr> in
              if sel_exact_matches s1 = 1 then s1\<lparr>sel_selected := candidate_path c\<rparr>
              else s1\<lparr>sel_selected := (sel_selected s1)\<lparr>sp_found := False\<rparr>\<rparr>)
      else if sel_profile s = DDD_DEVICE_LEGACY \<and>
              (\<not> sp_found (sel_selected s) \<or>
               sp_max_packet_size (sel_selected s) < ca_max_packet_size c)
      then s\<lparr>sel_selected := candidate_path c\<rparr>
      else s)"

definition ddd_stream_selector_get :: "ddd_stream_selector \<Rightarrow> bool \<times> ddd_stream_path" where
  "ddd_stream_selector_get s =
     (let sel = (if sel_profile s = DDD_DEVICE_PROTOCOL_V1 \<and> sel_exact_matches s \<noteq> 1
                 then (sel_selected s)\<lparr>sp_found := False\<rparr> else sel_selected s) in
      (sp_found sel, sel))"

section \<open>Decimal texts\<close>

definition is_digit :: "u8 \<Rightarrow> bool" where
  "is_digit d = (48 \<le> d \<and> d \<le> 57)"

definition undecimal :: "bytes \<Rightarrow> nat" where
  "undecimal ds = foldl (\<lambda>a d. 10 * a + (unat d - 48)) 0 ds"

lemma digit_byte:
  assumes "k < 10"
  shows "unat (48 + of_nat k :: u8) = 48 + k" and "is_digit (48 + of_nat k)"
proof -
  show "unat (48 + of_nat k :: u8) = 48 + k"
    using assms by (subst unat_sum_lt) (simp_all add: unat_of_nat_lt)
  then show "is_digit (48 + of_nat k)"
    using assms by (simp add: is_digit_def word_le_nat_alt)
qed

lemma decimal_digits: "\<forall>d\<in>set (decimal n). is_digit d"
proof (induction n rule: decimal.induct)
  case (1 n)
  then show ?case
    using digit_byte(2) [of "n mod 10"] digit_byte(2) [of n]
    by (subst decimal.simps) auto
qed

lemma decimal_nonempty: "decimal n \<noteq> []"
  by (subst decimal.simps) simp

lemma undecimal_decimal [simp]: "undecimal (decimal n) = n"
proof (induction n rule: decimal.induct)
  case (1 n)
  then show ?case
    using digit_byte(1) [of "n mod 10"] digit_byte(1) [of n]
    by (subst decimal.simps) (auto simp: undecimal_def)
qed

lemma decimal_inject: "decimal a = decimal b \<longleftrightarrow> a = b"
  by (metis undecimal_decimal)

definition ends_number :: "bytes \<Rightarrow> bool" where
  "ends_number xs = (xs = [] \<or> \<not> is_digit (hd xs))"

lemma takeWhile_decimal: "ends_number xs \<Longrightarrow> takeWhile is_digit (decimal n @ xs) = decimal n"
  using decimal_digits [of n]
  by (cases xs) (auto simp: takeWhile_append2 ends_number_def)

lemma decimal_append_inject:
  assumes "decimal a @ xs = decimal b @ ys" "ends_number xs" "ends_number ys"
  shows "a = b \<and> xs = ys"
  using assms takeWhile_decimal [of xs a] takeWhile_decimal [of ys b]
  by (metis decimal_inject same_append_eq)

section \<open>Topology paths\<close>

fun ports_text :: "bool \<Rightarrow> u8 list \<Rightarrow> bytes" where
  "ports_text first [] = []"
| "ports_text first (p # ps) =
     (if first then [] else [46]) @ decimal (unat p) @ ports_text False ps"

lemma format_ports_ok:
  "format_ports sz used first ps = (True, text) \<Longrightarrow> text = used @ ports_text first ps"
  by (induction ps arbitrary: used first) (fastforce simp: Let_def split: if_splits)+

lemma ends_number_ports: "ends_number (ports_text False ps)"
  by (cases ps) (simp_all add: ends_number_def is_digit_def)

lemma ports_text_inject:
  "ports_text first ps = ports_text first qs \<Longrightarrow> ps = qs"
proof (induction ps arbitrary: first qs)
  case Nil
  then show ?case by (cases qs) (auto simp: decimal_nonempty split: if_splits)
next
  case (Cons p ps)
  obtain q qs' where qs: "qs = q # qs'"
    using Cons.prems by (cases qs) (auto simp: decimal_nonempty)
  then have "decimal (unat p) @ ports_text False ps = decimal (unat q) @ ports_text False qs'"
    using Cons.prems by (simp split: if_splits)
  then show ?case
    using decimal_append_inject ends_number_ports Cons.IH qs by (metis word_unat_eq_iff)
qed

lemma topology_path_ok:
  assumes "ddd_format_usb_topology_path bus (Some ps) n sz = (True, Some text)"
  shows "text = [117, 115, 98, 58] @ decimal (unat bus) @ [45] @ ports_text True (take (nat n) ps)"
  using assms
  by (auto dest: format_ports_ok simp: ddd_format_usb_topology_path_def Let_def split: if_splits prod.splits)

text \<open>C10: The topology path identifies the place of a device: two paths that were formatted
  without truncation and that ddd\_reconnect\_path\_matches accepts come from the same bus
  and the same chain of ports.\<close>

theorem reconnect_same_place:
  assumes "ddd_format_usb_topology_path bus (Some ps) n sz = (True, Some target)"
    and "ddd_format_usb_topology_path bus' (Some ps') n' sz' = (True, Some candidate)"
    and "ddd_reconnect_path_matches p (Some target) p' (Some candidate)"
  shows "bus = bus' \<and> take (nat n) ps = take (nat n') ps' \<and> p = DDD_DEVICE_PROTOCOL_V1 \<and> p' = p"
proof -
  have "target = candidate" and p: "p = DDD_DEVICE_PROTOCOL_V1" "p' = p"
    using assms(3) by (auto simp: ddd_reconnect_path_matches_def ddd_profile_requires_usb_path_def)
  then have "decimal (unat bus) @ [45] @ ports_text True (take (nat n) ps)
      = decimal (unat bus') @ [45] @ ports_text True (take (nat n') ps')"
    using topology_path_ok [OF assms(1)] topology_path_ok [OF assms(2)] by simp
  moreover have "ends_number ([45] @ xs)" for xs by (simp add: ends_number_def is_digit_def)
  ultimately have "unat bus = unat bus' \<and> [45] @ ports_text True (take (nat n) ps)
      = [45] @ ports_text True (take (nat n') ps')"
    using decimal_append_inject [OF _ _ _] by blast
  then show ?thesis using ports_text_inject p by (auto simp: word_unat_eq_iff)
qed

theorem reconnect_same_place_witness:
  "ddd_format_usb_topology_path 3 (Some [1, 12]) 2 64 = (True, Some [117, 115, 98, 58, 51, 45, 49, 46, 49, 50])
   \<and> (3 :: u8) = 3 \<and> take 2 [1, 12 :: u8] = take 2 [1, 12, 7]"
proof -
  have a: "ddd_format_usb_topology_path 3 (Some [1, 12]) 2 64
      = (True, Some [117, 115, 98, 58, 51, 45, 49, 46, 49, 50])"
    and b: "ddd_format_usb_topology_path 3 (Some [1, 12, 7]) 2 32
      = (True, Some [117, 115, 98, 58, 51, 45, 49, 46, 49, 50])"
    and c: "ddd_reconnect_path_matches DDD_DEVICE_PROTOCOL_V1
      (Some [117, 115, 98, 58, 51, 45, 49, 46, 49, 50]) DDD_DEVICE_PROTOCOL_V1
      (Some [117, 115, 98, 58, 51, 45, 49, 46, 49, 50])"
    by code_simp+
  show ?thesis using reconnect_same_place [OF a b c] a by simp
qed

section \<open>Endpoint selection\<close>

definition streams_in :: "ddd_stream_endpoint_candidate list \<Rightarrow> ddd_stream_endpoint_candidate list"
where
  "streams_in cs = filter (\<lambda>c. ca_is_bulk c \<and> ca_is_in c) cs"

definition select_stream ::
  "ddd_device_profile \<Rightarrow> ddd_stream_endpoint_candidate list \<Rightarrow> bool \<times> ddd_stream_path" where
  "select_stream p cs =
     ddd_stream_selector_get (fold ddd_stream_selector_consider cs (ddd_stream_selector_init p))"

definition exact_candidates :: "ddd_stream_endpoint_candidate list \<Rightarrow> nat" where
  "exact_candidates cs = length (filter candidate_exact (streams_in cs))"

definition v1_path :: "bool \<Rightarrow> ddd_stream_path" where
  "v1_path found = \<lparr>sp_interface_number = 0, sp_alternate_setting = 0,
     sp_endpoint_address = 0x81, sp_max_packet_size = 1024, sp_found = found\<rparr>"

text \<open>What the fold over the candidates has reached, for either capture profile.\<close>

definition v1_reached :: "ddd_stream_selector \<Rightarrow> nat \<Rightarrow> bool" where
  "v1_reached s k =
     (sel_profile s = DDD_DEVICE_PROTOCOL_V1 \<and> sel_exact_matches s = of_nat k \<and>
      (if k = 0 then \<not> sp_found (sel_selected s)
       else if k = 1 then sel_selected s = v1_path True
       else sel_selected s = v1_path False))"

lemma v1_reached_step:
  assumes "v1_reached s k" "k + 1 < 2 ^ 64"
  shows "v1_reached (ddd_stream_selector_consider c s)
     (if ca_is_bulk c \<and> ca_is_in c \<and> candidate_exact c then k + 1 else k)"
proof -
  have "unat (of_nat k + 1 :: size_t) = k + 1"
    using assms(2) by (subst unat_sum_lt) (simp_all add: unat_of_nat_lt)
  then have "(of_nat k + 1 :: size_t) = 1 \<longleftrightarrow> k = 0"
    by (simp add: word_unat_eq_iff)
  then show ?thesis
    using assms(1)
    by (auto simp: v1_reached_def ddd_stream_selector_consider_def Let_def candidate_path_def
        candidate_exact_def v1_path_def add.commute split: if_splits)
qed

lemma v1_reached_fold:
  assumes "v1_reached s k" "k + exact_candidates cs < 2 ^ 64"
  shows "v1_reached (fold ddd_stream_selector_consider cs s) (k + exact_candidates cs)"
  using assms
proof (induction cs arbitrary: s k)
  case (Cons c cs)
  have k: "k + 1 < 2 ^ 64 \<or> \<not> (ca_is_bulk c \<and> ca_is_in c \<and> candidate_exact c)"
    using Cons.prems(2) by (auto simp: exact_candidates_def streams_in_def)
  have "v1_reached (ddd_stream_selector_consider c s)
      (if ca_is_bulk c \<and> ca_is_in c \<and> candidate_exact c then k + 1 else k)"
  proof (cases "k + 1 < 2 ^ 64")
    case True
    then show ?thesis using v1_reached_step [OF Cons.prems(1)] by blast
  next
    case False
    then have "ddd_stream_selector_consider c s = s"
      using k Cons.prems(1) by (auto simp: ddd_stream_selector_consider_def v1_reached_def)
    then show ?thesis using k False Cons.prems(1) by auto
  qed
  then show ?case
    using Cons.IH [of "ddd_stream_selector_consider c s"] Cons.prems(2)
    by (fastforce simp: exact_candidates_def streams_in_def split: if_splits)
qed (simp add: exact_candidates_def streams_in_def)

text \<open>The legacy choice is an endpoint with the largest packet size.\<close>

definition legacy_reached :: "ddd_stream_selector \<Rightarrow> ddd_stream_endpoint_candidate list \<Rightarrow> bool"
where
  "legacy_reached s cs =
     (sel_profile s = DDD_DEVICE_LEGACY \<and>
      (if cs = [] then \<not> sp_found (sel_selected s)
       else (\<exists>c\<in>set cs. sel_selected s = candidate_path c) \<and>
            (\<forall>c\<in>set cs. ca_max_packet_size c \<le> sp_max_packet_size (sel_selected s))))"

lemma legacy_reached_step:
  assumes "legacy_reached s cs"
  shows "legacy_reached (ddd_stream_selector_consider c s)
     (if ca_is_bulk c \<and> ca_is_in c then cs @ [c] else cs)"
  using assms
  by (auto simp: legacy_reached_def ddd_stream_selector_consider_def candidate_path_def
      split: if_splits)

lemma legacy_reached_fold:
  "legacy_reached s ds \<Longrightarrow>
   legacy_reached (fold ddd_stream_selector_consider cs s) (ds @ streams_in cs)"
proof (induction cs arbitrary: s ds)
  case (Cons c cs)
  show ?case
    using Cons.IH [OF legacy_reached_step [OF Cons.prems, of c]]
    by (auto simp: streams_in_def split: if_splits)
qed (simp add: streams_in_def)

text \<open>C9: Endpoint selection.  A protocol-v1 device streams only when exactly one of its
  endpoints is the bulk IN endpoint 0x81 of interface 0 with 1024-byte packets, and then
  that endpoint is selected; a legacy device streams when it has any bulk IN endpoint, and
  then one with the largest packet size is selected.\<close>

theorem stream_selection:
  assumes "exact_candidates cs < 2 ^ 64"
  shows "fst (select_stream DDD_DEVICE_PROTOCOL_V1 cs) = (exact_candidates cs = 1) \<and>
    (exact_candidates cs = 1 \<longrightarrow> snd (select_stream DDD_DEVICE_PROTOCOL_V1 cs) = v1_path True) \<and>
    fst (select_stream DDD_DEVICE_LEGACY cs) = (streams_in cs \<noteq> []) \<and>
    (streams_in cs \<noteq> [] \<longrightarrow>
      (\<exists>c\<in>set (streams_in cs). snd (select_stream DDD_DEVICE_LEGACY cs) = candidate_path c \<and>
        (\<forall>d\<in>set (streams_in cs). ca_max_packet_size d \<le> ca_max_packet_size c)))"
proof -
  have "v1_reached (ddd_stream_selector_init DDD_DEVICE_PROTOCOL_V1) 0"
    by (simp add: v1_reached_def ddd_stream_selector_init_def)
  from v1_reached_fold [OF this, of cs] assms
  have v1: "v1_reached (fold ddd_stream_selector_consider cs
      (ddd_stream_selector_init DDD_DEVICE_PROTOCOL_V1)) (exact_candidates cs)" by simp
  have one: "(of_nat (exact_candidates cs) :: size_t) = 1 \<longleftrightarrow> exact_candidates cs = 1"
    using assms by (simp add: word_unat_eq_iff unat_of_nat_lt)
  have "legacy_reached (ddd_stream_selector_init DDD_DEVICE_LEGACY) []"
    by (simp add: legacy_reached_def ddd_stream_selector_init_def)
  from legacy_reached_fold [OF this, of cs]
  have lg: "legacy_reached (fold ddd_stream_selector_consider cs
      (ddd_stream_selector_init DDD_DEVICE_LEGACY)) (streams_in cs)" by simp
  show ?thesis
    using v1 one lg
    by (auto simp: select_stream_def ddd_stream_selector_get_def v1_reached_def v1_path_def
        legacy_reached_def candidate_path_def Let_def split: if_splits)
qed

definition endpoint :: "u8 \<Rightarrow> u16 \<Rightarrow> bool \<Rightarrow> ddd_stream_endpoint_candidate" where
  "endpoint address packet is_in = \<lparr>ca_interface_number = 0, ca_alternate_setting = 0,
     ca_endpoint_address = address, ca_max_packet_size = packet, ca_is_bulk = True,
     ca_is_in = is_in\<rparr>"

theorem stream_selection_witness:
  "fst (select_stream DDD_DEVICE_PROTOCOL_V1 [endpoint 2 512 False, endpoint 0x81 1024 True]) \<and>
   \<not> fst (select_stream DDD_DEVICE_PROTOCOL_V1 [endpoint 0x81 1024 True, endpoint 0x81 1024 True])"
proof -
  have a: "exact_candidates [endpoint 2 512 False, endpoint 0x81 1024 True] = 1"
    and b: "exact_candidates [endpoint 0x81 1024 True, endpoint 0x81 1024 True] = 2"
    by code_simp+
  show ?thesis
    using stream_selection [of "[endpoint 2 512 False, endpoint 0x81 1024 True]"]
      stream_selection [of "[endpoint 0x81 1024 True, endpoint 0x81 1024 True]"]
    by (simp add: a b)
qed

section \<open>Rates and registers\<close>

lemma sample_rates [simp]:
  "ddd_sample_rate_khz 1 = 40000" "ddd_sample_rate_khz 2 = 20000"
  by (simp_all add: ddd_sample_rate_khz_def ddd_sample_rate_hz_def ddd_decimation_is_supported_def)

text \<open>Every output rate from 1 kHz to 40 MHz, and no other, has a plan; the plan uses a
  supported decimation factor whose hardware rate is the lowest that covers the requested
  rate, and resamples in software exactly when the two differ.\<close>

theorem rate_plan:
  "(case ddd_v1_plan_output_rate_khz r of
      None \<Rightarrow> r = 0 \<or> 40000 < r
    | Some plan \<Rightarrow>
        0 < r \<and> r \<le> 40000 \<and> rp_output_rate_khz plan = r \<and>
        ddd_profile_supports_decimation DDD_DEVICE_PROTOCOL_V1 (rp_decimation_factor plan) \<and>
        rp_hardware_rate_khz plan = ddd_sample_rate_khz (rp_decimation_factor plan) \<and>
        r \<le> rp_hardware_rate_khz plan \<and>
        (rp_hardware_rate_khz plan = 40000 \<longleftrightarrow> 20000 < r) \<and>
        (rp_software_resample plan \<longleftrightarrow> rp_hardware_rate_khz plan \<noteq> r))"
  by (auto simp: ddd_v1_plan_output_rate_khz_def Let_def ddd_profile_supports_decimation_def
      ddd_decimation_is_supported_def word_less_nat_alt word_le_nat_alt word_unat_eq_iff
      split: option.splits if_splits)

lemma register_write_fields:
  "(ucast (drop_bit 8 (ddd_make_register_write a v)) :: u8) = a"
  "(ucast (ddd_make_register_write a v) :: u8) = v"
  unfolding ddd_make_register_write_def
  by (rule bit_word_eqI; simp add: bit_simps; auto simp: bit_simps dest: bit_imp_le_length)+

lemma classify_known:
  "ddd_classify_device v p b = DDD_DEVICE_NOT_DDD \<longleftrightarrow> \<not> ddd_is_known_device_id v p"
  by (auto simp: ddd_classify_device_def ddd_is_known_device_id_def)

lemma commit_fits:
  assumes "ddd_format_gateware_commit (Some bs) sz = (True, Some text)"
  shows "length text < sz \<and> length text \<le> 14 \<and> text \<noteq> [] \<and> is_hex_digit (hd text)"
proof -
  have len: "length (takeWhile is_hex_digit (take 8 (drop 3 bs))) \<le> 8"
    using length_takeWhile_le [of is_hex_digit "take 8 (drop 3 bs)"] by simp
  have hd: "xs \<noteq> [] \<Longrightarrow> takeWhile P ys = xs \<Longrightarrow> P (hd xs)" for P and xs ys :: bytes
    by (cases ys) (auto split: if_splits)
  show ?thesis
    using assms len hd [OF _ refl]
    by (auto simp: ddd_format_gateware_commit_def Let_def split: if_splits)
qed

end
