(* ===== verification/Ddd_Telemetry.thy ===== *)
theory Ddd_Telemetry
  imports Prelude
begin

text \<open>
  The FIFO telemetry block of common/ddd\_protocol.c: parsing the 23-byte block, the
  percentages shown to the user, and the running totals over the snapshots of a capture.
  C int arithmetic on 16-bit fields stays far below its bounds and is int here; its
  division truncates towards zero, which the model writes with the operands' signs in
  view (the dividend and the divisor are never negative where it is used).
\<close>

section \<open>State\<close>

record ddd_fifo_telemetry =
  ft_present :: bool
  ft_format :: u8
  ft_overflow_seen :: bool
  ft_saturated :: bool
  ft_latch_count :: u8
  ft_used_now :: u16
  ft_peak :: u16
  ft_peak_since_open :: u16
  ft_overflow_events :: u16
  ft_dropped_words :: u16
  ft_packets_read :: u16
  ft_near_full_units :: u16
  ft_depth_words :: u16
  ft_packet_words :: u16
  ft_near_full_words :: u16

record ddd_fifo_telemetry_totals =
  tt_latch_seen :: bool
  tt_last_latch_count :: u8
  tt_interval_coverage_complete :: bool
  tt_saturated :: bool
  tt_overflow_events :: u64
  tt_dropped_words :: u64
  tt_near_full_units :: u64
  tt_peak_words :: u16
  tt_peak_backpressure_percent :: int

section \<open>Parsing\<close>

definition ddd_read_little_endian_word :: "bytes \<Rightarrow> nat \<Rightarrow> u16" where
  "ddd_read_little_endian_word block offset =
     or (ucast (block ! offset)) (push_bit 8 (ucast (block ! (offset + 1))))"

definition ddd_fifo_telemetry_init :: ddd_fifo_telemetry where
  "ddd_fifo_telemetry_init = \<lparr>ft_present = False, ft_format = 0, ft_overflow_seen = False,
     ft_saturated = False, ft_latch_count = 0, ft_used_now = 0, ft_peak = 0,
     ft_peak_since_open = 0, ft_overflow_events = 0, ft_dropped_words = 0, ft_packets_read = 0,
     ft_near_full_units = 0, ft_depth_words = 0, ft_packet_words = 0, ft_near_full_words = 0\<rparr>"

definition ddd_fifo_telemetry_parse :: "bytes option \<Rightarrow> bool \<times> ddd_fifo_telemetry" where
  "ddd_fifo_telemetry_parse block =
     (case block of
        None \<Rightarrow> (False, ddd_fifo_telemetry_init)
      | Some bs \<Rightarrow>
          if length bs < 23 \<or> bs ! 0 \<noteq> 0xBD then (False, ddd_fifo_telemetry_init)
          else let status = bs ! 1; fmt = and status 0x0F in
          if fmt \<noteq> 1 then (False, ddd_fifo_telemetry_init)
          else let depth = ddd_read_little_endian_word bs 17;
                   packet = ddd_read_little_endian_word bs 19 in
          if packet = 0 \<or> depth \<le> packet then (False, ddd_fifo_telemetry_init)
          else (True,
            \<lparr>ft_present = True, ft_format = fmt,
             ft_overflow_seen = (and status 0x10 \<noteq> 0),
             ft_saturated = (and status 0x20 \<noteq> 0),
             ft_latch_count = bs ! 2,
             ft_used_now = ddd_read_little_endian_word bs 3,
             ft_peak = ddd_read_little_endian_word bs 5,
             ft_peak_since_open = ddd_read_little_endian_word bs 7,
             ft_overflow_events = ddd_read_little_endian_word bs 9,
             ft_dropped_words = ddd_read_little_endian_word bs 11,
             ft_packets_read = ddd_read_little_endian_word bs 13,
             ft_near_full_units = ddd_read_little_endian_word bs 15,
             ft_depth_words = depth, ft_packet_words = packet,
             ft_near_full_words = ddd_read_little_endian_word bs 21\<rparr>))"

section \<open>Percentages\<close>

definition clamp_percent :: "int \<Rightarrow> int" where
  "clamp_percent p = (if p < 0 then 0 else if 100 < p then 100 else p)"

definition ddd_fifo_backpressure_percent :: "ddd_fifo_telemetry option \<Rightarrow> int" where
  "ddd_fifo_backpressure_percent telemetry =
     (case telemetry of
        None \<Rightarrow> 0
      | Some t \<Rightarrow>
          if \<not> ft_present t then 0
          else if 0 < ft_overflow_events t then 100
          else if ft_peak t \<le> ft_packet_words t then 0
          else let headroom = uint (ft_depth_words t) - uint (ft_packet_words t) in
               if headroom \<le> 0 then 0
               else let excursion = uint (ft_peak t) - uint (ft_packet_words t) in
                    clamp_percent (excursion * 100 div headroom))"

definition ddd_fifo_peak_percent :: "ddd_fifo_telemetry option \<Rightarrow> int" where
  "ddd_fifo_peak_percent telemetry =
     (case telemetry of
        None \<Rightarrow> 0
      | Some t \<Rightarrow>
          if \<not> ft_present t \<or> ft_depth_words t = 0 then 0
          else clamp_percent (uint (ft_peak t) * 100 div uint (ft_depth_words t)))"

definition ddd_fifo_used_percent :: "ddd_fifo_telemetry option \<Rightarrow> int" where
  "ddd_fifo_used_percent telemetry =
     (case telemetry of
        None \<Rightarrow> 0
      | Some t \<Rightarrow>
          if \<not> ft_present t \<or> ft_depth_words t = 0 then 0
          else clamp_percent (uint (ft_used_now t) * 100 div uint (ft_depth_words t)))"

section \<open>Totals\<close>

definition ddd_fifo_telemetry_totals_init :: ddd_fifo_telemetry_totals where
  "ddd_fifo_telemetry_totals_init = \<lparr>tt_latch_seen = False, tt_last_latch_count = 0,
     tt_interval_coverage_complete = True, tt_saturated = False, tt_overflow_events = 0,
     tt_dropped_words = 0, tt_near_full_units = 0, tt_peak_words = 0,
     tt_peak_backpressure_percent = 0\<rparr>"

definition ddd_fifo_telemetry_totals_add ::
  "ddd_fifo_telemetry \<Rightarrow> ddd_fifo_telemetry_totals \<Rightarrow> bool \<times> ddd_fifo_telemetry_totals" where
  "ddd_fifo_telemetry_totals_add t tot =
     (if \<not> ft_present t then (False, tot)
      else let delta = ft_latch_count t - tt_last_latch_count tot in
      if tt_latch_seen tot \<and> delta = 0 then (False, tot)
      else let complete = (if tt_latch_seen tot \<and> delta \<noteq> 1 then False
                           else tt_interval_coverage_complete tot);
               backpressure = ddd_fifo_backpressure_percent (Some t) in
      (True, tot\<lparr>
         tt_interval_coverage_complete := complete,
         tt_latch_seen := True,
         tt_last_latch_count := ft_latch_count t,
         tt_saturated := tt_saturated tot \<or> ft_saturated t,
         tt_overflow_events := tt_overflow_events tot + ucast (ft_overflow_events t),
         tt_dropped_words := tt_dropped_words tot + ucast (ft_dropped_words t),
         tt_near_full_units := tt_near_full_units tot + ucast (ft_near_full_units t),
         tt_peak_words := (if tt_peak_words tot < ft_peak t then ft_peak t
                           else tt_peak_words tot),
         tt_peak_backpressure_percent :=
           (if tt_peak_backpressure_percent tot < backpressure then backpressure
            else tt_peak_backpressure_percent tot)\<rparr>))"

definition totals_of :: "ddd_fifo_telemetry list \<Rightarrow> ddd_fifo_telemetry_totals" where
  "totals_of ts = fold (\<lambda>t tot. snd (ddd_fifo_telemetry_totals_add t tot)) ts
     ddd_fifo_telemetry_totals_init"

section \<open>Laws\<close>

lemma clamp_percent_range: "0 \<le> clamp_percent p \<and> clamp_percent p \<le> 100"
  by (simp add: clamp_percent_def)

lemma percent_ranges:
  "0 \<le> ddd_fifo_backpressure_percent t \<and> ddd_fifo_backpressure_percent t \<le> 100"
  "0 \<le> ddd_fifo_peak_percent t \<and> ddd_fifo_peak_percent t \<le> 100"
  "0 \<le> ddd_fifo_used_percent t \<and> ddd_fifo_used_percent t \<le> 100"
  by (auto simp: ddd_fifo_backpressure_percent_def ddd_fifo_peak_percent_def
      ddd_fifo_used_percent_def Let_def clamp_percent_def split: option.splits)

lemma parse_ok_iff:
  "fst (ddd_fifo_telemetry_parse (Some bs)) \<longleftrightarrow>
     23 \<le> length bs \<and> bs ! 0 = 0xBD \<and> and (bs ! 1) 0x0F = 1 \<and>
     0 < ddd_read_little_endian_word bs 19 \<and>
     ddd_read_little_endian_word bs 19 < ddd_read_little_endian_word bs 17"
  by (auto simp: ddd_fifo_telemetry_parse_def Let_def word_neq_0_conv)

lemma parse_fail_blank:
  "\<not> fst (ddd_fifo_telemetry_parse b) \<Longrightarrow>
   snd (ddd_fifo_telemetry_parse b) = ddd_fifo_telemetry_init"
  by (auto simp: ddd_fifo_telemetry_parse_def Let_def split: option.splits if_splits)

text \<open>A telemetry block that parses describes a FIFO with room for more than one packet;
  the backpressure it stands for is 0 exactly when the FIFO did not overflow and its peak
  stayed below one percent of the headroom above a packet, 100 exactly when it overflowed
  or its peak reached the depth, and in between it is the rounded-down share of the
  headroom that was used.\<close>

theorem backpressure_of_parsed:
  assumes "ddd_fifo_telemetry_parse (Some bs) = (True, t)"
  defines "h \<equiv> uint (ft_depth_words t) - uint (ft_packet_words t)"
    and "e \<equiv> uint (ft_peak t) - uint (ft_packet_words t)"
  shows "0 < h \<and> 0 < uint (ft_packet_words t) \<and>
    (ddd_fifo_backpressure_percent (Some t) = 100 \<longleftrightarrow> 0 < ft_overflow_events t \<or> h \<le> e) \<and>
    (ddd_fifo_backpressure_percent (Some t) = 0 \<longleftrightarrow> ft_overflow_events t = 0 \<and> 100 * e < h) \<and>
    (ft_overflow_events t = 0 \<and> 0 \<le> e \<and> e \<le> h \<longrightarrow>
       ddd_fifo_backpressure_percent (Some t) = 100 * e div h)"
proof -
  have p: "ft_present t" and h: "0 < h" and pk: "0 < uint (ft_packet_words t)"
    using assms by (auto simp: ddd_fifo_telemetry_parse_def Let_def word_less_def
        word_neq_0_conv not_le split: if_splits)
  have e0: "ft_peak t \<le> ft_packet_words t \<longleftrightarrow> e \<le> 0"
    by (simp add: e_def word_le_def)
  have v: "ddd_fifo_backpressure_percent (Some t) =
      (if 0 < ft_overflow_events t then 100 else if e \<le> 0 then 0
       else clamp_percent (e * 100 div h))"
    using p h e0 by (simp add: ddd_fifo_backpressure_percent_def h_def e_def Let_def)
  have "(e * 100 + h * (- 100)) div h = - 100 + e * 100 div h"
    using h by (intro div_mult_self2) simp
  then have "100 \<le> e * 100 div h \<longleftrightarrow> h \<le> e"
    using pos_imp_zdiv_nonneg_iff [OF h, of "e * 100 + h * (- 100)"] by linarith
  moreover have "0 < e * 100 div h \<longleftrightarrow> h \<le> e * 100" using h by (simp add: pos_imp_zdiv_pos_iff)
  moreover have "ft_overflow_events t = 0 \<longleftrightarrow> \<not> 0 < ft_overflow_events t"
    by (simp add: word_gt_0)
  ultimately show ?thesis
    using h pk v by (auto simp: clamp_percent_def mult.commute)
qed

definition sample_block :: bytes where
  "sample_block = [0xBD, 0x01, 7, 0, 0, 0, 3, 0, 3, 0, 0, 0, 0, 9, 0, 0, 0, 0, 4, 0, 2, 0, 3]"

theorem backpressure_of_parsed_witness:
  "ddd_fifo_backpressure_percent (Some (snd (ddd_fifo_telemetry_parse (Some sample_block)))) = 50"
proof -
  have p: "fst (ddd_fifo_telemetry_parse (Some sample_block))" by code_simp
  have v: "ft_depth_words (snd (ddd_fifo_telemetry_parse (Some sample_block))) = 1024"
    "ft_packet_words (snd (ddd_fifo_telemetry_parse (Some sample_block))) = 512"
    "ft_peak (snd (ddd_fifo_telemetry_parse (Some sample_block))) = 768"
    "ft_overflow_events (snd (ddd_fifo_telemetry_parse (Some sample_block))) = 0"
    by code_simp+
  show ?thesis
    using backpressure_of_parsed [of sample_block
        "snd (ddd_fifo_telemetry_parse (Some sample_block))"] p v
    by (simp add: prod_eq_iff)
qed

section \<open>Totals of a capture\<close>

text \<open>The snapshots the totals accept, given the last latch count seen; and whether each of
  them follows its predecessor without a gap.\<close>

fun fresh :: "u8 option \<Rightarrow> ddd_fifo_telemetry list \<Rightarrow> ddd_fifo_telemetry list" where
  "fresh l [] = []"
| "fresh l (t # ts) =
     (if \<not> ft_present t \<or> l = Some (ft_latch_count t) then fresh l ts
      else t # fresh (Some (ft_latch_count t)) ts)"

fun gapless :: "u8 option \<Rightarrow> ddd_fifo_telemetry list \<Rightarrow> bool" where
  "gapless l [] = True"
| "gapless l (t # ts) =
     ((case l of None \<Rightarrow> True | Some k \<Rightarrow> ft_latch_count t = k + 1) \<and>
      gapless (Some (ft_latch_count t)) ts)"

definition last_latch :: "ddd_fifo_telemetry_totals \<Rightarrow> u8 option" where
  "last_latch tot = (if tt_latch_seen tot then Some (tt_last_latch_count tot) else None)"

definition words_sum :: "(ddd_fifo_telemetry \<Rightarrow> u16) \<Rightarrow> ddd_fifo_telemetry list \<Rightarrow> nat" where
  "words_sum f ts = (\<Sum>t\<leftarrow>ts. unat (f t))"

abbreviation add_snapshots ::
  "ddd_fifo_telemetry list \<Rightarrow> ddd_fifo_telemetry_totals \<Rightarrow> ddd_fifo_telemetry_totals" where
  "add_snapshots \<equiv> fold (\<lambda>t tot. snd (ddd_fifo_telemetry_totals_add t tot))"

lemma totals_add_stale:
  "\<not> ft_present t \<or> last_latch tot = Some (ft_latch_count t) \<Longrightarrow>
   ddd_fifo_telemetry_totals_add t tot = (False, tot)"
  by (auto simp: ddd_fifo_telemetry_totals_add_def last_latch_def Let_def split: if_splits)

lemma totals_add_fresh:
  assumes "ft_present t" "last_latch tot \<noteq> Some (ft_latch_count t)"
  defines "tot' \<equiv> snd (ddd_fifo_telemetry_totals_add t tot)"
  shows "last_latch tot' = Some (ft_latch_count t)"
    "tt_interval_coverage_complete tot' \<longleftrightarrow> tt_interval_coverage_complete tot \<and>
       (case last_latch tot of None \<Rightarrow> True | Some k \<Rightarrow> ft_latch_count t = k + 1)"
    "tt_overflow_events tot' = tt_overflow_events tot + of_nat (unat (ft_overflow_events t))"
    "tt_dropped_words tot' = tt_dropped_words tot + of_nat (unat (ft_dropped_words t))"
    "tt_peak_backpressure_percent tot' =
       max (tt_peak_backpressure_percent tot) (ddd_fifo_backpressure_percent (Some t))"
proof -
  have d: "ft_latch_count t - k = 0 \<longleftrightarrow> ft_latch_count t = k"
    "ft_latch_count t - k = 1 \<longleftrightarrow> ft_latch_count t = k + 1" for k
    by (simp, metis add.commute diff_add_cancel add_diff_cancel_left')
  note defs = tot'_def ddd_fifo_telemetry_totals_add_def last_latch_def Let_def
  show "last_latch tot' = Some (ft_latch_count t)"
    using assms(1,2) by (auto simp: defs split: if_splits)
  show "tt_interval_coverage_complete tot' \<longleftrightarrow> tt_interval_coverage_complete tot \<and>
       (case last_latch tot of None \<Rightarrow> True | Some k \<Rightarrow> ft_latch_count t = k + 1)"
    using assms(1,2) unfolding defs d by (auto split: if_splits)
  show "tt_overflow_events tot' = tt_overflow_events tot + of_nat (unat (ft_overflow_events t))"
    "tt_dropped_words tot' = tt_dropped_words tot + of_nat (unat (ft_dropped_words t))"
    "tt_peak_backpressure_percent tot' =
       max (tt_peak_backpressure_percent tot) (ddd_fifo_backpressure_percent (Some t))"
    using assms(1,2) by (auto simp: defs split: if_splits)
qed

lemma totals_fold:
  "(tt_interval_coverage_complete (add_snapshots ts tot) \<longleftrightarrow>
       tt_interval_coverage_complete tot \<and> gapless (last_latch tot) (fresh (last_latch tot) ts)) \<and>
   tt_overflow_events (add_snapshots ts tot) =
     tt_overflow_events tot + of_nat (words_sum ft_overflow_events (fresh (last_latch tot) ts)) \<and>
   tt_dropped_words (add_snapshots ts tot) =
     tt_dropped_words tot + of_nat (words_sum ft_dropped_words (fresh (last_latch tot) ts)) \<and>
   tt_peak_backpressure_percent (add_snapshots ts tot) =
     fold max (map (\<lambda>t. ddd_fifo_backpressure_percent (Some t)) (fresh (last_latch tot) ts))
       (tt_peak_backpressure_percent tot)"
proof (induction ts arbitrary: tot)
  case Nil
  then show ?case by (simp add: words_sum_def)
next
  case (Cons t ts)
  show ?case
  proof (cases "ft_present t \<and> last_latch tot \<noteq> Some (ft_latch_count t)")
    case False
    then show ?thesis using Cons totals_add_stale [of t tot] by auto
  next
    case True
    note f = totals_add_fresh [OF True [THEN conjunct1] True [THEN conjunct2]]
    show ?thesis
      using Cons.IH [of "snd (ddd_fifo_telemetry_totals_add t tot)"] True
      by (simp add: f words_sum_def max.commute del: of_nat_unat word_of_nat_eq_iff)
  qed
qed

lemma words_sum_bound: "words_sum f ts \<le> length ts * 65535"
proof -
  have "unat (f t) \<le> 65535" for t using unsigned_less [of "f t", where ?'a = nat] by simp
  then show ?thesis
    unfolding words_sum_def by (induction ts) (simp_all add: add_mono)
qed

text \<open>Over a capture the totals count every snapshot once: with the snapshots whose latch
  count repeats left out, the overflow and dropped-word totals are the exact sums (they
  cannot wrap before 2 to the 48 snapshots), the peak percentage is the largest one seen,
  and the coverage flag is true exactly when no latch was missed.\<close>

theorem totals_exact:
  assumes "length ts < 2 ^ 48"
  shows "unat (tt_overflow_events (totals_of ts)) = words_sum ft_overflow_events (fresh None ts) \<and>
    unat (tt_dropped_words (totals_of ts)) = words_sum ft_dropped_words (fresh None ts) \<and>
    tt_interval_coverage_complete (totals_of ts) = gapless None (fresh None ts) \<and>
    tt_peak_backpressure_percent (totals_of ts) =
      Max (insert 0 ((\<lambda>t. ddd_fifo_backpressure_percent (Some t)) ` set (fresh None ts)))"
proof -
  let ?i = ddd_fifo_telemetry_totals_init
  have i: "last_latch ?i = None" "tt_interval_coverage_complete ?i" "tt_overflow_events ?i = 0"
    "tt_dropped_words ?i = 0" "tt_peak_backpressure_percent ?i = 0"
    by (simp_all add: last_latch_def ddd_fifo_telemetry_totals_init_def)
  have "length (fresh l ts) \<le> length ts" for l
    by (induction l ts rule: fresh.induct) auto
  then have "length (fresh None ts) < 2 ^ 48" using assms le_less_trans by blast
  then have b: "words_sum f (fresh None ts) < 2 ^ 64" for f
    using words_sum_bound [of f "fresh None ts"] by simp
  have "Max (set (0 # map (\<lambda>t. ddd_fifo_backpressure_percent (Some t)) (fresh None ts)))
      = fold max (map (\<lambda>t. ddd_fifo_backpressure_percent (Some t)) (fresh None ts)) 0"
    by (rule Max.set_eq_fold)
  then show ?thesis
    using totals_fold [of ts ?i] i b by (simp add: totals_of_def unat_of_nat_lt)
qed

definition sample_telemetry :: "u8 \<Rightarrow> u16 \<Rightarrow> ddd_fifo_telemetry" where
  "sample_telemetry latch events = (snd (ddd_fifo_telemetry_parse (Some sample_block)))
     \<lparr>ft_latch_count := latch, ft_overflow_events := events\<rparr>"

theorem totals_exact_witness:
  "unat (tt_overflow_events (totals_of
     [sample_telemetry 255 5, sample_telemetry 255 5, sample_telemetry 0 7])) = 12 \<and>
   tt_interval_coverage_complete (totals_of
     [sample_telemetry 255 5, sample_telemetry 255 5, sample_telemetry 0 7])"
proof -
  have "words_sum ft_overflow_events (fresh None
      [sample_telemetry 255 5, sample_telemetry 255 5, sample_telemetry 0 7]) = 12"
    and "gapless None (fresh None
      [sample_telemetry 255 5, sample_telemetry 255 5, sample_telemetry 0 7])"
    by code_simp+
  then show ?thesis
    using totals_exact [of "[sample_telemetry 255 5, sample_telemetry 255 5, sample_telemetry 0 7]"]
    by simp
qed

end
