(* ===== verification/Ddd_Collection.thy ===== *)
theory Ddd_Collection
  imports Ddd_Device
begin

text \<open>
  Starting, stopping and rolling back a protocol-v1 collection (common/ddd\_protocol.c).
  The control transfer is a function pointer of the caller, backed by libusb and a device:
  it is a parameter of every definition here, a function of the device state and of the
  request that gives its return value, the bytes it put into the buffer, and the next device
  state.  An absent ops structure, or one without a transfer function, is None.
\<close>

section \<open>Control transfers\<close>

record request =
  rq_type :: u8
  rq_request :: u8
  rq_value :: u16
  rq_index :: u16
  rq_length :: u16

type_synonym 'd transfer = "'d \<Rightarrow> request \<Rightarrow> int \<times> bytes \<times> 'd"

datatype ddd_protocol_result =
    DDD_PROTOCOL_OK
  | DDD_PROTOCOL_INVALID_ARGUMENT
  | DDD_PROTOCOL_UNSUPPORTED_PROFILE
  | DDD_PROTOCOL_UNSUPPORTED_DECIMATION
  | DDD_PROTOCOL_CONTROL_FAILURE
  | DDD_PROTOCOL_IDENTITY_MISMATCH
  | DDD_PROTOCOL_READBACK_MISMATCH

record ddd_collection_state =
  cs_profile :: ddd_device_profile
  cs_decimation_factor :: u8
  cs_sample_rate_hz :: u32
  cs_test_mode :: bool
  cs_configured :: bool
  cs_collection_start_attempted :: bool
  cs_collection_active :: bool
  cs_rollback_attempted :: bool
  cs_rollback_succeeded :: bool
  cs_identity :: bytes

abbreviation DDD_REQUEST_COLLECTION :: u8 where "DDD_REQUEST_COLLECTION \<equiv> 0xB5"
abbreviation DDD_REQUEST_REGISTER_READ :: u8 where "DDD_REQUEST_REGISTER_READ \<equiv> 0xB7"
abbreviation DDD_REQUEST_REGISTER_WRITE :: u8 where "DDD_REQUEST_REGISTER_WRITE \<equiv> 0xB8"
abbreviation DDD_REGISTER_IDENTITY :: u8 where "DDD_REGISTER_IDENTITY \<equiv> 0x00"
abbreviation DDD_REGISTER_TEST_MODE :: u8 where "DDD_REGISTER_TEST_MODE \<equiv> 0x10"
abbreviation DDD_REGISTER_DECIMATION :: u8 where "DDD_REGISTER_DECIMATION \<equiv> 0x12"

definition out_request :: "u8 \<Rightarrow> u16 \<Rightarrow> request" where
  "out_request rq v =
     \<lparr>rq_type = 0x40, rq_request = rq, rq_value = v, rq_index = 0, rq_length = 0\<rparr>"

definition in_request :: "u8 \<Rightarrow> u16 \<Rightarrow> u16 \<Rightarrow> request" where
  "in_request rq v n =
     \<lparr>rq_type = 0xC0, rq_request = rq, rq_value = v, rq_index = 0, rq_length = n\<rparr>"

text \<open>The buffer after a transfer delivered some bytes into it.\<close>

definition overlay :: "bytes \<Rightarrow> bytes \<Rightarrow> bytes" where
  "overlay buf data = take (length buf) data @ drop (length data) buf"

definition ddd_control_out :: "'d transfer \<Rightarrow> u8 \<Rightarrow> u16 \<Rightarrow> 'd \<Rightarrow> bool \<times> 'd" where
  "ddd_control_out tr rq v d =
     (case tr d (out_request rq v) of (rc, _, d') \<Rightarrow> (rc = 0, d'))"

definition ddd_control_in ::
  "'d transfer \<Rightarrow> u8 \<Rightarrow> u16 \<Rightarrow> bytes \<Rightarrow> 'd \<Rightarrow> bool \<times> bytes \<times> 'd" where
  "ddd_control_in tr rq v buf d =
     (case tr d (in_request rq v (of_nat (length buf))) of
        (rc, data, d') \<Rightarrow> (rc = int (length buf), overlay buf data, d'))"

definition ddd_write_register :: "'d transfer \<Rightarrow> u8 \<Rightarrow> u8 \<Rightarrow> 'd \<Rightarrow> bool \<times> 'd" where
  "ddd_write_register tr address v d =
     ddd_control_out tr DDD_REQUEST_REGISTER_WRITE (ddd_make_register_write address v) d"

definition ddd_read_register :: "'d transfer \<Rightarrow> u8 \<Rightarrow> u8 \<Rightarrow> 'd \<Rightarrow> bool \<times> u8 \<times> 'd" where
  "ddd_read_register tr address v d =
     (case ddd_control_in tr DDD_REQUEST_REGISTER_READ (ucast address) [v] d of
        (ok, buf, d') \<Rightarrow> (ok, hd buf, d'))"

section \<open>The collection\<close>

definition ddd_collection_state_init :: ddd_collection_state where
  "ddd_collection_state_init = \<lparr>cs_profile = DDD_DEVICE_NOT_DDD, cs_decimation_factor = 0,
     cs_sample_rate_hz = 0, cs_test_mode = False, cs_configured = False,
     cs_collection_start_attempted = False, cs_collection_active = False,
     cs_rollback_attempted = False, cs_rollback_succeeded = False,
     cs_identity = replicate 12 0\<rparr>"

definition ddd_restore_safe_defaults :: "'d transfer \<Rightarrow> 'd \<Rightarrow> ddd_protocol_result \<times> 'd" where
  "ddd_restore_safe_defaults tr d =
     (case ddd_write_register tr DDD_REGISTER_TEST_MODE 0 d of (ok1, d1) \<Rightarrow>
      case ddd_write_register tr DDD_REGISTER_DECIMATION 1 d1 of (ok2, d2) \<Rightarrow>
      case ddd_read_register tr DDD_REGISTER_TEST_MODE 255 d2 of (ok3, test_mode, d3) \<Rightarrow>
      case ddd_read_register tr DDD_REGISTER_DECIMATION 255 d3 of (ok4, decimation, d4) \<Rightarrow>
      let transfer_failed = (\<not> ok1 \<or> \<not> ok2 \<or> \<not> ok3 \<or> \<not> ok4);
          mismatch = ((ok3 \<and> test_mode \<noteq> 0) \<or> (ok4 \<and> decimation \<noteq> 1)) in
      (if transfer_failed then DDD_PROTOCOL_CONTROL_FAILURE
       else if mismatch then DDD_PROTOCOL_READBACK_MISMATCH else DDD_PROTOCOL_OK, d4))"

definition ddd_collection_rollback_v1 ::
  "'d transfer option \<Rightarrow> ddd_collection_state option \<Rightarrow> 'd \<Rightarrow>
   ddd_protocol_result \<times> ddd_collection_state option \<times> 'd" where
  "ddd_collection_rollback_v1 ops state d =
     (case (ops, state) of
        (Some tr, Some s) \<Rightarrow>
          if cs_profile s \<noteq> DDD_DEVICE_PROTOCOL_V1
          then (DDD_PROTOCOL_UNSUPPORTED_PROFILE, state, d)
          else let s1 = s\<lparr>cs_rollback_attempted := True\<rparr> in
            (case (if cs_collection_start_attempted s1 \<or> cs_collection_active s1
                   then ddd_control_out tr DDD_REQUEST_COLLECTION 0 d else (True, d)) of
               (stop_ok, d1) \<Rightarrow>
             case ddd_restore_safe_defaults tr d1 of (restore, d2) \<Rightarrow>
             let result = (if stop_ok then restore else DDD_PROTOCOL_CONTROL_FAILURE);
                 s2 = (if stop_ok then s1\<lparr>cs_collection_start_attempted := False,
                                          cs_collection_active := False\<rparr> else s1);
                 s3 = s2\<lparr>cs_configured := False,
                         cs_rollback_succeeded := (result = DDD_PROTOCOL_OK)\<rparr> in
             (result, Some s3, d2))
      | _ \<Rightarrow> (DDD_PROTOCOL_INVALID_ARGUMENT, state, d))"

text \<open>The exits of the start that roll back.\<close>

definition start_abort ::
  "'d transfer \<Rightarrow> ddd_protocol_result \<Rightarrow> ddd_collection_state \<Rightarrow> 'd \<Rightarrow>
   ddd_protocol_result \<times> ddd_collection_state option \<times> 'd" where
  "start_abort tr result s d =
     (case ddd_collection_rollback_v1 (Some tr) (Some s) d of (_, s', d') \<Rightarrow> (result, s', d'))"

definition ddd_collection_start_v1 ::
  "'d transfer option \<Rightarrow> bool \<Rightarrow> u8 \<Rightarrow> ddd_collection_state option \<Rightarrow> 'd \<Rightarrow>
   ddd_protocol_result \<times> ddd_collection_state option \<times> 'd" where
  "ddd_collection_start_v1 ops test_mode factor state d =
     (case (ops, state) of
        (Some tr, Some _) \<Rightarrow>
          let test_byte = (if test_mode then 1 else 0);
              s = ddd_collection_state_init\<lparr>cs_profile := DDD_DEVICE_PROTOCOL_V1,
                    cs_test_mode := test_mode, cs_decimation_factor := factor,
                    cs_sample_rate_hz := ddd_sample_rate_hz factor\<rparr> in
          if \<not> ddd_decimation_is_supported factor
          then (DDD_PROTOCOL_UNSUPPORTED_DECIMATION, Some s, d)
          else case ddd_control_in tr DDD_REQUEST_REGISTER_READ (ucast DDD_REGISTER_IDENTITY)
                      (replicate 12 0) d of (ok, identity, d1) \<Rightarrow>
          if \<not> ok then (DDD_PROTOCOL_CONTROL_FAILURE, Some s, d1)
          else if \<not> ddd_identity_is_supported (Some identity)
          then (DDD_PROTOCOL_IDENTITY_MISMATCH, Some s, d1)
          else let s = s\<lparr>cs_identity := identity\<rparr> in
          case ddd_write_register tr DDD_REGISTER_TEST_MODE test_byte d1 of (ok, d2) \<Rightarrow>
          if \<not> ok then start_abort tr DDD_PROTOCOL_CONTROL_FAILURE s d2
          else case ddd_write_register tr DDD_REGISTER_DECIMATION factor d2 of (ok, d3) \<Rightarrow>
          if \<not> ok then start_abort tr DDD_PROTOCOL_CONTROL_FAILURE s d3
          else case ddd_read_register tr DDD_REGISTER_TEST_MODE 0 d3 of (ok, readback, d4) \<Rightarrow>
          if \<not> ok then start_abort tr DDD_PROTOCOL_CONTROL_FAILURE s d4
          else if readback \<noteq> test_byte then start_abort tr DDD_PROTOCOL_READBACK_MISMATCH s d4
          else case ddd_read_register tr DDD_REGISTER_DECIMATION readback d4 of
            (ok, readback, d5) \<Rightarrow>
          if \<not> ok then start_abort tr DDD_PROTOCOL_CONTROL_FAILURE s d5
          else if readback \<noteq> factor then start_abort tr DDD_PROTOCOL_READBACK_MISMATCH s d5
          else let s = s\<lparr>cs_configured := True, cs_collection_start_attempted := True\<rparr> in
          case ddd_control_out tr DDD_REQUEST_COLLECTION 1 d5 of (ok, d6) \<Rightarrow>
          if \<not> ok then start_abort tr DDD_PROTOCOL_CONTROL_FAILURE s d6
          else (DDD_PROTOCOL_OK, Some (s\<lparr>cs_collection_active := True\<rparr>), d6)
      | _ \<Rightarrow> (DDD_PROTOCOL_INVALID_ARGUMENT, state, d))"

definition ddd_collection_stop_v1 ::
  "'d transfer option \<Rightarrow> ddd_collection_state option \<Rightarrow> 'd \<Rightarrow>
   ddd_protocol_result \<times> ddd_collection_state option \<times> 'd" where
  "ddd_collection_stop_v1 ops state d =
     (case (ops, state) of
        (Some tr, Some s) \<Rightarrow>
          if cs_profile s \<noteq> DDD_DEVICE_PROTOCOL_V1
          then (DDD_PROTOCOL_UNSUPPORTED_PROFILE, state, d)
          else if \<not> cs_collection_start_attempted s \<and> \<not> cs_collection_active s
          then (DDD_PROTOCOL_OK, state, d)
          else (case ddd_control_out tr DDD_REQUEST_COLLECTION 0 d of (ok, d1) \<Rightarrow>
                if \<not> ok then (DDD_PROTOCOL_CONTROL_FAILURE, state, d1)
                else (DDD_PROTOCOL_OK, Some (s\<lparr>cs_collection_start_attempted := False,
                        cs_collection_active := False\<rparr>), d1))
      | _ \<Rightarrow> (DDD_PROTOCOL_INVALID_ARGUMENT, state, d))"

section \<open>Observing the transfers\<close>

text \<open>A transfer function that also records every request, the oldest first.\<close>

definition logged :: "'d transfer \<Rightarrow> ('d \<times> request list) transfer" where
  "logged tr dl rq = (case tr (fst dl) rq of (rc, data, d') \<Rightarrow> (rc, data, (d', snd dl @ [rq])))"

definition write_rq :: "u8 \<Rightarrow> u8 \<Rightarrow> request" where
  "write_rq a v = out_request DDD_REQUEST_REGISTER_WRITE (ddd_make_register_write a v)"

definition read_rq :: "u8 \<Rightarrow> u16 \<Rightarrow> request" where
  "read_rq a n = in_request DDD_REQUEST_REGISTER_READ (ucast a) n"

definition collect_rq :: "u16 \<Rightarrow> request" where
  "collect_rq v = out_request DDD_REQUEST_COLLECTION v"

definition restore_log :: "request list" where
  "restore_log = [write_rq DDD_REGISTER_TEST_MODE 0, write_rq DDD_REGISTER_DECIMATION 1,
     read_rq DDD_REGISTER_TEST_MODE 1, read_rq DDD_REGISTER_DECIMATION 1]"

definition configure_log :: "bool \<Rightarrow> u8 \<Rightarrow> request list" where
  "configure_log test_mode factor = [read_rq DDD_REGISTER_IDENTITY 12,
     write_rq DDD_REGISTER_TEST_MODE (if test_mode then 1 else 0),
     write_rq DDD_REGISTER_DECIMATION factor,
     read_rq DDD_REGISTER_TEST_MODE 1, read_rq DDD_REGISTER_DECIMATION 1, collect_rq 1]"

lemma logged_out:
  "ddd_control_out (logged tr) rq v (d, l) =
     (case ddd_control_out tr rq v d of (ok, d') \<Rightarrow> (ok, (d', l @ [out_request rq v])))"
  by (simp add: ddd_control_out_def logged_def split: prod.split)

lemma logged_in:
  "ddd_control_in (logged tr) rq v buf (d, l) =
     (case ddd_control_in tr rq v buf d of
        (ok, data, d') \<Rightarrow> (ok, data, (d', l @ [in_request rq v (of_nat (length buf))])))"
  by (simp add: ddd_control_in_def logged_def split: prod.split)

lemma logged_write:
  "ddd_write_register (logged tr) a v (d, l) =
     (case ddd_write_register tr a v d of (ok, d') \<Rightarrow> (ok, (d', l @ [write_rq a v])))"
  by (simp add: ddd_write_register_def logged_out write_rq_def)

lemma logged_read:
  "ddd_read_register (logged tr) a v (d, l) =
     (case ddd_read_register tr a v d of (ok, x, d') \<Rightarrow> (ok, x, (d', l @ [read_rq a 1])))"
  by (simp add: ddd_read_register_def logged_in read_rq_def split: prod.split)

lemma logged_restore:
  "ddd_restore_safe_defaults (logged tr) (d, l) =
     (case ddd_restore_safe_defaults tr d of (r, d') \<Rightarrow> (r, (d', l @ restore_log)))"
  by (simp add: ddd_restore_safe_defaults_def logged_write logged_read restore_log_def Let_def
      split: prod.split)

lemma logged_rollback:
  assumes "cs_profile s = DDD_DEVICE_PROTOCOL_V1" "\<not> cs_collection_active s"
  shows "ddd_collection_rollback_v1 (Some (logged tr)) (Some s) (d, l) =
     (case ddd_collection_rollback_v1 (Some tr) (Some s) d of
        (r, s', d') \<Rightarrow> (r, s', (d', l @
          (if cs_collection_start_attempted s then [collect_rq 0] else []) @ restore_log)))"
  using assms
  by (simp add: ddd_collection_rollback_v1_def logged_out logged_restore collect_rq_def Let_def
      split: prod.split)

lemma rollback_inactive:
  assumes "ddd_collection_rollback_v1 ops (Some s) d = (r, s', d')" "\<not> cs_collection_active s"
  obtains t where "s' = Some t" "\<not> cs_collection_active t"
  using assms
  by (auto simp: ddd_collection_rollback_v1_def Let_def split: option.splits prod.splits if_splits)

lemma start_abort_log:
  assumes "start_abort (logged tr) r s (d, l) = (r', s', (d', l'))"
    and "cs_profile s = DDD_DEVICE_PROTOCOL_V1" "\<not> cs_collection_active s"
  shows "r' = r \<and> (\<exists>t. s' = Some t \<and> \<not> cs_collection_active t) \<and>
    l' = l @ (if cs_collection_start_attempted s then [collect_rq 0] else []) @ restore_log"
proof -
  obtain r1 s1 d1 where rb: "ddd_collection_rollback_v1 (Some tr) (Some s) d = (r1, s1, d1)"
    by (metis prod_cases3)
  show ?thesis
    using assms rb rollback_inactive [OF rb]
    by (fastforce simp: start_abort_def logged_rollback)
qed

text \<open>The log of a start that failed after its first k transfers: nothing is undone while
  nothing was written, and from the first register write on everything is.\<close>

definition failed_log :: "bool \<Rightarrow> u8 \<Rightarrow> nat \<Rightarrow> request list" where
  "failed_log test_mode factor k = take k (configure_log test_mode factor) @
     (if k = 6 then [collect_rq 0] else []) @ (if 2 \<le> k then restore_log else [])"

definition start_log_ok ::
  "bool \<Rightarrow> u8 \<Rightarrow> ddd_protocol_result \<Rightarrow> ddd_collection_state option \<Rightarrow> request list \<Rightarrow> bool" where
  "start_log_ok test_mode factor r s l =
     (case s of
        None \<Rightarrow> False
      | Some t \<Rightarrow>
          if r = DDD_PROTOCOL_OK
          then l = configure_log test_mode factor \<and> cs_collection_active t \<and> cs_configured t
          else \<not> cs_collection_active t \<and> (\<exists>k\<le>6. l = failed_log test_mode factor k))"

lemma start_abort_log_ok:
  assumes "start_abort (logged tr) r s (d, take k (configure_log test_mode factor))
        = (r', s', (d', l'))"
    and "cs_profile s = DDD_DEVICE_PROTOCOL_V1" "\<not> cs_collection_active s" "r \<noteq> DDD_PROTOCOL_OK"
    and "2 \<le> k" "k \<le> 6"
    and "cs_collection_start_attempted s = (k = 6)"
  shows "start_log_ok test_mode factor r' s' l'"
proof -
  have "l' = failed_log test_mode factor k"
    using start_abort_log [OF assms(1-3)] assms(5-7) by (simp add: failed_log_def)
  then show ?thesis
    using start_abort_log [OF assms(1-3)] assms(4,6) by (auto simp: start_log_ok_def)
qed

lemma start_early_log_ok:
  assumes "r \<noteq> DDD_PROTOCOL_OK" "\<not> cs_collection_active t" "k < 2"
  shows "start_log_ok test_mode factor r (Some t) (take k (configure_log test_mode factor))"
proof -
  have "take k (configure_log test_mode factor) = failed_log test_mode factor k" "k \<le> 6"
    using assms(3) by (simp_all add: failed_log_def)
  then show ?thesis using assms(1,2) by (auto simp: start_log_ok_def)
qed

lemma start_log_ok_start:
  assumes "ddd_collection_start_v1 (Some (logged tr)) test_mode factor (Some s0) (d, []) = (r, s, (d', l))"
  shows "start_log_ok test_mode factor r s l"
proof -
  let ?b = "if test_mode then 1 else 0 :: u8"
  obtain ok1 idb d1 where t1: "ddd_control_in tr DDD_REQUEST_REGISTER_READ
      (ucast DDD_REGISTER_IDENTITY) (replicate 12 0) d = (ok1, idb, d1)" by (metis prod_cases3)
  obtain ok2 d2 where t2: "ddd_write_register tr DDD_REGISTER_TEST_MODE ?b d1 = (ok2, d2)"
    by fastforce
  obtain ok3 d3 where t3: "ddd_write_register tr DDD_REGISTER_DECIMATION factor d2 = (ok3, d3)"
    by fastforce
  obtain ok4 v4 d4 where t4: "ddd_read_register tr DDD_REGISTER_TEST_MODE 0 d3 = (ok4, v4, d4)"
    by (metis prod_cases3)
  obtain ok5 v5 d5 where t5: "ddd_read_register tr DDD_REGISTER_DECIMATION v4 d4 = (ok5, v5, d5)"
    by (metis prod_cases3)
  obtain ok6 d6 where t6: "ddd_control_out tr DDD_REQUEST_COLLECTION 1 d5 = (ok6, d6)"
    by fastforce
  define s1 where "s1 = ddd_collection_state_init\<lparr>cs_profile := DDD_DEVICE_PROTOCOL_V1,
      cs_test_mode := test_mode, cs_decimation_factor := factor,
      cs_sample_rate_hz := ddd_sample_rate_hz factor\<rparr>"
  have s1: "cs_profile s1 = DDD_DEVICE_PROTOCOL_V1" "\<not> cs_collection_active s1"
    "\<not> cs_collection_start_attempted s1"
    by (simp_all add: s1_def ddd_collection_state_init_def)
  let ?c = "configure_log test_mode factor"
  have logs: "[] @ [in_request DDD_REQUEST_REGISTER_READ (ucast DDD_REGISTER_IDENTITY)
       (of_nat (length (replicate 12 (0 :: u8))))] = take 1 ?c"
    "take 1 ?c @ [write_rq DDD_REGISTER_TEST_MODE ?b] = take 2 ?c"
    "take 2 ?c @ [write_rq DDD_REGISTER_DECIMATION factor] = take 3 ?c"
    "take 3 ?c @ [read_rq DDD_REGISTER_TEST_MODE 1] = take 4 ?c"
    "take 4 ?c @ [read_rq DDD_REGISTER_DECIMATION 1] = take 5 ?c"
    "take 5 ?c @ [out_request DDD_REQUEST_COLLECTION 1] = take 6 ?c"
    by (simp_all add: configure_log_def read_rq_def collect_rq_def)
  have early: "q \<noteq> DDD_PROTOCOL_OK \<Longrightarrow> start_log_ok test_mode factor q (Some s1) []"
    "q \<noteq> DDD_PROTOCOL_OK \<Longrightarrow> start_log_ok test_mode factor q (Some s1) (take (Suc 0) ?c)" for q
    using start_early_log_ok [of q s1 0 test_mode factor]
      start_early_log_ok [of q s1 1 test_mode factor] s1 by simp_all
  show ?thesis
    using assms unfolding ddd_collection_start_v1_def
    by (simp only: option.case prod.case Let_def logged_write logged_read logged_in logged_out
        t1 t2 t3 t4 t5 t6 s1_def [symmetric] logs)
      (auto simp: s1 start_log_ok_def [where r = DDD_PROTOCOL_OK] split: if_splits
        intro: early start_abort_log_ok, simp_all add: configure_log_def)
qed

section \<open>Properties\<close>


text \<open>What the device is documented to do: a register read that succeeds returns the register
  and changes none, and the collection request changes no register.\<close>

definition reads_registers :: "'d transfer \<Rightarrow> ('d \<Rightarrow> u8 \<Rightarrow> u8) \<Rightarrow> bool" where
  "reads_registers tr reg \<longleftrightarrow>
     (\<forall>d a data d'. tr d (read_rq a 1) = (1, data, d') \<longrightarrow> data = [reg d a] \<and> reg d' = reg d) \<and>
     (\<forall>d v rc data d'. tr d (collect_rq v) = (rc, data, d') \<longrightarrow> reg d' = reg d)"

lemma read_register_value:
  assumes "reads_registers tr reg" "ddd_read_register tr a v d = (True, x, d')"
  shows "x = reg d a \<and> reg d' = reg d"
proof -
  obtain rc data where t: "tr d (read_rq a 1) = (rc, data, d')" "rc = 1"
    "x = hd (overlay [v] data)"
    using assms(2) by (auto simp: ddd_read_register_def ddd_control_in_def read_rq_def
        split: prod.splits)
  then have "data = [reg d a] \<and> reg d' = reg d"
    using assms(1) unfolding reads_registers_def by blast
  then show ?thesis using t by (simp add: overlay_def)
qed

lemma collect_keeps:
  assumes "reads_registers tr reg" "ddd_control_out tr DDD_REQUEST_COLLECTION v d = (ok, d')"
  shows "reg d' = reg d"
proof -
  obtain rc data where "tr d (collect_rq v) = (rc, data, d')"
    using assms(2) by (auto simp: ddd_control_out_def collect_rq_def split: prod.splits)
  then show ?thesis using assms(1) unfolding reads_registers_def by blast
qed

definition safe_registers :: "('d \<Rightarrow> u8 \<Rightarrow> u8) \<Rightarrow> 'd \<Rightarrow> bool" where
  "safe_registers reg d = (reg d DDD_REGISTER_TEST_MODE = 0 \<and> reg d DDD_REGISTER_DECIMATION = 1)"

lemma restore_safe:
  assumes "reads_registers tr reg" "ddd_restore_safe_defaults tr d = (DDD_PROTOCOL_OK, d')"
  shows "safe_registers reg d'"
proof -
  obtain d2 x3 d3 x4 where "ddd_read_register tr DDD_REGISTER_TEST_MODE 255 d2 = (True, x3, d3)"
    "x3 = 0" "ddd_read_register tr DDD_REGISTER_DECIMATION 255 d3 = (True, x4, d')" "x4 = 1"
    using assms(2)
    by (auto simp: ddd_restore_safe_defaults_def Let_def split: prod.splits if_splits)
  then show ?thesis
    using read_register_value [OF assms(1)] unfolding safe_registers_def by metis
qed

lemma rollback_safe:
  assumes "reads_registers tr reg"
    and "ddd_collection_rollback_v1 (Some tr) (Some s) d = (r, Some s', d')"
    and "cs_profile s = DDD_DEVICE_PROTOCOL_V1" "cs_rollback_succeeded s'"
  shows "safe_registers reg d'"
  using assms restore_safe [OF assms(1)]
  by (auto simp: ddd_collection_rollback_v1_def Let_def split: prod.splits if_splits)

lemma start_abort_safe:
  assumes "reads_registers tr reg" "start_abort tr r s d = (r', Some s', d')"
    and "cs_profile s = DDD_DEVICE_PROTOCOL_V1" "cs_rollback_succeeded s'"
  shows "safe_registers reg d'"
  using assms rollback_safe [OF assms(1) _ assms(3)]
  by (fastforce simp: start_abort_def split: prod.splits)


text \<open>A device that is nothing but its registers.\<close>

definition register_device :: "(u8 \<Rightarrow> u8) transfer" where
  "register_device d rq =
     (if rq_request rq = DDD_REQUEST_REGISTER_WRITE
      then (0, [], d(ucast (drop_bit 8 (rq_value rq)) := ucast (rq_value rq)))
      else if rq_request rq = DDD_REQUEST_REGISTER_READ
      then (uint (rq_length rq),
            map (\<lambda>i. d (ucast (rq_value rq) + of_nat i)) [0..<unat (rq_length rq)], d)
      else (0, [], d))"

definition fresh_registers :: "u8 \<Rightarrow> u8" where
  "fresh_registers = (\<lambda>_. 0)(0 := 0x44, 1 := 2, 11 := 1)"

lemma register_device_reads: "reads_registers register_device id"
proof -
  have "ucast (ucast a :: u16) = a" for a :: u8
    by (rule bit_word_eqI) (simp add: bit_simps)
  then show ?thesis
    by (simp add: reads_registers_def register_device_def read_rq_def in_request_def
      collect_rq_def out_request_def)
qed


section \<open>Stopping\<close>

definition collection_wf :: "ddd_collection_state \<Rightarrow> bool" where
  "collection_wf s = (cs_collection_active s \<longrightarrow> cs_collection_start_attempted s)"

lemma rollback_wf [inv_pres]:
  assumes "collection_wf s" "ddd_collection_rollback_v1 (Some tr) (Some s) d = (r, Some s', d')"
  shows "collection_wf s'"
  using assms
  by (auto simp: ddd_collection_rollback_v1_def collection_wf_def Let_def
      split: prod.splits if_splits)

lemma stop_wf [inv_pres]:
  assumes "collection_wf s" "ddd_collection_stop_v1 (Some tr) (Some s) d = (r, Some s', d')"
  shows "collection_wf s'"
  using assms
  by (auto simp: ddd_collection_stop_v1_def collection_wf_def split: prod.splits if_splits)

text \<open>Stopping a protocol-v1 collection either succeeds, leaves the collection inactive and
  sends the stop request exactly when a start had been attempted, or fails, and then leaves
  the recorded state as it was so that the stop can be repeated.\<close>

theorem collection_stop:
  assumes "cs_profile s = DDD_DEVICE_PROTOCOL_V1" "collection_wf s"
  shows "(case ddd_collection_stop_v1 (Some (logged tr)) (Some s) (d, l) of
      (r, s', (d', l')) \<Rightarrow>
        l' = l @ (if cs_collection_start_attempted s then [collect_rq 0] else []) \<and>
        (if r = DDD_PROTOCOL_OK
         then (\<exists>t. s' = Some t \<and> \<not> cs_collection_active t \<and> \<not> cs_collection_start_attempted t)
         else r = DDD_PROTOCOL_CONTROL_FAILURE \<and> s' = Some s))"
  using assms
  by (auto simp: ddd_collection_stop_v1_def logged_out collect_rq_def collection_wf_def
      split: prod.splits if_splits)

theorem collection_stop_witness:
  "(case ddd_collection_stop_v1 (Some (logged register_device))
           (Some (ddd_collection_state_init\<lparr>cs_profile := DDD_DEVICE_PROTOCOL_V1,
              cs_collection_start_attempted := True, cs_collection_active := True\<rparr>))
           (fresh_registers, []) of
      (r, s', (d', l')) \<Rightarrow> l' = [collect_rq 0])"
  using collection_stop [of "ddd_collection_state_init\<lparr>cs_profile := DDD_DEVICE_PROTOCOL_V1,
      cs_collection_start_attempted := True, cs_collection_active := True\<rparr>"
      "[]" register_device fresh_registers]
  by (auto simp: collection_wf_def split: prod.splits)

end
