(* ===== verification/Ddd_Validators.thy ===== *)
theory Ddd_Validators
  imports Prelude
begin

text \<open>
  The two stream validators of common/ddd\_protocol.c: the six-bit sequence markers in the
  upper bits of the sample words, whose block length is learned from the first complete
  block, and the ten-bit test ramp, whose wrap value is learned from the first wrap.  Both
  are fed in chunks; a chunk is a list, and a NULL pointer with a nonzero count is None.
\<close>

section \<open>Sequence markers\<close>

datatype ddd_validation_result =
    DDD_VALIDATION_OK
  | DDD_VALIDATION_MISMATCH
  | DDD_VALIDATION_INVALID_ARGUMENT

datatype ddd_sequence_phase =
    DDD_SEQUENCE_SYNCHRONIZING
  | DDD_SEQUENCE_RUNNING
  | DDD_SEQUENCE_FAILED

record ddd_sequence_validator =
  sv_phase :: ddd_sequence_phase
  sv_marker_seen :: bool
  sv_marker :: u8
  sv_samples_in_marker :: u32
  sv_samples_per_marker :: u32
  sv_samples_seen :: u64
  sv_error_sample_index :: u64
  sv_expected_marker :: u8
  sv_actual_marker :: u8

abbreviation DDD_SEQUENCE_MARKER_COUNT :: u8 where "DDD_SEQUENCE_MARKER_COUNT \<equiv> 63"
abbreviation DDD_SEQUENCE_SAMPLES_PER_MARKER :: u32 where
  "DDD_SEQUENCE_SAMPLES_PER_MARKER \<equiv> 65535"
abbreviation DDD_SEQUENCE_LEGACY_SAMPLES_PER_MARKER :: u32 where
  "DDD_SEQUENCE_LEGACY_SAMPLES_PER_MARKER \<equiv> 65536"

definition ddd_sequence_validator_init :: ddd_sequence_validator where
  "ddd_sequence_validator_init = \<lparr>sv_phase = DDD_SEQUENCE_SYNCHRONIZING, sv_marker_seen = False,
     sv_marker = 0, sv_samples_in_marker = 0, sv_samples_per_marker = 0, sv_samples_seen = 0,
     sv_error_sample_index = 0, sv_expected_marker = 0, sv_actual_marker = 0\<rparr>"

definition sample_marker :: "u16 \<Rightarrow> u8" where
  "sample_marker w = ucast (and (drop_bit 10 w) 0x3F)"

definition ddd_next_sequence_marker :: "u8 \<Rightarrow> u8" where
  "ddd_next_sequence_marker marker =
     (let m = marker + 1 in if m = DDD_SEQUENCE_MARKER_COUNT then 0 else m)"

definition ddd_sequence_fail ::
  "u8 \<Rightarrow> u8 \<Rightarrow> ddd_sequence_validator \<Rightarrow> ddd_sequence_validator" where
  "ddd_sequence_fail expected actual s =
     s\<lparr>sv_phase := DDD_SEQUENCE_FAILED, sv_error_sample_index := sv_samples_seen s,
       sv_expected_marker := expected, sv_actual_marker := actual\<rparr>"

text \<open>One iteration of the loop: None where it leaves the loop with a mismatch is paired with
  the failed state; otherwise the marker limit for the next iteration.\<close>

definition sequence_sample ::
  "u32 \<Rightarrow> u8 \<Rightarrow> ddd_sequence_validator \<Rightarrow> u32 option \<times> ddd_sequence_validator" where
  "sequence_sample limit actual s =
     (if DDD_SEQUENCE_MARKER_COUNT \<le> actual then (None, ddd_sequence_fail 0 actual s)
      else if \<not> sv_marker_seen s then
        (Some limit, s\<lparr>sv_marker_seen := True, sv_marker := actual, sv_samples_in_marker := 1,
                       sv_samples_seen := sv_samples_seen s + 1\<rparr>)
      else if sv_phase s = DDD_SEQUENCE_SYNCHRONIZING then
        (if actual = sv_marker s then
           (if sv_samples_in_marker s = limit
            then (None, ddd_sequence_fail (ddd_next_sequence_marker (sv_marker s)) actual s)
            else (Some limit, s\<lparr>sv_samples_in_marker := sv_samples_in_marker s + 1,
                                sv_samples_seen := sv_samples_seen s + 1\<rparr>))
         else if actual \<noteq> ddd_next_sequence_marker (sv_marker s)
         then (None, ddd_sequence_fail (ddd_next_sequence_marker (sv_marker s)) actual s)
         else (Some limit, s\<lparr>sv_phase := DDD_SEQUENCE_RUNNING, sv_marker := actual,
                 sv_samples_in_marker := 1, sv_samples_seen := sv_samples_seen s + 1\<rparr>))
      else if actual = sv_marker s then
        (if sv_samples_in_marker s = limit
         then (None, ddd_sequence_fail (ddd_next_sequence_marker (sv_marker s)) actual s)
         else (Some limit, s\<lparr>sv_samples_in_marker := sv_samples_in_marker s + 1,
                             sv_samples_seen := sv_samples_seen s + 1\<rparr>))
      else
        (let length_matches =
           (if sv_samples_per_marker s \<noteq> 0
            then sv_samples_in_marker s = sv_samples_per_marker s
            else sv_samples_in_marker s = DDD_SEQUENCE_SAMPLES_PER_MARKER \<or>
                 sv_samples_in_marker s = DDD_SEQUENCE_LEGACY_SAMPLES_PER_MARKER) in
         if \<not> length_matches then (None, ddd_sequence_fail (sv_marker s) actual s)
         else if actual \<noteq> ddd_next_sequence_marker (sv_marker s)
         then (None, ddd_sequence_fail (ddd_next_sequence_marker (sv_marker s)) actual s)
         else let learn = (sv_samples_per_marker s = 0);
                  s1 = (if learn then s\<lparr>sv_samples_per_marker := sv_samples_in_marker s\<rparr> else s) in
           (Some (if learn then sv_samples_per_marker s1 else limit),
            s1\<lparr>sv_marker := actual, sv_samples_in_marker := 1,
               sv_samples_seen := sv_samples_seen s1 + 1\<rparr>)))"

fun sequence_loop ::
  "u32 \<Rightarrow> u16 list \<Rightarrow> ddd_sequence_validator \<Rightarrow> ddd_validation_result \<times> ddd_sequence_validator" where
  "sequence_loop limit [] s = (DDD_VALIDATION_OK, s)"
| "sequence_loop limit (w # ws) s =
     (case sequence_sample limit (sample_marker w) s of
        (None, s') \<Rightarrow> (DDD_VALIDATION_MISMATCH, s')
      | (Some limit', s') \<Rightarrow> sequence_loop limit' ws s')"

definition marker_limit :: "ddd_sequence_validator \<Rightarrow> u32" where
  "marker_limit s =
     (if sv_samples_per_marker s \<noteq> 0 then sv_samples_per_marker s
      else DDD_SEQUENCE_LEGACY_SAMPLES_PER_MARKER)"

definition sequence_feed ::
  "ddd_sequence_validator \<Rightarrow> u16 list \<Rightarrow> ddd_validation_result \<times> ddd_sequence_validator" where
  "sequence_feed s ws =
     (if sv_phase s = DDD_SEQUENCE_FAILED then (DDD_VALIDATION_MISMATCH, s)
      else sequence_loop (marker_limit s) ws s)"

definition ddd_sequence_validator_feed ::
  "ddd_sequence_validator option \<Rightarrow> u16 list option \<Rightarrow>
   ddd_validation_result \<times> ddd_sequence_validator option" where
  "ddd_sequence_validator_feed state sample_words =
     (case (state, sample_words) of
        (Some s, Some ws) \<Rightarrow> (case sequence_feed s ws of (r, s') \<Rightarrow> (r, Some s'))
      | _ \<Rightarrow> (DDD_VALIDATION_INVALID_ARGUMENT, state))"

section \<open>Test ramp\<close>

record ddd_test_ramp_validator =
  rv_armed :: bool
  rv_failed :: bool
  rv_wrap_detected :: bool
  rv_expected_next :: u16
  rv_wrap_value :: u16
  rv_samples_seen :: u64
  rv_error_sample_index :: u64
  rv_expected_value :: u16
  rv_actual_value :: u16

definition ddd_test_ramp_validator_init :: ddd_test_ramp_validator where
  "ddd_test_ramp_validator_init = \<lparr>rv_armed = False, rv_failed = False,
     rv_wrap_detected = False, rv_expected_next = 0, rv_wrap_value = 0, rv_samples_seen = 0,
     rv_error_sample_index = 0, rv_expected_value = 0, rv_actual_value = 0\<rparr>"

definition ddd_test_ramp_fail ::
  "u16 \<Rightarrow> u16 \<Rightarrow> ddd_test_ramp_validator \<Rightarrow> ddd_test_ramp_validator" where
  "ddd_test_ramp_fail expected actual s =
     s\<lparr>rv_failed := True, rv_error_sample_index := rv_samples_seen s,
       rv_expected_value := expected, rv_actual_value := actual\<rparr>"

definition ramp_value :: "u16 \<Rightarrow> u16" where
  "ramp_value w = and w 0x03FF"

definition ramp_sample ::
  "u16 \<Rightarrow> ddd_test_ramp_validator \<Rightarrow> bool \<times> ddd_test_ramp_validator" where
  "ramp_sample actual s =
     (if \<not> rv_armed s then
        (True, s\<lparr>rv_armed := True, rv_expected_next := actual + 1,
                 rv_samples_seen := rv_samples_seen s + 1\<rparr>)
      else if \<not> rv_wrap_detected s \<and> actual = 0 \<and>
              (rv_expected_next s = 1021 \<or> rv_expected_next s = 1024) then
        (True, s\<lparr>rv_wrap_detected := True, rv_wrap_value := rv_expected_next s,
                 rv_expected_next := 1, rv_samples_seen := rv_samples_seen s + 1\<rparr>)
      else if actual \<noteq> rv_expected_next s
      then (False, ddd_test_ramp_fail (rv_expected_next s) actual s)
      else let next = rv_expected_next s + 1 in
        (True, s\<lparr>rv_expected_next :=
                   (if rv_wrap_detected s \<and> next = rv_wrap_value s then 0 else next),
                 rv_samples_seen := rv_samples_seen s + 1\<rparr>))"

fun ramp_loop ::
  "u16 list \<Rightarrow> ddd_test_ramp_validator \<Rightarrow> ddd_validation_result \<times> ddd_test_ramp_validator" where
  "ramp_loop [] s = (DDD_VALIDATION_OK, s)"
| "ramp_loop (w # ws) s =
     (case ramp_sample (ramp_value w) s of
        (False, s') \<Rightarrow> (DDD_VALIDATION_MISMATCH, s')
      | (True, s') \<Rightarrow> ramp_loop ws s')"

definition ramp_feed ::
  "ddd_test_ramp_validator \<Rightarrow> u16 list \<Rightarrow> ddd_validation_result \<times> ddd_test_ramp_validator" where
  "ramp_feed s ws =
     (if rv_failed s then (DDD_VALIDATION_MISMATCH, s) else ramp_loop ws s)"

definition ddd_test_ramp_validator_feed ::
  "ddd_test_ramp_validator option \<Rightarrow> u16 list option \<Rightarrow>
   ddd_validation_result \<times> ddd_test_ramp_validator option" where
  "ddd_test_ramp_validator_feed state sample_words =
     (case (state, sample_words) of
        (Some s, Some ws) \<Rightarrow> (case ramp_feed s ws of (r, s') \<Rightarrow> (r, Some s'))
      | _ \<Rightarrow> (DDD_VALIDATION_INVALID_ARGUMENT, state))"

section \<open>The borders of the chunks do not matter\<close>

lemma sequence_sample_limit:
  assumes "sequence_sample (marker_limit s) m s = (r, s')" "sv_phase s \<noteq> DDD_SEQUENCE_FAILED"
  shows "case r of None \<Rightarrow> sv_phase s' = DDD_SEQUENCE_FAILED
         | Some l \<Rightarrow> l = marker_limit s' \<and> sv_phase s' \<noteq> DDD_SEQUENCE_FAILED"
  using assms
  by (auto simp: sequence_sample_def ddd_sequence_fail_def marker_limit_def Let_def
      split: if_splits)

lemma sequence_loop_phase:
  assumes "sequence_loop (marker_limit s) ws s = (r, s')" "sv_phase s \<noteq> DDD_SEQUENCE_FAILED"
  shows "r = (if sv_phase s' = DDD_SEQUENCE_FAILED then DDD_VALIDATION_MISMATCH
              else DDD_VALIDATION_OK)"
  using assms
proof (induction ws arbitrary: s)
  case (Cons w ws)
  then show ?case
    using sequence_sample_limit [of s "sample_marker w"]
    by (fastforce split: prod.splits option.splits)
qed auto

lemma sequence_loop_append:
  assumes "sv_phase s \<noteq> DDD_SEQUENCE_FAILED"
  shows "sequence_loop (marker_limit s) (xs @ ys) s
    = (case sequence_loop (marker_limit s) xs s of (r, s') \<Rightarrow> sequence_feed s' ys)"
  using assms
proof (induction xs arbitrary: s)
  case Nil
  then show ?case by (simp add: sequence_feed_def)
next
  case (Cons w xs)
  obtain r s1 where t: "sequence_sample (marker_limit s) (sample_marker w) s = (r, s1)"
    by fastforce
  show ?case
    using sequence_sample_limit [OF t Cons.prems] Cons.IH [of s1] t
    by (auto simp: sequence_feed_def split: option.splits)
qed

lemma sequence_feed_result:
  "fst (sequence_feed s ws) = (if sv_phase (snd (sequence_feed s ws)) = DDD_SEQUENCE_FAILED
     then DDD_VALIDATION_MISMATCH else DDD_VALIDATION_OK)"
  using sequence_loop_phase [of s ws "fst (sequence_feed s ws)" "snd (sequence_feed s ws)"]
  by (auto simp: sequence_feed_def)

lemma ramp_sample_failed:
  "ramp_sample v s = (ok, s') \<Longrightarrow> \<not> rv_failed s \<Longrightarrow> rv_failed s' = (\<not> ok)"
  by (auto simp: ramp_sample_def ddd_test_ramp_fail_def Let_def split: if_splits)

lemma ramp_loop_append:
  assumes "\<not> rv_failed s"
  shows "ramp_loop (xs @ ys) s = (case ramp_loop xs s of (r, s') \<Rightarrow> ramp_feed s' ys)"
  using assms
proof (induction xs arbitrary: s)
  case Nil
  then show ?case by (simp add: ramp_feed_def)
next
  case (Cons w xs)
  obtain ok s1 where t: "ramp_sample (ramp_value w) s = (ok, s1)" by fastforce
  show ?case
    using ramp_sample_failed [OF t Cons.prems] Cons.IH [of s1] t
    by (auto simp: ramp_feed_def split: bool.splits)
qed

lemma ramp_loop_failed:
  "\<not> rv_failed s \<Longrightarrow> ramp_loop ws s = (r, s') \<Longrightarrow>
   r = (if rv_failed s' then DDD_VALIDATION_MISMATCH else DDD_VALIDATION_OK)"
proof (induction ws arbitrary: s)
  case (Cons w ws)
  obtain ok s1 where t: "ramp_sample (ramp_value w) s = (ok, s1)" by fastforce
  show ?case using ramp_sample_failed [OF t] Cons t by (auto split: bool.splits)
qed auto

lemma ramp_feed_result:
  "fst (ramp_feed s ws) = (if rv_failed (snd (ramp_feed s ws))
     then DDD_VALIDATION_MISMATCH else DDD_VALIDATION_OK)"
  using ramp_loop_failed [of s ws "fst (ramp_feed s ws)" "snd (ramp_feed s ws)"]
  by (auto simp: ramp_feed_def)

interpretation seqv: chunked_feed "\<lambda>s ws. snd (sequence_feed s ws)"
  by unfold_locales
    (auto simp: sequence_feed_def sequence_loop_append split: prod.splits)

interpretation rampv: chunked_feed "\<lambda>s ws. snd (ramp_feed s ws)"
  by unfold_locales (auto simp: ramp_feed_def ramp_loop_append split: prod.splits)

section \<open>The streams the ramp validator accepts\<close>

definition ramp_next :: "nat \<Rightarrow> nat \<Rightarrow> nat" where
  "ramp_next w v = (if v + 1 = w then 0 else v + 1)"

definition ramp_stream :: "nat \<Rightarrow> nat list \<Rightarrow> bool" where
  "ramp_stream w vs = (\<forall>i<length vs - 1. vs ! Suc i = ramp_next w (vs ! i))"

lemma ramp_stream_snoc:
  "ramp_stream w (vs @ [v]) \<longleftrightarrow> ramp_stream w vs \<and> (vs \<noteq> [] \<longrightarrow> v = ramp_next w (last vs))"
proof (cases vs rule: rev_cases)
  case (snoc us u)
  then have "(\<forall>i<Suc (length us). P i) \<longleftrightarrow> (\<forall>i<length us. P i) \<and> P (length us)" for P
    using less_Suc_eq by auto
  then show ?thesis using snoc by (auto simp: ramp_stream_def nth_append)
qed (simp add: ramp_stream_def)

definition ramp_values :: "u16 list \<Rightarrow> nat list" where
  "ramp_values ws = map (\<lambda>w. unat (ramp_value w)) ws"

lemma ramp_value_less: "unat (ramp_value w) < 1024"
proof -
  have "ramp_value w = take_bit 10 w"
    unfolding ramp_value_def by (simp add: take_bit_eq_mask mask_eq_exp_minus_1)
  then show ?thesis by (simp add: unsigned_take_bit_eq take_bit_nat_less_exp [of 10, simplified])
qed

text \<open>What the state says about the values fed so far: before a wrap they climb by one from
  the first, afterwards they follow the learned ramp.\<close>

definition ramp_state_ok :: "nat list \<Rightarrow> ddd_test_ramp_validator \<Rightarrow> bool" where
  "ramp_state_ok vs s =
     (\<not> rv_failed s \<and> rv_samples_seen s = of_nat (length vs) \<and> rv_armed s = (vs \<noteq> []) \<and>
      (\<forall>v\<in>set vs. v < 1024) \<and>
      (if vs = [] then \<not> rv_wrap_detected s
       else if rv_wrap_detected s
       then unat (rv_wrap_value s) \<in> {1021, 1024} \<and> ramp_stream (unat (rv_wrap_value s)) vs \<and>
            unat (rv_expected_next s) = ramp_next (unat (rv_wrap_value s)) (last vs) \<and>
            (\<forall>w\<in>{1021, 1024}. ramp_stream w vs \<longrightarrow> w = unat (rv_wrap_value s))
       else unat (rv_expected_next s) = last vs + 1 \<and> ramp_stream 1024 vs \<and>
            (\<forall>v\<in>set vs. v \<le> last vs) \<and> (last vs < 1021 \<longrightarrow> ramp_stream 1021 vs)))"

lemma ramp_sample_first:
  assumes "ramp_state_ok [] s" "unat a < 1024" "ramp_sample a s = (ok, s')"
  shows "ok \<and> ramp_state_ok [unat a] s'"
proof -
  have "unat (a + 1) = unat a + 1" using assms(2) by (subst unat_sum_lt) simp_all
  then show ?thesis
    using assms by (auto simp: ramp_sample_def ramp_state_ok_def ramp_stream_def)
qed

lemma ramp_sample_climbing:
  assumes "ramp_state_ok vs s" "vs \<noteq> []" "\<not> rv_wrap_detected s" "unat a < 1024"
    "ramp_sample a s = (ok, s')"
  shows "(ok \<longleftrightarrow> ramp_stream 1021 (vs @ [unat a]) \<or> ramp_stream 1024 (vs @ [unat a])) \<and>
    (ok \<longrightarrow> ramp_state_ok (vs @ [unat a]) s')"
proof -
  let ?e = "rv_expected_next s"
  have st: "unat ?e = last vs + 1" "ramp_stream 1024 vs" "\<forall>v\<in>set vs. v \<le> last vs"
    "last vs < 1021 \<longrightarrow> ramp_stream 1021 vs" "last vs < 1024"
    using assms(1-3) by (auto simp: ramp_state_ok_def)
  have inc: "unat (?e + 1) = unat ?e + 1" using st(1,5) by (subst unat_sum_lt) simp_all
  have eq: "a = 0 \<longleftrightarrow> unat a = 0" "?e = 1021 \<longleftrightarrow> unat ?e = 1021" "?e = 1024 \<longleftrightarrow> unat ?e = 1024"
    "a = ?e \<longleftrightarrow> unat a = unat ?e"
    by (simp_all add: word_unat_eq_iff)
  consider (wrap) "unat a = 0" "unat ?e = 1021 \<or> unat ?e = 1024"
    | (climb) "unat a = unat ?e" "\<not> (unat a = 0 \<and> (unat ?e = 1021 \<or> unat ?e = 1024))"
    | (bad) "unat a \<noteq> unat ?e" "\<not> (unat a = 0 \<and> (unat ?e = 1021 \<or> unat ?e = 1024))"
    by argo
  then show ?thesis
  proof cases
    case wrap
    then have "ok" "s' = s\<lparr>rv_wrap_detected := True, rv_wrap_value := ?e, rv_expected_next := 1,
                           rv_samples_seen := rv_samples_seen s + 1\<rparr>"
      using assms(1-3,5) by (auto simp: ramp_sample_def eq ramp_state_ok_def)
    then show ?thesis
      using wrap assms(1-4) st by (auto simp: ramp_state_ok_def ramp_stream_snoc ramp_next_def)
  next
    case climb
    then have "ok" "s' = s\<lparr>rv_expected_next := ?e + 1, rv_samples_seen := rv_samples_seen s + 1\<rparr>"
      using assms(1-3,5) by (auto simp: ramp_sample_def eq ramp_state_ok_def Let_def)
    then show ?thesis
      using climb assms(1-4) st inc
      by (auto simp: ramp_state_ok_def ramp_stream_snoc ramp_next_def)
  next
    case bad
    then have "\<not> ok"
      using assms(1-3,5) by (auto simp: ramp_sample_def eq ramp_state_ok_def Let_def)
    then show ?thesis
      using bad st assms(2) by (auto simp: ramp_stream_snoc ramp_next_def)
  qed
qed

lemma ramp_sample_wrapped:
  assumes "ramp_state_ok vs s" "vs \<noteq> []" "rv_wrap_detected s" "unat a < 1024"
    "ramp_sample a s = (ok, s')"
  shows "(ok \<longleftrightarrow> ramp_stream 1021 (vs @ [unat a]) \<or> ramp_stream 1024 (vs @ [unat a])) \<and>
    (ok \<longrightarrow> ramp_state_ok (vs @ [unat a]) s')"
proof -
  let ?e = "rv_expected_next s" and ?w = "rv_wrap_value s"
  have st: "unat ?w \<in> {1021, 1024}" "ramp_stream (unat ?w) vs"
    "unat ?e = ramp_next (unat ?w) (last vs)"
    "\<forall>w\<in>{1021, 1024}. ramp_stream w vs \<longrightarrow> w = unat ?w"
    using assms(1-3) by (auto simp: ramp_state_ok_def)
  have ok: "ok \<longleftrightarrow> unat a = unat ?e"
    using assms(1-3,5)
    by (auto simp: ramp_sample_def ramp_state_ok_def Let_def word_unat_eq_iff split: if_splits)
  have "ramp_state_ok (vs @ [unat a]) s'" if "unat a = unat ?e"
  proof -
    have a: "a = ?e" using that by (simp add: word_unat_eq_iff)
    have inc: "unat (?e + 1) = unat ?e + 1" using assms(4) a by (subst unat_sum_lt) simp_all
    have s': "s' = s\<lparr>rv_expected_next := (if ?e + 1 = ?w then 0 else ?e + 1),
                    rv_samples_seen := rv_samples_seen s + 1\<rparr>"
      using assms(1-3,5) a by (auto simp: ramp_sample_def ramp_state_ok_def Let_def)
    have "?e + 1 = ?w \<longleftrightarrow> unat ?e + 1 = unat ?w"
      unfolding word_unat_eq_iff inc by simp
    then have "unat (rv_expected_next s') = ramp_next (unat ?w) (unat a)"
      using inc a by (simp add: s' ramp_next_def)
    then show ?thesis
      using assms(1-4) st that by (auto simp: s' ramp_state_ok_def ramp_stream_snoc)
  qed
  moreover have "ramp_stream v (vs @ [unat a]) \<longleftrightarrow> v = unat ?w \<and> unat a = unat ?e"
    if "v \<in> {1021, 1024}" for v
    using that st(2,3,4) assms(2) unfolding ramp_stream_snoc by metis
  ultimately show ?thesis using ok st(1) by auto
qed

lemma ramp_sample_correct:
  assumes "ramp_state_ok vs s" "unat a < 1024" "ramp_sample a s = (ok, s')"
  shows "(ok \<longleftrightarrow> ramp_stream 1021 (vs @ [unat a]) \<or> ramp_stream 1024 (vs @ [unat a])) \<and>
    (ok \<longrightarrow> ramp_state_ok (vs @ [unat a]) s') \<and>
    (\<not> ok \<longrightarrow> rv_failed s' \<and> rv_error_sample_index s' = of_nat (length vs))"
proof -
  have "\<not> ok \<longrightarrow> rv_failed s' \<and> rv_error_sample_index s' = of_nat (length vs)"
    using assms(1,3) by (auto simp: ramp_sample_def ddd_test_ramp_fail_def Let_def
        ramp_state_ok_def split: if_splits)
  then show ?thesis
    using ramp_sample_first [of s a ok s'] ramp_sample_climbing [of vs s a ok s']
      ramp_sample_wrapped [of vs s a ok s'] assms
    by (cases "vs = []"; cases "rv_wrap_detected s") (auto simp: ramp_stream_def)
qed

definition ramp_accepted :: "u16 list \<Rightarrow> bool" where
  "ramp_accepted ws \<longleftrightarrow> ramp_stream 1021 (ramp_values ws) \<or> ramp_stream 1024 (ramp_values ws)"

lemma ramp_stream_prefix: "ramp_stream w (vs @ us) \<Longrightarrow> ramp_stream w vs"
  by (induction us rule: rev_induct) (auto simp: ramp_stream_snoc simp flip: append_assoc)

lemma ramp_loop_correct:
  assumes "ramp_state_ok (ramp_values ws0) s" "ramp_loop ws s = (r, s')"
  shows "(r = DDD_VALIDATION_OK \<longleftrightarrow> ws = [] \<or> ramp_accepted (ws0 @ ws)) \<and>
    (r \<noteq> DDD_VALIDATION_OK \<longrightarrow> (\<exists>k<length ws0 + length ws.
       rv_error_sample_index s' = of_nat k \<and> (k = length ws0 \<or> ramp_accepted (take k (ws0 @ ws))) \<and>
       \<not> ramp_accepted (take (Suc k) (ws0 @ ws))))"
  using assms
proof (induction ws arbitrary: ws0 s)
  case (Cons w ws)
  obtain ok s1 where t: "ramp_sample (ramp_value w) s = (ok, s1)" by fastforce
  note c = ramp_sample_correct [OF Cons.prems(1) ramp_value_less t]
  have acc: "ramp_accepted (ws0 @ [w]) \<longleftrightarrow> ok"
    using c by (simp add: ramp_accepted_def ramp_values_def)
  show ?case
  proof (cases ok)
    case True
    then have "ramp_state_ok (ramp_values (ws0 @ [w])) s1" "ramp_loop ws s1 = (r, s')"
      using c t Cons.prems(2) by (simp_all add: ramp_values_def)
    from Cons.IH [OF this] show ?thesis using acc True by (auto simp: Suc_le_eq)
  next
    case False
    then have "r = DDD_VALIDATION_MISMATCH" "s' = s1" using t Cons.prems(2) by simp_all
    moreover have "\<not> ramp_accepted (ws0 @ w # ws)"
      using acc False ramp_stream_prefix [of _ "ramp_values (ws0 @ [w])" "ramp_values ws"]
      by (auto simp: ramp_accepted_def ramp_values_def)
    ultimately show ?thesis
      using c False acc by (auto simp: ramp_values_def intro!: exI [of _ "length ws0"])
  qed
qed simp

text \<open>C8: The test-ramp validator is exact and independent of the chunk borders.  Over any way
  of cutting a stream into chunks it reports no failure exactly when the stream is a ramp
  that wraps after 1020 or after 1023, one of the two throughout; when it reports one, the
  recorded index is that of the first sample that no such ramp explains.\<close>

theorem ramp_validator_exact:
  "(let s = foldl (\<lambda>s ws. snd (ramp_feed s ws)) ddd_test_ramp_validator_init cs in
    if rv_failed s
    then (\<exists>k. k < length (concat cs) \<and> ramp_accepted (take k (concat cs)) \<and>
           \<not> ramp_accepted (take (Suc k) (concat cs)) \<and> rv_error_sample_index s = of_nat k)
    else ramp_accepted (concat cs))"
proof -
  let ?i = ddd_test_ramp_validator_init
  obtain ws where ws: "concat cs = ws" by simp
  obtain r s' where l: "ramp_loop ws ?i = (r, s')" by fastforce
  have i: "ramp_state_ok (ramp_values []) ?i"
    by (simp add: ramp_state_ok_def ramp_values_def ddd_test_ramp_validator_init_def)
  have nf: "\<not> rv_failed ?i" by (simp add: ddd_test_ramp_validator_init_def)
  have "foldl (\<lambda>s ws. snd (ramp_feed s ws)) ?i cs = s'"
    using rampv.feed_chunks [of ?i cs] l nf ws by (simp add: ramp_feed_def)
  moreover have "rv_failed s' \<longleftrightarrow> r \<noteq> DDD_VALIDATION_OK"
    using ramp_loop_failed [OF nf l] by auto
  moreover have "ramp_accepted []"
    by (simp add: ramp_accepted_def ramp_stream_def ramp_values_def)
  ultimately show ?thesis
    using ramp_loop_correct [OF i l] unfolding ws by (auto simp: Let_def)
qed

section \<open>The streams the sequence validator accepts\<close>

text \<open>The runs of equal markers of a stream, the current one first.\<close>

fun add_marker :: "u8 \<Rightarrow> (u8 \<times> nat) list \<Rightarrow> (u8 \<times> nat) list" where
  "add_marker m [] = [(m, 1)]"
| "add_marker m ((k, n) # rs) = (if m = k then (k, n + 1) # rs else (m, 1) # (k, n) # rs)"

definition runs :: "u16 list \<Rightarrow> (u8 \<times> nat) list" where
  "runs ws = fold (\<lambda>w. add_marker (sample_marker w)) ws []"

text \<open>The lengths of the complete runs, those that are neither the first nor the current one.\<close>

definition complete_lengths :: "(u8 \<times> nat) list \<Rightarrow> nat list" where
  "complete_lengths rs = map snd (butlast (tl rs))"

fun markers_follow :: "(u8 \<times> nat) list \<Rightarrow> bool" where
  "markers_follow ((m, _) # (k, n) # rs) =
     (m = ddd_next_sequence_marker k \<and> markers_follow ((k, n) # rs))"
| "markers_follow _ = True"

definition sequence_runs_ok :: "(u8 \<times> nat) list \<Rightarrow> bool" where
  "sequence_runs_ok rs =
     ((\<forall>(m, n)\<in>set rs. m < DDD_SEQUENCE_MARKER_COUNT \<and> n \<le> 65536) \<and> markers_follow rs \<and>
      (case complete_lengths rs of
         [] \<Rightarrow> True
       | l # ls \<Rightarrow> (l = 65535 \<or> l = 65536) \<and> (\<forall>k\<in>set ls. k = l) \<and> snd (hd rs) \<le> l))"

definition sequence_accepted :: "u16 list \<Rightarrow> bool" where
  "sequence_accepted ws = sequence_runs_ok (runs ws)"

definition sequence_state_ok :: "u16 list \<Rightarrow> ddd_sequence_validator \<Rightarrow> bool" where
  "sequence_state_ok ws s =
     (sequence_accepted ws \<and> sv_samples_seen s = of_nat (length ws) \<and>
      sv_marker_seen s = (runs ws \<noteq> []) \<and>
      sv_phase s = (if 2 \<le> length (runs ws) then DDD_SEQUENCE_RUNNING
                    else DDD_SEQUENCE_SYNCHRONIZING) \<and>
      (case runs ws of
         [] \<Rightarrow> True
       | (m, n) # _ \<Rightarrow> sv_marker s = m \<and> unat (sv_samples_in_marker s) = n) \<and>
      unat (sv_samples_per_marker s) =
        (case complete_lengths (runs ws) of [] \<Rightarrow> 0 | l # _ \<Rightarrow> l))"

lemma runs_snoc: "runs (ws @ [w]) = add_marker (sample_marker w) (runs ws)"
  by (simp add: runs_def)

lemma next_marker_neq: "m < 63 \<Longrightarrow> ddd_next_sequence_marker m \<noteq> m"
  by (auto simp: ddd_next_sequence_marker_def Let_def)

lemma sequence_limit:
  assumes "sequence_state_ok ws s"
  shows "unat (marker_limit s) = (case complete_lengths (runs ws) of [] \<Rightarrow> 65536 | l # _ \<Rightarrow> l)"
    and "sv_samples_per_marker s = 0 \<longleftrightarrow> complete_lengths (runs ws) = []"
proof -
  have l: "complete_lengths (runs ws) = l # ls \<Longrightarrow> l = 65535 \<or> l = 65536" for l ls
    using assms by (simp add: sequence_state_ok_def sequence_accepted_def sequence_runs_ok_def)
  then show "sv_samples_per_marker s = 0 \<longleftrightarrow> complete_lengths (runs ws) = []"
    using assms
    by (auto simp: sequence_state_ok_def word_unat_eq_iff split: list.splits)
  then show "unat (marker_limit s) = (case complete_lengths (runs ws) of [] \<Rightarrow> 65536 | l # _ \<Rightarrow> l)"
    using assms by (auto simp: marker_limit_def sequence_state_ok_def split: list.splits)
qed

lemma complete_lengths_new:
  "complete_lengths ((a, i) # (m, n) # rs) =
     (if rs = [] then [] else n # complete_lengths ((m, n) # rs))"
  by (simp add: complete_lengths_def)

lemma complete_lengths_longer: "complete_lengths ((m, i) # rs) = complete_lengths ((m, j) # rs)"
  by (simp add: complete_lengths_def)

lemma markers_follow_longer: "markers_follow ((m, i) # rs) = markers_follow ((m, j) # rs)"
  by (cases rs) auto

lemma sequence_same_marker:
  assumes "sequence_state_ok ws s" "runs ws = (m, n) # rs" "sample_marker w = m"
  shows "n \<le> unat (marker_limit s)"
    and "sequence_accepted (ws @ [w]) \<longleftrightarrow> n < unat (marker_limit s)"
  using assms sequence_limit(1) [OF assms(1)]
    complete_lengths_longer [of m "Suc n" rs n] markers_follow_longer [of m "Suc n" rs n]
  by (auto simp: sequence_state_ok_def sequence_accepted_def sequence_runs_ok_def runs_snoc
      split: list.splits)

lemma sequence_new_marker:
  assumes "sequence_state_ok ws s" "runs ws = (m, n) # rs" "sample_marker w \<noteq> m"
  shows "sequence_accepted (ws @ [w]) \<longleftrightarrow>
    sample_marker w < 63 \<and> sample_marker w = ddd_next_sequence_marker m \<and>
    (rs = [] \<or> (case complete_lengths (runs ws) of
        [] \<Rightarrow> n = 65535 \<or> n = 65536 | l # _ \<Rightarrow> n = l))"
  using assms
  by (cases rs)
    (auto simp: sequence_state_ok_def sequence_accepted_def sequence_runs_ok_def runs_snoc
      complete_lengths_new split: list.splits)

lemma sequence_sample_correct:
  assumes st: "sequence_state_ok ws s"
    and sample: "sequence_sample (marker_limit s) (sample_marker w) s = (r, s')"
  shows "(r \<noteq> None \<longleftrightarrow> sequence_accepted (ws @ [w])) \<and>
    (r \<noteq> None \<longrightarrow> sequence_state_ok (ws @ [w]) s')"
proof (cases "runs ws")
  case Nil
  then have "sequence_accepted (ws @ [w]) \<longleftrightarrow> sample_marker w < 63"
    by (auto simp: sequence_accepted_def sequence_runs_ok_def runs_snoc complete_lengths_def)
  then show ?thesis
    using st sample Nil
    by (auto simp: sequence_sample_def sequence_state_ok_def runs_snoc complete_lengths_def
        split: if_splits)
next
  case (Cons mn rs)
  then obtain m n where runs: "runs ws = (m, n) # rs" by (cases mn) auto
  have f: "m < 63" "n \<le> 65536" "sv_marker_seen s" "sv_marker s = m" "unat (sv_samples_in_marker s) = n"
    "sv_phase s \<noteq> DDD_SEQUENCE_FAILED" "sv_phase s = DDD_SEQUENCE_SYNCHRONIZING \<longleftrightarrow> rs = []"
    "sv_samples_seen s = of_nat (length ws)"
    using st runs
    by (auto simp: sequence_state_ok_def sequence_accepted_def sequence_runs_ok_def Suc_le_eq)
  note lim = sequence_limit [OF st]
  have inc: "unat (sv_samples_in_marker s + 1) = n + 1"
    using f by (subst unat_sum_lt) simp_all
  show ?thesis
  proof (cases "sample_marker w = m")
    case True
    have acc: "sequence_accepted (ws @ [w]) \<longleftrightarrow> sv_samples_in_marker s \<noteq> marker_limit s"
      using sequence_same_marker [OF st runs True] f(5) by (auto simp: word_unat_eq_iff)
    have "r \<noteq> None \<longleftrightarrow> sv_samples_in_marker s \<noteq> marker_limit s"
      using sample f True by (auto simp: sequence_sample_def split: if_splits)
    moreover have "sequence_state_ok (ws @ [w]) s'" if "sv_samples_in_marker s \<noteq> marker_limit s"
    proof -
      have "s' = s\<lparr>sv_samples_in_marker := sv_samples_in_marker s + 1,
                   sv_samples_seen := sv_samples_seen s + 1\<rparr>"
        using sample f True that by (auto simp: sequence_sample_def split: if_splits)
      then show ?thesis
        using st acc that runs True inc complete_lengths_longer [of m "Suc n" rs n]
        by (auto simp: sequence_state_ok_def runs_snoc)
    qed
    ultimately show ?thesis using acc by blast
  next
    case False
    define fits where "fits = (rs = [] \<or> (case complete_lengths (runs ws) of
        [] \<Rightarrow> n = 65535 \<or> n = 65536 | l # _ \<Rightarrow> n = l))"
    have acc: "sequence_accepted (ws @ [w]) \<longleftrightarrow> sample_marker w < 63 \<and>
        sample_marker w = ddd_next_sequence_marker m \<and> fits"
      using sequence_new_marker [OF st runs False] by (simp add: fits_def)
    have fit: "rs \<noteq> [] \<Longrightarrow> fits \<longleftrightarrow> (if sv_samples_per_marker s \<noteq> 0
        then sv_samples_in_marker s = sv_samples_per_marker s
        else sv_samples_in_marker s = 65535 \<or> sv_samples_in_marker s = 65536)"
      using st f(5) lim(2)
      by (auto simp: fits_def word_unat_eq_iff sequence_state_ok_def split: list.splits)
    have "r \<noteq> None \<longleftrightarrow> sequence_accepted (ws @ [w])"
      using sample f False acc fit
      by (auto simp: sequence_sample_def Let_def fits_def split: if_splits)
    moreover have "sequence_state_ok (ws @ [w]) s'" if "sequence_accepted (ws @ [w])"
    proof -
      have s': "s' = s\<lparr>sv_phase := DDD_SEQUENCE_RUNNING, sv_marker := sample_marker w,
          sv_samples_in_marker := 1, sv_samples_seen := sv_samples_seen s + 1,
          sv_samples_per_marker := (if rs \<noteq> [] \<and> sv_samples_per_marker s = 0
            then sv_samples_in_marker s else sv_samples_per_marker s)\<rparr>"
        using sample f False acc fit that
        by (cases "sv_phase s") (auto simp: sequence_sample_def Let_def split: if_splits)
      have same: "rs \<noteq> [] \<Longrightarrow> sv_samples_per_marker s \<noteq> 0 \<Longrightarrow>
          sv_samples_in_marker s = sv_samples_per_marker s"
        using that acc fit by simp
      have "sv_samples_per_marker s = 0" if "rs = []"
        using that lim(2) runs by (simp add: complete_lengths_def)
      then have "unat (sv_samples_per_marker s') =
          (case complete_lengths (runs (ws @ [w])) of [] \<Rightarrow> 0 | l # _ \<Rightarrow> l)"
        using runs False f(5) same by (auto simp: s' runs_snoc complete_lengths_new)
      then show ?thesis
        using st that runs False by (auto simp: sequence_state_ok_def runs_snoc s')
    qed
    ultimately show ?thesis by blast
  qed
qed

lemma sequence_loop_correct:
  assumes "sequence_state_ok ws0 s" "sequence_loop (marker_limit s) ws s = (r, s')"
  shows "(if r = DDD_VALIDATION_OK then sequence_accepted (ws0 @ ws)
    else (\<exists>k<length ws0 + length ws. sv_error_sample_index s' = of_nat k \<and>
       sequence_accepted (take k (ws0 @ ws)) \<and> \<not> sequence_accepted (take (Suc k) (ws0 @ ws))))"
  using assms
proof (induction ws arbitrary: ws0 s)
  case Nil
  then show ?case by (simp add: sequence_state_ok_def)
next
  case (Cons w ws)
  obtain r1 s1 where t: "sequence_sample (marker_limit s) (sample_marker w) s = (r1, s1)"
    by fastforce
  note c = sequence_sample_correct [OF Cons.prems(1) t]
  have ph: "sv_phase s \<noteq> DDD_SEQUENCE_FAILED" "sv_samples_seen s = of_nat (length ws0)"
    "sequence_accepted ws0"
    using Cons.prems(1) by (auto simp: sequence_state_ok_def)
  show ?case
  proof (cases r1)
    case None
    then have "sv_error_sample_index s1 = of_nat (length ws0)"
      using t ph by (auto simp: sequence_sample_def ddd_sequence_fail_def Let_def split: if_splits)
    then show ?thesis
      using None t Cons.prems(2) c ph by (auto intro!: exI [of _ "length ws0"])
  next
    case (Some l)
    then have "sequence_loop (marker_limit s1) ws s1 = (r, s')"
      using t Cons.prems(2) sequence_sample_limit [OF t ph(1)] by simp
    then show ?thesis
      using Cons.IH [of "ws0 @ [w]" s1] c Some by (auto simp del: take_append split: if_splits)
  qed
qed


end
