(* ===== verification/Extract.thy ===== *)
theory Extract
  imports Prelude
begin

text \<open>
  The portable sample extractors of common/extract.c.  A capture word carries two 12-bit
  converter values and eight auxiliary bits (a 16-bit word in single-channel captures, one
  value and four bits); an extractor appends to the output arrays it was given, counts the
  clip bits and may track the peak.  Every function of the file is one definition: the loop
  is a fold over the words, its body the composition of the assignments in the order of the
  code.  The assembler versions selected on x86 are not part of the model.
\<close>

section \<open>Output state and the assignments of the loop bodies\<close>

record 'o conv_out =
  co_outA :: "'o list"
  co_outB :: "'o list"
  co_aux :: bytes
  co_clip0 :: size_t
  co_clip1 :: size_t
  co_peak0 :: u16
  co_peak1 :: u16

type_synonym out16 = "u16 conv_out"
type_synonym out32 = "u32 conv_out"

abbreviation MASK_1 :: "'a::len word" where "MASK_1 \<equiv> 0xFFF"
abbreviation MASK_2 :: u32 where "MASK_2 \<equiv> 0xFFF00000"
abbreviation MASK_AUX :: u32 where "MASK_AUX \<equiv> 0xFF000"
abbreviation MASK_AUXS :: u16 where "MASK_AUXS \<equiv> 0xF000"

text \<open>The int values of the converter expressions; storing one truncates it to the element
  width, and a left shift by four multiplies by sixteen.\<close>

definition val1 :: "'a::len word \<Rightarrow> int" where
  "val1 x = 2047 - sint (ucast (and x MASK_1) :: u16)"

definition val2 :: "u32 \<Rightarrow> int" where
  "val2 x = 2047 - sint (ucast (drop_bit 20 (and x MASK_2)) :: u16)"

definition val1_32 :: "'a::len word \<Rightarrow> int" where
  "val1_32 x = 2047 - sint (ucast (and x MASK_1) :: u32)"

definition val2_32 :: "u32 \<Rightarrow> int" where
  "val2_32 x = 2047 - sint (ucast (drop_bit 20 (and x MASK_2)) :: u32)"

definition set_A :: "int \<Rightarrow> 'o::len word conv_out \<Rightarrow> 'o word conv_out" where
  "set_A v st = st\<lparr>co_outA := co_outA st @ [word_of_int v]\<rparr>"

definition set_B :: "int \<Rightarrow> 'o::len word conv_out \<Rightarrow> 'o word conv_out" where
  "set_B v st = st\<lparr>co_outB := co_outB st @ [word_of_int v]\<rparr>"

definition set_aux :: "u32 \<Rightarrow> 'o conv_out \<Rightarrow> 'o conv_out" where
  "set_aux x st = st\<lparr>co_aux := co_aux st @ [ucast (drop_bit 12 (and x MASK_AUX))]\<rparr>"

definition set_auxs :: "u16 \<Rightarrow> 'o conv_out \<Rightarrow> 'o conv_out" where
  "set_auxs x st = st\<lparr>co_aux := co_aux st @ [ucast (drop_bit 12 (and x MASK_AUXS))]\<rparr>"

definition count_clip0 :: "'a::len word \<Rightarrow> 'o conv_out \<Rightarrow> 'o conv_out" where
  "count_clip0 x st = st\<lparr>co_clip0 := co_clip0 st + ucast (and (drop_bit 12 x) 1)\<rparr>"

definition count_clip1 :: "'a::len word \<Rightarrow> 'o conv_out \<Rightarrow> 'o conv_out" where
  "count_clip1 x st = st\<lparr>co_clip1 := co_clip1 st + ucast (and (drop_bit 13 x) 1)\<rparr>"

definition peak_A :: "int \<Rightarrow> 'o conv_out \<Rightarrow> 'o conv_out" where
  "peak_A v st = (if uint (co_peak0 st) < \<bar>v\<bar> then st\<lparr>co_peak0 := word_of_int \<bar>v\<bar>\<rparr> else st)"

definition peak_B :: "int \<Rightarrow> 'o conv_out \<Rightarrow> 'o conv_out" where
  "peak_B v st = (if uint (co_peak1 st) < \<bar>v\<bar> then st\<lparr>co_peak1 := word_of_int \<bar>v\<bar>\<rparr> else st)"

text \<open>Reading back and shifting the element just written.\<close>

definition last_A :: "'o::len word conv_out \<Rightarrow> int" where
  "last_A st = sint (last (co_outA st))"

definition last_B :: "'o::len word conv_out \<Rightarrow> int" where
  "last_B st = sint (last (co_outB st))"

definition shift_A :: "'o::len word conv_out \<Rightarrow> 'o word conv_out" where
  "shift_A st = st\<lparr>co_outA := butlast (co_outA st) @ [word_of_int (last_A st * 16)]\<rparr>"

definition shift_B :: "'o::len word conv_out \<Rightarrow> 'o word conv_out" where
  "shift_B st = st\<lparr>co_outB := butlast (co_outB st) @ [word_of_int (last_B st * 16)]\<rparr>"

definition peak_last_A :: "'o::len word conv_out \<Rightarrow> 'o word conv_out" where
  "peak_last_A st = peak_A (last_A st) st"

definition peak_last_B :: "'o::len word conv_out \<Rightarrow> 'o word conv_out" where
  "peak_last_B st = peak_B (last_B st) st"

section \<open>The extractors\<close>

definition extract_XS_C :: "u16 list \<Rightarrow> out16 \<Rightarrow> out16" where
  "extract_XS_C = fold set_auxs"

definition extract_X_C :: "u32 list \<Rightarrow> out16 \<Rightarrow> out16" where
  "extract_X_C = fold set_aux"

definition extract_X_peak_C :: "u32 list \<Rightarrow> out16 \<Rightarrow> out16" where
  "extract_X_peak_C xs st = fold (\<lambda>x. peak_B (val2 x) \<circ> peak_A (val1 x) \<circ> set_aux x) xs
     (st\<lparr>co_peak0 := 0, co_peak1 := 0\<rparr>)"

definition extract_S_C :: "u16 list \<Rightarrow> out16 \<Rightarrow> out16" where
  "extract_S_C = fold (\<lambda>x.
     count_clip0 x \<circ> set_auxs x \<circ> set_A (val1 x))"

definition extract_A_C :: "u32 list \<Rightarrow> out16 \<Rightarrow> out16" where
  "extract_A_C = fold (\<lambda>x.
     count_clip0 x \<circ> set_aux x \<circ> set_A (val1 x))"

definition extract_A_peak_C :: "u32 list \<Rightarrow> out16 \<Rightarrow> out16" where
  "extract_A_peak_C xs st = fold (\<lambda>x.
     peak_last_A \<circ> count_clip0 x \<circ> set_aux x \<circ> set_A (val1 x)) xs
     (st\<lparr>co_peak0 := 0\<rparr>)"

definition extract_B_C :: "u32 list \<Rightarrow> out16 \<Rightarrow> out16" where
  "extract_B_C = fold (\<lambda>x.
     count_clip1 x \<circ> set_aux x \<circ> set_B (val2 x))"

definition extract_B_peak_C :: "u32 list \<Rightarrow> out16 \<Rightarrow> out16" where
  "extract_B_peak_C xs st = fold (\<lambda>x.
     peak_last_B \<circ> count_clip1 x \<circ> set_aux x \<circ> set_B (val2 x)) xs
     (st\<lparr>co_peak1 := 0\<rparr>)"

definition extract_AB_C :: "u32 list \<Rightarrow> out16 \<Rightarrow> out16" where
  "extract_AB_C = fold (\<lambda>x.
     count_clip1 x \<circ> count_clip0 x \<circ> set_aux x \<circ> set_B (val2 x)
      \<circ> set_A (val1 x))"

definition extract_AB_peak_C :: "u32 list \<Rightarrow> out16 \<Rightarrow> out16" where
  "extract_AB_peak_C xs st = fold (\<lambda>x.
     peak_last_B \<circ> peak_last_A \<circ> count_clip1 x \<circ> count_clip0 x
      \<circ> set_aux x \<circ> set_B (val2 x) \<circ> set_A (val1 x)) xs
     (st\<lparr>co_peak0 := 0, co_peak1 := 0\<rparr>)"

definition extract_S_p_C :: "u16 list \<Rightarrow> out16 \<Rightarrow> out16" where
  "extract_S_p_C = fold (\<lambda>x.
     count_clip0 x \<circ> set_auxs x \<circ> set_A (val1 x * 16))"

definition extract_A_p_C :: "u32 list \<Rightarrow> out16 \<Rightarrow> out16" where
  "extract_A_p_C = fold (\<lambda>x.
     count_clip0 x \<circ> set_aux x \<circ> set_A (val1 x * 16))"

definition extract_A_p_peak_C :: "u32 list \<Rightarrow> out16 \<Rightarrow> out16" where
  "extract_A_p_peak_C xs st = fold (\<lambda>x.
     count_clip0 x \<circ> set_aux x \<circ> shift_A \<circ> peak_last_A
      \<circ> set_A (val1 x)) xs
     (st\<lparr>co_peak0 := 0\<rparr>)"

definition extract_B_p_C :: "u32 list \<Rightarrow> out16 \<Rightarrow> out16" where
  "extract_B_p_C = fold (\<lambda>x.
     count_clip1 x \<circ> set_aux x \<circ> set_B (val2 x * 16))"

definition extract_B_p_peak_C :: "u32 list \<Rightarrow> out16 \<Rightarrow> out16" where
  "extract_B_p_peak_C xs st = fold (\<lambda>x.
     count_clip1 x \<circ> set_aux x \<circ> shift_B \<circ> peak_last_B
      \<circ> set_B (val2 x)) xs
     (st\<lparr>co_peak1 := 0\<rparr>)"

definition extract_AB_p_C :: "u32 list \<Rightarrow> out16 \<Rightarrow> out16" where
  "extract_AB_p_C = fold (\<lambda>x.
     count_clip1 x \<circ> count_clip0 x \<circ> set_aux x \<circ> set_B (val2 x * 16)
      \<circ> set_A (val1 x * 16))"

definition extract_AB_p_peak_C :: "u32 list \<Rightarrow> out16 \<Rightarrow> out16" where
  "extract_AB_p_peak_C xs st = fold (\<lambda>x.
     count_clip1 x \<circ> count_clip0 x \<circ> set_aux x \<circ> shift_B
      \<circ> peak_last_B \<circ> set_B (val2 x) \<circ> shift_A \<circ> peak_last_A
      \<circ> set_A (val1 x)) xs
     (st\<lparr>co_peak0 := 0, co_peak1 := 0\<rparr>)"

definition extract_S_32_C :: "u16 list \<Rightarrow> out32 \<Rightarrow> out32" where
  "extract_S_32_C = fold (\<lambda>x.
     count_clip0 x \<circ> set_auxs x \<circ> set_A (val1_32 x))"

definition extract_A_32_C :: "u32 list \<Rightarrow> out32 \<Rightarrow> out32" where
  "extract_A_32_C = fold (\<lambda>x.
     count_clip0 x \<circ> set_aux x \<circ> set_A (val1_32 x))"

definition extract_A_peak_32_C :: "u32 list \<Rightarrow> out32 \<Rightarrow> out32" where
  "extract_A_peak_32_C xs st = fold (\<lambda>x.
     peak_last_A \<circ> count_clip0 x \<circ> set_aux x \<circ> set_A (val1 x)) xs
     (st\<lparr>co_peak0 := 0\<rparr>)"

definition extract_B_32_C :: "u32 list \<Rightarrow> out32 \<Rightarrow> out32" where
  "extract_B_32_C = fold (\<lambda>x.
     count_clip1 x \<circ> set_aux x \<circ> set_B (val2_32 x))"

definition extract_B_peak_32_C :: "u32 list \<Rightarrow> out32 \<Rightarrow> out32" where
  "extract_B_peak_32_C xs st = fold (\<lambda>x.
     peak_last_B \<circ> count_clip1 x \<circ> set_aux x \<circ> set_B (val2 x)) xs
     (st\<lparr>co_peak1 := 0\<rparr>)"

definition extract_AB_32_C :: "u32 list \<Rightarrow> out32 \<Rightarrow> out32" where
  "extract_AB_32_C = fold (\<lambda>x.
     count_clip1 x \<circ> count_clip0 x \<circ> set_aux x \<circ> set_B (val2_32 x)
      \<circ> set_A (val1_32 x))"

definition extract_AB_peak_32_C :: "u32 list \<Rightarrow> out32 \<Rightarrow> out32" where
  "extract_AB_peak_32_C xs st = fold (\<lambda>x.
     peak_last_B \<circ> peak_last_A \<circ> count_clip1 x \<circ> count_clip0 x
      \<circ> set_aux x \<circ> set_B (val2 x) \<circ> set_A (val1 x)) xs
     (st\<lparr>co_peak0 := 0, co_peak1 := 0\<rparr>)"

definition extract_S_p_32_C :: "u16 list \<Rightarrow> out32 \<Rightarrow> out32" where
  "extract_S_p_32_C = fold (\<lambda>x.
     count_clip0 x \<circ> set_auxs x \<circ> set_A (val1_32 x * 16))"

definition extract_A_p_32_C :: "u32 list \<Rightarrow> out32 \<Rightarrow> out32" where
  "extract_A_p_32_C = fold (\<lambda>x.
     count_clip0 x \<circ> set_aux x \<circ> set_A (val1_32 x * 16))"

definition extract_A_p_peak_32_C :: "u32 list \<Rightarrow> out32 \<Rightarrow> out32" where
  "extract_A_p_peak_32_C xs st = fold (\<lambda>x.
     count_clip0 x \<circ> set_aux x \<circ> shift_A \<circ> peak_last_A
      \<circ> set_A (val1 x)) xs
     (st\<lparr>co_peak0 := 0\<rparr>)"

definition extract_B_p_32_C :: "u32 list \<Rightarrow> out32 \<Rightarrow> out32" where
  "extract_B_p_32_C = fold (\<lambda>x.
     count_clip1 x \<circ> set_aux x \<circ> set_B (val2_32 x * 16))"

definition extract_B_p_peak_32_C :: "u32 list \<Rightarrow> out32 \<Rightarrow> out32" where
  "extract_B_p_peak_32_C xs st = fold (\<lambda>x.
     count_clip1 x \<circ> set_aux x \<circ> shift_B \<circ> peak_last_B
      \<circ> set_B (val2 x)) xs
     (st\<lparr>co_peak1 := 0\<rparr>)"

definition extract_AB_p_32_C :: "u32 list \<Rightarrow> out32 \<Rightarrow> out32" where
  "extract_AB_p_32_C = fold (\<lambda>x.
     count_clip1 x \<circ> count_clip0 x \<circ> set_aux x
      \<circ> set_B (val2_32 x * 16) \<circ> set_A (val1_32 x * 16))"

definition extract_AB_p_peak_32_C :: "u32 list \<Rightarrow> out32 \<Rightarrow> out32" where
  "extract_AB_p_peak_32_C xs st = fold (\<lambda>x.
     count_clip1 x \<circ> count_clip0 x \<circ> set_aux x \<circ> shift_B
      \<circ> peak_last_B \<circ> set_B (val2 x) \<circ> shift_A \<circ> peak_last_A
      \<circ> set_A (val1 x)) xs
     (st\<lparr>co_peak0 := 0, co_peak1 := 0\<rparr>)"


section \<open>The converter values\<close>

lemma and_mask_12: "and (x :: 'a::len word) 0xFFF = take_bit 12 x"
  by (simp add: take_bit_eq_mask mask_eq_exp_minus_1)

lemma sint_small:
  fixes w :: "'a::len word"
  assumes "uint w < 2 ^ (LENGTH('a) - 1)"
  shows "sint w = uint w"
  unfolding sint_uint using assms
  by (intro signed_take_bit_int_eq_self) (auto intro: order_trans [of _ 0])

lemma uint_low_12: "uint (take_bit 12 x :: 'a::len word) = uint x mod 4096"
  unfolding unsigned_take_bit_eq by (simp add: take_bit_eq_mod)

lemma val1_eq: "val1 x = 2047 - uint x mod 4096"
proof -
  have u: "uint (ucast (take_bit 12 x) :: u16) = uint x mod 4096"
    unfolding unsigned_ucast_eq uint_low_12 by (simp add: take_bit_eq_mod)
  have "sint (ucast (take_bit 12 x) :: u16) = uint (ucast (take_bit 12 x) :: u16)"
    by (rule sint_small) (simp add: u)
  then show ?thesis by (simp add: val1_def and_mask_12 u)
qed

lemma val1_32_eq: "val1_32 x = 2047 - uint x mod 4096"
proof -
  have u: "uint (ucast (take_bit 12 x) :: u32) = uint x mod 4096"
    unfolding unsigned_ucast_eq uint_low_12 by (simp add: take_bit_eq_mod)
  have "sint (ucast (take_bit 12 x) :: u32) = uint (ucast (take_bit 12 x) :: u32)"
    by (rule sint_small) (simp add: u)
  then show ?thesis by (simp add: val1_32_def and_mask_12 u)
qed

lemma upper_12: "drop_bit 20 (and x 0xFFF00000) = take_bit 12 (drop_bit 20 (x :: u32))"
proof (rule bit_word_eqI)
  fix n assume n: "n < LENGTH(32)"
  have m: "(0xFFF00000 :: u32) = push_bit 20 (mask 12)"
    by (simp add: mask_eq_exp_minus_1 push_bit_eq_mult)
  show "bit (drop_bit 20 (and x 0xFFF00000)) n = bit (take_bit 12 (drop_bit 20 x)) n"
    unfolding m bit_drop_bit_eq bit_and_iff bit_push_bit_iff bit_take_bit_iff bit_mask_iff o_apply
    using n bit_imp_le_length [of x "20 + n"] by auto
qed

lemma val2_eq: "val2 x = 2047 - uint x div 2 ^ 20 mod 4096"
  and val2_32_eq: "val2_32 x = 2047 - uint x div 2 ^ 20 mod 4096"
proof -
  have "take_bit 32 (uint x) = uint x"
    using unsigned_less [of x, where ?'a = int] by (simp add: take_bit_int_eq_self)
  then have d: "uint (drop_bit 20 x) = uint x div 2 ^ 20"
    unfolding unsigned_drop_bit_eq by (simp add: drop_bit_eq_div)
  show "val2 x = 2047 - uint x div 2 ^ 20 mod 4096"
    using val1_eq [of "drop_bit 20 x"] unfolding val1_def val2_def upper_12 and_mask_12 d .
  show "val2_32 x = 2047 - uint x div 2 ^ 20 mod 4096"
    using val1_32_eq [of "drop_bit 20 x"] unfolding val1_32_def val2_32_def upper_12 and_mask_12 d .
qed

lemma val1_range: "- 2048 \<le> val1 x \<and> val1 x \<le> 2047"
  by (simp add: val1_eq)

lemma val2_range: "- 2048 \<le> val2 x \<and> val2 x \<le> 2047"
  by (simp add: val2_eq)

lemma val_32: "val1_32 x = val1 x" "val2_32 y = val2 y"
  by (simp_all add: val1_eq val1_32_eq val2_eq val2_32_eq)

section \<open>One loop for all extractors\<close>

record 'x effect =
  ef_A :: "'x \<Rightarrow> int list"
  ef_B :: "'x \<Rightarrow> int list"
  ef_aux :: "'x \<Rightarrow> bytes"
  ef_clip0 :: "'x \<Rightarrow> size_t"
  ef_clip1 :: "'x \<Rightarrow> size_t"
  ef_peak0 :: "'x \<Rightarrow> int"
  ef_peak1 :: "'x \<Rightarrow> int"

definition top_peak :: "u16 \<Rightarrow> int \<Rightarrow> u16" where
  "top_peak p v = (if uint p < \<bar>v\<bar> then word_of_int \<bar>v\<bar> else p)"

definition apply_effect :: "'x effect \<Rightarrow> 'x \<Rightarrow> 'o::len word conv_out \<Rightarrow> 'o word conv_out" where
  "apply_effect e x st = st\<lparr>
     co_outA := co_outA st @ map word_of_int (ef_A e x),
     co_outB := co_outB st @ map word_of_int (ef_B e x),
     co_aux := co_aux st @ ef_aux e x,
     co_clip0 := co_clip0 st + ef_clip0 e x,
     co_clip1 := co_clip1 st + ef_clip1 e x,
     co_peak0 := top_peak (co_peak0 st) (ef_peak0 e x),
     co_peak1 := top_peak (co_peak1 st) (ef_peak1 e x)\<rparr>"

lemma fold_effect:
  "fold (apply_effect e) xs st = st\<lparr>
     co_outA := co_outA st @ map word_of_int (concat (map (ef_A e) xs)),
     co_outB := co_outB st @ map word_of_int (concat (map (ef_B e) xs)),
     co_aux := co_aux st @ concat (map (ef_aux e) xs),
     co_clip0 := co_clip0 st + sum_list (map (ef_clip0 e) xs),
     co_clip1 := co_clip1 st + sum_list (map (ef_clip1 e) xs),
     co_peak0 := foldl top_peak (co_peak0 st) (map (ef_peak0 e) xs),
     co_peak1 := foldl top_peak (co_peak1 st) (map (ef_peak1 e) xs)\<rparr>"
  by (induction xs arbitrary: st) (simp_all add: apply_effect_def add.assoc)

text \<open>What the word at hand contributes, for each choice of channels, padding and peak.\<close>

definition aux_byte :: "u32 \<Rightarrow> u8" where
  "aux_byte x = ucast (drop_bit 12 (and x MASK_AUX))"

definition auxs_byte :: "u16 \<Rightarrow> u8" where
  "auxs_byte x = ucast (drop_bit 12 (and x MASK_AUXS))"

definition dual_effect :: "bool \<Rightarrow> bool \<Rightarrow> bool \<Rightarrow> bool \<Rightarrow> u32 effect" where
  "dual_effect pad peak useA useB =
     (let scale = (if pad then 16 else 1); watch = (peak \<and> \<not> useA \<and> \<not> useB) in
      \<lparr>ef_A = (\<lambda>x. if useA then [val1 x * scale] else []),
       ef_B = (\<lambda>x. if useB then [val2 x * scale] else []),
       ef_aux = (\<lambda>x. [aux_byte x]),
       ef_clip0 = (\<lambda>x. if useA then ucast (and (drop_bit 12 x) 1) else 0),
       ef_clip1 = (\<lambda>x. if useB then ucast (and (drop_bit 13 x) 1) else 0),
       ef_peak0 = (\<lambda>x. if peak \<and> useA \<or> watch then val1 x else 0),
       ef_peak1 = (\<lambda>x. if peak \<and> useB \<or> watch then val2 x else 0)\<rparr>)"

definition single_effect :: "bool \<Rightarrow> bool \<Rightarrow> u16 effect" where
  "single_effect pad useA =
     \<lparr>ef_A = (\<lambda>x. if useA then [val1 x * (if pad then 16 else 1)] else []),
      ef_B = (\<lambda>x. []),
      ef_aux = (\<lambda>x. [auxs_byte x]),
      ef_clip0 = (\<lambda>x. if useA then ucast (and (drop_bit 12 x) 1) else 0),
      ef_clip1 = (\<lambda>x. 0),
      ef_peak0 = (\<lambda>x. 0),
      ef_peak1 = (\<lambda>x. 0)\<rparr>"

lemma top_peak_0 [simp]: "top_peak p 0 = p"
  by (simp add: top_peak_def)

lemma stored_value:
  fixes w :: "'a::len word"
  assumes "- (2 ^ (LENGTH('a) - 1)) \<le> v" "v < 2 ^ (LENGTH('a) - 1)"
  shows "sint (word_of_int v :: 'a word) = v"
  using assms by (simp add: sint_sbintrunc' signed_take_bit_int_eq_self)

lemmas assignments = set_A_def set_B_def set_aux_def set_auxs_def count_clip0_def count_clip1_def
  peak_A_def peak_B_def peak_last_A_def peak_last_B_def shift_A_def shift_B_def last_A_def last_B_def

lemma stored_16 [simp]:
  "sint (word_of_int (val1 x) :: u16) = val1 x" "sint (word_of_int (val2 y) :: u16) = val2 y"
  and stored_32 [simp]:
  "sint (word_of_int (val1 x) :: u32) = val1 x" "sint (word_of_int (val2 y) :: u32) = val2 y"
  using val1_range [of x] val2_range [of y] by (simp_all add: stored_value)


section \<open>Every extractor is that loop\<close>

lemma loop_eq:
  assumes "\<And>x st. f x st = apply_effect e x st"
  shows "fold f xs st = fold (apply_effect e) xs st"
  using assms by (metis ext)

lemmas loops = assignments apply_effect_def dual_effect_def single_effect_def aux_byte_def
  auxs_byte_def top_peak_def val_32 Let_def

lemma extract_S_C_loop:
  "extract_S_C xs st = fold (apply_effect (single_effect False True)) xs st"
  unfolding extract_S_C_def by (rule loop_eq) (simp add: loops)

lemma extract_A_C_loop:
  "extract_A_C xs st = fold (apply_effect (dual_effect False False True False)) xs st"
  unfolding extract_A_C_def by (rule loop_eq) (simp add: loops)

lemma extract_A_peak_C_loop:
  "extract_A_peak_C xs st = fold (apply_effect (dual_effect False True True False)) xs
     (st\<lparr>co_peak0 := 0\<rparr>)"
  unfolding extract_A_peak_C_def by (rule loop_eq) (simp add: loops)

lemma extract_B_C_loop:
  "extract_B_C xs st = fold (apply_effect (dual_effect False False False True)) xs st"
  unfolding extract_B_C_def by (rule loop_eq) (simp add: loops)

lemma extract_B_peak_C_loop:
  "extract_B_peak_C xs st = fold (apply_effect (dual_effect False True False True)) xs
     (st\<lparr>co_peak1 := 0\<rparr>)"
  unfolding extract_B_peak_C_def by (rule loop_eq) (simp add: loops)

lemma extract_AB_C_loop:
  "extract_AB_C xs st = fold (apply_effect (dual_effect False False True True)) xs st"
  unfolding extract_AB_C_def by (rule loop_eq) (simp add: loops)

lemma extract_AB_peak_C_loop:
  "extract_AB_peak_C xs st = fold (apply_effect (dual_effect False True True True)) xs
     (st\<lparr>co_peak0 := 0, co_peak1 := 0\<rparr>)"
  unfolding extract_AB_peak_C_def by (rule loop_eq) (simp add: loops)

lemma extract_S_p_C_loop:
  "extract_S_p_C xs st = fold (apply_effect (single_effect True True)) xs st"
  unfolding extract_S_p_C_def by (rule loop_eq) (simp add: loops)

lemma extract_A_p_C_loop:
  "extract_A_p_C xs st = fold (apply_effect (dual_effect True False True False)) xs st"
  unfolding extract_A_p_C_def by (rule loop_eq) (simp add: loops)

lemma extract_A_p_peak_C_loop:
  "extract_A_p_peak_C xs st = fold (apply_effect (dual_effect True True True False)) xs
     (st\<lparr>co_peak0 := 0\<rparr>)"
  unfolding extract_A_p_peak_C_def by (rule loop_eq) (simp add: loops)

lemma extract_B_p_C_loop:
  "extract_B_p_C xs st = fold (apply_effect (dual_effect True False False True)) xs st"
  unfolding extract_B_p_C_def by (rule loop_eq) (simp add: loops)

lemma extract_B_p_peak_C_loop:
  "extract_B_p_peak_C xs st = fold (apply_effect (dual_effect True True False True)) xs
     (st\<lparr>co_peak1 := 0\<rparr>)"
  unfolding extract_B_p_peak_C_def by (rule loop_eq) (simp add: loops)

lemma extract_AB_p_C_loop:
  "extract_AB_p_C xs st = fold (apply_effect (dual_effect True False True True)) xs st"
  unfolding extract_AB_p_C_def by (rule loop_eq) (simp add: loops)

lemma extract_AB_p_peak_C_loop:
  "extract_AB_p_peak_C xs st = fold (apply_effect (dual_effect True True True True)) xs
     (st\<lparr>co_peak0 := 0, co_peak1 := 0\<rparr>)"
  unfolding extract_AB_p_peak_C_def by (rule loop_eq) (simp add: loops)

lemma extract_S_32_C_loop:
  "extract_S_32_C xs st = fold (apply_effect (single_effect False True)) xs st"
  unfolding extract_S_32_C_def by (rule loop_eq) (simp add: loops)

lemma extract_A_32_C_loop:
  "extract_A_32_C xs st = fold (apply_effect (dual_effect False False True False)) xs st"
  unfolding extract_A_32_C_def by (rule loop_eq) (simp add: loops)

lemma extract_A_peak_32_C_loop:
  "extract_A_peak_32_C xs st = fold (apply_effect (dual_effect False True True False)) xs
     (st\<lparr>co_peak0 := 0\<rparr>)"
  unfolding extract_A_peak_32_C_def by (rule loop_eq) (simp add: loops)

lemma extract_B_32_C_loop:
  "extract_B_32_C xs st = fold (apply_effect (dual_effect False False False True)) xs st"
  unfolding extract_B_32_C_def by (rule loop_eq) (simp add: loops)

lemma extract_B_peak_32_C_loop:
  "extract_B_peak_32_C xs st = fold (apply_effect (dual_effect False True False True)) xs
     (st\<lparr>co_peak1 := 0\<rparr>)"
  unfolding extract_B_peak_32_C_def by (rule loop_eq) (simp add: loops)

lemma extract_AB_32_C_loop:
  "extract_AB_32_C xs st = fold (apply_effect (dual_effect False False True True)) xs st"
  unfolding extract_AB_32_C_def by (rule loop_eq) (simp add: loops)

lemma extract_AB_peak_32_C_loop:
  "extract_AB_peak_32_C xs st = fold (apply_effect (dual_effect False True True True)) xs
     (st\<lparr>co_peak0 := 0, co_peak1 := 0\<rparr>)"
  unfolding extract_AB_peak_32_C_def by (rule loop_eq) (simp add: loops)

lemma extract_S_p_32_C_loop:
  "extract_S_p_32_C xs st = fold (apply_effect (single_effect True True)) xs st"
  unfolding extract_S_p_32_C_def by (rule loop_eq) (simp add: loops)

lemma extract_A_p_32_C_loop:
  "extract_A_p_32_C xs st = fold (apply_effect (dual_effect True False True False)) xs st"
  unfolding extract_A_p_32_C_def by (rule loop_eq) (simp add: loops)

lemma extract_A_p_peak_32_C_loop:
  "extract_A_p_peak_32_C xs st = fold (apply_effect (dual_effect True True True False)) xs
     (st\<lparr>co_peak0 := 0\<rparr>)"
  unfolding extract_A_p_peak_32_C_def by (rule loop_eq) (simp add: loops)

lemma extract_B_p_32_C_loop:
  "extract_B_p_32_C xs st = fold (apply_effect (dual_effect True False False True)) xs st"
  unfolding extract_B_p_32_C_def by (rule loop_eq) (simp add: loops)

lemma extract_B_p_peak_32_C_loop:
  "extract_B_p_peak_32_C xs st = fold (apply_effect (dual_effect True True False True)) xs
     (st\<lparr>co_peak1 := 0\<rparr>)"
  unfolding extract_B_p_peak_32_C_def by (rule loop_eq) (simp add: loops)

lemma extract_AB_p_32_C_loop:
  "extract_AB_p_32_C xs st = fold (apply_effect (dual_effect True False True True)) xs st"
  unfolding extract_AB_p_32_C_def by (rule loop_eq) (simp add: loops)

lemma extract_AB_p_peak_32_C_loop:
  "extract_AB_p_peak_32_C xs st = fold (apply_effect (dual_effect True True True True)) xs
     (st\<lparr>co_peak0 := 0, co_peak1 := 0\<rparr>)"
  unfolding extract_AB_p_peak_32_C_def by (rule loop_eq) (simp add: loops)

lemma extract_XS_C_loop: "extract_XS_C xs st = fold (apply_effect (single_effect False False)) xs st"
  unfolding extract_XS_C_def by (rule loop_eq) (simp add: loops)

lemma extract_X_C_loop:
  "extract_X_C xs st = fold (apply_effect (dual_effect False False False False)) xs st"
  unfolding extract_X_C_def by (rule loop_eq) (simp add: loops)

lemma extract_X_peak_C_loop:
  "extract_X_peak_C xs st = fold (apply_effect (dual_effect False True False False)) xs
     (st\<lparr>co_peak0 := 0, co_peak1 := 0\<rparr>)"
  unfolding extract_X_peak_C_def by (rule loop_eq) (simp add: loops)

section \<open>Selecting an extractor\<close>

datatype conv_function =
    Extract_XS_C
  | Extract_X_C
  | Extract_X_peak_C
  | Extract_S_C
  | Extract_A_C
  | Extract_A_peak_C
  | Extract_B_C
  | Extract_B_peak_C
  | Extract_AB_C
  | Extract_AB_peak_C
  | Extract_S_p_C
  | Extract_A_p_C
  | Extract_A_p_peak_C
  | Extract_B_p_C
  | Extract_B_p_peak_C
  | Extract_AB_p_C
  | Extract_AB_p_peak_C
  | Extract_S_32_C
  | Extract_A_32_C
  | Extract_A_peak_32_C
  | Extract_B_32_C
  | Extract_B_peak_32_C
  | Extract_AB_32_C
  | Extract_AB_peak_32_C
  | Extract_S_p_32_C
  | Extract_A_p_32_C
  | Extract_A_p_peak_32_C
  | Extract_B_p_32_C
  | Extract_B_p_peak_32_C
  | Extract_AB_p_32_C
  | Extract_AB_p_peak_32_C

text \<open>The choice among the portable extractors (the x86 build asks first whether it has an
  assembler version of the same name).\<close>

definition get_conv_function ::
  "bool \<Rightarrow> bool \<Rightarrow> bool \<Rightarrow> bool \<Rightarrow> bool \<Rightarrow> bool \<Rightarrow> conv_function" where
  "get_conv_function single pad dword peak_level outA outB =
     (let peak_level = (if single then False else peak_level) in
      if \<not> outA \<and> \<not> outB then
        (if single then Extract_XS_C else if peak_level then Extract_X_peak_C else Extract_X_C)
      else if peak_level then
        (if \<not> dword then
           (if pad then
              (if \<not> outA then Extract_B_p_peak_C
               else if \<not> outB then Extract_A_p_peak_C else Extract_AB_p_peak_C)
            else
              (if \<not> outA then Extract_B_peak_C
               else if \<not> outB then Extract_A_peak_C else Extract_AB_peak_C))
         else
           (if pad then
              (if \<not> outA then Extract_B_p_peak_32_C
               else if \<not> outB then Extract_A_p_peak_32_C else Extract_AB_p_peak_32_C)
            else
              (if \<not> outA then Extract_B_peak_32_C
               else if \<not> outB then Extract_A_peak_32_C else Extract_AB_peak_32_C)))
      else
        (if \<not> dword then
           (if pad then
              (if single then Extract_S_p_C else if \<not> outA then Extract_B_p_C
               else if \<not> outB then Extract_A_p_C else Extract_AB_p_C)
            else
              (if single then Extract_S_C else if \<not> outA then Extract_B_C
               else if \<not> outB then Extract_A_C else Extract_AB_C))
         else
           (if pad then
              (if \<not> outA then Extract_B_p_32_C
               else if \<not> outB then Extract_A_p_32_C else Extract_AB_p_32_C)
            else
              (if \<not> outA then Extract_B_32_C
               else if \<not> outB then Extract_A_32_C else Extract_AB_32_C))))"

text \<open>Running a selected function on a buffer of 16-bit or of 32-bit capture words: None when
  the function would read the buffer at the other width.  The outputs are read as integers.\<close>

datatype conv_input = Words16 "u16 list" | Words32 "u32 list"

record conv_result =
  res_A :: "int list"
  res_B :: "int list"
  res_aux :: bytes
  res_clip0 :: size_t
  res_clip1 :: size_t
  res_peak0 :: int
  res_peak1 :: int

definition result_of :: "'o::len word conv_out \<Rightarrow> conv_result" where
  "result_of st = \<lparr>res_A = map sint (co_outA st), res_B = map sint (co_outB st),
     res_aux = co_aux st, res_clip0 = co_clip0 st, res_clip1 = co_clip1 st,
     res_peak0 = uint (co_peak0 st), res_peak1 = uint (co_peak1 st)\<rparr>"

definition blank :: "size_t \<Rightarrow> size_t \<Rightarrow> 'o conv_out" where
  "blank c0 c1 = \<lparr>co_outA = [], co_outB = [], co_aux = [], co_clip0 = c0, co_clip1 = c1,
     co_peak0 = 0, co_peak1 = 0\<rparr>"

fun conv_run :: "conv_function \<Rightarrow> conv_input \<Rightarrow> size_t \<Rightarrow> size_t \<Rightarrow> conv_result option" where
  "conv_run Extract_XS_C (Words16 xs) c0 c1 = Some (result_of (extract_XS_C xs (blank c0 c1)))"
| "conv_run Extract_X_C (Words32 xs) c0 c1 = Some (result_of (extract_X_C xs (blank c0 c1)))"
| "conv_run Extract_X_peak_C (Words32 xs) c0 c1 = Some (result_of (extract_X_peak_C xs (blank c0 c1)))"
| "conv_run Extract_S_C (Words16 xs) c0 c1 = Some (result_of (extract_S_C xs (blank c0 c1)))"
| "conv_run Extract_A_C (Words32 xs) c0 c1 = Some (result_of (extract_A_C xs (blank c0 c1)))"
| "conv_run Extract_A_peak_C (Words32 xs) c0 c1 = Some (result_of (extract_A_peak_C xs (blank c0 c1)))"
| "conv_run Extract_B_C (Words32 xs) c0 c1 = Some (result_of (extract_B_C xs (blank c0 c1)))"
| "conv_run Extract_B_peak_C (Words32 xs) c0 c1 = Some (result_of (extract_B_peak_C xs (blank c0 c1)))"
| "conv_run Extract_AB_C (Words32 xs) c0 c1 = Some (result_of (extract_AB_C xs (blank c0 c1)))"
| "conv_run Extract_AB_peak_C (Words32 xs) c0 c1 = Some (result_of (extract_AB_peak_C xs (blank c0 c1)))"
| "conv_run Extract_S_p_C (Words16 xs) c0 c1 = Some (result_of (extract_S_p_C xs (blank c0 c1)))"
| "conv_run Extract_A_p_C (Words32 xs) c0 c1 = Some (result_of (extract_A_p_C xs (blank c0 c1)))"
| "conv_run Extract_A_p_peak_C (Words32 xs) c0 c1 = Some (result_of (extract_A_p_peak_C xs (blank c0 c1)))"
| "conv_run Extract_B_p_C (Words32 xs) c0 c1 = Some (result_of (extract_B_p_C xs (blank c0 c1)))"
| "conv_run Extract_B_p_peak_C (Words32 xs) c0 c1 = Some (result_of (extract_B_p_peak_C xs (blank c0 c1)))"
| "conv_run Extract_AB_p_C (Words32 xs) c0 c1 = Some (result_of (extract_AB_p_C xs (blank c0 c1)))"
| "conv_run Extract_AB_p_peak_C (Words32 xs) c0 c1 = Some (result_of (extract_AB_p_peak_C xs (blank c0 c1)))"
| "conv_run Extract_S_32_C (Words16 xs) c0 c1 = Some (result_of (extract_S_32_C xs (blank c0 c1)))"
| "conv_run Extract_A_32_C (Words32 xs) c0 c1 = Some (result_of (extract_A_32_C xs (blank c0 c1)))"
| "conv_run Extract_A_peak_32_C (Words32 xs) c0 c1 = Some (result_of (extract_A_peak_32_C xs (blank c0 c1)))"
| "conv_run Extract_B_32_C (Words32 xs) c0 c1 = Some (result_of (extract_B_32_C xs (blank c0 c1)))"
| "conv_run Extract_B_peak_32_C (Words32 xs) c0 c1 = Some (result_of (extract_B_peak_32_C xs (blank c0 c1)))"
| "conv_run Extract_AB_32_C (Words32 xs) c0 c1 = Some (result_of (extract_AB_32_C xs (blank c0 c1)))"
| "conv_run Extract_AB_peak_32_C (Words32 xs) c0 c1 = Some (result_of (extract_AB_peak_32_C xs (blank c0 c1)))"
| "conv_run Extract_S_p_32_C (Words16 xs) c0 c1 = Some (result_of (extract_S_p_32_C xs (blank c0 c1)))"
| "conv_run Extract_A_p_32_C (Words32 xs) c0 c1 = Some (result_of (extract_A_p_32_C xs (blank c0 c1)))"
| "conv_run Extract_A_p_peak_32_C (Words32 xs) c0 c1 = Some (result_of (extract_A_p_peak_32_C xs (blank c0 c1)))"
| "conv_run Extract_B_p_32_C (Words32 xs) c0 c1 = Some (result_of (extract_B_p_32_C xs (blank c0 c1)))"
| "conv_run Extract_B_p_peak_32_C (Words32 xs) c0 c1 = Some (result_of (extract_B_p_peak_32_C xs (blank c0 c1)))"
| "conv_run Extract_AB_p_32_C (Words32 xs) c0 c1 = Some (result_of (extract_AB_p_32_C xs (blank c0 c1)))"
| "conv_run Extract_AB_p_peak_32_C (Words32 xs) c0 c1 = Some (result_of (extract_AB_p_peak_32_C xs (blank c0 c1)))"
| "conv_run _ _ _ _ = None"

section \<open>The contract of the extractors\<close>

definition channel_a :: "int \<Rightarrow> int" where
  "channel_a x = 2047 - x mod 4096"

definition channel_b :: "int \<Rightarrow> int" where
  "channel_b x = 2047 - x div 2 ^ 20 mod 4096"

definition bit_count :: "nat \<Rightarrow> int list \<Rightarrow> nat" where
  "bit_count n xs = length (filter (\<lambda>x. x div 2 ^ n mod 2 = 1) xs)"

definition peak_of :: "int list \<Rightarrow> int" where
  "peak_of vs = fold max (map abs vs) 0"

text \<open>What any extractor must deliver for a list of capture words, given as integers.\<close>

definition conv_spec ::
  "bool \<Rightarrow> bool \<Rightarrow> bool \<Rightarrow> bool \<Rightarrow> bytes \<Rightarrow> int list \<Rightarrow> size_t \<Rightarrow> size_t \<Rightarrow> conv_result" where
  "conv_spec pad peak useA useB aux xs c0 c1 =
     (let scale = (if pad then 16 else 1); watch = (peak \<and> \<not> useA \<and> \<not> useB) in
      \<lparr>res_A = (if useA then map (\<lambda>x. channel_a x * scale) xs else []),
       res_B = (if useB then map (\<lambda>x. channel_b x * scale) xs else []),
       res_aux = aux,
       res_clip0 = c0 + (if useA then of_nat (bit_count 12 xs) else 0),
       res_clip1 = c1 + (if useB then of_nat (bit_count 13 xs) else 0),
       res_peak0 = (if peak \<and> useA \<or> watch then peak_of (map channel_a xs) else 0),
       res_peak1 = (if peak \<and> useB \<or> watch then peak_of (map channel_b xs) else 0)\<rparr>)"

lemma channel_val: "channel_a (uint x) = val1 x" "channel_b (uint y) = val2 y"
  by (simp_all add: channel_a_def channel_b_def val1_eq val2_eq)

lemma clip_bit:
  fixes x :: "'a::len word"
  assumes "n < LENGTH('a)"
  shows "(ucast (and (drop_bit n x) 1) :: size_t) = (if uint x div 2 ^ n mod 2 = 1 then 1 else 0)"
proof -
  have "bit x n \<longleftrightarrow> uint x div 2 ^ n mod 2 = 1"
    using bit_uint_iff [of x n] assms by (simp add: bit_iff_odd odd_iff_mod_2_eq_one)
  then show ?thesis
    by (simp add: and_one_eq bit_iff_odd_drop_bit mod_2_eq_odd split: if_splits)
qed

lemma clip_sum:
  "sum_list (map (\<lambda>x :: 'a::len word. ucast (and (drop_bit n x) 1)) xs)
     = (of_nat (bit_count n (map uint xs)) :: size_t)" if "n < LENGTH('a)"
  using that by (induction xs) (simp_all add: clip_bit bit_count_def)

lemma peak_fold:
  assumes "\<forall>v\<in>set vs. \<bar>v\<bar> < 65536"
  shows "uint (foldl top_peak p vs) = fold max (map abs vs) (uint p)"
  using assms
proof (induction vs arbitrary: p)
  case (Cons v vs)
  then have "uint (top_peak p v) = max \<bar>v\<bar> (uint p)"
    by (auto simp: top_peak_def max_def uint_word_of_int)
  then show ?case using Cons by simp
qed simp

lemma stored_scaled:
  fixes v :: int
  assumes "- 2048 \<le> v" "v \<le> 2047"
  shows "sint (word_of_int v * 16 :: u16) = v * 16" "sint (word_of_int v * 16 :: u32) = v * 16"
proof -
  have "word_of_int v * 16 = (word_of_int (v * 16) :: u16)"
    "word_of_int v * 16 = (word_of_int (v * 16) :: u32)" by simp_all
  then show "sint (word_of_int v * 16 :: u16) = v * 16" "sint (word_of_int v * 16 :: u32) = v * 16"
    using assms stored_value [of "v * 16", where 'a = 16] stored_value [of "v * 16", where 'a = 32]
    by simp_all
qed

lemma blank_peaks:
  "(blank c0 c1)\<lparr>co_peak0 := 0, co_peak1 := 0\<rparr> = blank c0 c1"
  "(blank c0 c1)\<lparr>co_peak0 := 0\<rparr> = blank c0 c1"
  "(blank c0 c1)\<lparr>co_peak1 := 0\<rparr> = blank c0 c1"
  by (simp_all add: blank_def)

lemma map_singletons: "concat (map (\<lambda>x. [f x]) xs) = map f xs"
  by (induction xs) simp_all

lemma sum_list_zero: "sum_list (map (\<lambda>x. 0 :: size_t) xs) = 0"
  by (induction xs) simp_all

lemma peak_fold_zero: "foldl top_peak p (map (\<lambda>x. 0) xs) = p"
  by (induction xs) simp_all

lemma peak_val:
  "uint (foldl top_peak 0 (map val1 xs)) = peak_of (map val1 xs)"
  "uint (foldl top_peak 0 (map val2 ys)) = peak_of (map val2 ys)"
proof -
  have "\<bar>val1 x\<bar> < 65536" "\<bar>val2 y\<bar> < 65536" for x y
    using val1_range [of x] val2_range [of y] by linarith+
  then show "uint (foldl top_peak 0 (map val1 xs)) = peak_of (map val1 xs)"
    "uint (foldl top_peak 0 (map val2 ys)) = peak_of (map val2 ys)"
    unfolding peak_of_def
    using peak_fold [of "map val1 xs" 0] peak_fold [of "map val2 ys" 0] by auto
qed

lemma stored_vals:
  "sint (word_of_int (val1 x) * 16 :: u16) = val1 x * 16"
  "sint (word_of_int (val1 x) * 16 :: u32) = val1 x * 16"
  "sint (word_of_int (val2 y) * 16 :: u16) = val2 y * 16"
  "sint (word_of_int (val2 y) * 16 :: u32) = val2 y * 16"
  using val1_range [of x] val2_range [of y] by (simp_all add: stored_scaled)

lemmas contract = result_of_def conv_spec_def fold_effect blank_def map_singletons
  sum_list_zero peak_fold_zero peak_val stored_vals channel_val clip_sum o_def Let_def

lemma dual_contract_16:
  "result_of (fold (apply_effect (dual_effect pad peak a b)) xs (blank c0 c1 :: out16))
     = conv_spec pad peak a b (map aux_byte xs) (map uint xs) c0 c1"
  by (cases a; cases b; cases pad; cases peak) (simp_all add: contract dual_effect_def)

lemma dual_contract_32:
  "result_of (fold (apply_effect (dual_effect pad peak a b)) xs (blank c0 c1 :: out32))
     = conv_spec pad peak a b (map aux_byte xs) (map uint xs) c0 c1"
  by (cases a; cases b; cases pad; cases peak) (simp_all add: contract dual_effect_def)

lemma single_contract_16:
  "result_of (fold (apply_effect (single_effect pad a)) xs (blank c0 c1 :: out16))
     = conv_spec pad False a False (map auxs_byte xs) (map uint xs) c0 c1"
  by (cases a; cases pad) (simp_all add: contract single_effect_def)

lemma pad_unused:
  "conv_spec True peak False False aux xs c0 c1 = conv_spec False peak False False aux xs c0 c1"
  by (simp add: conv_spec_def)

lemmas extractor_loops =
  extract_XS_C_loop extract_X_C_loop extract_X_peak_C_loop
  extract_S_C_loop extract_A_C_loop extract_A_peak_C_loop
  extract_B_C_loop extract_B_peak_C_loop extract_AB_C_loop
  extract_AB_peak_C_loop extract_S_p_C_loop extract_A_p_C_loop
  extract_A_p_peak_C_loop extract_B_p_C_loop extract_B_p_peak_C_loop
  extract_AB_p_C_loop extract_AB_p_peak_C_loop extract_S_32_C_loop
  extract_A_32_C_loop extract_A_peak_32_C_loop extract_B_32_C_loop
  extract_B_peak_32_C_loop extract_AB_32_C_loop extract_AB_peak_32_C_loop
  extract_S_p_32_C_loop extract_A_p_32_C_loop extract_A_p_peak_32_C_loop
  extract_B_p_32_C_loop extract_B_p_peak_32_C_loop extract_AB_p_32_C_loop
  extract_AB_p_peak_32_C_loop

section \<open>Properties\<close>


text \<open>With 32-bit output the selection forgets the single-channel case, for which the file
  does define extractors: it picks one that reads the buffer as 32-bit words.\<close>

lemma single_dword_reads_wide:
  "a \<Longrightarrow> conv_run (get_conv_function True pad True peak a False) (Words16 ys) c0 c1 = None"
  by (cases pad) (simp_all add: get_conv_function_def)

section \<open>Width conversions\<close>

definition convert_16to32_C :: "u16 list \<Rightarrow> u32 list" where
  "convert_16to32_C = map scast"

definition saturate :: "int \<Rightarrow> int \<Rightarrow> u16 \<Rightarrow> int" where
  "saturate lo hi x = (if hi < sint x then hi else if sint x < lo then lo else sint x)"

definition convert_16to8to32_C :: "u16 list \<Rightarrow> u32 list" where
  "convert_16to8to32_C = map (\<lambda>x. word_of_int (saturate (- 128) 127 x))"

definition convert_16to12to32_C :: "u16 list \<Rightarrow> u32 list" where
  "convert_16to12to32_C = map (\<lambda>x. word_of_int (saturate (- 2048) 2047 x))"

definition convert_16to8_C :: "u16 list \<Rightarrow> u8 list" where
  "convert_16to8_C = map (\<lambda>x. word_of_int (saturate (- 128) 127 x))"

lemma saturate_range: "lo \<le> hi \<Longrightarrow> lo \<le> saturate lo hi x \<and> saturate lo hi x \<le> hi"
  by (simp add: saturate_def)

lemma saturated_32: "- 2048 \<le> v \<Longrightarrow> v \<le> 2047 \<Longrightarrow> sint (word_of_int v :: u32) = v"
  by (simp add: stored_value)

lemma saturated_8: "- 128 \<le> v \<Longrightarrow> v \<le> 127 \<Longrightarrow> sint (word_of_int v :: u8) = v"
  by (simp add: stored_value)

text \<open>The width conversions are exact: each output is the input clamped to the range of
  the target (and to no other value), the 8-bit and the 8-in-32-bit conversion agree, and
  the 12-bit clamp changes nothing a 12-bit extractor delivered without padding.\<close>

theorem conversions_saturate:
  "map sint (convert_16to8_C xs) = map (\<lambda>x. max (- 128) (min 127 (sint x))) xs \<and>
   map sint (convert_16to8to32_C xs) = map sint (convert_16to8_C xs) \<and>
   map sint (convert_16to12to32_C xs) = map (\<lambda>x. max (- 2048) (min 2047 (sint x))) xs \<and>
   map sint (convert_16to12to32_C (map (\<lambda>w. word_of_int (val1 w)) ws)) = map val1 (ws :: u32 list)"
proof -
  have 8: "saturate (- 128) 127 x = max (- 128) (min 127 (sint x))"
    "saturate (- 2048) 2047 x = max (- 2048) (min 2047 (sint x))" for x
    by (auto simp: saturate_def)
  have "sint (word_of_int (saturate (- 128) 127 x) :: u8) = saturate (- 128) 127 x"
    "sint (word_of_int (saturate (- 128) 127 x) :: u32) = saturate (- 128) 127 x"
    "sint (word_of_int (saturate (- 2048) 2047 x) :: u32) = saturate (- 2048) 2047 x" for x
    using saturate_range [of "- 128" 127 x] saturate_range [of "- 2048" 2047 x]
    by (auto intro!: saturated_8 saturated_32)
  moreover have "max (- 2048) (min 2047 (val1 w)) = val1 w" for w :: u32
    using val1_range [of w] by simp
  ultimately show ?thesis
    by (simp add: convert_16to8_C_def convert_16to8to32_C_def convert_16to12to32_C_def o_def 8)
qed

section \<open>Audio frames\<close>

text \<open>A frame of the audio stream is four 24-bit samples.  The loops of the two splitters
  advance by three elements of each output array per frame; their bodies read the input at
  fixed offsets from the loop index.\<close>

fun audio_2ch_loop :: "u16 list \<Rightarrow> nat \<Rightarrow> nat \<Rightarrow> nat \<Rightarrow> u16 list \<times> u16 list" where
  "audio_2ch_loop inp limit i 0 = ([], [])"
| "audio_2ch_loop inp limit i (Suc fuel) =
     (if i < limit then
        case audio_2ch_loop inp limit (i + 3) fuel of (out12, out34) \<Rightarrow>
          ([inp ! (i * 2), inp ! (i * 2 + 1), inp ! (i * 2 + 2)] @ out12,
           [inp ! (i * 2 + 3), inp ! (i * 2 + 4), inp ! (i * 2 + 5)] @ out34)
      else ([], []))"

definition extract_audio_2ch_C :: "u16 list \<Rightarrow> nat \<Rightarrow> u16 list \<times> u16 list" where
  "extract_audio_2ch_C inp len = audio_2ch_loop inp (len div 4) 0 (Suc (len div 4))"

fun audio_1ch_loop :: "bytes \<Rightarrow> nat \<Rightarrow> nat \<Rightarrow> nat \<Rightarrow> bytes \<times> bytes \<times> bytes \<times> bytes" where
  "audio_1ch_loop inp limit i 0 = ([], [], [], [])"
| "audio_1ch_loop inp limit i (Suc fuel) =
     (if i < limit then
        case audio_1ch_loop inp limit (i + 3) fuel of (out1, out2, out3, out4) \<Rightarrow>
          ([inp ! (i * 4), inp ! (i * 4 + 1), inp ! (i * 4 + 2)] @ out1,
           [inp ! (i * 4 + 3), inp ! (i * 4 + 4), inp ! (i * 4 + 5)] @ out2,
           [inp ! (i * 4 + 6), inp ! (i * 4 + 7), inp ! (i * 4 + 8)] @ out3,
           [inp ! (i * 4 + 9), inp ! (i * 4 + 10), inp ! (i * 4 + 11)] @ out4)
      else ([], [], [], []))"

definition extract_audio_1ch_C :: "bytes \<Rightarrow> nat \<Rightarrow> bytes \<times> bytes \<times> bytes \<times> bytes" where
  "extract_audio_1ch_C inp len = audio_1ch_loop inp (len div 4) 0 (Suc (len div 4))"

text \<open>A stream as its frames: what channels 1 to 4 recorded.\<close>

type_synonym frame = "(u8 \<times> u8 \<times> u8) \<times> (u8 \<times> u8 \<times> u8) \<times> (u8 \<times> u8 \<times> u8) \<times> (u8 \<times> u8 \<times> u8)"

definition sample_bytes :: "u8 \<times> u8 \<times> u8 \<Rightarrow> bytes" where
  "sample_bytes s = (case s of (a, b, c) \<Rightarrow> [a, b, c])"

definition frame_bytes :: "frame \<Rightarrow> bytes" where
  "frame_bytes f = (case f of (c1, c2, c3, c4) \<Rightarrow>
     sample_bytes c1 @ sample_bytes c2 @ sample_bytes c3 @ sample_bytes c4)"

lemma sample_bytes_triple [simp]: "sample_bytes (a, b, c) = [a, b, c]"
  by (simp add: sample_bytes_def)

lemma length_frames: "length (concat (map frame_bytes fs)) = 12 * length fs"
  by (induction fs) (auto simp: frame_bytes_def sample_bytes_def split: prod.splits)

lemma audio_1ch_loop_frames:
  assumes "length pre = 4 * i" "limit = i + 3 * length fs" "length fs < fuel"
  shows "audio_1ch_loop (pre @ concat (map frame_bytes fs)) limit i fuel =
     (concat (map (\<lambda>f. sample_bytes (fst f)) fs), concat (map (\<lambda>f. sample_bytes (fst (snd f))) fs),
      concat (map (\<lambda>f. sample_bytes (fst (snd (snd f)))) fs),
      concat (map (\<lambda>f. sample_bytes (snd (snd (snd f)))) fs))"
  using assms
proof (induction fs arbitrary: pre i fuel)
  case Nil
  then show ?case by (cases fuel) auto
next
  case (Cons f fs)
  obtain fuel' where fuel: "fuel = Suc fuel'" using Cons.prems(3) by (cases fuel) auto
  have l: "length (frame_bytes f) = 12"
    by (auto simp: frame_bytes_def sample_bytes_def split: prod.splits)
  have rest: "audio_1ch_loop (pre @ concat (map frame_bytes (f # fs))) limit (i + 3) fuel' =
     (concat (map (\<lambda>f. sample_bytes (fst f)) fs), concat (map (\<lambda>f. sample_bytes (fst (snd f))) fs),
      concat (map (\<lambda>f. sample_bytes (fst (snd (snd f)))) fs),
      concat (map (\<lambda>f. sample_bytes (snd (snd (snd f)))) fs))"
    using Cons.IH [of "pre @ frame_bytes f" "i + 3" fuel'] Cons.prems fuel l by simp
  obtain a1 a2 a3 b1 b2 b3 c1 c2 c3 d1 d2 d3 where
    f: "f = ((a1, a2, a3), (b1, b2, b3), (c1, c2, c3), (d1, d2, d3))"
    by (cases f) auto
  then have fb: "frame_bytes f = [a1, a2, a3, b1, b2, b3, c1, c2, c3, d1, d2, d3]"
    by (simp add: frame_bytes_def)
  have at: "(pre @ concat (map frame_bytes (f # fs))) ! (i * 4 + k) = frame_bytes f ! k"
    if "k < 12" for k
    using that l Cons.prems(1) by (simp add: nth_append mult.commute)
  note all = at [of 0] at [of 1] at [of 2] at [of 3] at [of 4] at [of 5] at [of 6]
    at [of 7] at [of 8] at [of 9] at [of 10] at [of 11]
  have "i < limit" using Cons.prems(2) by simp
  then show ?case
    using all unfolding fuel audio_1ch_loop.simps rest fb by (simp add: f)
qed

text \<open>C12: For a buffer of whole frames the four-way audio splitter gives each output exactly
  the samples of its channel, in order.\<close>

theorem audio_1ch_deinterleaves:
  "extract_audio_1ch_C (concat (map frame_bytes fs)) (12 * length fs) =
     (concat (map (\<lambda>(c1, c2, c3, c4). sample_bytes c1) fs),
      concat (map (\<lambda>(c1, c2, c3, c4). sample_bytes c2) fs),
      concat (map (\<lambda>(c1, c2, c3, c4). sample_bytes c3) fs),
      concat (map (\<lambda>(c1, c2, c3, c4). sample_bytes c4) fs))"
  using audio_1ch_loop_frames [of "[]" 0 "3 * length fs" fs "Suc (3 * length fs)"]
  by (simp add: extract_audio_1ch_C_def case_prod_beta' o_def)

text \<open>For a buffer whose length is not a multiple of twelve the loop still writes whole groups of
  three: the outputs are longer than a quarter of the input.\<close>

lemma audio_1ch_overrun:
  "length (fst (extract_audio_1ch_C (replicate 24 0) 16)) = 6 \<and> (16 :: nat) div 4 = 4"
  by code_simp

end
