(* ===== verification/Frame_Parser.thy ===== *)
theory Frame_Parser
  imports Prelude
begin

text \<open>
  The frame parser of common/frame\_parser.c: the parsing of one video line, the tracking of
  the frame counter, the running CRC and idle-count checks, the processing of a whole frame
  and the copying of its payloads.  A frame buffer is its bytes; a line is the part of it
  that starts at its row.  The CRC function is a parameter of the definitions, as are the two
  error tolerances, which the code reads once from the environment.  Byte counts are natural
  numbers: a frame of 2 to the 32 lines of 4095 words stays below the range of size\_t.
\<close>

section \<open>Metadata\<close>

datatype crc_config = CRC_NONE | CRC16_1_LINE | CRC16_2_LINE

record metadata =
  md_magic :: u32
  md_framecounter :: u16
  md_crc_config :: crc_config
  md_stream_id_present :: bool

abbreviation HSDAOH_MAGIC :: u32 where "HSDAOH_MAGIC \<equiv> 0xda7acab1"

section \<open>Line parsing\<close>

record parsed_line =
  pl_payload_len :: u16
  pl_crc :: u16
  pl_stream_id :: u16
  pl_valid :: bool

definition line_at :: "bytes \<Rightarrow> nat \<Rightarrow> nat \<Rightarrow> bytes" where
  "line_at buf width i = drop (2 * width * i) buf"

definition line_word :: "bytes \<Rightarrow> nat \<Rightarrow> u16" where
  "line_word line i = le16_at line (2 * i)"

definition trailer_words :: "bool \<Rightarrow> bool \<Rightarrow> nat" where
  "trailer_words has_stream_id has_crc =
     1 + (if has_stream_id then 1 else 0) + (if has_crc then 1 else 0)"

definition frame_parse_line :: "bytes \<Rightarrow> nat \<Rightarrow> bool \<Rightarrow> bool \<Rightarrow> parsed_line" where
  "frame_parse_line line width has_stream_id has_crc =
     (let t = trailer_words has_stream_id has_crc in
      if width \<le> t
      then \<lparr>pl_payload_len = 0, pl_crc = 0, pl_stream_id = 0, pl_valid = False\<rparr>
      else let len = and (line_word line (width - 1)) 0x0FFF in
        \<lparr>pl_payload_len = len,
         pl_crc = (if has_crc then line_word line (width - 2) else 0),
         pl_stream_id = (if has_stream_id then and (line_word line (width - 3)) 0x0FFF else 0),
         pl_valid = (len \<le> of_nat (width - t))\<rparr>)"

section \<open>Frame counter\<close>

record frame_sync_state =
  fs_last_frame_cnt :: u16
  fs_in_order_cnt :: u32
  fs_stream_synced :: bool
  fs_non_sync_cnt :: u32

datatype frame_sync_result =
    FRAME_SYNC_OK | FRAME_SYNC_DUPLICATE | FRAME_SYNC_MISSED | FRAME_SYNC_LOST
  | FRAME_SYNC_ACQUIRED

definition frame_sync_init :: frame_sync_state where
  "frame_sync_init = \<lparr>fs_last_frame_cnt = 0, fs_in_order_cnt = 0, fs_stream_synced = False,
     fs_non_sync_cnt = 0\<rparr>"

definition frame_check_sync ::
  "frame_sync_state \<Rightarrow> u16 \<Rightarrow> u32 \<Rightarrow> frame_sync_result \<times> frame_sync_state" where
  "frame_check_sync st framecounter sync_threshold =
     (if framecounter = fs_last_frame_cnt st then (FRAME_SYNC_DUPLICATE, st)
      else let in_order = (framecounter = fs_last_frame_cnt st + 1);
               st1 = st\<lparr>fs_in_order_cnt := (if in_order then fs_in_order_cnt st + 1 else 0),
                        fs_last_frame_cnt := framecounter\<rparr> in
      if \<not> fs_stream_synced st1 \<and> sync_threshold < fs_in_order_cnt st1
      then (FRAME_SYNC_ACQUIRED, st1\<lparr>fs_stream_synced := True, fs_non_sync_cnt := 0\<rparr>)
      else if \<not> in_order \<and> fs_stream_synced st1 then (FRAME_SYNC_MISSED, st1)
      else (FRAME_SYNC_OK, st1))"

section \<open>CRC and idle counts\<close>

record frame_crc_state =
  fc_last_crc0 :: u16
  fc_last_crc1 :: u16

definition frame_crc_init :: frame_crc_state where
  "frame_crc_init = \<lparr>fc_last_crc0 = 0, fc_last_crc1 = 0\<rparr>"

definition frame_compute_line_crc :: "(bytes \<Rightarrow> u16) \<Rightarrow> bytes \<Rightarrow> nat \<Rightarrow> u16" where
  "frame_compute_line_crc crc16 line width =
     (if width = 0 then 0 else crc16 (take (2 * width) line))"

definition push_crc :: "u16 \<Rightarrow> frame_crc_state \<Rightarrow> frame_crc_state" where
  "push_crc c st = \<lparr>fc_last_crc0 = c, fc_last_crc1 = fc_last_crc0 st\<rparr>"

definition expected_crc :: "crc_config \<Rightarrow> frame_crc_state \<Rightarrow> u16" where
  "expected_crc cfg st = (if cfg = CRC16_1_LINE then fc_last_crc0 st else fc_last_crc1 st)"

definition frame_check_crc ::
  "(bytes \<Rightarrow> u16) \<Rightarrow> frame_crc_state \<Rightarrow> bytes \<Rightarrow> nat \<Rightarrow> u16 \<Rightarrow> crc_config \<Rightarrow>
   bool \<times> frame_crc_state" where
  "frame_check_crc crc16 st line width received_crc cfg =
     (if cfg = CRC_NONE then (True, st)
      else (received_crc = expected_crc cfg st,
            push_crc (frame_compute_line_crc crc16 line width) st))"

definition frame_idle_init :: u16 where
  "frame_idle_init = 0"

fun hsdaoh_check_idle_cnt :: "u16 \<Rightarrow> u16 list \<Rightarrow> int \<times> u16" where
  "hsdaoh_check_idle_cnt idle [] = (0, idle)"
| "hsdaoh_check_idle_cnt idle (w # ws) =
     (case hsdaoh_check_idle_cnt w ws of
        (errors, final) \<Rightarrow> ((if w \<noteq> idle + 1 then 1 else 0) + errors, final))"

definition frame_check_idle ::
  "u16 \<Rightarrow> bytes \<Rightarrow> u16 \<Rightarrow> nat \<Rightarrow> bool \<Rightarrow> bool \<Rightarrow> int \<times> u16" where
  "frame_check_idle idle line payload_len width has_stream_id has_crc =
     (let idle_len = int width - 1 - uint payload_len - (if has_stream_id then 1 else 0)
                     - (if has_crc then 1 else 0) in
      if idle_len < 0 then (1, idle)
      else if idle_len = 0 then (0, idle)
      else hsdaoh_check_idle_cnt idle
             (map (\<lambda>k. line_word line (unat payload_len + k))
                [0..<unat (word_of_int idle_len :: u16)]))"

section \<open>Processing a frame\<close>

record frame_parser_state =
  fp_sync :: frame_sync_state
  fp_crc :: frame_crc_state
  fp_idle :: u16
  fp_frames_since_error :: u32
  fp_reprime_frames :: u32

definition frame_parser_init :: frame_parser_state where
  "frame_parser_init = \<lparr>fp_sync = frame_sync_init, fp_crc = frame_crc_init,
     fp_idle = frame_idle_init, fp_frames_since_error = 0, fp_reprime_frames = 0\<rparr>"

record frame_process_result =
  fr_sync_result :: frame_sync_result
  fr_stream0_bytes :: nat
  fr_stream1_bytes :: nat
  fr_error_count :: int
  fr_valid :: bool
  fr_report_errors :: bool

definition blank_result :: frame_process_result where
  "blank_result = \<lparr>fr_sync_result = FRAME_SYNC_OK, fr_stream0_bytes = 0, fr_stream1_bytes = 0,
     fr_error_count = 0, fr_valid = False, fr_report_errors = False\<rparr>"

text \<open>The tolerance from the environment variable: the number it holds, when it is a complete
  decimal numeral in range, else 24.\<close>

definition frame_error_tolerance :: "int option \<Rightarrow> int" where
  "frame_error_tolerance parsed =
     (case parsed of None \<Rightarrow> 24 | Some n \<Rightarrow> if 0 \<le> n \<and> n \<le> 10000 then n else 24)"

definition frame_idle_desync_threshold :: "nat \<Rightarrow> int" where
  "frame_idle_desync_threshold height = max (int height div 4) 64"

text \<open>What the line loop carries: the running validators, the error counts and the sizes.\<close>

record line_acc =
  la_crc :: frame_crc_state
  la_idle :: u16
  la_idle_errors :: int
  la_crc_errors :: int
  la_stream0 :: nat
  la_stream1 :: nat

definition process_line ::
  "(bytes \<Rightarrow> u16) \<Rightarrow> nat \<Rightarrow> metadata \<Rightarrow> bool \<Rightarrow> bool \<Rightarrow> bytes \<Rightarrow> line_acc \<Rightarrow> line_acc option" where
  "process_line crc16 width meta synced suppress line acc =
     (let has_stream_id = md_stream_id_present meta;
          has_crc = (md_crc_config meta \<noteq> CRC_NONE);
          parsed = frame_parse_line line width has_stream_id has_crc in
      if \<not> pl_valid parsed then None
      else case frame_check_idle (la_idle acc) line (pl_payload_len parsed) width
                  has_stream_id has_crc of (idle_err, idle) \<Rightarrow>
        let bad_crc = (has_crc \<and> \<not> suppress \<and> synced \<and>
              pl_crc parsed \<noteq> expected_crc (md_crc_config meta) (la_crc acc));
            bytes = 2 * unat (pl_payload_len parsed);
            counted = (0 < pl_payload_len parsed \<and> synced) in
        Some \<lparr>la_crc = (if has_crc
                then push_crc (frame_compute_line_crc crc16 line width) (la_crc acc)
                else la_crc acc),
              la_idle = idle,
              la_idle_errors = la_idle_errors acc + (if suppress then 0 else idle_err),
              la_crc_errors = la_crc_errors acc + (if bad_crc then 1 else 0),
              la_stream0 = la_stream0 acc +
                (if counted \<and> pl_stream_id parsed = 0 then bytes else 0),
              la_stream1 = la_stream1 acc +
                (if counted \<and> pl_stream_id parsed = 1 then bytes else 0)\<rparr>)"

fun process_lines ::
  "(bytes \<Rightarrow> u16) \<Rightarrow> nat \<Rightarrow> metadata \<Rightarrow> bool \<Rightarrow> bool \<Rightarrow> bytes list \<Rightarrow> line_acc \<Rightarrow>
   bool \<times> line_acc" where
  "process_lines crc16 width meta synced suppress [] acc = (True, acc)"
| "process_lines crc16 width meta synced suppress (line # ls) acc =
     (case process_line crc16 width meta synced suppress line acc of
        None \<Rightarrow> (False, acc)
      | Some acc' \<Rightarrow> process_lines crc16 width meta synced suppress ls acc')"

definition frame_lines :: "bytes \<Rightarrow> nat \<Rightarrow> nat \<Rightarrow> bytes list" where
  "frame_lines buf width height = map (line_at buf width) [0..<height]"

text \<open>The three ways errors are tolerated, and the burst that re-primes the validators.\<close>

definition tolerated :: "int \<Rightarrow> int \<Rightarrow> int \<Rightarrow> int \<Rightarrow> bool" where
  "tolerated crc_tol idle_tol idle_errors crc_errors =
     (let total = idle_errors + crc_errors;
          tolerate_crc_only = (idle_errors = 0 \<and> crc_errors = total \<and> 0 < crc_tol \<and>
            crc_errors \<le> crc_tol);
          tolerate_idle_only = (crc_errors = 0 \<and> idle_errors = total \<and> 0 < idle_tol \<and>
            idle_errors \<le> idle_tol);
          tolerate_mixed_low = (0 < idle_errors \<and> 0 < crc_errors \<and> 0 < idle_tol \<and>
            0 < crc_tol \<and> idle_errors \<le> idle_tol \<and> crc_errors \<le> crc_tol \<and>
            total \<le> idle_tol + crc_tol) in
      tolerate_crc_only \<or> tolerate_idle_only \<or> tolerate_mixed_low)"

definition idle_desync_burst :: "nat \<Rightarrow> int \<Rightarrow> int \<Rightarrow> int \<Rightarrow> bool" where
  "idle_desync_burst height crc_tol idle_errors crc_errors =
     (0 < idle_errors \<and> frame_idle_desync_threshold height \<le> idle_errors \<and>
      crc_errors \<le> crc_tol)"

text \<open>The part of frame\_process after the line loop.\<close>

definition frame_verdict ::
  "int \<Rightarrow> int \<Rightarrow> nat \<Rightarrow> u32 \<Rightarrow> frame_parser_state \<Rightarrow> frame_process_result \<Rightarrow> int \<Rightarrow> int \<Rightarrow>
   frame_process_result \<times> frame_parser_state" where
  "frame_verdict crc_tol idle_tol height sync_threshold st r idle_errors crc_errors =
     (let synced = fs_stream_synced (fp_sync st) in
      if 0 < fr_error_count r \<and> synced \<and> idle_desync_burst height crc_tol idle_errors crc_errors
      then (r\<lparr>fr_error_count := 0, fr_report_errors := False, fr_valid := False\<rparr>,
            st\<lparr>fp_crc := frame_crc_init, fp_idle := frame_idle_init, fp_reprime_frames := 2,
               fp_frames_since_error := 0\<rparr>)
      else if 0 < fr_error_count r \<and> synced \<and>
              \<not> tolerated crc_tol idle_tol idle_errors crc_errors
      then (r\<lparr>fr_report_errors := True\<rparr>, st\<lparr>fp_frames_since_error := 0\<rparr>)
      else let st1 = st\<lparr>fp_frames_since_error := fp_frames_since_error st + 1\<rparr> in
      if \<not> synced \<and> fr_error_count r = 0 \<and> sync_threshold < fs_in_order_cnt (fp_sync st1)
      then (r\<lparr>fr_sync_result := FRAME_SYNC_ACQUIRED\<rparr>,
            st1\<lparr>fp_sync := (fp_sync st1)\<lparr>fs_stream_synced := True, fs_non_sync_cnt := 0\<rparr>\<rparr>)
      else (r\<lparr>fr_valid := synced\<rparr>, st1))"

text \<open>Taking over the frame counter; a gap re-primes the line validators.\<close>

definition frame_advance :: "frame_parser_state \<Rightarrow> metadata \<Rightarrow> bool \<times> frame_parser_state" where
  "frame_advance st meta =
     (let sy = fp_sync st;
          in_order = (md_framecounter meta = fs_last_frame_cnt sy + 1);
          missed = (\<not> in_order \<and> fs_stream_synced sy);
          sy1 = sy\<lparr>fs_in_order_cnt := (if in_order then fs_in_order_cnt sy + 1 else 0),
                   fs_last_frame_cnt := md_framecounter meta\<rparr> in
      (missed,
       if missed then st\<lparr>fp_sync := sy1, fp_crc := frame_crc_init, fp_idle := frame_idle_init,
                         fp_reprime_frames := 1\<rparr>
       else st\<lparr>fp_sync := sy1\<rparr>))"

text \<open>The line loop and what follows it.\<close>

definition frame_body ::
  "(bytes \<Rightarrow> u16) \<Rightarrow> int \<Rightarrow> int \<Rightarrow> frame_parser_state \<Rightarrow> bool \<Rightarrow> bytes \<Rightarrow> nat \<Rightarrow> nat \<Rightarrow> metadata \<Rightarrow>
   u32 \<Rightarrow> frame_process_result \<times> frame_parser_state" where
  "frame_body crc16 crc_tol idle_tol st missed buf width height meta sync_threshold =
     (let sy = fp_sync st;
          r = blank_result\<lparr>fr_sync_result := (if missed then FRAME_SYNC_MISSED else FRAME_SYNC_OK)\<rparr> in
      case process_lines crc16 width meta (fs_stream_synced sy) (0 < fp_reprime_frames st)
             (frame_lines buf width height)
             \<lparr>la_crc = fp_crc st, la_idle = fp_idle st, la_idle_errors = 0, la_crc_errors = 0,
              la_stream0 = 0, la_stream1 = 0\<rparr> of
        (complete, acc) \<Rightarrow>
          let st1 = st\<lparr>fp_crc := la_crc acc, fp_idle := la_idle acc\<rparr>;
              r1 = r\<lparr>fr_stream0_bytes := la_stream0 acc, fr_stream1_bytes := la_stream1 acc,
                     fr_error_count := la_idle_errors acc + la_crc_errors acc\<rparr> in
          if \<not> complete
          then (r1, if \<not> fs_stream_synced sy
                    then st1\<lparr>fp_sync := sy\<lparr>fs_non_sync_cnt := fs_non_sync_cnt sy + 1\<rparr>\<rparr>
                    else st1)
          else frame_verdict crc_tol idle_tol height sync_threshold
                 (st1\<lparr>fp_reprime_frames :=
                   (if 0 < fp_reprime_frames st1 then fp_reprime_frames st1 - 1 else 0)\<rparr>)
                 r1 (la_idle_errors acc) (la_crc_errors acc))"

definition frame_process ::
  "(bytes \<Rightarrow> u16) \<Rightarrow> int \<Rightarrow> int \<Rightarrow> frame_parser_state \<Rightarrow> bytes \<Rightarrow> nat \<Rightarrow> nat \<Rightarrow> metadata \<Rightarrow>
   u32 \<Rightarrow> frame_process_result \<times> frame_parser_state" where
  "frame_process crc16 crc_tol idle_tol st buf width height meta sync_threshold =
     (let sy = fp_sync st in
      if md_magic meta \<noteq> HSDAOH_MAGIC
      then (blank_result\<lparr>fr_sync_result := FRAME_SYNC_LOST\<rparr>,
            st\<lparr>fp_sync := sy\<lparr>fs_stream_synced := False, fs_in_order_cnt := 0,
                             fs_non_sync_cnt := fs_non_sync_cnt sy + 1\<rparr>,
               fp_reprime_frames := 0\<rparr>)
      else if md_framecounter meta = fs_last_frame_cnt sy
      then (blank_result\<lparr>fr_sync_result := FRAME_SYNC_DUPLICATE\<rparr>, st)
      else case frame_advance st meta of
        (missed, st1) \<Rightarrow>
          frame_body crc16 crc_tol idle_tol st1 missed buf width height meta sync_threshold)"

section \<open>Copying the payloads\<close>

text \<open>The callback is a function of the caller's state; None stands for a NULL output.\<close>

type_synonym 'c payload_cb = "'c \<Rightarrow> u16 \<Rightarrow> bytes \<Rightarrow> nat \<Rightarrow> bool \<times> 'c"

fun copy_lines ::
  "'c payload_cb option \<Rightarrow> nat \<Rightarrow> metadata \<Rightarrow> bool \<Rightarrow> bool \<Rightarrow> bytes list \<Rightarrow> 'c \<Rightarrow> bytes \<times> bytes \<times> 'c"
where
  "copy_lines cb width meta out0 out1 [] c = ([], [], c)"
| "copy_lines cb width meta out0 out1 (line # ls) c =
     (let parsed = frame_parse_line line width (md_stream_id_present meta)
                     (md_crc_config meta \<noteq> CRC_NONE);
          n = 2 * unat (pl_payload_len parsed) in
      if \<not> pl_valid parsed \<or> pl_payload_len parsed = 0
      then copy_lines cb width meta out0 out1 ls c
      else case (case cb of None \<Rightarrow> (True, c)
                 | Some f \<Rightarrow> f c (pl_stream_id parsed) line n) of
        (False, c') \<Rightarrow> copy_lines cb width meta out0 out1 ls c'
      | (True, c') \<Rightarrow>
          (case copy_lines cb width meta out0 out1 ls c' of (s0, s1, c'') \<Rightarrow>
             if pl_stream_id parsed = 0 \<and> out0 then (take n line @ s0, s1, c'')
             else if pl_stream_id parsed = 1 \<and> out1 then (s0, take n line @ s1, c'')
             else (s0, s1, c'')))"

definition frame_copy_payloads_cb ::
  "bytes \<Rightarrow> nat \<Rightarrow> nat \<Rightarrow> metadata \<Rightarrow> bool \<Rightarrow> bool \<Rightarrow> 'c payload_cb option \<Rightarrow> 'c \<Rightarrow>
   nat \<times> bytes \<times> bytes \<times> 'c" where
  "frame_copy_payloads_cb buf width height meta out0 out1 cb c =
     (case copy_lines cb width meta out0 out1 (frame_lines buf width height) c of
        (s0, s1, c') \<Rightarrow> (length s0 + length s1, s0, s1, c'))"

definition frame_copy_payloads ::
  "bytes \<Rightarrow> nat \<Rightarrow> nat \<Rightarrow> metadata \<Rightarrow> bool \<Rightarrow> bool \<Rightarrow> nat \<times> bytes \<times> bytes" where
  "frame_copy_payloads buf width height meta out0 out1 =
     (case frame_copy_payloads_cb buf width height meta out0 out1 None () of
        (n, s0, s1, _) \<Rightarrow> (n, s0, s1))"

section \<open>What the line loop sums up\<close>

text \<open>The lines of a frame as parsed under its metadata, and their payloads per stream.\<close>

definition parse_line :: "nat \<Rightarrow> metadata \<Rightarrow> bytes \<Rightarrow> parsed_line" where
  "parse_line width meta line =
     frame_parse_line line width (md_stream_id_present meta) (md_crc_config meta \<noteq> CRC_NONE)"

definition line_payload :: "nat \<Rightarrow> metadata \<Rightarrow> bytes \<Rightarrow> bytes" where
  "line_payload width meta line = take (2 * unat (pl_payload_len (parse_line width meta line))) line"

definition lines_valid :: "nat \<Rightarrow> metadata \<Rightarrow> bytes list \<Rightarrow> bool" where
  "lines_valid width meta ls = (\<forall>l\<in>set ls. pl_valid (parse_line width meta l))"

definition stream_lines :: "nat \<Rightarrow> metadata \<Rightarrow> u16 \<Rightarrow> bytes list \<Rightarrow> bytes list" where
  "stream_lines width meta sid ls = filter (\<lambda>l. pl_valid (parse_line width meta l) \<and>
     pl_payload_len (parse_line width meta l) \<noteq> 0 \<and>
     pl_stream_id (parse_line width meta l) = sid) ls"

definition line_bytes :: "nat \<Rightarrow> metadata \<Rightarrow> u16 \<Rightarrow> bytes \<Rightarrow> nat" where
  "line_bytes width meta sid l =
     (if pl_valid (parse_line width meta l) \<and> pl_stream_id (parse_line width meta l) = sid
      then 2 * unat (pl_payload_len (parse_line width meta l)) else 0)"

definition stream_size :: "nat \<Rightarrow> metadata \<Rightarrow> u16 \<Rightarrow> bytes list \<Rightarrow> nat" where
  "stream_size width meta sid ls = sum_list (map (line_bytes width meta sid) ls)"

lemma idle_errors_nonneg: "0 \<le> fst (frame_check_idle idle line len width sid crc)"
proof -
  have "0 \<le> fst (hsdaoh_check_idle_cnt i ws)" for i ws
    by (induction i ws rule: hsdaoh_check_idle_cnt.induct) (auto split: prod.splits)
  then show ?thesis by (simp add: frame_check_idle_def Let_def)
qed

text \<open>One line, with the outcome of its idle check made explicit.\<close>

lemma process_line_none:
  "process_line crc16 width meta synced suppress l acc = None
   \<longleftrightarrow> \<not> pl_valid (parse_line width meta l)"
  by (simp add: process_line_def parse_line_def Let_def split: prod.split)

lemma process_line_some:
  assumes "process_line crc16 width meta synced suppress l acc = Some acc'"
  shows "pl_valid (parse_line width meta l)"
    "la_idle_errors acc \<le> la_idle_errors acc'" "la_crc_errors acc \<le> la_crc_errors acc'"
    "suppress \<Longrightarrow> la_idle_errors acc' = la_idle_errors acc"
    "suppress \<or> \<not> synced \<Longrightarrow> la_crc_errors acc' = la_crc_errors acc"
    "synced \<Longrightarrow> la_stream0 acc' = la_stream0 acc + line_bytes width meta 0 l"
    "synced \<Longrightarrow> la_stream1 acc' = la_stream1 acc + line_bytes width meta 1 l"
proof -
  let ?p = "parse_line width meta l"
  obtain ie idle where i: "frame_check_idle (la_idle acc) l (pl_payload_len ?p) width
      (md_stream_id_present meta) (md_crc_config meta \<noteq> CRC_NONE) = (ie, idle)"
    by fastforce
  show v: "pl_valid ?p"
    using assms process_line_none [of crc16 width meta synced suppress l acc] by simp
  have ie: "0 \<le> ie" using idle_errors_nonneg i by (metis fst_conv)
  note eq = assms [unfolded process_line_def Let_def parse_line_def [symmetric] i prod.case]
  show "la_idle_errors acc \<le> la_idle_errors acc'" "la_crc_errors acc \<le> la_crc_errors acc'"
    "suppress \<Longrightarrow> la_idle_errors acc' = la_idle_errors acc"
    "suppress \<or> \<not> synced \<Longrightarrow> la_crc_errors acc' = la_crc_errors acc"
    using eq v ie by auto
  have z: "\<not> 0 < pl_payload_len ?p \<Longrightarrow> unat (pl_payload_len ?p) = 0"
    by (simp add: word_less_nat_alt)
  show "synced \<Longrightarrow> la_stream0 acc' = la_stream0 acc + line_bytes width meta 0 l"
    "synced \<Longrightarrow> la_stream1 acc' = la_stream1 acc + line_bytes width meta 1 l"
    using eq v z by (auto simp: line_bytes_def)
qed

lemma process_lines_sums:
  assumes "process_lines crc16 width meta synced suppress ls acc = (ok, acc')"
  shows "ok = lines_valid width meta ls \<and>
    (ok \<and> synced \<longrightarrow> la_stream0 acc' = la_stream0 acc + stream_size width meta 0 ls \<and>
                     la_stream1 acc' = la_stream1 acc + stream_size width meta 1 ls) \<and>
    la_idle_errors acc \<le> la_idle_errors acc' \<and> la_crc_errors acc \<le> la_crc_errors acc' \<and>
    (suppress \<longrightarrow> la_idle_errors acc' = la_idle_errors acc) \<and>
    (suppress \<or> \<not> synced \<longrightarrow> la_crc_errors acc' = la_crc_errors acc)"
  using assms
proof (induction ls arbitrary: acc)
  case (Cons l ls)
  show ?case
  proof (cases "process_line crc16 width meta synced suppress l acc")
    case None
    then have "\<not> ok" "acc' = acc" "\<not> pl_valid (parse_line width meta l)"
      using Cons.prems process_line_none [of crc16 width meta synced suppress l acc] by simp_all
    then show ?thesis by (simp add: lines_valid_def)
  next
    case (Some acc1)
    then have "process_lines crc16 width meta synced suppress ls acc1 = (ok, acc')"
      using Cons.prems by simp
    from Cons.IH [OF this] show ?thesis
      using process_line_some [OF Some] by (simp add: lines_valid_def stream_size_def)
  qed
qed (simp add: lines_valid_def stream_size_def)

section \<open>What a processed frame promises\<close>

lemma frame_advance_facts:
  assumes "frame_advance st meta = (missed, st1)"
  shows "missed \<longleftrightarrow> fs_stream_synced (fp_sync st) \<and>
      md_framecounter meta \<noteq> fs_last_frame_cnt (fp_sync st) + 1"
    "fs_stream_synced (fp_sync st1) = fs_stream_synced (fp_sync st)"
    "fs_last_frame_cnt (fp_sync st1) = md_framecounter meta"
    "fs_in_order_cnt (fp_sync st1) =
       (if md_framecounter meta = fs_last_frame_cnt (fp_sync st) + 1
        then fs_in_order_cnt (fp_sync st) + 1 else 0)"
    "fp_reprime_frames st1 = (if missed then 1 else fp_reprime_frames st)"
  using assms by (auto simp: frame_advance_def Let_def split: if_splits)

lemma frame_verdict_facts:
  assumes "frame_verdict crc_tol idle_tol height thr st r ie ce = (r', st')" "\<not> fr_valid r"
  shows "fr_valid r' \<Longrightarrow> fs_stream_synced (fp_sync st) \<and> fr_error_count r' = fr_error_count r \<and>
      (0 < fr_error_count r \<longrightarrow> tolerated crc_tol idle_tol ie ce) \<and>
      fr_sync_result r' = fr_sync_result r"
    "fr_stream0_bytes r' = fr_stream0_bytes r" "fr_stream1_bytes r' = fr_stream1_bytes r"
    "fs_stream_synced (fp_sync st) \<Longrightarrow> fs_stream_synced (fp_sync st')"
    "fs_stream_synced (fp_sync st') \<Longrightarrow> fs_stream_synced (fp_sync st) \<or>
       thr < fs_in_order_cnt (fp_sync st) \<and> fr_error_count r = 0"
    "fs_in_order_cnt (fp_sync st') = fs_in_order_cnt (fp_sync st)"
    "fs_last_frame_cnt (fp_sync st') = fs_last_frame_cnt (fp_sync st)"
    "fr_report_errors r' \<Longrightarrow> fr_report_errors r \<or> \<not> fr_valid r'"
    "fr_sync_result r \<noteq> FRAME_SYNC_ACQUIRED \<Longrightarrow>
       fr_sync_result r' = FRAME_SYNC_ACQUIRED \<longleftrightarrow>
         \<not> fs_stream_synced (fp_sync st) \<and> fs_stream_synced (fp_sync st')"
    "fr_sync_result r \<noteq> FRAME_SYNC_ACQUIRED \<Longrightarrow> fr_sync_result r' = FRAME_SYNC_ACQUIRED \<Longrightarrow>
       thr < fs_in_order_cnt (fp_sync st') \<and> fr_error_count r' = 0 \<and> \<not> fr_valid r'"
    "fr_sync_result r' = FRAME_SYNC_MISSED \<Longrightarrow> fr_sync_result r = FRAME_SYNC_MISSED"
    "fr_error_count r = 0 \<Longrightarrow> \<not> fr_report_errors r \<Longrightarrow>
       fr_error_count r' = 0 \<and> \<not> fr_report_errors r'"
  using assms by (auto simp: frame_verdict_def Let_def split: if_splits)

lemma payload_fits:
  assumes "pl_valid (parse_line width meta l)" "2 * width \<le> length l"
  shows "length (line_payload width meta l) = 2 * unat (pl_payload_len (parse_line width meta l))"
proof -
  define t where "t = trailer_words (md_stream_id_present meta) (md_crc_config meta \<noteq> CRC_NONE)"
  have "pl_payload_len (parse_line width meta l) \<le> of_nat (width - t)"
    using assms(1) unfolding parse_line_def frame_parse_line_def Let_def t_def [symmetric]
    by (simp del: of_nat_diff split: if_splits)
  moreover have "unat (of_nat (width - t) :: u16) \<le> width - t"
    by (metis unat_of_nat mod_less_eq_dividend)
  ultimately have "unat (pl_payload_len (parse_line width meta l)) \<le> width"
    unfolding word_le_nat_alt by linarith
  then show ?thesis using assms(2) by (simp add: line_payload_def)
qed

lemma line_at_length: "i < height \<Longrightarrow> 2 * width * height \<le> length buf \<Longrightarrow>
  2 * width \<le> length (line_at buf width i)"
proof -
  assume a: "i < height" "2 * width * height \<le> length buf"
  then have "2 * width * (i + 1) \<le> 2 * width * height" by (intro mult_le_mono2) simp
  then show ?thesis using a by (simp add: line_at_def)
qed

lemma copy_lines_all:
  "copy_lines None width meta True True ls c =
     (concat (map (line_payload width meta) (stream_lines width meta 0 ls)),
      concat (map (line_payload width meta) (stream_lines width meta 1 ls)), c)"
proof (induction ls)
  case (Cons l ls)
  then show ?case
    by (simp add: Let_def stream_lines_def line_payload_def flip: parse_line_def)
qed (simp add: stream_lines_def)

lemma stream_lines_length:
  assumes "\<forall>l\<in>set ls. 2 * width \<le> length l"
  shows "length (concat (map (line_payload width meta) (stream_lines width meta sid ls)))
    = stream_size width meta sid ls"
  using assms
proof (induction ls)
  case (Cons l ls)
  then show ?case
    using payload_fits [of width meta l]
    by (auto simp: stream_lines_def stream_size_def line_bytes_def)
qed (simp add: stream_lines_def stream_size_def)

lemma frame_processed_valid:
  assumes "frame_process crc16 crc_tol idle_tol st buf width height meta thr = (r, st')"
    and "fr_valid r"
  shows "md_magic meta = HSDAOH_MAGIC" "md_framecounter meta \<noteq> fs_last_frame_cnt (fp_sync st)"
    "fs_stream_synced (fp_sync st)" "lines_valid width meta (frame_lines buf width height)"
    "fr_stream0_bytes r = stream_size width meta 0 (frame_lines buf width height)"
    "fr_stream1_bytes r = stream_size width meta 1 (frame_lines buf width height)"
    "0 \<le> fr_error_count r"
    "fr_error_count r \<le> max 0 crc_tol + max 0 idle_tol"
proof -
  have fresh: "md_magic meta = HSDAOH_MAGIC" "md_framecounter meta \<noteq> fs_last_frame_cnt (fp_sync st)"
    using assms by (auto simp: frame_process_def Let_def blank_result_def split: if_splits)
  obtain missed st1 where adv: "frame_advance st meta = (missed, st1)" by fastforce
  note a = frame_advance_facts [OF adv]
  obtain ok acc where lines: "process_lines crc16 width meta (fs_stream_synced (fp_sync st1))
      (0 < fp_reprime_frames st1) (frame_lines buf width height)
      \<lparr>la_crc = fp_crc st1, la_idle = fp_idle st1, la_idle_errors = 0, la_crc_errors = 0,
       la_stream0 = 0, la_stream1 = 0\<rparr> = (ok, acc)"
    by fastforce
  note sums = process_lines_sums [OF lines]
  have body: "frame_body crc16 crc_tol idle_tol st1 missed buf width height meta thr = (r, st')"
    using assms(1) fresh adv by (simp add: frame_process_def)
  then have ok: ok
    using assms(2) unfolding frame_body_def Let_def lines prod.case
    by (auto simp: blank_result_def split: if_splits)
  define r0 where "r0 = blank_result\<lparr>fr_sync_result :=
      (if missed then FRAME_SYNC_MISSED else FRAME_SYNC_OK),
      fr_stream0_bytes := la_stream0 acc, fr_stream1_bytes := la_stream1 acc,
      fr_error_count := la_idle_errors acc + la_crc_errors acc\<rparr>"
  have r0: "\<not> fr_valid r0" "fr_stream0_bytes r0 = la_stream0 acc"
    "fr_stream1_bytes r0 = la_stream1 acc"
    "fr_error_count r0 = la_idle_errors acc + la_crc_errors acc"
    by (simp_all add: r0_def blank_result_def)
  obtain st2 where v: "frame_verdict crc_tol idle_tol height thr st2 r0
      (la_idle_errors acc) (la_crc_errors acc) = (r, st')" "fp_sync st2 = fp_sync st1"
    using body ok lines unfolding frame_body_def Let_def r0_def by auto
  note vf = frame_verdict_facts [OF v(1) r0(1)]
  show "md_magic meta = HSDAOH_MAGIC" "md_framecounter meta \<noteq> fs_last_frame_cnt (fp_sync st)"
    by (fact fresh)+
  show "fs_stream_synced (fp_sync st)" "lines_valid width meta (frame_lines buf width height)"
    "fr_stream0_bytes r = stream_size width meta 0 (frame_lines buf width height)"
    "fr_stream1_bytes r = stream_size width meta 1 (frame_lines buf width height)"
    "0 \<le> fr_error_count r"
    using vf assms(2) a sums ok r0 v(2) by auto
  have "tolerated crc_tol idle_tol (la_idle_errors acc) (la_crc_errors acc) \<Longrightarrow>
      la_idle_errors acc + la_crc_errors acc \<le> max 0 crc_tol + max 0 idle_tol"
    by (auto simp: tolerated_def Let_def)
  then show "fr_error_count r \<le> max 0 crc_tol + max 0 idle_tol"
    using vf(1) [OF assms(2)] r0 by fastforce
qed

text \<open>C13: A frame the parser declares valid carries the magic word and a new frame counter, was
  received while the stream was synchronised, consists only of lines whose payload fits,
  and has no more errors than the tolerances allow; and copying its payloads delivers, for
  each stream, exactly as many bytes as the parser announced: the payloads of the lines of
  that stream, in order.\<close>

theorem valid_frame_copies:
  assumes "frame_process crc16 crc_tol idle_tol st buf width height meta thr = (r, st')"
    and "fr_valid r" "2 * width * height \<le> length buf"
  shows "md_magic meta = HSDAOH_MAGIC \<and> md_framecounter meta \<noteq> fs_last_frame_cnt (fp_sync st) \<and>
    fs_stream_synced (fp_sync st) \<and> lines_valid width meta (frame_lines buf width height) \<and>
    fr_error_count r \<le> max 0 crc_tol + max 0 idle_tol \<and>
    (case frame_copy_payloads buf width height meta True True of
       (n, s0, s1) \<Rightarrow>
         length s0 = fr_stream0_bytes r \<and> length s1 = fr_stream1_bytes r \<and>
         n = fr_stream0_bytes r + fr_stream1_bytes r \<and>
         s0 = concat (map (line_payload width meta)
                (stream_lines width meta 0 (frame_lines buf width height))) \<and>
         s1 = concat (map (line_payload width meta)
                (stream_lines width meta 1 (frame_lines buf width height))))"
proof -
  note v = frame_processed_valid [OF assms(1,2)]
  have "\<forall>l\<in>set (frame_lines buf width height). 2 * width \<le> length l"
    using line_at_length [OF _ assms(3)] by (auto simp: frame_lines_def)
  then show ?thesis
    using v stream_lines_length
    by (simp add: frame_copy_payloads_def frame_copy_payloads_cb_def copy_lines_all)
qed

definition sample_meta :: "u16 \<Rightarrow> crc_config \<Rightarrow> metadata" where
  "sample_meta n cfg = \<lparr>md_magic = HSDAOH_MAGIC, md_framecounter = n, md_crc_config = cfg,
     md_stream_id_present = False\<rparr>"

definition sample_frame :: bytes where
  "sample_frame = [1, 0, 2, 0, 1, 0, 2, 0]"

definition synced_parser :: "u16 \<Rightarrow> frame_parser_state" where
  "synced_parser n = frame_parser_init\<lparr>fp_sync :=
     \<lparr>fs_last_frame_cnt = n, fs_in_order_cnt = 9, fs_stream_synced = True, fs_non_sync_cnt = 0\<rparr>\<rparr>"

theorem valid_frame_copies_witness:
  "fst (frame_copy_payloads sample_frame 4 1 (sample_meta 6 CRC_NONE) True True) = 4"
proof -
  obtain r st' where run: "frame_process (\<lambda>_. 0) 24 24 (synced_parser 5) sample_frame 4 1
      (sample_meta 6 CRC_NONE) 4 = (r, st')" by fastforce
  have "fr_valid (fst (frame_process (\<lambda>_. 0) 24 24 (synced_parser 5) sample_frame 4 1
      (sample_meta 6 CRC_NONE) 4))"
    "fr_stream0_bytes (fst (frame_process (\<lambda>_. 0) 24 24 (synced_parser 5) sample_frame 4 1
      (sample_meta 6 CRC_NONE) 4)) = 4"
    "fr_stream1_bytes (fst (frame_process (\<lambda>_. 0) 24 24 (synced_parser 5) sample_frame 4 1
      (sample_meta 6 CRC_NONE) 4)) = 0"
    by code_simp+
  then have r: "fr_valid r" "fr_stream0_bytes r = 4" "fr_stream1_bytes r = 0"
    using run by simp_all
  show ?thesis
    using valid_frame_copies [OF run r(1)] r by (auto simp: sample_frame_def split: prod.splits)
qed



text \<open>There is no priming period after the synchronisation itself: the frame right after the one
  that acquired it already counts, and reports, line errors.\<close>

lemma no_priming_after_acquired:
  "(case frame_process (\<lambda>_. 0) 0 0 frame_parser_init sample_frame 4 1 (sample_meta 1 CRC_NONE) 0 of
      (r1, st1) \<Rightarrow> fr_sync_result r1 = FRAME_SYNC_ACQUIRED \<and>
        fr_report_errors (fst (frame_process (\<lambda>_. 0) 0 0 st1 sample_frame 4 1
          (sample_meta 2 CRC16_1_LINE) 0)))"
  by code_simp

end
