(* ===== verification/Capture_Handler.thy ===== *)
theory Capture_Handler
  imports Frame_Parser
begin

text \<open>
  The capture handler of common/frame\_parser.c: the reaction to a synchronisation event and
  the two-stage filter that lets audio lines through only after it has seen two of them.
  The optional callbacks of the context are represented by whether they are set, and the
  calls made to them by the list of notifications an operation returns.
\<close>

section \<open>Context\<close>

record capture_handler_ctx =
  ch_frame_state :: frame_parser_state
  ch_capture_rf :: bool
  ch_capture_audio :: bool
  ch_audio_sync_stage1 :: bool
  ch_audio_sync_stage2 :: bool
  ch_has_msg_cb :: bool
  ch_has_sync_event_cb :: bool
  ch_has_audio_sync_cb :: bool

datatype notification =
    Sync_Event frame_sync_result bool
  | Message nat
  | Audio_Synced bool

definition capture_handler_init :: capture_handler_ctx where
  "capture_handler_init = \<lparr>ch_frame_state = frame_parser_init, ch_capture_rf = False,
     ch_capture_audio = False, ch_audio_sync_stage1 = False, ch_audio_sync_stage2 = False,
     ch_has_msg_cb = False, ch_has_sync_event_cb = False, ch_has_audio_sync_cb = False\<rparr>"

definition capture_handler_reset_audio_sync :: "capture_handler_ctx \<Rightarrow> capture_handler_ctx" where
  "capture_handler_reset_audio_sync ctx =
     ctx\<lparr>ch_audio_sync_stage1 := False, ch_audio_sync_stage2 := False\<rparr>"

text \<open>The lines the default progress callback prints: the count it shows, and the warning.\<close>

definition capture_handler_default_progress :: "u32 \<Rightarrow> u32 option \<times> bool" where
  "capture_handler_default_progress non_sync_cnt =
     ((if non_sync_cnt mod 5 = 0 then Some (non_sync_cnt + 1) else None), non_sync_cnt = 500)"

definition capture_handler_process_sync_event ::
  "capture_handler_ctx \<Rightarrow> frame_sync_result \<Rightarrow> metadata \<Rightarrow> bool \<Rightarrow>
   bool \<times> capture_handler_ctx \<times> notification list" where
  "capture_handler_process_sync_event ctx sync_result meta was_synced =
     (let ns = (if ch_has_sync_event_cb ctx then [Sync_Event sync_result was_synced] else []) in
      case sync_result of
        FRAME_SYNC_LOST \<Rightarrow> (False, capture_handler_reset_audio_sync ctx, ns)
      | FRAME_SYNC_DUPLICATE \<Rightarrow> (False, ctx, ns)
      | FRAME_SYNC_MISSED \<Rightarrow> (True, ctx, ns)
      | FRAME_SYNC_ACQUIRED \<Rightarrow>
          (True, capture_handler_reset_audio_sync ctx,
           ns @ (if ch_capture_audio ctx \<and> \<not> md_stream_id_present meta \<and> ch_has_msg_cb ctx
                    then [Message 3] else []))
      | FRAME_SYNC_OK \<Rightarrow> (True, ctx, ns))"

text \<open>The filter, with the notifications collected beside the context.\<close>

definition capture_handler_audio_filter ::
  "(capture_handler_ctx \<times> notification list) payload_cb" where
  "capture_handler_audio_filter cn stream_id data len =
     (case cn of (ctx, ns) \<Rightarrow>
      if stream_id = 0 then (ch_capture_rf ctx, (ctx, ns))
      else if stream_id = 1 then
        (if \<not> ch_capture_audio ctx then (False, (ctx, ns))
         else if ch_audio_sync_stage2 ctx then (True, (ctx, ns))
         else if ch_audio_sync_stage1 ctx then
           (False, (ctx\<lparr>ch_audio_sync_stage2 := True\<rparr>,
                    ns @ (if ch_has_audio_sync_cb ctx then [Audio_Synced True] else [])))
         else (False, (ctx\<lparr>ch_audio_sync_stage1 := True\<rparr>, ns)))
      else (False, (ctx, ns)))"

section \<open>The filter over the lines of a frame\<close>

text \<open>How many audio lines the filter still withholds.\<close>

definition audio_wait :: "capture_handler_ctx \<Rightarrow> nat" where
  "audio_wait ctx = (if ch_audio_sync_stage2 ctx then 0
                     else if ch_audio_sync_stage1 ctx then 1 else 2)"

lemma filter_steps:
  "capture_handler_audio_filter (ctx, ns) 0 d n = (ch_capture_rf ctx, (ctx, ns))"
  "capture_handler_audio_filter (ctx, ns) 1 d n =
     (if \<not> ch_capture_audio ctx then (False, (ctx, ns))
      else if ch_audio_sync_stage2 ctx then (True, (ctx, ns))
      else if ch_audio_sync_stage1 ctx then
        (False, (ctx\<lparr>ch_audio_sync_stage2 := True\<rparr>,
                 ns @ (if ch_has_audio_sync_cb ctx then [Audio_Synced True] else [])))
      else (False, (ctx\<lparr>ch_audio_sync_stage1 := True\<rparr>, ns)))"
  "sid \<noteq> 0 \<Longrightarrow> sid \<noteq> 1 \<Longrightarrow> capture_handler_audio_filter (ctx, ns) sid d n = (False, (ctx, ns))"
  by (simp_all add: capture_handler_audio_filter_def)

lemma copy_lines_filtered:
  assumes "copy_lines (Some capture_handler_audio_filter) width meta True True ls (ctx, ns)
      = (s0, s1, (ctx', ns'))"
    and "ch_capture_rf ctx" "ch_capture_audio ctx"
  shows "s0 = concat (map (line_payload width meta) (stream_lines width meta 0 ls)) \<and>
    s1 = concat (map (line_payload width meta)
           (drop (audio_wait ctx) (stream_lines width meta 1 ls))) \<and>
    audio_wait ctx' = audio_wait ctx - length (stream_lines width meta 1 ls)"
  using assms
proof (induction ls arbitrary: ctx ns s0 s1)
  case Nil
  then show ?case by (simp add: stream_lines_def)
next
  case (Cons l ls)
  let ?p = "parse_line width meta l"
  note step = Cons.prems(1) [unfolded copy_lines.simps Let_def parse_line_def [symmetric]]
  consider (skip) "\<not> pl_valid ?p \<or> pl_payload_len ?p = 0 \<or> (pl_stream_id ?p \<noteq> 0 \<and> pl_stream_id ?p \<noteq> 1)"
    | (rf) "pl_valid ?p" "pl_payload_len ?p \<noteq> 0" "pl_stream_id ?p = 0"
    | (audio) "pl_valid ?p" "pl_payload_len ?p \<noteq> 0" "pl_stream_id ?p = 1" by blast
  then show ?case
  proof cases
    case skip
    then show ?thesis
      using Cons.IH [of ctx ns s0 s1] step Cons.prems(2,3)
      by (auto simp: stream_lines_def filter_steps split: if_splits)
  next
    case rf
    obtain t0 where "copy_lines (Some capture_handler_audio_filter) width meta True True ls
        (ctx, ns) = (t0, s1, (ctx', ns'))" "s0 = line_payload width meta l @ t0"
      using step rf Cons.prems(2)
      by (auto simp: filter_steps line_payload_def split: prod.splits)
    then show ?thesis
      using Cons.IH [of ctx ns t0 s1] Cons.prems rf by (simp add: stream_lines_def)
  next
    case audio
    show ?thesis
    proof (cases "ch_audio_sync_stage2 ctx")
      case True
      obtain t1 where "copy_lines (Some capture_handler_audio_filter) width meta True True ls
          (ctx, ns) = (s0, t1, (ctx', ns'))" "s1 = line_payload width meta l @ t1"
        using step audio True Cons.prems(3)
        by (auto simp: filter_steps line_payload_def split: prod.splits)
      then show ?thesis
        using Cons.IH [of ctx ns s0 t1] Cons.prems audio True
        by (simp add: stream_lines_def audio_wait_def)
    next
      case False
      obtain c1 n1 where "copy_lines (Some capture_handler_audio_filter) width meta True True ls
          (c1, n1) = (s0, s1, (ctx', ns'))" "audio_wait c1 = audio_wait ctx - 1"
        "ch_capture_rf c1" "ch_capture_audio c1"
        using step audio False Cons.prems(2,3)
        by (cases "ch_audio_sync_stage1 ctx")
          (auto simp: filter_steps audio_wait_def)
      moreover obtain k where "audio_wait ctx = Suc k"
        using False by (cases "ch_audio_sync_stage1 ctx") (simp_all add: audio_wait_def)
      ultimately show ?thesis
        using Cons.IH [of c1 n1 s0 s1] audio by (simp add: stream_lines_def)
    qed
  qed
qed

section \<open>Properties\<close>

text \<open>C15: For a valid frame and a handler that captures both streams, the filtered copy delivers
  all announced RF bytes, and of the audio the payloads of all lines but the first two the
  handler ever sees; so the audio bytes delivered are the announced ones exactly when the
  handler had reached its second stage before the frame, or the frame has no audio line.\<close>

theorem filtered_copy:
  assumes "frame_process crc16 crc_tol idle_tol st buf width height meta thr = (r, st')"
    and "fr_valid r" "2 * width * height \<le> length buf"
    and "ch_capture_rf ctx" "ch_capture_audio ctx"
    and "frame_copy_payloads_cb buf width height meta True True
           (Some capture_handler_audio_filter) (ctx, []) = (n, s0, s1, (ctx', ns))"
  shows "length s0 = fr_stream0_bytes r \<and>
    s1 = concat (map (line_payload width meta)
      (drop (audio_wait ctx) (stream_lines width meta 1 (frame_lines buf width height)))) \<and>
    (length s1 = fr_stream1_bytes r \<longleftrightarrow> audio_wait ctx = 0 \<or> fr_stream1_bytes r = 0)"
proof -
  let ?ls = "frame_lines buf width height"
  let ?al = "stream_lines width meta 1 ?ls" and ?pay = "line_payload width meta"
  note v = frame_processed_valid [OF assms(1,2)]
  have long: "\<forall>l\<in>set ?ls. 2 * width \<le> length l"
    using line_at_length [OF _ assms(3)] by (auto simp: frame_lines_def)
  have "copy_lines (Some capture_handler_audio_filter) width meta True True ?ls (ctx, [])
      = (s0, s1, (ctx', ns))"
    using assms(6) by (auto simp: frame_copy_payloads_cb_def split: prod.splits)
  note c = copy_lines_filtered [OF this assms(4,5)]
  have all: "length (concat (map ?pay ?al)) = fr_stream1_bytes r"
    using stream_lines_length [OF long] v(6) by simp
  have split: "length (concat (map ?pay ?al)) =
      length (concat (map ?pay (take (audio_wait ctx) ?al))) + length s1"
    using c by (metis append_take_drop_id concat_append length_append map_append)
  have pos: "0 < length (?pay l)" if "l \<in> set ?al" for l
  proof -
    have "pl_valid (parse_line width meta l)" "pl_payload_len (parse_line width meta l) \<noteq> 0"
      "2 * width \<le> length l"
      using that long by (auto simp: stream_lines_def)
    then show ?thesis
      using payload_fits [of width meta l] by (simp add: unat_gt_0 word_gt_0)
  qed
  have "length (concat (map ?pay (take (audio_wait ctx) ?al))) = 0 \<longleftrightarrow> audio_wait ctx = 0 \<or> ?al = []"
    using pos by (cases ?al; cases "audio_wait ctx") auto
  moreover have "fr_stream1_bytes r = 0 \<longleftrightarrow> ?al = []"
  proof (cases ?al)
    case (Cons a al)
    then have "0 < length (?pay a)" using pos by simp
    then show ?thesis using all by (auto simp: Cons simp del: length_greater_0_conv)
  qed (use all in simp)
  ultimately show ?thesis
    using c all split stream_lines_length [OF long, of meta 0] v(5) by auto
qed

text \<open>A frame of one RF line and one audio line, of two payload words each.\<close>

definition two_line_frame :: bytes where
  "two_line_frame = [1,0, 2,0, 0,0, 0,0, 2,0,   3,0, 4,0, 1,0, 0,0, 2,0]"

definition two_stream_meta :: metadata where
  "two_stream_meta = (sample_meta 6 CRC_NONE)\<lparr>md_stream_id_present := True\<rparr>"

definition capturing_handler :: capture_handler_ctx where
  "capturing_handler = capture_handler_init\<lparr>ch_capture_rf := True, ch_capture_audio := True\<rparr>"

theorem filtered_copy_witness:
  "\<exists>n s1 ctx' ns. frame_copy_payloads_cb two_line_frame 5 2 two_stream_meta True True
      (Some capture_handler_audio_filter) (capturing_handler, []) = (n, [1,0,2,0], s1, (ctx', ns))
      \<and> length s1 \<noteq> 4"
proof -
  let ?run = "frame_process (\<lambda>_. 0) 24 24 (synced_parser 5) two_line_frame 5 2 two_stream_meta 4"
  obtain r st' where run: "?run = (r, st')" by fastforce
  obtain n s0 s1 ctx' ns where copy: "frame_copy_payloads_cb two_line_frame 5 2 two_stream_meta
      True True (Some capture_handler_audio_filter) (capturing_handler, [])
      = (n, s0, s1, (ctx', ns))" by (metis prod_cases4 surj_pair)
  have "fr_valid (fst ?run)" "fr_stream0_bytes (fst ?run) = 4" "fr_stream1_bytes (fst ?run) = 4"
    "fst (snd (frame_copy_payloads_cb two_line_frame 5 2 two_stream_meta
      True True (Some capture_handler_audio_filter) (capturing_handler, []))) = [1,0,2,0]"
    by code_simp+
  then have r: "fr_valid r" "fr_stream1_bytes r = 4" "s0 = [1,0,2,0]"
    using run copy by simp_all
  have "length s1 = fr_stream1_bytes r \<longleftrightarrow> audio_wait capturing_handler = 0 \<or> fr_stream1_bytes r = 0"
    by (rule filtered_copy [OF run r(1) _ _ _ copy, THEN conjunct2, THEN conjunct2])
      (simp_all add: two_line_frame_def capturing_handler_def)
  then show ?thesis
    using copy r by (auto simp: audio_wait_def capturing_handler_def capture_handler_init_def)
qed

end
