(* ===== verification/Buffer_Manager.thy ===== *)
theory Buffer_Manager
  imports Ringbuffer
begin

text \<open>
  The buffer manager of common/buffer\_manager.c with the events of common/rb\_event.c: nine
  rings with their configurations, back-pressure policies and statistics.  The arrays the C
  code indexes by buffer\_id\_t are functions.  What the operating system answers at
  initialisation and what the other threads do while a call waits are parameters.  The fast
  32-bit counters are 64 bits wide, as on the platform whose code path is modelled.
\<close>

section \<open>Events\<close>

record rb_event =
  ev_signaled :: bool
  ev_initialized :: bool

definition rb_event_init :: "bool \<Rightarrow> bool \<Rightarrow> rb_event \<Rightarrow> int \<times> rb_event" where
  "rb_event_init mutex_ok cond_ok ev =
     (if \<not> mutex_ok then (-1, ev\<lparr>ev_initialized := False\<rparr>)
      else if \<not> cond_ok then (-1, ev\<lparr>ev_initialized := False\<rparr>)
      else (0, \<lparr>ev_signaled = False, ev_initialized = True\<rparr>))"

definition rb_event_signal :: "rb_event \<Rightarrow> rb_event" where
  "rb_event_signal ev = (if ev_initialized ev then ev\<lparr>ev_signaled := True\<rparr> else ev)"

text \<open>The wait after the other threads have had their turn: either the event is signalled by
  then, and the signal is consumed, or the timeout expires.\<close>

definition rb_event_wait_timeout :: "rb_event \<Rightarrow> bool \<times> rb_event" where
  "rb_event_wait_timeout ev =
     (if \<not> ev_initialized ev then (False, ev)
      else if ev_signaled ev then (True, ev\<lparr>ev_signaled := False\<rparr>)
      else (False, ev))"

definition rb_event_destroy :: "rb_event \<Rightarrow> rb_event" where
  "rb_event_destroy ev = (if ev_initialized ev then ev\<lparr>ev_initialized := False\<rparr> else ev)"

section \<open>State\<close>

datatype buffer_id =
    BUF_CAPTURE_RF | BUF_CAPTURE_AUDIO | BUF_RECORD_A | BUF_RECORD_B | BUF_DISPLAY
  | BUF_CAPTURE_RF_A | BUF_CAPTURE_RF_B | BUF_DISPLAY_A | BUF_DISPLAY_B | BUF_COUNT

text \<open>The order of the enumeration, for the range tests and the loops of the code.\<close>

fun buf_index :: "buffer_id \<Rightarrow> nat" where
  "buf_index BUF_CAPTURE_RF = 0" | "buf_index BUF_CAPTURE_AUDIO = 1"
| "buf_index BUF_RECORD_A = 2" | "buf_index BUF_RECORD_B = 3" | "buf_index BUF_DISPLAY = 4"
| "buf_index BUF_CAPTURE_RF_A = 5" | "buf_index BUF_CAPTURE_RF_B = 6"
| "buf_index BUF_DISPLAY_A = 7" | "buf_index BUF_DISPLAY_B = 8" | "buf_index BUF_COUNT = 9"

lemma buf_index_inj: "buf_index i = buf_index j \<Longrightarrow> i = j"
  by (cases i; cases j) simp_all

instantiation buffer_id :: linorder
begin

definition less_eq_buffer_id :: "buffer_id \<Rightarrow> buffer_id \<Rightarrow> bool" where
  "less_eq_buffer_id i j = (buf_index i \<le> buf_index j)"

definition less_buffer_id :: "buffer_id \<Rightarrow> buffer_id \<Rightarrow> bool" where
  "less_buffer_id i j = (buf_index i < buf_index j)"

instance
  by standard (auto simp: less_eq_buffer_id_def less_buffer_id_def buf_index_inj)

end

definition buffer_ids :: "buffer_id list" where
  "buffer_ids = [BUF_CAPTURE_RF, BUF_CAPTURE_AUDIO, BUF_RECORD_A, BUF_RECORD_B, BUF_DISPLAY,
     BUF_CAPTURE_RF_A, BUF_CAPTURE_RF_B, BUF_DISPLAY_A, BUF_DISPLAY_B]"

lemma count_le_iff [simp]: "BUF_COUNT \<le> i \<longleftrightarrow> i = BUF_COUNT"
  by (cases i) (simp_all add: less_eq_buffer_id_def)

lemma less_count_iff [simp]: "i < BUF_COUNT \<longleftrightarrow> i \<noteq> BUF_COUNT"
  by (cases i) (simp_all add: less_buffer_id_def)

lemma set_buffer_ids [simp]: "i \<in> set buffer_ids \<longleftrightarrow> i \<noteq> BUF_COUNT"
  by (cases i) (simp_all add: buffer_ids_def)

record buffer_config =
  cfg_name :: "string option"
  cfg_size :: size_t
  cfg_lazy_init :: bool

record buffer_stats =
  st_bytes_written :: u64
  st_bytes_read :: u64
  st_write_waits :: u64
  st_write_drops :: u64
  st_read_waits :: u64
  st_read_timeouts :: u64

record backpressure_policy =
  pol_max_wait_attempts :: int
  pol_wait_timeout_ms :: int
  pol_log_first_wait :: bool
  pol_log_drops :: bool

record buffer_manager =
  bm_buffers :: "buffer_id \<Rightarrow> ringbuffer"
  bm_initialized :: "buffer_id \<Rightarrow> bool"
  bm_data_events :: "buffer_id \<Rightarrow> rb_event"
  bm_space_events :: "buffer_id \<Rightarrow> rb_event"
  bm_events_initialized :: "buffer_id \<Rightarrow> bool"
  bm_configs :: "buffer_id \<Rightarrow> buffer_config"
  bm_policies :: "buffer_id \<Rightarrow> backpressure_policy"
  bm_stats :: "buffer_id \<Rightarrow> buffer_stats"
  bm_has_rf_observer :: bool
  bm_manager_initialized :: bool

definition zero_stats :: buffer_stats where
  "zero_stats = \<lparr>st_bytes_written = 0, st_bytes_read = 0, st_write_waits = 0,
     st_write_drops = 0, st_read_waits = 0, st_read_timeouts = 0\<rparr>"

text \<open>The manager after memset.\<close>

definition zero_manager :: buffer_manager where
  "zero_manager =
     \<lparr>bm_buffers = (\<lambda>_. \<lparr>rb_buffer = [], rb_size = 0, rb_head = 0, rb_tail = 0\<rparr>),
      bm_initialized = (\<lambda>_. False),
      bm_data_events = (\<lambda>_. \<lparr>ev_signaled = False, ev_initialized = False\<rparr>),
      bm_space_events = (\<lambda>_. \<lparr>ev_signaled = False, ev_initialized = False\<rparr>),
      bm_events_initialized = (\<lambda>_. False),
      bm_configs = (\<lambda>_. \<lparr>cfg_name = None, cfg_size = 0, cfg_lazy_init = False\<rparr>),
      bm_policies = (\<lambda>_. \<lparr>pol_max_wait_attempts = 0, pol_wait_timeout_ms = 0,
                          pol_log_first_wait = False, pol_log_drops = False\<rparr>),
      bm_stats = (\<lambda>_. zero_stats), bm_has_rf_observer = False,
      bm_manager_initialized = False\<rparr>"

section \<open>Configurations\<close>

definition BUFMGR_MB :: size_t where "BUFMGR_MB = 1024 * 1024"

definition BUFMGR_GB :: size_t where "BUFMGR_GB = 1024 * 1024 * 1024"

definition config :: "string \<Rightarrow> size_t \<Rightarrow> bool \<Rightarrow> buffer_config" where
  "config nm sz lazy = \<lparr>cfg_name = Some nm, cfg_size = sz, cfg_lazy_init = lazy\<rparr>"

fun s_default_configs :: "buffer_id \<Rightarrow> buffer_config" where
  "s_default_configs BUF_CAPTURE_RF = config ''capture_rf'' BUFMGR_GB False"
| "s_default_configs BUF_CAPTURE_AUDIO = config ''capture_audio'' (256 * BUFMGR_MB) False"
| "s_default_configs BUF_RECORD_A = config ''record_a'' (8 * BUFMGR_GB) True"
| "s_default_configs BUF_RECORD_B = config ''record_b'' (8 * BUFMGR_GB) True"
| "s_default_configs BUF_DISPLAY = config ''display'' (256 * BUFMGR_MB) False"
| "s_default_configs BUF_CAPTURE_RF_A = config ''playback_rf_a'' (256 * BUFMGR_MB) True"
| "s_default_configs BUF_CAPTURE_RF_B = config ''playback_rf_b'' (256 * BUFMGR_MB) True"
| "s_default_configs BUF_DISPLAY_A = config ''playback_display_a'' (64 * BUFMGR_MB) True"
| "s_default_configs BUF_DISPLAY_B = config ''playback_display_b'' (64 * BUFMGR_MB) True"
| "s_default_configs BUF_COUNT = \<lparr>cfg_name = None, cfg_size = 0, cfg_lazy_init = False\<rparr>"

definition policy :: "int \<Rightarrow> int \<Rightarrow> backpressure_policy" where
  "policy attempts ms = \<lparr>pol_max_wait_attempts = attempts, pol_wait_timeout_ms = ms,
     pol_log_first_wait = True, pol_log_drops = True\<rparr>"

fun s_default_policies :: "buffer_id \<Rightarrow> backpressure_policy" where
  "s_default_policies BUF_CAPTURE_RF = policy 10 5"
| "s_default_policies BUF_CAPTURE_AUDIO = policy 0 0"
| "s_default_policies BUF_RECORD_A = policy 200 5"
| "s_default_policies BUF_RECORD_B = policy 200 5"
| "s_default_policies BUF_DISPLAY = policy 0 0"
| "s_default_policies BUF_CAPTURE_RF_A = policy 10 5"
| "s_default_policies BUF_CAPTURE_RF_B = policy 10 5"
| "s_default_policies BUF_DISPLAY_A = policy 0 0"
| "s_default_policies BUF_DISPLAY_B = policy 0 0"
| "s_default_policies BUF_COUNT = \<lparr>pol_max_wait_attempts = 0, pol_wait_timeout_ms = 0,
     pol_log_first_wait = False, pol_log_drops = False\<rparr>"

text \<open>The sizes of the budget, then the configurations they are put into.\<close>

record budget_sizes =
  bs_rf :: size_t
  bs_audio :: size_t
  bs_display :: size_t
  bs_record :: size_t
  bs_playback_rf :: size_t
  bs_playback_display :: size_t

definition bufmgr_budget_sizes :: "u32 \<Rightarrow> budget_sizes" where
  "bufmgr_budget_sizes budget_gb =
     (let b0 = (ucast budget_gb :: u64) * BUFMGR_GB;
          budget = (if b0 = 0 then 4 * BUFMGR_GB else b0);
          rf0 = (if budget div 2 < BUFMGR_GB then budget div 2 else BUFMGR_GB);
          audio0 = (if budget div 8 < 256 * BUFMGR_MB then budget div 8 else 256 * BUFMGR_MB);
          display0 = (if budget div 8 < 256 * BUFMGR_MB then budget div 8 else 256 * BUFMGR_MB);
          rf = (if rf0 < 16 * BUFMGR_MB then 16 * BUFMGR_MB else rf0);
          audio = (if audio0 < 4 * BUFMGR_MB then 4 * BUFMGR_MB else audio0);
          display = (if display0 < 4 * BUFMGR_MB then 4 * BUFMGR_MB else display0);
          fixed = rf + audio + display;
          remainder = (if fixed < budget then budget - fixed else 0);
          each0 = remainder div 2;
          record_each = (if each0 < 128 * BUFMGR_MB then 128 * BUFMGR_MB else each0);
          pb_rf0 = rf div 4;
          pb_display0 = display div 4 in
      \<lparr>bs_rf = rf, bs_audio = audio, bs_display = display, bs_record = record_each,
       bs_playback_rf = (if pb_rf0 < 16 * BUFMGR_MB then 16 * BUFMGR_MB else pb_rf0),
       bs_playback_display =
         (if pb_display0 < 4 * BUFMGR_MB then 4 * BUFMGR_MB else pb_display0)\<rparr>)"

fun bufmgr_build_budget_configs :: "u32 \<Rightarrow> buffer_id \<Rightarrow> buffer_config" where
  "bufmgr_build_budget_configs g BUF_CAPTURE_RF =
     config ''capture_rf'' (bs_rf (bufmgr_budget_sizes g)) False"
| "bufmgr_build_budget_configs g BUF_CAPTURE_AUDIO =
     config ''capture_audio'' (bs_audio (bufmgr_budget_sizes g)) False"
| "bufmgr_build_budget_configs g BUF_RECORD_A =
     config ''record_a'' (bs_record (bufmgr_budget_sizes g)) True"
| "bufmgr_build_budget_configs g BUF_RECORD_B =
     config ''record_b'' (bs_record (bufmgr_budget_sizes g)) True"
| "bufmgr_build_budget_configs g BUF_DISPLAY =
     config ''display'' (bs_display (bufmgr_budget_sizes g)) False"
| "bufmgr_build_budget_configs g BUF_CAPTURE_RF_A =
     config ''playback_rf_a'' (bs_playback_rf (bufmgr_budget_sizes g)) True"
| "bufmgr_build_budget_configs g BUF_CAPTURE_RF_B =
     config ''playback_rf_b'' (bs_playback_rf (bufmgr_budget_sizes g)) True"
| "bufmgr_build_budget_configs g BUF_DISPLAY_A =
     config ''playback_display_a'' (bs_playback_display (bufmgr_budget_sizes g)) True"
| "bufmgr_build_budget_configs g BUF_DISPLAY_B =
     config ''playback_display_b'' (bs_playback_display (bufmgr_budget_sizes g)) True"
| "bufmgr_build_budget_configs g BUF_COUNT =
     \<lparr>cfg_name = None, cfg_size = 0, cfg_lazy_init = False\<rparr>"

definition bufmgr_clamp_budget :: "u32 \<Rightarrow> u32" where
  "bufmgr_clamp_budget b0 =
     (let b = (if b0 = 0 then 4 else b0);
          b' = (if b < 1 then 1 else b) in
      if 16 < b' then 16 else b')"

section \<open>Lifecycle\<close>

record bm_os =
  bo_rb :: "buffer_id \<Rightarrow> size_t \<Rightarrow> rb_os"
  bo_mutex_ok :: "buffer_id \<Rightarrow> bool \<times> bool"
  bo_cond_ok :: "buffer_id \<Rightarrow> bool \<times> bool"

definition s_record_fallback_sizes :: "size_t list" where
  "s_record_fallback_sizes = [4 * BUFMGR_GB, 2 * BUFMGR_GB, BUFMGR_GB, 512 * BUFMGR_MB]"

fun record_fallback ::
  "(size_t \<Rightarrow> nat + ringbuffer) \<Rightarrow> size_t \<Rightarrow> size_t list \<Rightarrow> (size_t \<times> ringbuffer) option" where
  "record_fallback init requested [] = None"
| "record_fallback init requested (c # cs) =
     (if requested \<le> c then record_fallback init requested cs
      else case init c of
        Inr rb \<Rightarrow> Some (c, rb)
      | Inl _ \<Rightarrow> record_fallback init requested cs)"

text \<open>The ring with the size it got, and whether that is a fallback size.\<close>

definition init_ring :: "bm_os \<Rightarrow> buffer_id \<Rightarrow> size_t \<Rightarrow> (size_t \<times> ringbuffer \<times> bool) option" where
  "init_ring os i requested =
     (let init = (\<lambda>sz. rb_init (bo_rb os i sz) sz) in
      case init requested of
        Inr rb \<Rightarrow> Some (requested, rb, False)
      | Inl _ \<Rightarrow>
          if i = BUF_RECORD_A \<or> i = BUF_RECORD_B
          then map_option (\<lambda>(c, rb). (c, rb, True))
                 (record_fallback init requested s_record_fallback_sizes)
          else None)"

definition set_size :: "buffer_id \<Rightarrow> size_t \<Rightarrow> buffer_manager \<Rightarrow> buffer_manager" where
  "set_size i sz mgr = mgr\<lparr>bm_configs := (bm_configs mgr)(i := (bm_configs mgr i)\<lparr>cfg_size := sz\<rparr>)\<rparr>"

definition lower_peer :: "buffer_id \<Rightarrow> size_t \<Rightarrow> buffer_manager \<Rightarrow> buffer_manager" where
  "lower_peer i init_size mgr =
     (let peer = (if i = BUF_RECORD_A then BUF_RECORD_B
                  else if i = BUF_RECORD_B then BUF_RECORD_A else BUF_COUNT) in
      if peer < BUF_COUNT \<and> \<not> bm_initialized mgr peer \<and>
         init_size < cfg_size (bm_configs mgr peer)
      then set_size peer init_size mgr else mgr)"

definition init_events :: "bm_os \<Rightarrow> buffer_id \<Rightarrow> buffer_manager \<Rightarrow> buffer_manager" where
  "init_events os i mgr =
     (case rb_event_init (fst (bo_mutex_ok os i)) (fst (bo_cond_ok os i)) (bm_data_events mgr i) of
        (r1, dev) \<Rightarrow>
      let mgr1 = mgr\<lparr>bm_data_events := (bm_data_events mgr)(i := dev)\<rparr> in
      if r1 \<noteq> 0 then mgr1
      else case rb_event_init (snd (bo_mutex_ok os i)) (snd (bo_cond_ok os i))
                  (bm_space_events mgr1 i) of
        (r2, sev) \<Rightarrow>
      let mgr2 = mgr1\<lparr>bm_space_events := (bm_space_events mgr1)(i := sev)\<rparr> in
      if r2 \<noteq> 0 then mgr2
      else mgr2\<lparr>bm_events_initialized := (bm_events_initialized mgr2)(i := True)\<rparr>)"

definition bufmgr_ensure_init ::
  "bm_os \<Rightarrow> buffer_manager \<Rightarrow> buffer_id \<Rightarrow> int \<times> buffer_manager" where
  "bufmgr_ensure_init os mgr i =
     (if BUF_COUNT \<le> i then (-1, mgr)
      else if bm_initialized mgr i then (0, mgr)
      else case init_ring os i (cfg_size (bm_configs mgr i)) of
        None \<Rightarrow> (-1, mgr)
      | Some (sz, rb, used_fallback) \<Rightarrow>
          let mgr1 = set_size i sz (mgr\<lparr>bm_buffers := (bm_buffers mgr)(i := rb)\<rparr>);
              mgr2 = (if used_fallback then lower_peer i sz mgr1 else mgr1);
              mgr3 = init_events os i mgr2 in
          (0, mgr3\<lparr>bm_stats := (bm_stats mgr3)(i := zero_stats),
                   bm_initialized := (bm_initialized mgr3)(i := True)\<rparr>))"

fun cleanup_loop :: "buffer_id list \<Rightarrow> buffer_manager \<Rightarrow> buffer_manager" where
  "cleanup_loop [] mgr = mgr"
| "cleanup_loop (i # is) mgr =
     (let mgr1 = mgr\<lparr>bm_initialized := (bm_initialized mgr)(i := False)\<rparr>;
          mgr2 = (if bm_events_initialized mgr1 i
                  then mgr1\<lparr>bm_data_events := (bm_data_events mgr1)
                               (i := rb_event_destroy (bm_data_events mgr1 i)),
                            bm_space_events := (bm_space_events mgr1)
                               (i := rb_event_destroy (bm_space_events mgr1 i)),
                            bm_events_initialized := (bm_events_initialized mgr1)(i := False)\<rparr>
                  else mgr1) in
      cleanup_loop is mgr2)"

definition bufmgr_cleanup :: "buffer_manager \<Rightarrow> buffer_manager" where
  "bufmgr_cleanup mgr = (cleanup_loop buffer_ids mgr)\<lparr>bm_manager_initialized := False\<rparr>"

fun init_loop :: "bm_os \<Rightarrow> buffer_id list \<Rightarrow> buffer_manager \<Rightarrow> int \<times> buffer_manager" where
  "init_loop os [] mgr = (0, mgr\<lparr>bm_manager_initialized := True\<rparr>)"
| "init_loop os (i # is) mgr =
     (if cfg_lazy_init (bm_configs mgr i) then init_loop os is mgr
      else case bufmgr_ensure_init os mgr i of
        (r, mgr') \<Rightarrow> if r < 0 then (r, bufmgr_cleanup mgr') else init_loop os is mgr')"

definition bufmgr_init_custom ::
  "bm_os \<Rightarrow> (buffer_id \<Rightarrow> buffer_config) option \<Rightarrow> int \<times> buffer_manager" where
  "bufmgr_init_custom os configs =
     init_loop os buffer_ids
       (zero_manager\<lparr>bm_configs := (\<lambda>i. case configs of
            None \<Rightarrow> s_default_configs i
          | Some f \<Rightarrow> if cfg_name (f i) \<noteq> None then f i else s_default_configs i),
        bm_policies := s_default_policies\<rparr>)"

definition bufmgr_init :: "bm_os \<Rightarrow> int \<times> buffer_manager" where
  "bufmgr_init os = bufmgr_init_custom os None"

definition bufmgr_init_for_budget :: "bm_os \<Rightarrow> u32 \<Rightarrow> int \<times> buffer_manager" where
  "bufmgr_init_for_budget os budget_gb =
     bufmgr_init_custom os (Some (bufmgr_build_budget_configs (bufmgr_clamp_budget budget_gb)))"

definition bufmgr_reset :: "buffer_manager \<Rightarrow> buffer_id \<Rightarrow> buffer_manager" where
  "bufmgr_reset mgr i =
     (if BUF_COUNT \<le> i \<or> \<not> bm_initialized mgr i then mgr
      else mgr\<lparr>bm_buffers := (bm_buffers mgr)(i := (bm_buffers mgr i)\<lparr>rb_head := 0, rb_tail := 0\<rparr>),
               bm_stats := (bm_stats mgr)(i := zero_stats)\<rparr>)"

definition bufmgr_reset_stats :: "buffer_manager \<Rightarrow> buffer_id \<Rightarrow> buffer_manager" where
  "bufmgr_reset_stats mgr i =
     (if BUF_COUNT \<le> i then mgr\<lparr>bm_stats := (\<lambda>_. zero_stats)\<rparr>
      else mgr\<lparr>bm_stats := (bm_stats mgr)(i := zero_stats)\<rparr>)"

section \<open>Producer\<close>

text \<open>What other threads do to the manager while the caller waits for the k-th time.\<close>

type_synonym others = "nat \<Rightarrow> buffer_manager \<Rightarrow> buffer_manager"

definition upd_stats ::
  "buffer_id \<Rightarrow> (buffer_stats \<Rightarrow> buffer_stats) \<Rightarrow> buffer_manager \<Rightarrow> buffer_manager" where
  "upd_stats i f mgr = mgr\<lparr>bm_stats := (bm_stats mgr)(i := f (bm_stats mgr i))\<rparr>"

definition count_wait :: "buffer_stats \<Rightarrow> buffer_stats" where
  "count_wait s = s\<lparr>st_write_waits := st_write_waits s + 1\<rparr>"

definition count_drop :: "buffer_stats \<Rightarrow> buffer_stats" where
  "count_drop s = s\<lparr>st_write_drops := st_write_drops s + 1\<rparr>"

text \<open>One wait: the other threads act, then the signal of the event, if there is one and the
  events exist, is consumed.\<close>

definition wait_space :: "others \<Rightarrow> nat \<Rightarrow> buffer_id \<Rightarrow> buffer_manager \<Rightarrow> buffer_manager" where
  "wait_space others k i mgr =
     (let mgr' = others k mgr in
      if bm_events_initialized mgr i
      then mgr'\<lparr>bm_space_events := (bm_space_events mgr')
                  (i := snd (rb_event_wait_timeout (bm_space_events mgr' i)))\<rparr>
      else mgr')"

function write_wait ::
  "others \<Rightarrow> int \<Rightarrow> buffer_id \<Rightarrow> size_t \<Rightarrow> nat \<Rightarrow> buffer_manager \<Rightarrow>
   size_t option \<times> buffer_manager" where
  "write_wait others max_wait i n attempts0 mgr =
     (let attempts = Suc attempts0;
          mgr1 = upd_stats i count_wait mgr in
      if max_wait < int attempts then (None, upd_stats i count_drop mgr1)
      else let mgr2 = wait_space others attempts i mgr1 in
        case rb_write_ptr (bm_buffers mgr2 i) n of
          Some p \<Rightarrow> (Some p, mgr2)
        | None \<Rightarrow> write_wait others max_wait i n attempts mgr2)"
  by pat_completeness auto
termination
  by (relation "measure (\<lambda>(others, max_wait, i, n, attempts0, mgr). nat max_wait - attempts0)")
    auto

declare write_wait.simps [simp del]

definition bufmgr_write_begin ::
  "bm_os \<Rightarrow> others \<Rightarrow> buffer_manager \<Rightarrow> buffer_id \<Rightarrow> size_t \<Rightarrow> backpressure_policy option \<Rightarrow>
   size_t option \<times> buffer_manager" where
  "bufmgr_write_begin os others mgr i n policy_opt =
     (if BUF_COUNT \<le> i then (None, mgr)
      else case (if bm_initialized mgr i then (0, mgr) else bufmgr_ensure_init os mgr i) of
        (r, mgr1) \<Rightarrow>
          if r < 0 then (None, mgr1)
          else let pol = (case policy_opt of Some p \<Rightarrow> p | None \<Rightarrow> bm_policies mgr1 i) in
            case rb_write_ptr (bm_buffers mgr1 i) n of
              Some p \<Rightarrow> (Some p, mgr1)
            | None \<Rightarrow>
                if pol_max_wait_attempts pol = 0 then (None, upd_stats i count_drop mgr1)
                else write_wait others (pol_max_wait_attempts pol) i n 0 mgr1)"

text \<open>The end of a write, with the call to the RF observer, if it makes one.\<close>

definition bufmgr_write_end ::
  "buffer_manager \<Rightarrow> buffer_id \<Rightarrow> size_t \<Rightarrow> buffer_manager \<times> (u64 \<times> size_t) option" where
  "bufmgr_write_end mgr i n =
     (if BUF_COUNT \<le> i \<or> \<not> bm_initialized mgr i then (mgr, None)
      else let note_rf = (if i = BUF_CAPTURE_RF \<and> bm_has_rf_observer mgr
                          then Some (st_bytes_written (bm_stats mgr i), n) else None);
               ring = (case rb_write_finished (bm_buffers mgr i) n of
                         None \<Rightarrow> bm_buffers mgr i | Some rb \<Rightarrow> rb);
               mgr1 = mgr\<lparr>bm_buffers := (bm_buffers mgr)(i := ring)\<rparr>;
               mgr2 = upd_stats i (\<lambda>s. s\<lparr>st_bytes_written := st_bytes_written s + n\<rparr>) mgr1 in
        (if bm_events_initialized mgr2 i
         then mgr2\<lparr>bm_data_events := (bm_data_events mgr2)
                     (i := rb_event_signal (bm_data_events mgr2 i))\<rparr>
         else mgr2, note_rf))"

definition bufmgr_write ::
  "bm_os \<Rightarrow> others \<Rightarrow> buffer_manager \<Rightarrow> buffer_id \<Rightarrow> bytes \<Rightarrow> int \<times> buffer_manager" where
  "bufmgr_write os others mgr i data =
     (case bufmgr_write_begin os others mgr i (of_nat (length data)) None of
        (None, mgr1) \<Rightarrow> (-1, mgr1)
      | (Some p, mgr1) \<Rightarrow>
          (0, fst (bufmgr_write_end
                (mgr1\<lparr>bm_buffers := (bm_buffers mgr1)(i := rb_fill (bm_buffers mgr1 i) p data)\<rparr>)
                i (of_nat (length data)))))"

section \<open>Consumer\<close>

definition wait_data :: "others \<Rightarrow> nat \<Rightarrow> buffer_id \<Rightarrow> buffer_manager \<Rightarrow> buffer_manager" where
  "wait_data others k i mgr =
     (let mgr' = others k mgr in
      if bm_events_initialized mgr i
      then mgr'\<lparr>bm_data_events := (bm_data_events mgr')
                  (i := snd (rb_event_wait_timeout (bm_data_events mgr' i)))\<rparr>
      else mgr')"

definition count_read_wait :: "buffer_stats \<Rightarrow> buffer_stats" where
  "count_read_wait s = s\<lparr>st_read_waits := st_read_waits s + 1\<rparr>"

definition count_read_timeout :: "buffer_stats \<Rightarrow> buffer_stats" where
  "count_read_timeout s = s\<lparr>st_read_timeouts := st_read_timeouts s + 1\<rparr>"

definition wait_chunk :: "int \<Rightarrow> int" where
  "wait_chunk timeout_ms = (if 0 < timeout_ms \<and> timeout_ms < 20 then timeout_ms else 20)"

text \<open>The waiting loop.  With a negative timeout it runs until there is data, perhaps for
  ever, so its result is None when it does not return.\<close>

partial_function (option) read_wait ::
  "others \<Rightarrow> int \<Rightarrow> buffer_id \<Rightarrow> size_t \<Rightarrow> nat \<Rightarrow> int \<Rightarrow> buffer_manager \<Rightarrow>
   (size_t option \<times> buffer_manager) option" where
  "read_wait others timeout_ms i n k elapsed mgr =
     (let mgr1 = wait_data others (Suc k) i (upd_stats i count_read_wait mgr);
          ptr = rb_read_ptr (bm_buffers mgr1 i) n in
      if 0 < timeout_ms \<and> timeout_ms \<le> elapsed + wait_chunk timeout_ms
      then Some (None, upd_stats i count_read_timeout mgr1)
      else if ptr = None
      then read_wait others timeout_ms i n (Suc k) (elapsed + wait_chunk timeout_ms) mgr1
      else Some (ptr, mgr1))"

definition bufmgr_read_begin ::
  "others \<Rightarrow> buffer_manager \<Rightarrow> buffer_id \<Rightarrow> size_t \<Rightarrow> int \<Rightarrow>
   (size_t option \<times> buffer_manager) option" where
  "bufmgr_read_begin others mgr i n timeout_ms =
     (if BUF_COUNT \<le> i \<or> \<not> bm_initialized mgr i then Some (None, mgr)
      else case rb_read_ptr (bm_buffers mgr i) n of
        Some p \<Rightarrow> Some (Some p, mgr)
      | None \<Rightarrow> if timeout_ms = 0 then Some (None, mgr)
                else read_wait others timeout_ms i n 0 0 mgr)"

definition bufmgr_read_end :: "buffer_manager \<Rightarrow> buffer_id \<Rightarrow> size_t \<Rightarrow> buffer_manager" where
  "bufmgr_read_end mgr i n =
     (if BUF_COUNT \<le> i \<or> \<not> bm_initialized mgr i then mgr
      else let ring = (case rb_read_finished (bm_buffers mgr i) n of
                         None \<Rightarrow> bm_buffers mgr i | Some rb \<Rightarrow> rb);
               mgr1 = mgr\<lparr>bm_buffers := (bm_buffers mgr)(i := ring)\<rparr>;
               mgr2 = upd_stats i (\<lambda>s. s\<lparr>st_bytes_read := st_bytes_read s + n\<rparr>) mgr1 in
        if bm_events_initialized mgr2 i
        then mgr2\<lparr>bm_space_events := (bm_space_events mgr2)
                    (i := rb_event_signal (bm_space_events mgr2 i))\<rparr>
        else mgr2)"

section \<open>Events and statistics\<close>

text \<open>The waiting calls of the event interface; None stands for a wait that is not bounded.\<close>

definition bufmgr_wait_data ::
  "buffer_manager \<Rightarrow> buffer_id \<Rightarrow> int \<Rightarrow> (bool \<times> buffer_manager) option" where
  "bufmgr_wait_data mgr i timeout_ms =
     (if BUF_COUNT \<le> i \<or> \<not> bm_events_initialized mgr i then Some (False, mgr)
      else if timeout_ms = 0 then Some (False, mgr)
      else case rb_event_wait_timeout (bm_data_events mgr i) of
        (got, ev) \<Rightarrow>
          if timeout_ms < 0 \<and> ev_initialized (bm_data_events mgr i) \<and> \<not> got then None
          else Some (timeout_ms < 0 \<or> got,
                     mgr\<lparr>bm_data_events := (bm_data_events mgr)(i := ev)\<rparr>))"

definition bufmgr_signal_data :: "buffer_manager \<Rightarrow> buffer_id \<Rightarrow> buffer_manager" where
  "bufmgr_signal_data mgr i =
     (if BUF_COUNT \<le> i \<or> \<not> bm_events_initialized mgr i then mgr
      else mgr\<lparr>bm_data_events := (bm_data_events mgr)
                 (i := rb_event_signal (bm_data_events mgr i))\<rparr>)"

definition bufmgr_wait_space ::
  "buffer_manager \<Rightarrow> buffer_id \<Rightarrow> int \<Rightarrow> (bool \<times> buffer_manager) option" where
  "bufmgr_wait_space mgr i timeout_ms =
     (if BUF_COUNT \<le> i \<or> \<not> bm_events_initialized mgr i then Some (False, mgr)
      else if timeout_ms = 0 then Some (False, mgr)
      else case rb_event_wait_timeout (bm_space_events mgr i) of
        (got, ev) \<Rightarrow>
          if timeout_ms < 0 \<and> ev_initialized (bm_space_events mgr i) \<and> \<not> got then None
          else Some (timeout_ms < 0 \<or> got,
                     mgr\<lparr>bm_space_events := (bm_space_events mgr)(i := ev)\<rparr>))"

definition bufmgr_signal_space :: "buffer_manager \<Rightarrow> buffer_id \<Rightarrow> buffer_manager" where
  "bufmgr_signal_space mgr i =
     (if BUF_COUNT \<le> i \<or> \<not> bm_events_initialized mgr i then mgr
      else mgr\<lparr>bm_space_events := (bm_space_events mgr)
                 (i := rb_event_signal (bm_space_events mgr i))\<rparr>)"

definition bufmgr_fill_level :: "buffer_manager \<Rightarrow> buffer_id \<Rightarrow> size_t" where
  "bufmgr_fill_level mgr i =
     (if BUF_COUNT \<le> i \<or> \<not> bm_initialized mgr i then 0
      else rb_tail (bm_buffers mgr i) - rb_head (bm_buffers mgr i))"

record buffer_manager_stats =
  tot_per_buffer :: "buffer_id \<Rightarrow> buffer_stats"
  tot_bytes_written :: u64
  tot_bytes_read :: u64
  tot_waits :: u32
  tot_drops :: u32

definition bufmgr_get_stats :: "buffer_manager \<Rightarrow> buffer_id \<Rightarrow> buffer_stats \<Rightarrow> buffer_stats" where
  "bufmgr_get_stats mgr i out = (if BUF_COUNT \<le> i then out else bm_stats mgr i)"

fun sum_stats :: "buffer_manager \<Rightarrow> buffer_id list \<Rightarrow> buffer_manager_stats \<Rightarrow> buffer_manager_stats" where
  "sum_stats mgr [] t = t"
| "sum_stats mgr (i # is) t =
     (let s = bufmgr_get_stats mgr i (tot_per_buffer t i) in
      sum_stats mgr is
        \<lparr>tot_per_buffer = (tot_per_buffer t)(i := s),
         tot_bytes_written = tot_bytes_written t + st_bytes_written s,
         tot_bytes_read = tot_bytes_read t + st_bytes_read s,
         tot_waits = tot_waits t + ucast (st_write_waits s) + ucast (st_read_waits s),
         tot_drops = tot_drops t + ucast (st_write_drops s)\<rparr>)"

definition bufmgr_get_all_stats :: "buffer_manager \<Rightarrow> buffer_manager_stats" where
  "bufmgr_get_all_stats mgr = sum_stats mgr buffer_ids
     \<lparr>tot_per_buffer = (\<lambda>_. zero_stats), tot_bytes_written = 0, tot_bytes_read = 0,
      tot_waits = 0, tot_drops = 0\<rparr>"

section \<open>Invariant\<close>

definition size_ok :: "size_t \<Rightarrow> bool" where
  "size_ok sz = (0 < unat sz \<and> 2 * unat sz < 2 ^ 64)"

text \<open>One buffer: its configured size can be mapped, and once it is initialised its ring is
  well formed and the statistics account for every byte it holds.\<close>

definition buf_ok :: "buffer_manager \<Rightarrow> buffer_id \<Rightarrow> bool" where
  "buf_ok mgr i =
     (size_ok (cfg_size (bm_configs mgr i)) \<and>
      (bm_initialized mgr i \<longrightarrow> rb_inv (bm_buffers mgr i) \<and>
         st_bytes_written (bm_stats mgr i) - st_bytes_read (bm_stats mgr i)
           = of_nat (length (rb_contents (bm_buffers mgr i)))))"

definition bm_ok :: "buffer_manager \<Rightarrow> bool" where
  "bm_ok mgr = (\<forall>i. i \<noteq> BUF_COUNT \<longrightarrow> buf_ok mgr i)"

lemma bm_ok_D: "bm_ok mgr \<Longrightarrow> i \<noteq> BUF_COUNT \<Longrightarrow> buf_ok mgr i"
  by (simp add: bm_ok_def)

text \<open>A change that concerns one buffer needs to be looked at for that buffer only.\<close>

lemma bm_ok_change:
  assumes "bm_ok mgr" "i \<noteq> BUF_COUNT \<Longrightarrow> buf_ok mgr' i"
    and "\<And>j. j \<noteq> i \<Longrightarrow> j \<noteq> BUF_COUNT \<Longrightarrow> buf_ok mgr j \<Longrightarrow> buf_ok mgr' j"
  shows "bm_ok mgr'"
  using assms by (metis bm_ok_def)

lemma upd_stats_sel [simp]:
  "bm_buffers (upd_stats i f mgr) = bm_buffers mgr"
  "bm_initialized (upd_stats i f mgr) = bm_initialized mgr"
  "bm_configs (upd_stats i f mgr) = bm_configs mgr"
  "bm_policies (upd_stats i f mgr) = bm_policies mgr"
  "bm_events_initialized (upd_stats i f mgr) = bm_events_initialized mgr"
  "bm_space_events (upd_stats i f mgr) = bm_space_events mgr"
  "bm_data_events (upd_stats i f mgr) = bm_data_events mgr"
  "bm_stats (upd_stats i f mgr) = (bm_stats mgr)(i := f (bm_stats mgr i))"
  by (simp_all add: upd_stats_def)

text \<open>The waiting counters, and the events, are outside the invariant.\<close>

lemma bm_ok_counters [inv_pres]:
  assumes "bm_ok mgr"
  shows "bm_ok (upd_stats i count_wait mgr)" "bm_ok (upd_stats i count_drop mgr)"
    "bm_ok (upd_stats i count_read_wait mgr)" "bm_ok (upd_stats i count_read_timeout mgr)"
  using assms
  by (simp_all add: bm_ok_def buf_ok_def count_wait_def count_drop_def count_read_wait_def
      count_read_timeout_def)

lemma bm_ok_events [simp]:
  "bm_ok (mgr\<lparr>bm_data_events := d\<rparr>) = bm_ok mgr"
  "bm_ok (mgr\<lparr>bm_space_events := d\<rparr>) = bm_ok mgr"
  "bm_ok (mgr\<lparr>bm_events_initialized := e\<rparr>) = bm_ok mgr"
  "bm_ok (mgr\<lparr>bm_manager_initialized := b\<rparr>) = bm_ok mgr"
  by (simp_all add: bm_ok_def buf_ok_def)

lemma wait_ok [inv_pres]:
  assumes "bm_ok mgr" "\<And>k m. bm_ok m \<Longrightarrow> bm_ok (others k m)"
  shows "bm_ok (wait_space others k i mgr)" "bm_ok (wait_data others k i mgr)"
  using assms by (simp_all add: wait_space_def wait_data_def Let_def)

section \<open>Initialisation\<close>

definition grants :: "bm_os \<Rightarrow> buffer_id \<Rightarrow> size_t \<Rightarrow> bool" where
  "grants os i sz = (case rb_init (bo_rb os i sz) sz of Inl _ \<Rightarrow> False | Inr _ \<Rightarrow> True)"

lemma rb_init_size: "rb_init os sz = Inr rb \<Longrightarrow> rb_size rb = sz"
  by (auto simp: rb_init_def Let_def split: if_splits)

lemma record_fallback_some:
  assumes "record_fallback (\<lambda>sz. rb_init (bo_rb os i sz) sz) requested cs = Some (c, rb)"
    and "sorted_wrt (>) cs"
  shows "c \<in> set cs \<and> c < requested \<and> rb_init (bo_rb os i c) c = Inr rb \<and>
    (\<forall>d\<in>set cs. c < d \<and> d < requested \<longrightarrow> \<not> grants os i d)"
  using assms
proof (induction cs)
  case (Cons d cs)
  then show ?case by (fastforce simp: grants_def split: if_splits sum.splits)
qed simp

lemma record_fallback_none:
  "record_fallback (\<lambda>sz. rb_init (bo_rb os i sz) sz) requested cs = None \<longleftrightarrow>
     (\<forall>c\<in>set cs. c < requested \<longrightarrow> \<not> grants os i c)"
  by (induction cs) (auto simp: grants_def split: sum.splits)

lemma fallback_sizes_sorted: "sorted_wrt (>) s_record_fallback_sizes"
  by (simp add: s_record_fallback_sizes_def BUFMGR_GB_def BUFMGR_MB_def)

text \<open>Which size a ring gets: the requested one, or for a record buffer the greatest smaller
  one of the list that the system grants.\<close>

lemma init_ring_some:
  assumes "init_ring os i requested = Some (sz, rb, used)"
  shows "rb_init (bo_rb os i sz) sz = Inr rb \<and> sz \<le> requested \<and> (used \<longleftrightarrow> sz < requested) \<and>
    (sz < requested \<longrightarrow> (i = BUF_RECORD_A \<or> i = BUF_RECORD_B) \<and> sz \<in> set s_record_fallback_sizes) \<and>
    (\<forall>d\<in>insert requested (set s_record_fallback_sizes). sz < d \<and> d \<le> requested \<longrightarrow> \<not> grants os i d)"
proof (cases "rb_init (bo_rb os i requested) requested")
  case (Inr r)
  then show ?thesis using assms by (auto simp: init_ring_def)
next
  case (Inl e)
  then have *: "record_fallback (\<lambda>sz. rb_init (bo_rb os i sz) sz) requested
      s_record_fallback_sizes = Some (sz, rb)" "used" "i = BUF_RECORD_A \<or> i = BUF_RECORD_B"
    using assms by (auto simp: init_ring_def split: if_splits)
  have "\<not> grants os i requested" using Inl by (simp add: grants_def)
  then show ?thesis
    using record_fallback_some [OF *(1) fallback_sizes_sorted] *(2,3)
    by (metis (no_types, lifting) insert_iff order_less_le)
qed

lemma init_ring_none:
  "init_ring os i requested = None \<longleftrightarrow> \<not> grants os i requested \<and>
     (i = BUF_RECORD_A \<or> i = BUF_RECORD_B \<longrightarrow>
        (\<forall>c\<in>set s_record_fallback_sizes. c < requested \<longrightarrow> \<not> grants os i c))"
  by (auto simp: init_ring_def grants_def record_fallback_none split: sum.splits)

lemma set_size_sel [simp]:
  "bm_buffers (set_size i sz mgr) = bm_buffers mgr"
  "bm_initialized (set_size i sz mgr) = bm_initialized mgr"
  "bm_stats (set_size i sz mgr) = bm_stats mgr"
  "cfg_size (bm_configs (set_size i sz mgr) j) = (if j = i then sz else cfg_size (bm_configs mgr j))"
  by (simp_all add: set_size_def)

definition peer_of :: "buffer_id \<Rightarrow> buffer_id" where
  "peer_of i = (if i = BUF_RECORD_A then BUF_RECORD_B
                else if i = BUF_RECORD_B then BUF_RECORD_A else BUF_COUNT)"

lemma lower_peer_sel [simp]:
  "bm_buffers (lower_peer i sz mgr) = bm_buffers mgr"
  "bm_initialized (lower_peer i sz mgr) = bm_initialized mgr"
  "bm_stats (lower_peer i sz mgr) = bm_stats mgr"
  "cfg_size (bm_configs (lower_peer i sz mgr) j) =
     (if j = peer_of i \<and> j \<noteq> BUF_COUNT \<and> \<not> bm_initialized mgr j
      then min sz (cfg_size (bm_configs mgr j)) else cfg_size (bm_configs mgr j))"
  by (auto simp: lower_peer_def peer_of_def Let_def min_def)

lemma init_events_sel [simp]:
  "bm_buffers (init_events os i mgr) = bm_buffers mgr"
  "bm_initialized (init_events os i mgr) = bm_initialized mgr"
  "bm_stats (init_events os i mgr) = bm_stats mgr"
  "bm_configs (init_events os i mgr) = bm_configs mgr"
  by (simp_all add: init_events_def Let_def split: prod.splits)

lemma ensure_init_new:
  assumes "bufmgr_ensure_init os mgr i = (r, mgr')" "i \<noteq> BUF_COUNT" "\<not> bm_initialized mgr i"
  shows "(init_ring os i (cfg_size (bm_configs mgr i)) = None \<and> r = -1 \<and> mgr' = mgr) \<or>
    (\<exists>sz rb used. init_ring os i (cfg_size (bm_configs mgr i)) = Some (sz, rb, used) \<and> r = 0 \<and>
       bm_buffers mgr' = (bm_buffers mgr)(i := rb) \<and>
       bm_initialized mgr' = (bm_initialized mgr)(i := True) \<and>
       bm_stats mgr' = (bm_stats mgr)(i := zero_stats) \<and>
       cfg_size (bm_configs mgr' i) = sz \<and>
       (\<forall>j. j \<noteq> i \<longrightarrow> cfg_size (bm_configs mgr' j) =
          (if used \<and> j = peer_of i \<and> j \<noteq> BUF_COUNT \<and> \<not> bm_initialized mgr j
           then min sz (cfg_size (bm_configs mgr j)) else cfg_size (bm_configs mgr j))))"
  using assms
  by (auto simp: bufmgr_ensure_init_def Let_def peer_of_def split: option.splits if_splits)

lemma zero_stats_balance: "st_bytes_written zero_stats - st_bytes_read zero_stats = 0"
  by (simp add: zero_stats_def)

lemma fallback_sizes_ok: "sz \<in> set s_record_fallback_sizes \<Longrightarrow> size_ok sz"
  by (auto simp: s_record_fallback_sizes_def size_ok_def BUFMGR_GB_def BUFMGR_MB_def)

lemma init_ring_size_ok:
  assumes "init_ring os i requested = Some (sz, rb, used)" "size_ok requested"
  shows "size_ok sz"
  using init_ring_some [OF assms(1)] assms(2) fallback_sizes_ok by (metis order_le_imp_less_or_eq)

lemma ensure_init_ok [inv_pres]:
  assumes "bm_ok mgr"
  shows "bm_ok (snd (bufmgr_ensure_init os mgr i))"
proof (cases "i = BUF_COUNT \<or> bm_initialized mgr i")
  case True
  then show ?thesis using assms by (auto simp: bufmgr_ensure_init_def)
next
  case False
  obtain r mgr' where run: "bufmgr_ensure_init os mgr i = (r, mgr')" by fastforce
  note req = bm_ok_D [OF assms, of i, unfolded buf_ok_def]
  have new: "i \<noteq> BUF_COUNT" "\<not> bm_initialized mgr i" using False by auto
  show ?thesis
    using ensure_init_new [OF run new]
  proof (elim disjE exE conjE)
    fix sz rb used
    assume i: "init_ring os i (cfg_size (bm_configs mgr i)) = Some (sz, rb, used)" and
      m: "bm_buffers mgr' = (bm_buffers mgr)(i := rb)"
       "bm_initialized mgr' = (bm_initialized mgr)(i := True)"
       "bm_stats mgr' = (bm_stats mgr)(i := zero_stats)"
       "cfg_size (bm_configs mgr' i) = sz" and
      c: "\<forall>j. j \<noteq> i \<longrightarrow> cfg_size (bm_configs mgr' j) =
          (if used \<and> j = peer_of i \<and> j \<noteq> BUF_COUNT \<and> \<not> bm_initialized mgr j
           then min sz (cfg_size (bm_configs mgr j)) else cfg_size (bm_configs mgr j))"
    have sz: "size_ok sz" using init_ring_size_ok [OF i] req False by simp
    have rb: "rb_inv rb" "rb_contents rb = []"
      using init_ring_some [OF i] rb_init_inv [of "bo_rb os i sz" sz rb] sz
      by (auto simp: size_ok_def unat_gt_0 word_gt_0)
    show ?thesis
      unfolding run snd_conv
    proof (rule bm_ok_change [OF assms, of i])
      show "buf_ok mgr' i" using sz rb m by (simp add: buf_ok_def zero_stats_balance)
      show "buf_ok mgr' j" if "j \<noteq> i" "j \<noteq> BUF_COUNT" "buf_ok mgr j" for j
        using that c m sz by (auto simp: buf_ok_def min_def)
    qed
  qed (use run assms in auto)
qed

lemma cleanup_ok [inv_pres]: "bm_ok mgr \<Longrightarrow> bm_ok (bufmgr_cleanup mgr)"
proof -
  have "bm_ok (cleanup_loop is mgr)" if "bm_ok mgr" for "is" mgr
    using that
    by (induction "is" mgr rule: cleanup_loop.induct) (simp_all add: Let_def bm_ok_def buf_ok_def)
  then show "bm_ok mgr \<Longrightarrow> ?thesis" by (simp add: bufmgr_cleanup_def)
qed

lemma init_loop_ok: "bm_ok mgr \<Longrightarrow> bm_ok (snd (init_loop os is mgr))"
proof (induction os "is" mgr rule: init_loop.induct)
  case (2 os i "is" mgr)
  obtain r mgr' where e: "bufmgr_ensure_init os mgr i = (r, mgr')" by fastforce
  then have "bm_ok mgr'" using ensure_init_ok [OF 2(3), of os i] by simp
  then show ?case using 2 e by (auto intro: cleanup_ok)
qed simp

lemma custom_init_ok:
  assumes "\<And>f i. configs = Some f \<Longrightarrow> i \<noteq> BUF_COUNT \<Longrightarrow> size_ok (cfg_size (f i))"
  shows "bm_ok (snd (bufmgr_init_custom os configs))"
proof -
  have "size_ok (cfg_size (s_default_configs i))" if "i \<noteq> BUF_COUNT" for i
    using that by (cases i) (simp_all add: config_def size_ok_def BUFMGR_GB_def BUFMGR_MB_def)
  then show ?thesis
    using assms unfolding bufmgr_init_custom_def
    by (intro init_loop_ok)
      (auto simp: bm_ok_def buf_ok_def zero_manager_def split: option.splits)
qed

text \<open>The sixteen budgets.\<close>

lemma clamp_range: "1 \<le> unat (bufmgr_clamp_budget b)" "unat (bufmgr_clamp_budget b) \<le> 16"
  by (auto simp: bufmgr_clamp_budget_def Let_def word_less_nat_alt not_less unat_gt_0 Suc_le_eq)

definition budget_layout_ok :: "u32 \<Rightarrow> bool" where
  "budget_layout_ok g =
     (let sz = (\<lambda>i. unat (cfg_size (bufmgr_build_budget_configs g i))) in
      sum_list (map sz [BUF_CAPTURE_RF, BUF_CAPTURE_AUDIO, BUF_RECORD_A, BUF_RECORD_B, BUF_DISPLAY])
        = unat g * 2 ^ 30 \<and>
      list_all (\<lambda>i. 0 < sz i \<and> 2 * sz i < 2 ^ 64 \<and> sz i mod 65536 = 0) buffer_ids \<and>
      sz BUF_RECORD_A = sz BUF_RECORD_B \<and> 128 * 2 ^ 20 \<le> sz BUF_RECORD_A \<and>
      filter (\<lambda>i. \<not> cfg_lazy_init (bufmgr_build_budget_configs g i)) buffer_ids
        = [BUF_CAPTURE_RF, BUF_CAPTURE_AUDIO, BUF_DISPLAY])"

lemma budget_sizes_one:
  "bufmgr_budget_sizes 1 = \<lparr>bs_rf = 0x20000000, bs_audio = 0x8000000, bs_display = 0x8000000,
     bs_record = 0x8000000, bs_playback_rf = 0x8000000, bs_playback_display = 0x2000000\<rparr>"
  by code_simp

definition regular_budget :: "u32 \<Rightarrow> bool" where
  "regular_budget g = (bufmgr_budget_sizes g =
     \<lparr>bs_rf = 0x40000000, bs_audio = 0x10000000, bs_display = 0x10000000,
      bs_record = ucast g * 0x20000000 - 0x30000000, bs_playback_rf = 0x10000000,
      bs_playback_display = 0x4000000\<rparr>)"

lemma regular_budgets: "list_all regular_budget (map of_nat [2..<17])"
  by code_simp

lemma regular_budget_range:
  assumes "2 \<le> unat g" "unat g \<le> 16"
  shows "regular_budget g"
proof -
  have "g = of_nat (unat g)" "unat g \<in> set [2..<17]" using assms by (simp_all only: set_upt atLeastLessThan_iff) simp_all
  then have "g \<in> set (map of_nat [2..<17])" by (simp only: set_map) (rule image_eqI)
  then show ?thesis using regular_budgets by (simp only: list_all_iff)
qed

lemma regular_record_size:
  fixes g :: u32
  assumes "2 \<le> unat g" "unat g \<le> 16"
  shows "unat (ucast g * 0x20000000 - 0x30000000 :: size_t) = unat g * 0x20000000 - 0x30000000"
proof -
  have m: "unat (ucast g * 0x20000000 :: size_t) = unat g * 0x20000000"
    using assms by (subst unat_mult_lem [THEN iffD1])
      (simp_all add: unsigned_ucast_eq take_bit_nat_eq_self)
  show ?thesis
    by (subst unat_diff_le) (use m assms in \<open>simp_all add: word_le_nat_alt\<close>)
qed

lemma budget_layout: "budget_layout_ok (bufmgr_clamp_budget b)"
proof (cases "unat (bufmgr_clamp_budget b) = 1")
  case True
  then have "bufmgr_clamp_budget b = 1" by (metis unat_1 word_unat_eq_iff)
  then show ?thesis
    by (simp add: budget_layout_ok_def buffer_ids_def budget_sizes_one config_def)
next
  case False
  let ?g = "bufmgr_clamp_budget b"
  have r: "2 \<le> unat ?g" "unat ?g \<le> 16" using clamp_range [of b] False by auto
  have "(unat ?g * 0x20000000 - 0x30000000) mod 65536 = 0"
  proof -
    have "unat ?g * 0x20000000 - 0x30000000 = 65536 * (unat ?g * 8192 - 12288)" by simp
    then show ?thesis by (metis mod_mult_self1_is_0)
  qed
  moreover have "unat ?g * 0x20000000 - 0x30000000 < 0x8000000000000000"
    "0x8000000 \<le> unat ?g * 0x20000000 - 0x30000000" using r by linarith+
  ultimately show ?thesis
    using r regular_budget_range [OF r, unfolded regular_budget_def] regular_record_size [OF r]
    by (simp add: budget_layout_ok_def buffer_ids_def config_def)
qed

lemma size_ok_budget:
  "i \<noteq> BUF_COUNT \<Longrightarrow> size_ok (cfg_size (bufmgr_build_budget_configs (bufmgr_clamp_budget b) i))"
  using budget_layout [of b]
  by (auto simp: budget_layout_ok_def Let_def size_ok_def list_all_iff)

section \<open>The producer's calls\<close>

lemma write_wait_facts:
  assumes "write_wait others max_wait i n k mgr = (ptr, mgr')" "bm_ok mgr"
    and "\<And>k m. bm_ok m \<Longrightarrow> bm_ok (others k m)"
  shows "bm_ok mgr' \<and> (\<forall>p. ptr = Some p \<longrightarrow> rb_write_ptr (bm_buffers mgr' i) n = Some p)"
  using assms
proof (induction others max_wait i n k mgr rule: write_wait.induct)
  case (1 others max_wait i n k mgr)
  let ?m1 = "upd_stats i count_wait mgr"
  let ?m2 = "wait_space others (Suc k) i ?m1"
  have ok: "bm_ok ?m1" "bm_ok ?m2"
    using 1(3,4) by (auto intro!: inv_pres)
  show ?case
    using 1(2) ok 1(1) [OF refl refl _ refl _ _ ok(2) 1(4)] bm_ok_counters(2) [OF ok(1)]
    by (subst (asm) write_wait.simps) (auto simp: Let_def split: if_splits option.splits)
qed

lemma write_begin_facts:
  assumes "bufmgr_write_begin os others mgr i n pol = (ptr, mgr')" "bm_ok mgr"
    and "\<And>k m. bm_ok m \<Longrightarrow> bm_ok (others k m)"
  shows "bm_ok mgr' \<and>
    (\<forall>p. ptr = Some p \<longrightarrow> i \<noteq> BUF_COUNT \<and> rb_write_ptr (bm_buffers mgr' i) n = Some p)"
proof (cases "i = BUF_COUNT")
  case False
  obtain r mgr1 where e: "(if bm_initialized mgr i then (0, mgr) else bufmgr_ensure_init os mgr i)
      = (r, mgr1)" by fastforce
  have ok: "bm_ok mgr1"
    using e assms(2) ensure_init_ok [OF assms(2), of os i] by (auto split: if_splits)
  show ?thesis
    using assms(1) False e ok bm_ok_counters(2) [OF ok] write_wait_facts [OF _ ok assms(3)]
    by (auto simp: bufmgr_write_begin_def Let_def split: if_splits option.splits prod.splits)
qed (use assms in \<open>auto simp: bufmgr_write_begin_def\<close>)

text \<open>Filling the granted place and ending the write is a put of the ring.\<close>

lemma granted_write:
  assumes "rb_inv rb" "rb_write_ptr rb (of_nat (length data)) = Some p" "length data < 2 ^ 64"
  obtains rb' where "rb_write_finished (rb_fill rb p data) (of_nat (length data)) = Some rb'"
    "rb_inv rb'" "rb_contents rb' = rb_contents rb @ data"
proof -
  have n: "unat (of_nat (length data) :: size_t) = length data"
    using assms(3) by (simp add: unat_of_nat_lt)
  have "rb_put_zero_copy rb data (of_nat (length data)) \<noteq> None"
    using assms(2)
    by (auto simp: rb_put_zero_copy_def rb_write_ptr_def rb_write_finished_def rb_fill_def Let_def
        split: if_splits)
  then obtain rb' where rb': "rb_put_zero_copy rb data (of_nat (length data)) = Some rb'" by auto
  then have "rb_write_finished (rb_fill rb p data) (of_nat (length data)) = Some rb'"
    using assms(2) n by (simp add: rb_put_zero_copy_def)
  then show thesis
    using that rbz.put_some [OF assms(1) _ rb'] n by simp
qed

lemma write_ok [inv_pres]:
  assumes "bm_ok mgr" "length data < 2 ^ 64"
    and others: "\<And>k m. bm_ok m \<Longrightarrow> bm_ok (others k m)"
  shows "bm_ok (snd (bufmgr_write os others mgr i data))"
proof -
  let ?n = "of_nat (length data) :: size_t"
  obtain ptr m1 where b: "bufmgr_write_begin os others mgr i ?n None = (ptr, m1)" by fastforce
  note f = write_begin_facts [OF b assms(1) others]
  show ?thesis
  proof (cases ptr)
    case None
    then show ?thesis using b f by (simp add: bufmgr_write_def)
  next
    case (Some p)
    let ?m2 = "m1\<lparr>bm_buffers := (bm_buffers m1)(i := rb_fill (bm_buffers m1 i) p data)\<rparr>"
    have i: "i \<noteq> BUF_COUNT" "rb_write_ptr (bm_buffers m1 i) ?n = Some p" and ok: "bm_ok m1"
      using f Some by auto
    have "bm_ok (fst (bufmgr_write_end ?m2 i ?n))"
    proof (cases "bm_initialized m1 i")
      case False
      then show ?thesis
        using ok i by (auto simp: bufmgr_write_end_def bm_ok_def buf_ok_def)
    next
      case True
      note bi = bm_ok_D [OF ok i(1), unfolded buf_ok_def]
      obtain rb' where rb': "rb_write_finished (rb_fill (bm_buffers m1 i) p data) ?n = Some rb'"
        "rb_inv rb'" "rb_contents rb' = rb_contents (bm_buffers m1 i) @ data"
        using granted_write [OF _ i(2) assms(2)] bi True by blast
      have "st_bytes_written (bm_stats m1 i) + ?n - st_bytes_read (bm_stats m1 i) =
          of_nat (length (rb_contents rb'))"
        using bi True rb'(3) by (simp add: algebra_simps)
      then show ?thesis
        using ok i True rb' by (auto simp: bufmgr_write_end_def Let_def bm_ok_def buf_ok_def)
    qed
    then show ?thesis using b Some by (simp add: bufmgr_write_def)
  qed
qed

section \<open>The consumer's calls\<close>

lemma read_end_ok [inv_pres]:
  assumes "bm_ok mgr" "rb_read_ptr (bm_buffers mgr i) n = Some p"
  shows "bm_ok (bufmgr_read_end mgr i n)"
proof (cases "i = BUF_COUNT \<or> \<not> bm_initialized mgr i")
  case True
  then show ?thesis using assms by (auto simp: bufmgr_read_end_def)
next
  case False
  note bi = bm_ok_D [OF assms(1), of i, unfolded buf_ok_def]
  then have inv: "rb_inv (bm_buffers mgr i)" using False by simp
  have le: "unat n \<le> length (rb_contents (bm_buffers mgr i))"
    using rb_read_ptr_eq [OF inv, of n] assms(2) by (auto split: if_splits)
  then obtain rb' where rb': "rb_read_finished (bm_buffers mgr i) n = Some rb'"
    using rb.release_none [OF inv, of n] by (cases "rb_read_finished (bm_buffers mgr i) n") auto
  note r = rb.release_some [OF inv rb']
  have "of_nat (length (rb_contents rb')) = of_nat (length (rb_contents (bm_buffers mgr i))) - n"
    using r le by (simp add: of_nat_diff)
  then have "st_bytes_written (bm_stats mgr i) - (st_bytes_read (bm_stats mgr i) + n) =
      of_nat (length (rb_contents rb'))"
    using bi False by (simp add: algebra_simps)
  then show ?thesis
    using assms(1) False r rb' by (auto simp: bufmgr_read_end_def Let_def bm_ok_def buf_ok_def)
qed

section \<open>The manager as a state machine\<close>

text \<open>The operations a client performs on a buffer; a read releases what it was shown.\<close>

datatype bm_event =
    BM_Write buffer_id bytes
  | BM_Read buffer_id size_t
  | BM_Reset buffer_id
  | BM_Ensure buffer_id
  | BM_Signal buffer_id
  | BM_Cleanup

definition alone :: others where
  "alone k mgr = mgr"

definition bm_read :: "buffer_manager \<Rightarrow> buffer_id \<Rightarrow> size_t \<Rightarrow> buffer_manager" where
  "bm_read mgr i n =
     (case bufmgr_read_begin alone mgr i n 0 of
        Some (Some p, mgr') \<Rightarrow> bufmgr_read_end mgr' i n
      | Some (None, mgr') \<Rightarrow> mgr'
      | None \<Rightarrow> mgr)"

definition bm_step :: "bm_os \<Rightarrow> bm_event \<Rightarrow> buffer_manager \<Rightarrow> buffer_manager" where
  "bm_step os e mgr =
     (case e of
        BM_Write i data \<Rightarrow>
          if length data < 2 ^ 64 then snd (bufmgr_write os alone mgr i data) else mgr
      | BM_Read i n \<Rightarrow> bm_read mgr i n
      | BM_Reset i \<Rightarrow> bufmgr_reset mgr i
      | BM_Ensure i \<Rightarrow> snd (bufmgr_ensure_init os mgr i)
      | BM_Signal i \<Rightarrow> bufmgr_signal_space (bufmgr_signal_data mgr i) i
      | BM_Cleanup \<Rightarrow> bufmgr_cleanup mgr)"

lemma alone_ok: "bm_ok m \<Longrightarrow> bm_ok (alone k m)"
  by (simp add: alone_def)

lemma bm_read_ok [inv_pres]: "bm_ok mgr \<Longrightarrow> bm_ok (bm_read mgr i n)"
  by (auto simp: bm_read_def bufmgr_read_begin_def intro: read_end_ok split: option.splits)

lemma reset_ok [inv_pres]: "bm_ok mgr \<Longrightarrow> bm_ok (bufmgr_reset mgr i)"
  by (rule bm_ok_change [of mgr i])
    (auto simp: bufmgr_reset_def buf_ok_def zero_stats_balance rb_contents_def rb_used_def
      mem_load_def rb_inv_def size_ok_def word_less_nat_alt dest!: bm_ok_D [of _ i])

lemma signal_ok [inv_pres]:
  "bm_ok mgr \<Longrightarrow> bm_ok (bufmgr_signal_data mgr i)" "bm_ok mgr \<Longrightarrow> bm_ok (bufmgr_signal_space mgr i)"
  by (simp_all add: bufmgr_signal_data_def bufmgr_signal_space_def)

interpretation bm: inv_machine "bm_step os" bm_ok
  by unfold_locales (auto simp: bm_step_def alone_ok intro!: inv_pres split: bm_event.split)

section \<open>Properties\<close>

text \<open>C17: For every memory budget, after the clamping to 1..16 GB, the two capture buffers, the
  display buffer and the two record buffers together take exactly the budget; every buffer
  size is a positive multiple of 64 KB that can be mapped twice; the record buffers are equal
  and at least 128 MB, and exactly the capture and display buffers are created at start-up.\<close>

theorem budget_exact:
  "let g = bufmgr_clamp_budget b;
       sz = (\<lambda>i. unat (cfg_size (bufmgr_build_budget_configs g i))) in
   1 \<le> unat g \<and> unat g \<le> 16 \<and>
   sz BUF_CAPTURE_RF + sz BUF_CAPTURE_AUDIO + sz BUF_RECORD_A + sz BUF_RECORD_B + sz BUF_DISPLAY
     = unat g * 2 ^ 30 \<and>
   list_all (\<lambda>i. 0 < sz i \<and> 2 * sz i < 2 ^ 64 \<and> sz i mod 65536 = 0) buffer_ids \<and>
   sz BUF_RECORD_A = sz BUF_RECORD_B \<and> 128 * 2 ^ 20 \<le> sz BUF_RECORD_A \<and>
   filter (\<lambda>i. \<not> cfg_lazy_init (bufmgr_build_budget_configs g i)) buffer_ids
     = [BUF_CAPTURE_RF, BUF_CAPTURE_AUDIO, BUF_DISPLAY]"
  using budget_layout [of b] clamp_range [of b]
  by (simp add: budget_layout_ok_def Let_def add.assoc)


text \<open>A buffer that is initialised for the first time gets the size it is configured with,
  or, when it is a record buffer, the greatest smaller size of the fallback list that the
  system grants; the configuration then records that size and the size configured for the
  other, not yet initialised record buffer is no greater; when nothing is granted the call
  fails and changes nothing.\<close>

theorem ensure_init_sizes:
  assumes "bufmgr_ensure_init os mgr i = (r, mgr')" "i \<noteq> BUF_COUNT" "\<not> bm_initialized mgr i"
  defines "req \<equiv> cfg_size (bm_configs mgr i)" and "got \<equiv> cfg_size (bm_configs mgr' i)"
  shows "(r = 0 \<longleftrightarrow> grants os i req \<or> ((i = BUF_RECORD_A \<or> i = BUF_RECORD_B) \<and>
      list_ex (\<lambda>c. c < req \<and> grants os i c) s_record_fallback_sizes)) \<and>
    (if r = 0
     then bm_initialized mgr' i \<and> rb_size (bm_buffers mgr' i) = got \<and> grants os i got \<and> got \<le> req \<and>
       (got = req \<or> got \<in> set s_record_fallback_sizes) \<and>
       list_all (\<lambda>c. \<not> (got < c \<and> c \<le> req \<and> grants os i c)) (req # s_record_fallback_sizes) \<and>
       (got = req \<or> peer_of i = BUF_COUNT \<or> bm_initialized mgr (peer_of i) \<or>
          cfg_size (bm_configs mgr' (peer_of i)) \<le> got)
     else r = -1 \<and> mgr' = mgr)"
proof -
  have peer: "i = BUF_RECORD_A \<Longrightarrow> peer_of i \<noteq> i" "i = BUF_RECORD_B \<Longrightarrow> peer_of i \<noteq> i"
    by (simp_all add: peer_of_def)
  show ?thesis
    using ensure_init_new [OF assms(1-3)]
  proof (elim disjE exE conjE)
    assume "init_ring os i (cfg_size (bm_configs mgr i)) = None" "r = -1" "mgr' = mgr"
    then show ?thesis
      unfolding req_def got_def init_ring_none by (auto simp: list_ex_iff)
  next
    fix sz rb used
    assume i: "init_ring os i (cfg_size (bm_configs mgr i)) = Some (sz, rb, used)" and
      m: "r = 0" "bm_buffers mgr' = (bm_buffers mgr)(i := rb)"
       "bm_initialized mgr' = (bm_initialized mgr)(i := True)" "cfg_size (bm_configs mgr' i) = sz" and
      c: "\<forall>j. j \<noteq> i \<longrightarrow> cfg_size (bm_configs mgr' j) =
          (if used \<and> j = peer_of i \<and> j \<noteq> BUF_COUNT \<and> \<not> bm_initialized mgr j
           then min sz (cfg_size (bm_configs mgr j)) else cfg_size (bm_configs mgr j))"
    note s = init_ring_some [OF i]
    then have g: "grants os i sz" "rb_size rb = sz" by (auto simp: grants_def rb_init_size)
    have p: "sz = req \<or> peer_of i = BUF_COUNT \<or> bm_initialized mgr (peer_of i) \<or>
        cfg_size (bm_configs mgr' (peer_of i)) \<le> sz"
      using c [rule_format, of "peer_of i"] s peer by (auto simp: req_def split: if_splits)
    show ?thesis
      using s m g p unfolding req_def got_def by (auto simp: list_ex_iff list_all_iff)
  qed
qed

text \<open>A system that has 4 GB of address space to give, and a manager with the default sizes.\<close>

definition four_gb_os :: bm_os where
  "four_gb_os = \<lparr>bo_rb = (\<lambda>_ _. \<lparr>os_page_size = 4096, os_memfd_ok = True,
       os_ftruncate_ok = (\<lambda>sz. sz \<le> 4 * BUFMGR_GB), os_reserve_ok = (\<lambda>_. True),
       os_map_first_ok = True, os_map_second_ok = True\<rparr>),
     bo_mutex_ok = (\<lambda>_. (True, True)), bo_cond_ok = (\<lambda>_. (True, True))\<rparr>"

definition fresh_manager :: buffer_manager where
  "fresh_manager = zero_manager\<lparr>bm_configs := s_default_configs, bm_policies := s_default_policies\<rparr>"

lemma four_gb_grants: "grants four_gb_os i sz \<longleftrightarrow> sz mod 4096 = 0 \<and> sz \<le> 4 * BUFMGR_GB"
  by (simp add: grants_def four_gb_os_def rb_init_def)

theorem ensure_init_sizes_witness:
  "rb_size (bm_buffers (snd (bufmgr_ensure_init four_gb_os fresh_manager BUF_RECORD_A)) BUF_RECORD_A)
     = 4 * BUFMGR_GB"
proof -
  obtain r mgr' where run: "bufmgr_ensure_init four_gb_os fresh_manager BUF_RECORD_A = (r, mgr')"
    by fastforce
  have "\<not> bm_initialized fresh_manager BUF_RECORD_A"
    by (simp add: fresh_manager_def zero_manager_def)
  from ensure_init_sizes [OF run _ this] show ?thesis
    using run
    by (auto simp: four_gb_grants fresh_manager_def config_def s_record_fallback_sizes_def
        BUFMGR_GB_def BUFMGR_MB_def split: if_splits)
qed

text \<open>How a wait for space ends: with the place and at most as many waits as the policy allows,
  or with one drop after one more count than that.\<close>

lemma write_wait_stats:
  assumes "write_wait others max_wait i n k mgr = (ptr, mgr')"
    and "\<And>k m. bm_stats (others k m) i = bm_stats m i"
  shows "case ptr of
      Some p \<Rightarrow> rb_write_ptr (bm_buffers mgr' i) n = Some p \<and>
        (\<exists>j. 1 \<le> j \<and> k + j \<le> nat max_wait \<and>
           bm_stats mgr' i = (count_wait ^^ j) (bm_stats mgr i))
    | None \<Rightarrow> bm_stats mgr' i = count_drop ((count_wait ^^ (nat max_wait - k + 1)) (bm_stats mgr i))"
  using assms
proof (induction others max_wait i n k mgr rule: write_wait.induct)
  case (1 others max_wait i n k mgr)
  let ?m1 = "upd_stats i count_wait mgr"
  let ?m2 = "wait_space others (Suc k) i ?m1"
  have m2: "bm_stats ?m2 i = count_wait (bm_stats mgr i)"
    using 1(3) by (simp add: wait_space_def Let_def)
  show ?case
  proof (cases "max_wait < int (Suc k)")
    case True
    then have "nat max_wait - k = 0" by simp
    then show ?thesis
      using 1(2) True by (subst (asm) write_wait.simps) (auto simp: Let_def)
  next
    case more: False
    show ?thesis
    proof (cases "rb_write_ptr (bm_buffers ?m2 i) n")
      case (Some p)
      then have "ptr = Some p" "mgr' = ?m2"
        using 1(2) more by (auto simp: write_wait.simps [of others max_wait i n k mgr] Let_def)
      then show ?thesis using Some m2 more by (auto intro!: exI [of _ 1])
    next
      case None
      then have "write_wait others max_wait i n (Suc k) ?m2 = (ptr, mgr')"
        using 1(2) more by (simp add: write_wait.simps [of others max_wait i n k mgr] Let_def)
      note ih = 1(1) [OF refl refl more refl None this 1(3), unfolded m2]
      show ?thesis
      proof (cases ptr)
        case None
        have "nat max_wait - k + 1 = Suc (nat max_wait - Suc k + 1)" using more by linarith
        then show ?thesis using ih None by (simp add: funpow_swap1)
      next
        case (Some p)
        then obtain j where "1 \<le> j" "Suc k + j \<le> nat max_wait"
          "bm_stats mgr' i = (count_wait ^^ j) (count_wait (bm_stats mgr i))"
          "rb_write_ptr (bm_buffers mgr' i) n = Some p" using ih by auto
        then show ?thesis using Some by (auto intro!: exI [of _ "Suc j"] simp: funpow_swap1)
      qed
    qed
  qed
qed

lemma count_wait_funpow:
  "(count_wait ^^ j) s = s\<lparr>st_write_waits := st_write_waits s + of_nat j\<rparr>"
  by (induction j) (simp_all add: count_wait_def)

text \<open>A write to an initialised buffer is granted only if the ring has room for it when the
  call returns, and then it dropped nothing and waited at most as often as its policy allows;
  it is refused only if the ring had no room when the call began, and then exactly one drop
  is counted, and one wait more than the attempts of the policy (none when the policy never
  waits).\<close>

theorem write_begin_outcome:
  assumes "bufmgr_write_begin os others mgr i n pol_opt = (ptr, mgr')"
    and "i \<noteq> BUF_COUNT" "bm_initialized mgr i"
    and "\<And>k m. bm_stats (others k m) i = bm_stats m i"
  defines "attempts \<equiv> pol_max_wait_attempts
      (case pol_opt of Some p \<Rightarrow> p | None \<Rightarrow> bm_policies mgr i)"
    and "s \<equiv> bm_stats mgr i"
  shows "case ptr of
      Some p \<Rightarrow> rb_write_ptr (bm_buffers mgr' i) n = Some p \<and>
        (\<exists>j. j \<le> nat attempts \<and>
          bm_stats mgr' i = s\<lparr>st_write_waits := st_write_waits s + of_nat j\<rparr>)
    | None \<Rightarrow> rb_write_ptr (bm_buffers mgr i) n = None \<and>
        bm_stats mgr' i = s\<lparr>st_write_drops := st_write_drops s + 1,
          st_write_waits := st_write_waits s + (if attempts = 0 then 0 else of_nat (nat attempts) + 1)\<rparr>"
proof (cases "rb_write_ptr (bm_buffers mgr i) n")
  case (Some p)
  then have "ptr = Some p" "mgr' = mgr"
    using assms(1-3) by (auto simp: bufmgr_write_begin_def)
  then show ?thesis using Some by (auto simp: s_def intro: exI [of _ 0])
next
  case none: None
  show ?thesis
  proof (cases "attempts = 0")
    case True
    then show ?thesis
      using assms(1-3) none
      by (auto simp: bufmgr_write_begin_def s_def attempts_def count_drop_def)
  next
    case False
    then have "write_wait others attempts i n 0 mgr = (ptr, mgr')"
      using assms(1-3) none by (simp add: bufmgr_write_begin_def attempts_def)
    note w = write_wait_stats [OF this assms(4), unfolded count_wait_funpow]
    show ?thesis
      using w none False by (cases ptr) (auto simp: s_def count_drop_def add.commute)
  qed
qed

text \<open>A manager whose display buffer holds four bytes and is full.\<close>

definition full_manager :: buffer_manager where
  "full_manager = zero_manager\<lparr>
     bm_buffers := (\<lambda>_. \<lparr>rb_buffer = [1, 2, 3, 4], rb_size = 4, rb_head = 0, rb_tail = 4\<rparr>),
     bm_initialized := (\<lambda>_. True), bm_policies := s_default_policies\<rparr>"

theorem write_begin_outcome_witness:
  "st_write_waits (bm_stats (snd (bufmgr_write_begin undefined alone full_manager
     BUF_CAPTURE_RF 1 (Some (policy 2 5)))) BUF_CAPTURE_RF) = 3"
proof -
  obtain ptr mgr' where run: "bufmgr_write_begin undefined alone full_manager
      BUF_CAPTURE_RF 1 (Some (policy 2 5)) = (ptr, mgr')" by fastforce
  have "fst (bufmgr_write_begin undefined alone full_manager BUF_CAPTURE_RF 1 (Some (policy 2 5)))
      = None"
    by (simp add: bufmgr_write_begin_def full_manager_def zero_manager_def write_wait.simps
        alone_def wait_space_def rb_write_ptr_def rb_no_room_def policy_def Let_def)
  then show ?thesis
    using write_begin_outcome [OF run] run
    by (simp add: full_manager_def zero_manager_def zero_stats_def policy_def alone_def)
qed

lemma read_wait_returns:
  assumes "0 < t" "0 \<le> elapsed" "elapsed < t"
  shows "\<exists>ptr mgr'. read_wait others t i n k elapsed mgr = Some (ptr, mgr') \<and>
    (ptr = None \<or> ptr = rb_read_ptr (bm_buffers mgr' i) n) \<and>
    (t \<le> elapsed + wait_chunk t \<longrightarrow> ptr = None)"
  using assms
proof (induction "nat (t - elapsed)" arbitrary: k elapsed mgr rule: less_induct)
  case less
  let ?m1 = "wait_data others (Suc k) i (upd_stats i count_read_wait mgr)"
  have c: "0 < wait_chunk t" by (simp add: wait_chunk_def)
  show ?case
  proof (cases "t \<le> elapsed + wait_chunk t \<or> rb_read_ptr (bm_buffers ?m1 i) n \<noteq> None")
    case True
    then show ?thesis
      using less.prems by (subst read_wait.simps) (auto simp: Let_def)
  next
    case False
    then have "read_wait others t i n k elapsed mgr =
        read_wait others t i n (Suc k) (elapsed + wait_chunk t) ?m1"
      by (subst read_wait.simps) (simp add: Let_def)
    moreover have "nat (t - (elapsed + wait_chunk t)) < nat (t - elapsed)" using c False less.prems by simp
    ultimately show ?thesis
      using less.hyps [of "elapsed + wait_chunk t" "Suc k" ?m1] False less.prems c by auto
  qed
qed

text \<open>C18: A read with a timeout that is not negative always returns, and returns a place only if
  the ring shows the bytes asked for; but with a timeout of at most 20 ms it returns what it
  found when it was called: the data that arrives while it waits is not returned, and the
  call counts as timed out, whatever the other threads do.\<close>

theorem read_begin_returns:
  assumes "0 \<le> t" "i \<noteq> BUF_COUNT" "bm_initialized mgr i"
  shows "\<exists>ptr mgr'. bufmgr_read_begin others mgr i n t = Some (ptr, mgr') \<and>
    (ptr = None \<or> ptr = rb_read_ptr (bm_buffers mgr' i) n) \<and>
    (t \<le> 20 \<longrightarrow> ptr = rb_read_ptr (bm_buffers mgr i) n)"
proof (cases "rb_read_ptr (bm_buffers mgr i) n = None \<and> t \<noteq> 0")
  case True
  have "t \<le> 20 \<Longrightarrow> t \<le> 0 + wait_chunk t" by (simp add: wait_chunk_def)
  then show ?thesis
    using True assms read_wait_returns [of t 0 others i n 0 mgr]
    by (auto simp: bufmgr_read_begin_def)
qed (use assms in \<open>auto simp: bufmgr_read_begin_def split: option.split\<close>)

theorem read_begin_returns_witness:
  "\<exists>mgr'. bufmgr_read_begin (\<lambda>k mgr. snd (bufmgr_write undefined alone mgr BUF_DISPLAY [7]))
     (bufmgr_reset full_manager BUF_DISPLAY) BUF_DISPLAY 1 20 = Some (None, mgr')"
  using read_begin_returns [of 20 BUF_DISPLAY "bufmgr_reset full_manager BUF_DISPLAY"
      "\<lambda>k mgr. snd (bufmgr_write undefined alone mgr BUF_DISPLAY [7])" 1]
  by (auto simp: bufmgr_reset_def full_manager_def rb_read_ptr_def)

end
