(* ===== verification/Spill_File.thy ===== *)
theory Spill_File
  imports Prelude
begin

text \<open>
  The spill file of misrc\_gui/output/gui\_record.c, which takes the recorded bytes when the
  ring of a channel is full.  A channel keeps its temporary file, the offset the next block
  is written at and the offset the next block is read from.  The file is its bytes: a block
  that fwrite accepted can be read back, and a write behind the end leaves zeros between.
  What the disk answers in a call is an argument of it; no file is longer than the largest
  offset.  Log messages are left out.
\<close>

section \<open>State\<close>

record gui_record_spill_channel =
  sp_fp :: bool
  sp_file :: bytes
  sp_write_offset :: u64
  sp_read_offset :: u64
  sp_last_backlog_log_mark :: u64
  sp_forced_mode :: bool
  sp_opened :: bool

type_synonym spills = "int \<Rightarrow> gui_record_spill_channel"

record disk_answers =
  da_local_save :: bool
  da_open_ok :: bool
  da_seek_ok :: bool
  da_written :: nat
  da_read :: nat
  da_truncate_ok :: bool

definition closed_channel :: gui_record_spill_channel where
  "closed_channel = \<lparr>sp_fp = False, sp_file = [], sp_write_offset = 0, sp_read_offset = 0,
     sp_last_backlog_log_mark = 0, sp_forced_mode = False, sp_opened = False\<rparr>"

section \<open>Operations\<close>

definition gui_record_spill_valid_channel :: "int \<Rightarrow> bool" where
  "gui_record_spill_valid_channel c = (0 \<le> c \<and> c < 2)"

definition gui_record_spill_open_channel ::
  "int \<Rightarrow> disk_answers \<Rightarrow> spills \<Rightarrow> bool \<times> spills" where
  "gui_record_spill_open_channel c e sp =
     (if da_local_save e then (False, sp)
      else if \<not> gui_record_spill_valid_channel c then (False, sp)
      else if sp_opened (sp c) then (True, sp)
      else if \<not> da_open_ok e then (False, sp)
      else (True, sp(c := (sp c)\<lparr>sp_fp := True, sp_file := [], sp_write_offset := 0,
                sp_read_offset := 0, sp_last_backlog_log_mark := 0, sp_opened := True\<rparr>)))"

definition gui_record_spill_close_channel :: "int \<Rightarrow> spills \<Rightarrow> spills" where
  "gui_record_spill_close_channel c sp =
     (if \<not> gui_record_spill_valid_channel c then sp else sp(c := closed_channel))"

definition gui_record_spill_reset_all :: "spills \<Rightarrow> spills" where
  "gui_record_spill_reset_all sp =
     fold (\<lambda>i sp. gui_record_spill_close_channel (int i) sp) [0..<2] sp"

definition gui_record_spill_backlog_bytes_locked :: "int \<Rightarrow> spills \<Rightarrow> u64" where
  "gui_record_spill_backlog_bytes_locked c sp =
     (let w = sp_write_offset (sp c); r = sp_read_offset (sp c) in
      if r \<le> w then w - r else 0)"

definition gui_record_spill_backlog_total_bytes :: "spills \<Rightarrow> u64" where
  "gui_record_spill_backlog_total_bytes sp =
     fold (\<lambda>i t. t + gui_record_spill_backlog_bytes_locked (int i) sp) [0..<2] 0"

definition gui_record_spill_backlog_bytes :: "int \<Rightarrow> spills \<Rightarrow> u64" where
  "gui_record_spill_backlog_bytes c sp =
     (if \<not> gui_record_spill_valid_channel c then 0
      else gui_record_spill_backlog_bytes_locked c sp)"

text \<open>The part of the recycling under the lock.\<close>

definition recycle_locked :: "bool \<Rightarrow> gui_record_spill_channel \<Rightarrow> gui_record_spill_channel" where
  "recycle_locked truncate_ok s =
     (if sp_write_offset s = sp_read_offset s \<and> sp_fp s
      then s\<lparr>sp_file := (if truncate_ok then [] else sp_file s), sp_write_offset := 0,
             sp_read_offset := 0, sp_last_backlog_log_mark := 0, sp_forced_mode := False\<rparr>
      else s)"

definition gui_record_spill_recycle_if_drained :: "int \<Rightarrow> disk_answers \<Rightarrow> spills \<Rightarrow> spills" where
  "gui_record_spill_recycle_if_drained c e sp =
     (if \<not> gui_record_spill_valid_channel c then sp
      else if \<not> sp_opened (sp c) \<or> \<not> sp_fp (sp c) then sp
      else if sp_write_offset (sp c) \<noteq> sp_read_offset (sp c) then sp
      else sp(c := recycle_locked (da_truncate_ok e) (sp c)))"

text \<open>The locked accesses to the file: what is read, and the channel after a write with
  whether it was complete.\<close>

definition read_locked ::
  "disk_answers \<Rightarrow> u64 \<Rightarrow> nat \<Rightarrow> gui_record_spill_channel \<Rightarrow> bytes option" where
  "read_locked e off n s =
     (let avail = drop (unat off) (sp_file s);
          nread = min (da_read e) (min n (length avail)) in
      if da_seek_ok e \<and> unat off \<le> MAX_OFFSET \<and> nread = n then Some (take n avail) else None)"

definition write_locked ::
  "disk_answers \<Rightarrow> u64 \<Rightarrow> bytes \<Rightarrow> gui_record_spill_channel \<Rightarrow> bool \<times> gui_record_spill_channel" where
  "write_locked e off data s =
     (if da_seek_ok e \<and> unat off \<le> MAX_OFFSET
      then let nwritten = min (da_written e) (min (length data) (MAX_OFFSET - unat off)) in
        (nwritten = length data,
         s\<lparr>sp_file := file_store (sp_file s) (unat off) (take nwritten data)\<rparr>)
      else (False, s))"

definition gui_record_spill_read_block ::
  "int \<Rightarrow> disk_answers \<Rightarrow> spills \<Rightarrow> nat \<Rightarrow> bytes option \<times> spills" where
  "gui_record_spill_read_block c e sp n =
     (if \<not> gui_record_spill_valid_channel c \<or> n = 0 then (None, sp)
      else if \<not> sp_opened (sp c) \<or> \<not> sp_fp (sp c) then (None, sp)
      else let w = sp_write_offset (sp c); r = sp_read_offset (sp c) in
      if w < r \<or> unat (w - r) < n then (None, sp)
      else case read_locked e r n (sp c) of
        None \<Rightarrow> (None, sp)
      | Some data \<Rightarrow>
          (Some data, gui_record_spill_recycle_if_drained c e
             (sp(c := (sp c)\<lparr>sp_read_offset := r + of_nat n\<rparr>))))"

definition gui_record_spill_is_forced :: "int \<Rightarrow> spills \<Rightarrow> bool" where
  "gui_record_spill_is_forced c sp =
     (if \<not> gui_record_spill_valid_channel c then False else sp_forced_mode (sp c))"

definition gui_record_spill_clear_forced :: "int \<Rightarrow> spills \<Rightarrow> spills" where
  "gui_record_spill_clear_forced c sp =
     (if \<not> gui_record_spill_valid_channel c then sp
      else sp(c := (sp c)\<lparr>sp_forced_mode := False\<rparr>))"

definition GUI_RECORD_SPILL_LOG_STEP_BYTES :: u64 where
  "GUI_RECORD_SPILL_LOG_STEP_BYTES = 256 * 1024 * 1024"

text \<open>The end of an enqueue: the new offset, and the mark of the last backlog message.\<close>

definition commit_write :: "int \<Rightarrow> u64 \<Rightarrow> nat \<Rightarrow> spills \<Rightarrow> spills" where
  "commit_write c write_off n sp =
     (let sp1 = sp(c := (sp c)\<lparr>sp_write_offset := write_off + of_nat n\<rparr>);
          mark = gui_record_spill_backlog_bytes_locked c sp1 div GUI_RECORD_SPILL_LOG_STEP_BYTES in
      if sp_last_backlog_log_mark (sp1 c) < mark
      then sp1(c := (sp1 c)\<lparr>sp_last_backlog_log_mark := mark\<rparr>) else sp1)"

definition gui_record_spill_enqueue ::
  "int \<Rightarrow> disk_answers \<Rightarrow> spills \<Rightarrow> bytes \<Rightarrow> bool \<times> spills" where
  "gui_record_spill_enqueue c e sp data =
     (if \<not> gui_record_spill_valid_channel c \<or> data = [] then (False, sp)
      else case gui_record_spill_open_channel c e sp of
        (False, sp1) \<Rightarrow> (False, sp1)
      | (True, sp1) \<Rightarrow>
          let s = (sp1 c)\<lparr>sp_forced_mode := True\<rparr>;
              write_off = sp_write_offset s in
          case write_locked e write_off data s of
            (False, s') \<Rightarrow> (False, sp1(c := s'))
          | (True, s') \<Rightarrow> (True, commit_write c write_off (length data) (sp1(c := s'))))"

section \<open>A channel is a store of bytes in order\<close>

definition spill_contents :: "int \<Rightarrow> spills \<Rightarrow> bytes" where
  "spill_contents c sp =
     (let s = sp c in
      take (unat (sp_write_offset s) - unat (sp_read_offset s))
        (drop (unat (sp_read_offset s)) (sp_file s)))"

definition spill_inv :: "int \<Rightarrow> spills \<Rightarrow> bool" where
  "spill_inv c sp =
     (let s = sp c in
      gui_record_spill_valid_channel c \<and>
      sp_read_offset s \<le> sp_write_offset s \<and>
      unat (sp_write_offset s) \<le> length (sp_file s) \<and> unat (sp_write_offset s) \<le> MAX_OFFSET \<and>
      (sp_opened s \<longleftrightarrow> sp_fp s) \<and> (\<not> sp_opened s \<longrightarrow> sp_write_offset s = 0))"

lemma take_drop_prefix: "take (w - r) (drop r f) = drop r (take w f)"
  by (simp add: drop_take)

lemma spill_backlog:
  assumes "spill_inv c sp"
  shows "unat (gui_record_spill_backlog_bytes c sp) = length (spill_contents c sp)"
  using assms
  by (auto simp: spill_inv_def gui_record_spill_backlog_bytes_def
      gui_record_spill_backlog_bytes_locked_def spill_contents_def Let_def word_nat word_le_nat_alt)

lemma open_channel_inv:
  assumes "spill_inv c sp" "gui_record_spill_open_channel c e sp = (ok, sp')"
  shows "spill_inv c sp' \<and> spill_contents c sp' = spill_contents c sp \<and> (ok \<longrightarrow> sp_opened (sp' c))"
  using assms
  by (auto simp: gui_record_spill_open_channel_def spill_inv_def spill_contents_def Let_def
      split: if_splits)

lemma write_locked_inv:
  assumes "write_locked e (sp_write_offset s) data s = (ok, s')"
    and "unat (sp_write_offset s) \<le> length (sp_file s)"
  shows "\<exists>f. s' = s\<lparr>sp_file := f\<rparr> \<and>
      take (unat (sp_write_offset s)) f = take (unat (sp_write_offset s)) (sp_file s) \<and>
      unat (sp_write_offset s) \<le> length f \<and>
      (ok \<longrightarrow> unat (sp_write_offset s) + length data \<le> MAX_OFFSET \<and>
        unat (sp_write_offset s) + length data \<le> length f \<and>
        take (unat (sp_write_offset s) + length data) f =
          take (unat (sp_write_offset s)) (sp_file s) @ data)"
proof (cases "da_seek_ok e \<and> unat (sp_write_offset s) \<le> MAX_OFFSET")
  case True
  let ?w = "unat (sp_write_offset s)"
  let ?k = "min (da_written e) (min (length data) (MAX_OFFSET - ?w))"
  let ?f = "file_store (sp_file s) ?w (take ?k data)"
  have "s' = s\<lparr>sp_file := ?f\<rparr>" "ok \<longleftrightarrow> ?k = length data"
    using assms(1) True by (auto simp: write_locked_def Let_def)
  then show ?thesis
    using True file_store_prefix [OF assms(2)] file_store_at_end [OF assms(2), of "take ?k data"]
    by (intro exI [of _ ?f]) auto
next
  case False
  then show ?thesis using assms by (auto simp: write_locked_def intro!: exI [of _ "sp_file s"])
qed

lemma spill_enqueue:
  assumes inv: "spill_inv c sp" and run: "gui_record_spill_enqueue c e sp xs = (ok, sp')"
  shows "spill_inv c sp' \<and> spill_contents c sp' = spill_contents c sp @ (if ok then xs else [])"
proof (cases "xs = []")
  case True
  then show ?thesis using assms by (auto simp: gui_record_spill_enqueue_def)
next
  case False
  have valid: "gui_record_spill_valid_channel c" using inv by (simp add: spill_inv_def Let_def)
  obtain opened sp1 where o: "gui_record_spill_open_channel c e sp = (opened, sp1)" by fastforce
  note o1 = open_channel_inv [OF inv o]
  show ?thesis
  proof (cases opened)
    case no: False
    then show ?thesis using run False valid o o1 by (auto simp: gui_record_spill_enqueue_def)
  next
    case True
    let ?s = "(sp1 c)\<lparr>sp_forced_mode := True\<rparr>"
    obtain wok s' where w: "write_locked e (sp_write_offset ?s) xs ?s = (wok, s')" by fastforce
    have i1: "spill_inv c sp1" "sp_opened (sp1 c)" using o1 True by auto
    then obtain f where f: "s' = ?s\<lparr>sp_file := f\<rparr>"
      "take (unat (sp_write_offset (sp1 c))) f = take (unat (sp_write_offset (sp1 c))) (sp_file (sp1 c))"
      "unat (sp_write_offset (sp1 c)) \<le> length f"
      "wok \<longrightarrow> unat (sp_write_offset (sp1 c)) + length xs \<le> MAX_OFFSET \<and>
        unat (sp_write_offset (sp1 c)) + length xs \<le> length f \<and>
        take (unat (sp_write_offset (sp1 c)) + length xs) f =
          take (unat (sp_write_offset (sp1 c))) (sp_file (sp1 c)) @ xs"
      using write_locked_inv [OF w] by (auto simp: spill_inv_def Let_def)
    show ?thesis
    proof (cases wok)
      case bad: False
      then have "ok = False" "sp' = sp1(c := s')"
        using run False valid o True w by (auto simp: gui_record_spill_enqueue_def Let_def)
      then show ?thesis
        using i1 o1 f by (auto simp: spill_inv_def spill_contents_def Let_def take_drop_prefix)
    next
      case good: True
      have nw: "unat (sp_write_offset (sp1 c) + of_nat (length xs)) =
          unat (sp_write_offset (sp1 c)) + length xs"
        by (subst unat_sum_lt) (use f good in \<open>auto simp: unat_of_nat_lt\<close>)
      have "ok" "sp' = commit_write c (sp_write_offset (sp1 c)) (length xs) (sp1(c := s'))"
        using run False valid o True w good by (auto simp: gui_record_spill_enqueue_def Let_def)
      moreover have "unat (sp_read_offset (sp1 c)) \<le> unat (sp_write_offset (sp1 c))"
        using i1 by (simp add: spill_inv_def Let_def word_le_nat_alt)
      ultimately show ?thesis
        using i1 o1 f nw good
        by (auto simp: commit_write_def spill_inv_def spill_contents_def Let_def take_drop_prefix
            word_le_nat_alt)
    qed
  qed
qed

lemma recycle_inv:
  assumes "spill_inv c sp"
  shows "spill_inv c (gui_record_spill_recycle_if_drained c e sp) \<and>
    spill_contents c (gui_record_spill_recycle_if_drained c e sp) = spill_contents c sp"
  using assms
  by (auto simp: gui_record_spill_recycle_if_drained_def recycle_locked_def spill_inv_def
      spill_contents_def Let_def)

lemma spill_read:
  assumes inv: "spill_inv c sp" and run: "gui_record_spill_read_block c e sp n = (res, sp')"
  shows "spill_inv c sp' \<and> (case res of
      Some xs \<Rightarrow> xs = take n (spill_contents c sp) \<and> length xs = n \<and>
        spill_contents c sp' = drop n (spill_contents c sp)
    | None \<Rightarrow> spill_contents c sp' = spill_contents c sp)"
proof (cases res)
  case None
  then show ?thesis
    using assms by (auto simp: gui_record_spill_read_block_def Let_def split: if_splits option.splits)
next
  case (Some xs)
  let ?r = "sp_read_offset (sp c)" and ?w = "sp_write_offset (sp c)"
  let ?sp1 = "sp(c := (sp c)\<lparr>sp_read_offset := ?r + of_nat n\<rparr>)"
  have rw: "unat ?r \<le> unat ?w" "unat ?w \<le> length (sp_file (sp c))" "unat ?w \<le> MAX_OFFSET"
    using inv by (auto simp: spill_inv_def Let_def word_le_nat_alt)
  have r: "\<not> unat (?w - ?r) < n" "read_locked e ?r n (sp c) = Some xs"
    "sp' = gui_record_spill_recycle_if_drained c e ?sp1"
    using run Some by (auto simp: gui_record_spill_read_block_def Let_def split: if_splits option.splits)
  have n: "n \<le> unat ?w - unat ?r" using r(1) rw by (simp add: word_nat word_le_nat_alt)
  have nr: "unat (?r + of_nat n) = unat ?r + n"
    by (subst unat_sum_lt) (use n rw in \<open>auto simp: unat_of_nat_lt\<close>)
  have xs: "xs = take n (drop (unat ?r) (sp_file (sp c)))"
    using r(2) by (auto simp: read_locked_def Let_def split: if_splits)
  have "spill_inv c ?sp1" using inv nr n rw by (auto simp: spill_inv_def Let_def word_le_nat_alt)
  then show ?thesis
    using recycle_inv [of c ?sp1 e] r(3) Some xs nr n rw
    by (auto simp: spill_contents_def Let_def drop_take add.commute)
qed

interpretation spill: spill_store "spill_contents c" "spill_inv c"
  "gui_record_spill_backlog_bytes c" "gui_record_spill_enqueue c" "gui_record_spill_read_block c"
proof
  show "unat (gui_record_spill_backlog_bytes c s) = length (spill_contents c s)"
    if "spill_inv c s" for s using that by (rule spill_backlog)
  show "spill_inv c s' \<and> spill_contents c s' = spill_contents c s @ (if ok then xs else [])"
    if "spill_inv c s" "gui_record_spill_enqueue c e s xs = (ok, s')" for s e xs ok s'
    using that by (rule spill_enqueue)
  show "spill_inv c s' \<and> xs = take n (spill_contents c s) \<and>
      spill_contents c s' = drop n (spill_contents c s)"
    if "spill_inv c s" "gui_record_spill_read_block c e s n = (Some xs, s')" for s e n xs s'
    using spill_read [OF that] by simp
  show "spill_inv c s' \<and> spill_contents c s' = spill_contents c s"
    if "spill_inv c s" "gui_record_spill_read_block c e s n = (None, s')" for s e n s'
    using spill_read [OF that] by simp
qed

section \<open>The producer and the writer at once\<close>

text \<open>The extraction thread enqueues while the writer thread reads.  The lock covers only the
  accesses to the file: the offsets are loaded before it is taken and stored after it is
  released.  The steps of the two threads are these, on a channel that is open; a thread
  keeps what it loaded in a variable of its own.\<close>

record spill_threads =
  th_channel :: gui_record_spill_channel
  th_write_off :: u64
  th_write_ok :: bool
  th_read_off :: u64
  th_block :: "bytes option"

datatype spill_act =
    Load_Write_Offset
  | Locked_Write disk_answers bytes
  | Store_Write_Offset nat
  | Load_Read_Offset nat
  | Locked_Read disk_answers nat
  | Store_Read_Offset nat
  | Locked_Recycle bool

fun spill_step :: "spill_act \<Rightarrow> spill_threads \<Rightarrow> spill_threads" where
  "spill_step Load_Write_Offset t =
     t\<lparr>th_channel := (th_channel t)\<lparr>sp_forced_mode := True\<rparr>,
       th_write_off := sp_write_offset (th_channel t)\<rparr>"
| "spill_step (Locked_Write e data) t =
     (case write_locked e (th_write_off t) data (th_channel t) of
        (ok, s) \<Rightarrow> t\<lparr>th_channel := s, th_write_ok := ok\<rparr>)"
| "spill_step (Store_Write_Offset n) t =
     (if th_write_ok t
      then t\<lparr>th_channel := (th_channel t)\<lparr>sp_write_offset := th_write_off t + of_nat n\<rparr>\<rparr>
      else t)"
| "spill_step (Load_Read_Offset n) t = t\<lparr>th_read_off := sp_read_offset (th_channel t)\<rparr>"
| "spill_step (Locked_Read e n) t =
     (let w = sp_write_offset (th_channel t); r = th_read_off t in
      t\<lparr>th_block := (if w < r \<or> unat (w - r) < n then None
                     else read_locked e r n (th_channel t))\<rparr>)"
| "spill_step (Store_Read_Offset n) t =
     (if th_block t = None then t
      else t\<lparr>th_channel := (th_channel t)\<lparr>sp_read_offset := th_read_off t + of_nat n\<rparr>\<rparr>)"
| "spill_step (Locked_Recycle truncate_ok) t =
     (if sp_opened (th_channel t) \<and> sp_fp (th_channel t)
      then t\<lparr>th_channel := recycle_locked truncate_ok (th_channel t)\<rparr> else t)"

definition disk_fine :: disk_answers where
  "disk_fine = \<lparr>da_local_save = False, da_open_ok = True, da_seek_ok = True,
     da_written = 2 ^ 63, da_read = 2 ^ 63, da_truncate_ok = True\<rparr>"

text \<open>The writer takes the last block and recycles the file between the moment the producer has
  loaded the write offset and the moment it takes the lock.\<close>

definition recycled_under_write :: "nat \<Rightarrow> bytes \<Rightarrow> spill_act list" where
  "recycled_under_write n data =
     [Load_Write_Offset, Load_Read_Offset n, Locked_Read disk_fine n, Store_Read_Offset n,
      Locked_Recycle True, Locked_Write disk_fine data, Store_Write_Offset (length data)]"

section \<open>Properties\<close>

text \<open>C20: For a channel that starts closed, any sequence of enqueued and read blocks and any
  answers of the disk: the bytes of the accepted blocks are the bytes of the blocks read, in
  order, followed by the bytes still in the store; and the reported backlog is the number of
  the latter.\<close>

theorem spill_fifo:
  assumes "gui_record_spill_valid_channel c"
    and "spill_run (gui_record_spill_enqueue c) (gui_record_spill_read_block c) cs
           (\<lambda>_. closed_channel) = (w, r, sp)"
  shows "w = r @ spill_contents c sp \<and>
    unat (gui_record_spill_backlog_bytes c sp) = length w - length r"
proof -
  have "spill_inv c (\<lambda>_. closed_channel)" "spill_contents c (\<lambda>_. closed_channel) = []"
    using assms(1) by (simp_all add: spill_inv_def spill_contents_def closed_channel_def)
  then have "spill_inv c sp \<and> w = r @ spill_contents c sp"
    using spill.spill_run_fifo [OF _ assms(2)] by simp
  then show ?thesis using spill.backlog [of c sp] by simp
qed

theorem spill_fifo_witness:
  "spill_contents 1 (snd (snd (spill_run (gui_record_spill_enqueue 1) (gui_record_spill_read_block 1)
     [Spill_Put disk_fine [1, 2, 3], Spill_Get disk_fine 2, Spill_Put disk_fine [4]]
     (\<lambda>_. closed_channel)))) = [3, 4]"
proof -
  let ?run = "spill_run (gui_record_spill_enqueue 1) (gui_record_spill_read_block 1)
     [Spill_Put disk_fine [1, 2, 3], Spill_Get disk_fine 2, Spill_Put disk_fine [4]]
     (\<lambda>_. closed_channel)"
  obtain w r sp where run: "?run = (w, r, sp)" by (metis prod_cases3)
  have "(fst ?run, fst (snd ?run)) = ([1, 2, 3, 4], [1, 2])" 
    by (simp add: gui_record_spill_enqueue_def gui_record_spill_read_block_def
        gui_record_spill_open_channel_def gui_record_spill_valid_channel_def write_locked_def
        read_locked_def commit_write_def gui_record_spill_recycle_if_drained_def
        gui_record_spill_backlog_bytes_locked_def GUI_RECORD_SPILL_LOG_STEP_BYTES_def
        closed_channel_def disk_fine_def file_store_def Let_def)
  then have "w = [1, 2, 3, 4]" "r = [1, 2]" unfolding run by simp_all
  then have "spill_contents 1 sp = [3, 4]"
    using spill_fifo [OF _ run] by (simp add: gui_record_spill_valid_channel_def)
  then show ?thesis unfolding run by simp
qed

definition threads_on :: "gui_record_spill_channel \<Rightarrow> spill_threads" where
  "threads_on s = \<lparr>th_channel = s, th_write_off = 0, th_write_ok = False, th_read_off = 0,
     th_block = None\<rparr>"

text \<open>C21: If the writer takes the last block of an open channel and recycles its file after the
  producer has loaded the write offset for its next block, the store that block ends up in
  holds, in front of it, as many zero bytes as the write offset was: bytes nobody recorded.\<close>

theorem recycle_race:
  assumes "spill_inv c (\<lambda>_. s)" "sp_opened s"
    and "n = length (spill_contents c (\<lambda>_. s))" "n \<noteq> 0" "data \<noteq> []"
    and "unat (sp_write_offset s) + length data \<le> MAX_OFFSET"
  defines "t \<equiv> fold spill_step (recycled_under_write n data) (threads_on s)"
  shows "th_block t = Some (spill_contents c (\<lambda>_. s)) \<and> th_write_ok t \<and>
    spill_contents c (\<lambda>_. th_channel t) = replicate (unat (sp_write_offset s)) 0 @ data"
proof -
  let ?w = "sp_write_offset s" and ?r = "sp_read_offset s"
  have rw: "unat ?r \<le> unat ?w" "unat ?w \<le> length (sp_file s)" "unat ?w \<le> MAX_OFFSET" "sp_fp s"
    using assms(1,2) by (auto simp: spill_inv_def Let_def word_le_nat_alt)
  have n: "n = unat ?w - unat ?r" using assms(3) rw by (simp add: spill_contents_def Let_def)
  have wr: "unat (?w - ?r) = n" using rw n by (simp add: word_nat word_le_nat_alt)
  have nw: "?r + of_nat n = ?w" by (simp flip: wr)
  have block: "read_locked disk_fine ?r n (s\<lparr>sp_forced_mode := True\<rparr>) = Some (take n (drop (unat ?r) (sp_file s)))"
    using rw n by (auto simp: read_locked_def Let_def disk_fine_def)
  have len: "unat (?w + of_nat (length data)) = unat ?w + length data"
    by (subst unat_sum_lt) (use assms(6) in \<open>auto simp: unat_of_nat_lt\<close>)
  have order: "\<not> ?w < ?r" using rw by (simp add: word_less_nat_alt)
  let ?s1 = "s\<lparr>sp_forced_mode := True, sp_read_offset := ?w\<rparr>"
  let ?s2 = "recycle_locked True ?s1"
  have s2: "sp_file ?s2 = []" "sp_read_offset ?s2 = 0"
    using rw by (simp_all add: recycle_locked_def)
  have stored: "write_locked disk_fine ?w data ?s2 =
      (True, ?s2\<lparr>sp_file := replicate (unat ?w) 0 @ data\<rparr>)"
    using assms(5,6) rw(3) s2(1) by (auto simp: write_locked_def Let_def disk_fine_def file_store_def)
  have "t = \<lparr>th_channel = ?s2\<lparr>sp_file := replicate (unat ?w) 0 @ data,
        sp_write_offset := ?w + of_nat (length data)\<rparr>,
      th_write_off = ?w, th_write_ok = True, th_read_off = ?r,
      th_block = Some (take n (drop (unat ?r) (sp_file s)))\<rparr>"
    using assms(2) rw(4) wr nw block order stored
    by (simp add: t_def recycled_under_write_def threads_on_def Let_def)
  then show ?thesis
    using n len s2 by (simp add: spill_contents_def Let_def)
qed

definition drained_channel :: gui_record_spill_channel where
  "drained_channel = closed_channel\<lparr>sp_fp := True, sp_opened := True, sp_file := [1, 2, 3],
     sp_write_offset := 3, sp_read_offset := 1\<rparr>"

theorem recycle_race_witness:
  "spill_contents 0 (\<lambda>_. th_channel
     (fold spill_step (recycled_under_write 2 [9]) (threads_on drained_channel)))
     = replicate 3 0 @ [9]"
proof -
  have "spill_inv 0 (\<lambda>_. drained_channel)" "sp_opened drained_channel"
    "2 = length (spill_contents 0 (\<lambda>_. drained_channel))"
    "unat (sp_write_offset drained_channel) + length [9 :: u8] \<le> MAX_OFFSET"
    by (simp_all add: drained_channel_def spill_inv_def gui_record_spill_valid_channel_def
        closed_channel_def spill_contents_def)
  from recycle_race [OF this(1,2,3) _ _ this(4)] show ?thesis
    by (simp add: drained_channel_def closed_channel_def)
qed

end
