(* ===== verification/Record_Direct.thy ===== *)
theory Record_Direct
  imports Buffer_Manager Spill_File
begin

text \<open>
  The direct recording path of misrc\_gui/output/gui\_record\_direct.c: the capture thread
  pushes the bytes of a card into the ring of its channel, or into the spill store when the
  ring is full or the store is not empty, and the writer thread drains ring and store into
  the output file, holding the block of a failed write until it can be written.  The spill
  store is known through its callbacks, whose contract is the locale spill\_store; it is
  interpreted on the spill file of Spill\_File.  The output file is the bytes written to it;
  how many bytes a call of fwrite takes and whether it reports an error are arguments.
\<close>

section \<open>State\<close>

record ('e, 's) gui_record_direct_callbacks =
  cb_spill_enqueue :: "('e \<Rightarrow> 's \<Rightarrow> bytes \<Rightarrow> bool \<times> 's) option"
  cb_spill_read :: "('e \<Rightarrow> 's \<Rightarrow> nat \<Rightarrow> bytes option \<times> 's) option"
  cb_spill_backlog :: "('s \<Rightarrow> u64) option"

text \<open>The context together with the local variables of the writer thread.  The held block is
  the first pending\_len bytes of the writer's block buffer.\<close>

record 's gui_record_direct_ctx =
  rd_bufmgr :: buffer_manager
  rd_buf_id :: buffer_id
  rd_spill :: 's
  rd_file :: bytes
  rd_recording_active :: bool
  rd_exit_flag :: bool
  rd_bytes_read_total :: u64
  rd_bytes_written_total :: u64
  rd_bytes_written_channel :: u64
  rd_write_error :: bool
  rd_tap_enabled :: bool
  rd_tap_inflight :: int
  rd_pending :: "bytes option"
  rd_last_retry_ms :: u64
  rd_write_err_count :: u64

datatype push_result = PUSH_IDLE | PUSH_RING | PUSH_SPILL | PUSH_DROPPED

definition GUI_RECORD_DIRECT_MAX_BLOCK_BYTES :: size_t where
  "GUI_RECORD_DIRECT_MAX_BLOCK_BYTES = 65536 * 32"

definition s_direct_write_policy :: backpressure_policy where
  "s_direct_write_policy = \<lparr>pol_max_wait_attempts = 2, pol_wait_timeout_ms = 1,
     pol_log_first_wait = False, pol_log_drops = False\<rparr>"

section \<open>Tap\<close>

definition gui_record_direct_tap_enable :: "'s gui_record_direct_ctx \<Rightarrow> 's gui_record_direct_ctx" where
  "gui_record_direct_tap_enable d = d\<lparr>rd_tap_inflight := 0, rd_tap_enabled := True\<rparr>"

definition gui_record_direct_tap_disable :: "'s gui_record_direct_ctx \<Rightarrow> 's gui_record_direct_ctx" where
  "gui_record_direct_tap_disable d = d\<lparr>rd_tap_enabled := False\<rparr>"

text \<open>One test of the loop that waits until no push is in flight.\<close>

definition gui_record_direct_tap_idle :: "'s gui_record_direct_ctx \<Rightarrow> bool" where
  "gui_record_direct_tap_idle d = (rd_tap_inflight d = 0)"

definition gui_record_direct_tap_iteration_enter ::
  "'s gui_record_direct_ctx \<Rightarrow> bool \<times> 's gui_record_direct_ctx" where
  "gui_record_direct_tap_iteration_enter d =
     (rd_tap_enabled d, d\<lparr>rd_tap_inflight := rd_tap_inflight d + 1\<rparr>)"

definition gui_record_direct_tap_iteration_leave ::
  "'s gui_record_direct_ctx \<Rightarrow> 's gui_record_direct_ctx" where
  "gui_record_direct_tap_iteration_leave d = d\<lparr>rd_tap_inflight := rd_tap_inflight d - 1\<rparr>"

section \<open>Producer\<close>

definition spill_backlog_of :: "('e, 's) gui_record_direct_callbacks \<Rightarrow> 's \<Rightarrow> u64" where
  "spill_backlog_of cb s = (case cb_spill_backlog cb of None \<Rightarrow> 0 | Some f \<Rightarrow> f s)"

definition spill_enqueue_of ::
  "('e, 's) gui_record_direct_callbacks \<Rightarrow> 'e \<Rightarrow> 's \<Rightarrow> bytes \<Rightarrow> bool \<times> 's" where
  "spill_enqueue_of cb e s data =
     (case cb_spill_enqueue cb of None \<Rightarrow> (False, s) | Some f \<Rightarrow> f e s data)"

text \<open>The drop the buffer manager counted is taken back when the spill store took the bytes.\<close>

definition undo_drop :: "buffer_id \<Rightarrow> buffer_manager \<Rightarrow> buffer_manager" where
  "undo_drop i mgr =
     (if (ucast (st_write_drops (bm_stats mgr i)) :: u32) > 0
      then upd_stats i (\<lambda>s. s\<lparr>st_write_drops := st_write_drops s - 1\<rparr>) mgr else mgr)"

definition gui_record_direct_push_inner ::
  "('e, 's) gui_record_direct_callbacks \<Rightarrow> bm_os \<Rightarrow> others \<Rightarrow> 'e \<Rightarrow> 's gui_record_direct_ctx \<Rightarrow> bytes \<Rightarrow>
   push_result \<times> 's gui_record_direct_ctx" where
  "gui_record_direct_push_inner cb os others e d0 data =
     (let len = of_nat (length data) :: size_t;
          d = d0\<lparr>rd_bytes_read_total := rd_bytes_read_total d0 + len\<rparr> in
      if 0 < spill_backlog_of cb (rd_spill d)
      then case spill_enqueue_of cb e (rd_spill d) data of
        (ok, s) \<Rightarrow> (if ok then PUSH_SPILL else PUSH_DROPPED, d\<lparr>rd_spill := s\<rparr>)
      else case bufmgr_write_begin os others (rd_bufmgr d) (rd_buf_id d) len
                  (Some s_direct_write_policy) of
        (Some dst, m) \<Rightarrow>
          (PUSH_RING, d\<lparr>rd_bufmgr := fst (bufmgr_write_end
             (m\<lparr>bm_buffers := (bm_buffers m)
                  (rd_buf_id d := rb_fill (bm_buffers m (rd_buf_id d)) dst data)\<rparr>)
             (rd_buf_id d) len)\<rparr>)
      | (None, m) \<Rightarrow>
          (case spill_enqueue_of cb e (rd_spill d) data of
             (True, s) \<Rightarrow> (PUSH_SPILL, d\<lparr>rd_bufmgr := undo_drop (rd_buf_id d) m, rd_spill := s\<rparr>)
           | (False, s) \<Rightarrow> (PUSH_DROPPED, d\<lparr>rd_bufmgr := m, rd_spill := s\<rparr>)))"

definition gui_record_direct_push ::
  "('e, 's) gui_record_direct_callbacks \<Rightarrow> bm_os \<Rightarrow> others \<Rightarrow> 'e \<Rightarrow> 's gui_record_direct_ctx \<Rightarrow> bytes \<Rightarrow>
   push_result \<times> 's gui_record_direct_ctx" where
  "gui_record_direct_push cb os others e d data =
     (if data = [] then (PUSH_IDLE, d)
      else let d1 = d\<lparr>rd_tap_inflight := rd_tap_inflight d + 1\<rparr> in
      if \<not> rd_tap_enabled d1 then (PUSH_IDLE, d1\<lparr>rd_tap_inflight := rd_tap_inflight d1 - 1\<rparr>)
      else case gui_record_direct_push_inner cb os others e d1 data of
        (r, d2) \<Rightarrow> (r, d2\<lparr>rd_tap_inflight := rd_tap_inflight d2 - 1\<rparr>))"

definition gui_record_direct_push_latched ::
  "('e, 's) gui_record_direct_callbacks \<Rightarrow> bm_os \<Rightarrow> others \<Rightarrow> 'e \<Rightarrow> 's gui_record_direct_ctx \<Rightarrow> bool \<Rightarrow>
   bytes \<Rightarrow> push_result \<times> 's gui_record_direct_ctx" where
  "gui_record_direct_push_latched cb os others e d latched_on data =
     (if data = [] \<or> \<not> latched_on then (PUSH_IDLE, d)
      else gui_record_direct_push_inner cb os others e d data)"

section \<open>Writer\<close>

definition gui_record_direct_account_write ::
  "nat \<Rightarrow> 's gui_record_direct_ctx \<Rightarrow> 's gui_record_direct_ctx" where
  "gui_record_direct_account_write n d =
     (if n = 0 then d
      else d\<lparr>rd_bytes_written_total := rd_bytes_written_total d + of_nat n,
             rd_bytes_written_channel := rd_bytes_written_channel d + of_nat n\<rparr>)"

text \<open>What fwrite and ferror say of one write: the bytes taken, and the error indicator.\<close>

record write_answer =
  wa_taken :: nat
  wa_error :: bool

definition wrote_all :: "write_answer \<Rightarrow> bytes \<Rightarrow> bool" where
  "wrote_all a data = (min (wa_taken a) (length data) = length data \<and> \<not> wa_error a)"

definition file_write :: "write_answer \<Rightarrow> bytes \<Rightarrow> 's gui_record_direct_ctx \<Rightarrow> 's gui_record_direct_ctx" where
  "file_write a data d = d\<lparr>rd_file := rd_file d @ take (wa_taken a) data\<rparr>"

text \<open>The iteration that has a held block.  The result says whether the thread goes on.\<close>

definition writer_retry ::
  "write_answer \<Rightarrow> u64 \<Rightarrow> bytes \<Rightarrow> bool \<Rightarrow> 's gui_record_direct_ctx \<Rightarrow> bool \<times> 's gui_record_direct_ctx" where
  "writer_retry a now_ms block stopping d =
     (let due0 = (rd_last_retry_ms d = 0 \<or> now_ms < rd_last_retry_ms d \<or>
                  2000 \<le> now_ms - rd_last_retry_ms d);
          due = (if stopping \<and> \<not> due0 then True else due0);
          d1 = (if due
                then let d' = file_write a block (d\<lparr>rd_last_retry_ms := now_ms\<rparr>) in
                  if wrote_all a block
                  then gui_record_direct_account_write (length block)
                         (d'\<lparr>rd_pending := None, rd_write_error := False\<rparr>)
                  else d'\<lparr>rd_write_err_count := rd_write_err_count d' + 1\<rparr>
                else d) in
      (\<not> stopping, d1))"

text \<open>The block the drain takes next: from the ring, else from the spill store.\<close>

definition capped :: "u64 \<Rightarrow> size_t" where
  "capped n = (if n < GUI_RECORD_DIRECT_MAX_BLOCK_BYTES then n
               else GUI_RECORD_DIRECT_MAX_BLOCK_BYTES)"

definition ring_block :: "'s gui_record_direct_ctx \<Rightarrow> (size_t \<times> bytes) option" where
  "ring_block d =
     (let fill = bufmgr_fill_level (rd_bufmgr d) (rd_buf_id d) in
      if 0 < fill
      then case bufmgr_read_begin alone (rd_bufmgr d) (rd_buf_id d) (capped fill) 0 of
          Some (Some p, m) \<Rightarrow> Some (capped fill,
            mem_load (rb_buffer (bm_buffers m (rd_buf_id d))) (unat p) (unat (capped fill)))
        | _ \<Rightarrow> None
      else None)"

definition spill_block ::
  "('e, 's) gui_record_direct_callbacks \<Rightarrow> 'e \<Rightarrow> 's gui_record_direct_ctx \<Rightarrow>
   bytes option \<times> 's gui_record_direct_ctx" where
  "spill_block cb e d =
     (let backlog = spill_backlog_of cb (rd_spill d) in
      case cb_spill_read cb of
        Some rd \<Rightarrow>
          if 0 < backlog
          then case rd e (rd_spill d) (unat (capped backlog)) of (res, s) \<Rightarrow> (res, d\<lparr>rd_spill := s\<rparr>)
          else (None, d)
      | None \<Rightarrow> (None, d))"

text \<open>Writing the block, and holding it when the file did not take it.\<close>

definition writer_put ::
  "write_answer \<Rightarrow> bytes \<Rightarrow> size_t option \<Rightarrow> 's gui_record_direct_ctx \<Rightarrow> 's gui_record_direct_ctx" where
  "writer_put a data from_ring d =
     (let d1 = file_write a data d;
          d2 = (case from_ring of None \<Rightarrow> d1
                | Some n \<Rightarrow> d1\<lparr>rd_bufmgr := bufmgr_read_end (rd_bufmgr d1) (rd_buf_id d1) n\<rparr>) in
      if wrote_all a data then gui_record_direct_account_write (length data) d2
      else d2\<lparr>rd_pending := Some data, rd_write_error := True,
              rd_write_err_count := rd_write_err_count d2 + 1\<rparr>)"

definition writer_iteration ::
  "('e, 's) gui_record_direct_callbacks \<Rightarrow> 'e \<Rightarrow> write_answer \<Rightarrow> u64 \<Rightarrow> 's gui_record_direct_ctx \<Rightarrow>
   bool \<times> 's gui_record_direct_ctx" where
  "writer_iteration cb e a now_ms d =
     (let stopping = (\<not> rd_recording_active d \<or> rd_exit_flag d) in
      case rd_pending d of
        Some block \<Rightarrow> writer_retry a now_ms block stopping d
      | None \<Rightarrow>
          (case ring_block d of
             Some (n, data) \<Rightarrow> (True, writer_put a data (Some n) d)
           | None \<Rightarrow>
               (case spill_block cb e d of
                  (Some data, d1) \<Rightarrow> (True, writer_put a data None d1)
                | (None, d1) \<Rightarrow>
                    if stopping then (False, d1)
                    else (True, case bufmgr_wait_data (rd_bufmgr d1) (rd_buf_id d1) 10 of
                            Some (_, m) \<Rightarrow> d1\<lparr>rd_bufmgr := m\<rparr> | None \<Rightarrow> d1))))"

section \<open>Runs\<close>

datatype 'e record_event =
    RD_Push 'e bytes
  | RD_Push_Latched 'e bool bytes
  | RD_Writer 'e write_answer u64
  | RD_Tap_Enable
  | RD_Tap_Disable
  | RD_Enter
  | RD_Leave
  | RD_Stop

definition accepted :: "push_result \<Rightarrow> bytes \<Rightarrow> bytes" where
  "accepted r data = (if r = PUSH_RING \<or> r = PUSH_SPILL then data else [])"

definition rd_step ::
  "('e, 's) gui_record_direct_callbacks \<Rightarrow> bm_os \<Rightarrow> others \<Rightarrow> 'e record_event \<Rightarrow>
   's gui_record_direct_ctx \<Rightarrow> bytes \<times> 's gui_record_direct_ctx" where
  "rd_step cb os others ev d =
     (case ev of
        RD_Push e data \<Rightarrow>
          (case gui_record_direct_push cb os others e d data of (r, d') \<Rightarrow> (accepted r data, d'))
      | RD_Push_Latched e on data \<Rightarrow>
          (case gui_record_direct_push_latched cb os others e d on data of
             (r, d') \<Rightarrow> (accepted r data, d'))
      | RD_Writer e a now_ms \<Rightarrow> ([], snd (writer_iteration cb e a now_ms d))
      | RD_Tap_Enable \<Rightarrow> ([], gui_record_direct_tap_enable d)
      | RD_Tap_Disable \<Rightarrow> ([], gui_record_direct_tap_disable d)
      | RD_Enter \<Rightarrow> ([], snd (gui_record_direct_tap_iteration_enter d))
      | RD_Leave \<Rightarrow> ([], gui_record_direct_tap_iteration_leave d)
      | RD_Stop \<Rightarrow> ([], d\<lparr>rd_recording_active := False\<rparr>))"

fun rd_run ::
  "('e, 's) gui_record_direct_callbacks \<Rightarrow> bm_os \<Rightarrow> others \<Rightarrow> 'e record_event list \<Rightarrow>
   's gui_record_direct_ctx \<Rightarrow> bytes \<times> 's gui_record_direct_ctx" where
  "rd_run cb os others [] d = ([], d)"
| "rd_run cb os others (ev # evs) d =
     (case rd_step cb os others ev d of (got, d1) \<Rightarrow>
      case rd_run cb os others evs d1 of (rest, d2) \<Rightarrow> (got @ rest, d2))"

text \<open>An answer of the file that takes a whole block or nothing of it, and an event the client
  can cause: no block is longer than the address space.\<close>

definition all_or_nothing :: "write_answer \<Rightarrow> bool" where
  "all_or_nothing a =
     (wa_taken a = 0 \<or> (unat GUI_RECORD_DIRECT_MAX_BLOCK_BYTES \<le> wa_taken a \<and> \<not> wa_error a))"

fun event_ok :: "'e record_event \<Rightarrow> bool" where
  "event_ok (RD_Push e data) = (length data < 2 ^ 64)"
| "event_ok (RD_Push_Latched e on data) = (length data < 2 ^ 64)"
| "event_ok (RD_Writer e a now_ms) = all_or_nothing a"
| "event_ok _ = True"

section \<open>What the buffer manager does for the recorder\<close>

definition bm_held :: "buffer_manager \<Rightarrow> buffer_id \<Rightarrow> bytes" where
  "bm_held mgr i = (if bm_initialized mgr i then rb_contents (bm_buffers mgr i) else [])"

text \<open>Other threads that leave the buffer alone while a push waits for room in it.\<close>

definition keeps :: "others \<Rightarrow> buffer_id \<Rightarrow> bool" where
  "keeps others i = (\<forall>k m. bm_buffers (others k m) i = bm_buffers m i \<and>
     bm_initialized (others k m) i = bm_initialized m i \<and> (bm_ok m \<longrightarrow> bm_ok (others k m)))"

lemma wait_space_keeps:
  assumes "keeps others i"
  shows "bm_buffers (wait_space others k i m) i = bm_buffers m i"
    "bm_initialized (wait_space others k i m) i = bm_initialized m i"
  using assms by (simp_all add: wait_space_def keeps_def Let_def)

lemma write_wait_keeps:
  assumes "write_wait others w i n k m = (ptr, m')" "keeps others i"
  shows "bm_buffers m' i = bm_buffers m i \<and> bm_initialized m' i = bm_initialized m i"
  using assms
proof (induction others w i n k m rule: write_wait.induct)
  case (1 others w i n k m)
  note kp = wait_space_keeps [OF 1(3)]
  show ?case
    using 1(2) 1(1) [OF refl refl _ refl _ _ 1(3)] kp
    by (subst (asm) write_wait.simps) (auto simp: Let_def split: if_splits option.splits)
qed

lemma write_begin_held:
  assumes run: "bufmgr_write_begin os others m i n pol = (ptr, m')" and "bm_ok m" "i \<noteq> BUF_COUNT"
    and kp: "keeps others i"
  shows "bm_held m' i = bm_held m i \<and> (ptr \<noteq> None \<longrightarrow> bm_initialized m' i)"
proof -
  obtain r m1 where e: "(if bm_initialized m i then (0, m) else bufmgr_ensure_init os m i)
      = (r, m1)" by fastforce
  have h1: "bm_held m1 i = bm_held m i \<and> (r < 0 \<or> bm_initialized m1 i)"
  proof (cases "bm_initialized m i")
    case True
    then show ?thesis using e by auto
  next
    case False
    then have en: "bufmgr_ensure_init os m i = (r, m1)" using e by simp
    have ok: "bm_ok m1" using ensure_init_ok [OF assms(2), of os i] en by simp
    show ?thesis
      using ensure_init_new [OF en assms(3) False]
    proof (elim disjE exE conjE)
      fix sz rb used
      assume i: "init_ring os i (cfg_size (bm_configs m i)) = Some (sz, rb, used)" and
        m: "bm_buffers m1 = (bm_buffers m)(i := rb)" "bm_initialized m1 = (bm_initialized m)(i := True)"
      have "size_ok sz"
        using init_ring_size_ok [OF i] bm_ok_D [OF assms(2,3)] by (simp add: buf_ok_def)
      then have "rb_contents rb = []"
        using init_ring_some [OF i] rb_init_inv(2) [of "bo_rb os i sz" sz rb]
        by (simp add: size_ok_def unat_gt_0 word_gt_0)
      then show ?thesis using m False by (simp add: bm_held_def)
    qed (auto simp: bm_held_def)
  qed
  show ?thesis
    using run e h1 assms(3) write_wait_keeps [OF _ kp]
    by (auto simp: bufmgr_write_begin_def bm_held_def Let_def split: if_splits option.splits)
qed

lemma ring_push:
  assumes run: "bufmgr_write_begin os others m i (of_nat (length data)) pol = (Some p, m1)"
    and ok: "bm_ok m" and i: "i \<noteq> BUF_COUNT" and kp: "keeps others i" and len: "length data < 2 ^ 64"
  defines "m2 \<equiv> fst (bufmgr_write_end (m1\<lparr>bm_buffers := (bm_buffers m1)
      (i := rb_fill (bm_buffers m1 i) p data)\<rparr>) i (of_nat (length data)))"
  shows "bm_ok m2 \<and> bm_held m2 i = bm_held m i @ data"
proof -
  have others: "\<And>k m. bm_ok m \<Longrightarrow> bm_ok (others k m)" using kp by (simp add: keeps_def)
  note f = write_begin_facts [OF run ok others] and h = write_begin_held [OF run ok i kp]
  note b1 = bm_ok_D [OF conjunct1 [OF f] i, unfolded buf_ok_def]
  obtain rb' where rb': "rb_write_finished (rb_fill (bm_buffers m1 i) p data) (of_nat (length data))
      = Some rb'" "rb_inv rb'" "rb_contents rb' = rb_contents (bm_buffers m1 i) @ data"
    using granted_write [of "bm_buffers m1 i" data p] b1 f h len by blast
  have "st_bytes_written (bm_stats m1 i) + of_nat (length data) - st_bytes_read (bm_stats m1 i) =
      of_nat (length (rb_contents rb'))"
    using b1 h rb'(3) by (simp add: algebra_simps)
  then show ?thesis
    using f h i rb' b1
    by (auto simp: m2_def bufmgr_write_end_def Let_def bm_ok_def buf_ok_def bm_held_def)
qed

lemma ring_release:
  assumes ok: "bm_ok m" and i: "i \<noteq> BUF_COUNT" and n: "unat n \<le> length (bm_held m i)"
  shows "bm_ok (bufmgr_read_end m i n) \<and> bm_held (bufmgr_read_end m i n) i = drop (unat n) (bm_held m i)"
proof (cases "bm_initialized m i")
  case True
  then have inv: "rb_inv (bm_buffers m i)" using bm_ok_D [OF ok i] by (simp add: buf_ok_def)
  have ptr: "rb_read_ptr (bm_buffers m i) n = Some (rb_head (bm_buffers m i))"
    using rb_read_ptr_eq [OF inv, of n] n True by (simp add: bm_held_def)
  obtain rb' where rb': "rb_read_finished (bm_buffers m i) n = Some rb'"
    using rb.release_none [OF inv, of n] n True
    by (cases "rb_read_finished (bm_buffers m i) n") (auto simp: bm_held_def)
  then show ?thesis
    using read_end_ok [OF ok ptr] rb.release_some [OF inv rb'] i True
    by (simp add: bm_held_def bufmgr_read_end_def Let_def)
qed (use assms in \<open>simp add: bm_held_def bufmgr_read_end_def\<close>)

lemma fill_level_held:
  assumes "bm_ok m" "i \<noteq> BUF_COUNT"
  shows "unat (bufmgr_fill_level m i) = length (bm_held m i)"
proof (cases "bm_initialized m i")
  case True
  then have "rb_inv (bm_buffers m i)" using bm_ok_D [OF assms] by (simp add: buf_ok_def)
  note b = rb_inv_nat [OF this]
  show ?thesis
    using assms(2) True b
    by (simp add: bufmgr_fill_level_def bm_held_def rb_contents_def rb_used_def word_nat word_le_nat_alt)
qed (simp add: bufmgr_fill_level_def bm_held_def)

lemma capped_nat: "unat (capped n) = min (unat n) (unat GUI_RECORD_DIRECT_MAX_BLOCK_BYTES)"
  by (auto simp: capped_def word_less_nat_alt)

lemma ring_block_held:
  assumes "bm_ok (rd_bufmgr d)" "rd_buf_id d \<noteq> BUF_COUNT"
  shows "case ring_block d of
      None \<Rightarrow> bm_held (rd_bufmgr d) (rd_buf_id d) = []
    | Some (n, data) \<Rightarrow> data = take (unat n) (bm_held (rd_bufmgr d) (rd_buf_id d)) \<and>
        length data = unat n \<and> 0 < unat n \<and> unat n \<le> unat GUI_RECORD_DIRECT_MAX_BLOCK_BYTES \<and>
        unat n \<le> length (bm_held (rd_bufmgr d) (rd_buf_id d))"
proof -
  let ?m = "rd_bufmgr d" and ?i = "rd_buf_id d"
  let ?n = "capped (bufmgr_fill_level ?m ?i)"
  note fl = fill_level_held [OF assms]
  show ?thesis
  proof (cases "0 < bufmgr_fill_level ?m ?i")
    case False
    then have "bufmgr_fill_level ?m ?i = 0" by (simp add: word_gt_0)
    then show ?thesis using fl by (simp add: ring_block_def Let_def)
  next
    case True
    then have pos: "0 < length (bm_held ?m ?i)" using fl by (simp add: word_less_nat_alt)
    then have init: "bm_initialized ?m ?i" by (auto simp: bm_held_def split: if_splits)
    then have inv: "rb_inv (bm_buffers ?m ?i)" using bm_ok_D [OF assms] by (simp add: buf_ok_def)
    have n: "unat ?n \<le> length (bm_held ?m ?i)" "0 < unat ?n"
      using fl pos by (auto simp: capped_nat GUI_RECORD_DIRECT_MAX_BLOCK_BYTES_def)
    have "rb_read_ptr (bm_buffers ?m ?i) ?n = Some (rb_head (bm_buffers ?m ?i))"
      using rb_read_ptr_eq [OF inv, of ?n] n init by (simp add: bm_held_def)
    then have rb: "ring_block d = Some (?n, mem_load (rb_buffer (bm_buffers ?m ?i))
        (unat (rb_head (bm_buffers ?m ?i))) (unat ?n))"
      using True assms(2) init by (simp add: ring_block_def Let_def bufmgr_read_begin_def)
    have "unat ?n \<le> rb_used (bm_buffers ?m ?i)"
      using n init by (simp add: bm_held_def rb_contents_def)
    then show ?thesis
      using rb n init by (simp add: capped_nat bm_held_def rb_contents_def take_mem_load)
  qed
qed

section \<open>What the recorder holds\<close>

definition pending_bytes :: "'s gui_record_direct_ctx \<Rightarrow> bytes" where
  "pending_bytes d = (case rd_pending d of None \<Rightarrow> [] | Some b \<Rightarrow> b)"

definition recorded :: "('s \<Rightarrow> bytes) \<Rightarrow> 's gui_record_direct_ctx \<Rightarrow> bytes" where
  "recorded contents d = rd_file d @ pending_bytes d @ bm_held (rd_bufmgr d) (rd_buf_id d)
     @ contents (rd_spill d)"

text \<open>What every step keeps: a good manager and store, a block that fits the block buffer, and
  counters that agree with the file.\<close>

definition rd_ok :: "('s \<Rightarrow> bool) \<Rightarrow> 's gui_record_direct_ctx \<Rightarrow> bool" where
  "rd_ok sinv d =
     (bm_ok (rd_bufmgr d) \<and> rd_buf_id d \<noteq> BUF_COUNT \<and> sinv (rd_spill d) \<and>
      length (pending_bytes d) \<le> unat GUI_RECORD_DIRECT_MAX_BLOCK_BYTES \<and>
      rd_bytes_written_total d = of_nat (length (rd_file d)) \<and>
      rd_bytes_written_channel d = of_nat (length (rd_file d)))"

definition store_callbacks ::
  "('s \<Rightarrow> u64) \<Rightarrow> ('e \<Rightarrow> 's \<Rightarrow> bytes \<Rightarrow> bool \<times> 's) \<Rightarrow> ('e \<Rightarrow> 's \<Rightarrow> nat \<Rightarrow> bytes option \<times> 's) \<Rightarrow>
   ('e, 's) gui_record_direct_callbacks" where
  "store_callbacks backlog enqueue read_block =
     \<lparr>cb_spill_enqueue = Some enqueue, cb_spill_read = Some read_block,
      cb_spill_backlog = Some backlog\<rparr>"

lemma whole_write:
  assumes "all_or_nothing a" "length data \<le> unat GUI_RECORD_DIRECT_MAX_BLOCK_BYTES"
  shows "wrote_all a data \<Longrightarrow> take (wa_taken a) data = data"
    and "\<not> wrote_all a data \<Longrightarrow> take (wa_taken a) data = []"
  using assms by (auto simp: all_or_nothing_def wrote_all_def)

lemma undo_drop_ok: "bm_ok m \<Longrightarrow> bm_ok (undo_drop i m) \<and> bm_held (undo_drop i m) j = bm_held m j"
  by (auto simp: undo_drop_def bm_ok_def buf_ok_def bm_held_def)

lemma account_write_sel [simp]:
  "rd_bufmgr (gui_record_direct_account_write n d) = rd_bufmgr d"
  "rd_buf_id (gui_record_direct_account_write n d) = rd_buf_id d"
  "rd_spill (gui_record_direct_account_write n d) = rd_spill d"
  "rd_file (gui_record_direct_account_write n d) = rd_file d"
  "rd_pending (gui_record_direct_account_write n d) = rd_pending d"
  "rd_bytes_written_total (gui_record_direct_account_write n d) = rd_bytes_written_total d + of_nat n"
  "rd_bytes_written_channel (gui_record_direct_account_write n d) = rd_bytes_written_channel d + of_nat n"
  by (simp_all add: gui_record_direct_account_write_def)

lemma writer_iteration_buf_id [simp]:
  "rd_buf_id (snd (writer_iteration cb e a now_ms d)) = rd_buf_id d"
  by (auto simp: writer_iteration_def writer_retry_def writer_put_def file_write_def spill_block_def
      Let_def split: option.splits prod.splits if_splits)

lemma recorded_tap [simp]:
  "recorded contents (d\<lparr>rd_tap_inflight := n\<rparr>) = recorded contents d"
  "recorded contents (d\<lparr>rd_tap_enabled := b\<rparr>) = recorded contents d"
  "recorded contents (d\<lparr>rd_recording_active := b\<rparr>) = recorded contents d"
  "rd_ok good (d\<lparr>rd_tap_inflight := n\<rparr>) = rd_ok good d"
  "rd_ok good (d\<lparr>rd_tap_enabled := b\<rparr>) = rd_ok good d"
  "rd_ok good (d\<lparr>rd_recording_active := b\<rparr>) = rd_ok good d"
  by (simp_all add: recorded_def rd_ok_def pending_bytes_def)

context spill_store
begin

abbreviation cbs :: "('e, 's) gui_record_direct_callbacks" where
  "cbs \<equiv> store_callbacks backlog enqueue read_block"

lemma push_inner_recorded:
  assumes run: "gui_record_direct_push_inner cbs os others e d data = (r, d')"
    and ok: "rd_ok inv d" and kp: "keeps others (rd_buf_id d)" and len: "length data < 2 ^ 64"
  shows "rd_ok inv d' \<and> recorded contents d' = recorded contents d @ accepted r data \<and>
    rd_buf_id d' = rd_buf_id d"
proof -
  let ?i = "rd_buf_id d"
  obtain eok s' where enq: "enqueue e (rd_spill d) data = (eok, s')" by fastforce
  have sinv: "inv (rd_spill d)" and mok: "bm_ok (rd_bufmgr d)" and i: "?i \<noteq> BUF_COUNT"
    using ok by (auto simp: rd_ok_def)
  note en = enqueue [OF sinv enq]
  show ?thesis
  proof (cases "0 < backlog (rd_spill d)")
    case True
    then have "d' = d\<lparr>rd_bytes_read_total := rd_bytes_read_total d + of_nat (length data),
        rd_spill := s'\<rparr>" "r = (if eok then PUSH_SPILL else PUSH_DROPPED)"
      using run enq
      by (auto simp: gui_record_direct_push_inner_def store_callbacks_def spill_backlog_of_def
          spill_enqueue_of_def Let_def split: prod.splits)
    then show ?thesis
      using ok en by (auto simp: rd_ok_def recorded_def accepted_def pending_bytes_def)
  next
    case False
    then have empty: "contents (rd_spill d) = []"
      using backlog [OF sinv] by (simp add: word_gt_0)
    obtain ptr m1 where b: "bufmgr_write_begin os others (rd_bufmgr d) ?i (of_nat (length data))
        (Some s_direct_write_policy) = (ptr, m1)" by fastforce
    have others: "\<And>k m. bm_ok m \<Longrightarrow> bm_ok (others k m)" using kp by (simp add: keeps_def)
    show ?thesis
    proof (cases ptr)
      case (Some p)
      note rp = ring_push [OF b [unfolded Some] mok i kp len]
      show ?thesis
        using run False b Some rp ok empty
        by (auto simp: gui_record_direct_push_inner_def store_callbacks_def spill_backlog_of_def
            Let_def rd_ok_def recorded_def accepted_def pending_bytes_def)
    next
      case None
      have m1: "bm_ok m1" "bm_held m1 ?i = bm_held (rd_bufmgr d) ?i"
        using write_begin_facts [OF b mok others] write_begin_held [OF b mok i kp] by auto
      show ?thesis
        using run False b None m1 enq en ok undo_drop_ok [OF m1(1), of ?i ?i]
        by (cases eok) (auto simp: gui_record_direct_push_inner_def store_callbacks_def
            spill_backlog_of_def spill_enqueue_of_def Let_def rd_ok_def recorded_def accepted_def
            pending_bytes_def)
    qed
  qed
qed

lemma writer_put_recorded:
  assumes ok: "rd_ok inv d" and a: "all_or_nothing a" and none: "rd_pending d = None"
    and len: "length data \<le> unat GUI_RECORD_DIRECT_MAX_BLOCK_BYTES"
    and src: "case src of None \<Rightarrow> True | Some n \<Rightarrow> unat n \<le> length (bm_held (rd_bufmgr d) (rd_buf_id d))"
  defines "rest \<equiv> (case src of None \<Rightarrow> bm_held (rd_bufmgr d) (rd_buf_id d)
      | Some n \<Rightarrow> drop (unat n) (bm_held (rd_bufmgr d) (rd_buf_id d)))"
  shows "rd_ok inv (writer_put a data src d) \<and>
    recorded contents (writer_put a data src d) = rd_file d @ data @ rest @ contents (rd_spill d)"
proof -
  have mok: "bm_ok (rd_bufmgr d)" "rd_buf_id d \<noteq> BUF_COUNT" using ok by (auto simp: rd_ok_def)
  show ?thesis
    using ok none len src whole_write [OF a len] ring_release [OF mok]
    by (cases src; cases "wrote_all a data")
      (auto simp: writer_put_def file_write_def Let_def rd_ok_def recorded_def pending_bytes_def
        rest_def)
qed

lemma writer_retry_recorded:
  assumes ok: "rd_ok inv d" and a: "all_or_nothing a" and p: "rd_pending d = Some block"
  shows "rd_ok inv (snd (writer_retry a now_ms block stopping d)) \<and>
    recorded contents (snd (writer_retry a now_ms block stopping d)) = recorded contents d"
proof -
  have len: "length block \<le> unat GUI_RECORD_DIRECT_MAX_BLOCK_BYTES"
    using ok p by (simp add: rd_ok_def pending_bytes_def)
  show ?thesis
    using ok p len whole_write [OF a len]
    by (cases "wrote_all a block")
      (auto simp: writer_retry_def file_write_def Let_def rd_ok_def recorded_def pending_bytes_def)
qed

lemma spill_block_recorded:
  assumes ok: "rd_ok inv d" and run: "spill_block cbs e d = (res, d')"
  shows "\<exists>s. d' = d\<lparr>rd_spill := s\<rparr> \<and> inv s \<and> (case res of
      None \<Rightarrow> contents s = contents (rd_spill d)
    | Some data \<Rightarrow> length data \<le> unat GUI_RECORD_DIRECT_MAX_BLOCK_BYTES \<and>
        contents (rd_spill d) = data @ contents s)"
proof (cases "0 < backlog (rd_spill d)")
  case False
  then show ?thesis
    using ok run
    by (auto simp: spill_block_def store_callbacks_def spill_backlog_of_def Let_def rd_ok_def
        intro!: exI [of _ "rd_spill d"])
next
  case True
  have sinv: "inv (rd_spill d)" using ok by (simp add: rd_ok_def)
  obtain s where r: "read_block e (rd_spill d) (unat (capped (backlog (rd_spill d)))) = (res, s)"
    "d' = d\<lparr>rd_spill := s\<rparr>"
    using run True
    by (auto simp: spill_block_def store_callbacks_def spill_backlog_of_def Let_def split: prod.splits)
  show ?thesis
  proof (cases res)
    case None
    then show ?thesis using read_none [OF sinv] r by auto
  next
    case (Some data)
    note rs = read_some [OF sinv r(1) [unfolded Some]]
    have "length data \<le> unat GUI_RECORD_DIRECT_MAX_BLOCK_BYTES"
      using rs by (simp add: capped_nat)
    moreover have "contents (rd_spill d) = data @ contents s" using rs by simp
    ultimately show ?thesis using conjunct1 [OF rs] r(2) Some by auto
  qed
qed

lemma writer_iteration_recorded:
  assumes run: "writer_iteration cbs e a now_ms d = (go, d')"
    and ok: "rd_ok inv d" and a: "all_or_nothing a"
  shows "rd_ok inv d' \<and> recorded contents d' = recorded contents d \<and>
    (rd_pending d = None \<and> \<not> go \<longrightarrow> bm_held (rd_bufmgr d') (rd_buf_id d') = [] \<and> rd_pending d' = None)"
proof (cases "rd_pending d")
  case (Some block)
  then have "d' = snd (writer_retry a now_ms block (\<not> rd_recording_active d \<or> rd_exit_flag d) d)"
    using run by (simp add: writer_iteration_def Let_def)
  then show ?thesis using writer_retry_recorded [OF ok a Some] Some by simp
next
  case none: None
  have mok: "bm_ok (rd_bufmgr d)" "rd_buf_id d \<noteq> BUF_COUNT" using ok by (auto simp: rd_ok_def)
  note rb = ring_block_held [OF mok]
  show ?thesis
  proof (cases "ring_block d")
    case (Some nd)
    obtain n data where nd: "nd = (n, data)" by fastforce
    have "go" "d' = writer_put a data (Some n) d"
      using run none Some nd by (simp_all add: writer_iteration_def Let_def)
    then show ?thesis
      using writer_put_recorded [OF ok a none, of data "Some n"] rb Some nd none
      by (simp add: recorded_def pending_bytes_def)
  next
    case no_ring: None
    then have held: "bm_held (rd_bufmgr d) (rd_buf_id d) = []" using rb by simp
    obtain res d1 where sb: "spill_block cbs e d = (res, d1)" by fastforce
    then obtain s where s: "d1 = d\<lparr>rd_spill := s\<rparr>" "inv s" "case res of
        None \<Rightarrow> contents s = contents (rd_spill d)
      | Some data \<Rightarrow> length data \<le> unat GUI_RECORD_DIRECT_MAX_BLOCK_BYTES \<and>
          contents (rd_spill d) = data @ contents s"
      using spill_block_recorded [OF ok sb] by blast
    have ok1: "rd_ok inv d1" using ok s by (simp add: rd_ok_def pending_bytes_def)
    show ?thesis
    proof (cases res)
      case (Some data)
      then have "go" "d' = writer_put a data None d1"
        using run none no_ring sb by (simp_all add: writer_iteration_def Let_def)
      then show ?thesis
        using writer_put_recorded [OF ok1 a, of data None] s none Some held
        by (simp add: recorded_def pending_bytes_def)
    next
      case None
      then have "d' = d1 \<or> (go \<and> (\<exists>ev. d' = d1\<lparr>rd_bufmgr := (rd_bufmgr d1)\<lparr>bm_data_events := ev\<rparr>\<rparr>))"
        using run none no_ring sb
        by (auto simp: writer_iteration_def Let_def bufmgr_wait_data_def split: if_splits prod.splits)
      then show ?thesis
        using ok1 s none None held by (auto simp: rd_ok_def recorded_def pending_bytes_def bm_held_def)
    qed
  qed
qed

lemma push_recorded:
  assumes run: "gui_record_direct_push cbs os others e d data = (r, d')"
    and ok: "rd_ok inv d" and kp: "keeps others (rd_buf_id d)" and len: "length data < 2 ^ 64"
  shows "rd_ok inv d' \<and> recorded contents d' = recorded contents d @ accepted r data \<and>
    rd_buf_id d' = rd_buf_id d"
proof (cases "data = [] \<or> \<not> rd_tap_enabled d")
  case True
  then show ?thesis
    using run ok by (auto simp: gui_record_direct_push_def Let_def accepted_def split: if_splits)
next
  case False
  let ?d1 = "d\<lparr>rd_tap_inflight := rd_tap_inflight d + 1\<rparr>"
  obtain r2 d2 where i: "gui_record_direct_push_inner cbs os others e ?d1 data = (r2, d2)" by fastforce
  then have "r = r2" "d' = d2\<lparr>rd_tap_inflight := rd_tap_inflight d2 - 1\<rparr>"
    using run False by (simp_all add: gui_record_direct_push_def Let_def)
  then show ?thesis using push_inner_recorded [OF i _ _ len] ok kp by simp
qed

lemma rd_step_recorded:
  assumes "rd_step cbs os others ev d = (got, d')" "rd_ok inv d" "event_ok ev"
    and "keeps others (rd_buf_id d)"
  shows "rd_ok inv d' \<and> recorded contents d' = recorded contents d @ got \<and> rd_buf_id d' = rd_buf_id d"
proof (cases ev)
  case (RD_Push e data)
  then show ?thesis
    using assms push_recorded [of os others e d data] by (auto simp: rd_step_def split: prod.splits)
next
  case (RD_Push_Latched e on data)
  then show ?thesis
    using assms push_inner_recorded [of os others e d data]
    by (auto simp: rd_step_def gui_record_direct_push_latched_def accepted_def
        split: prod.splits if_splits)
next
  case (RD_Writer e a now_ms)
  then have "got = []" "d' = snd (writer_iteration cbs e a now_ms d)" "all_or_nothing a"
    using assms(1,3) by (simp_all add: rd_step_def)
  then show ?thesis
    using writer_iteration_recorded [OF prod.collapse [symmetric] assms(2)] by simp
qed (use assms in \<open>auto simp: rd_step_def gui_record_direct_tap_enable_def
    gui_record_direct_tap_disable_def gui_record_direct_tap_iteration_enter_def
    gui_record_direct_tap_iteration_leave_def\<close>)

lemma rd_run_recorded:
  assumes "rd_run cbs os others evs d = (got, d')" "rd_ok inv d" "list_all event_ok evs"
    and "keeps others (rd_buf_id d)"
  shows "rd_ok inv d' \<and> recorded contents d' = recorded contents d @ got \<and> rd_buf_id d' = rd_buf_id d"
  using assms
proof (induction evs arbitrary: d got)
  case (Cons ev evs)
  obtain g1 d1 g2 where s: "rd_step cbs os others ev d = (g1, d1)"
    "rd_run cbs os others evs d1 = (g2, d')" "got = g1 @ g2"
    using Cons.prems(1) by (auto split: prod.splits)
  then show ?case
    using Cons.IH [of d1 g2] rd_step_recorded [OF s(1)] Cons.prems by simp
qed simp

end

section \<open>Properties\<close>

text \<open>The callbacks gui\_record.c installs for a channel.\<close>

definition gui_record_callbacks :: "int \<Rightarrow> (disk_answers, spills) gui_record_direct_callbacks" where
  "gui_record_callbacks c = store_callbacks (gui_record_spill_backlog_bytes c)
     (gui_record_spill_enqueue c) (gui_record_spill_read_block c)"

text \<open>A recording that starts: nothing written, held or spilled, and no record buffer in use.\<close>

definition recording_start :: "int \<Rightarrow> 's gui_record_direct_ctx \<Rightarrow> bool" where
  "recording_start c d = (rd_file d = [] \<and> rd_pending d = None \<and>
     bm_held (rd_bufmgr d) (rd_buf_id d) = [] \<and> rd_buf_id d \<noteq> BUF_COUNT \<and>
     rd_bytes_written_total d = 0 \<and> rd_bytes_written_channel d = 0)"


definition sample_ctx :: "buffer_manager \<Rightarrow> bytes option \<Rightarrow> spills gui_record_direct_ctx" where
  "sample_ctx m held = \<lparr>rd_bufmgr = m, rd_buf_id = BUF_RECORD_A, rd_spill = (\<lambda>_. closed_channel),
     rd_file = [], rd_recording_active = held = None, rd_exit_flag = False,
     rd_bytes_read_total = 0, rd_bytes_written_total = 0, rd_bytes_written_channel = 0,
     rd_write_error = False, rd_tap_enabled = True, rd_tap_inflight = 0, rd_pending = held,
     rd_last_retry_ms = 0, rd_write_err_count = 0\<rparr>"

definition sample_events :: "disk_answers record_event list" where
  "sample_events = [RD_Push disk_fine [1, 2], RD_Writer disk_fine \<lparr>wa_taken = 0, wa_error = True\<rparr> 5,
     RD_Push disk_fine [3], RD_Stop]"

lemma fresh_manager_ok: "bm_ok fresh_manager"
proof -
  have "buf_ok fresh_manager i" if "i \<noteq> BUF_COUNT" for i
    using that by (cases i) (simp_all add: buf_ok_def fresh_manager_def zero_manager_def config_def
      size_ok_def BUFMGR_GB_def BUFMGR_MB_def)
  then show ?thesis by (simp add: bm_ok_def)
qed


text \<open>C22: An output file that takes only a part of a block gets that part twice: once from the
  failing write, once when the whole held block is written again.\<close>

theorem partial_write_repeats:
  assumes "rd_pending d = None" "ring_block d = Some (n, data)"
    and "wa_taken a < length data" "wrote_all a2 data"
    and "writer_iteration cb e a t1 d = (go1, d1)"
    and "writer_iteration cb e a2 t2 d1 = (go2, d2)" "rd_last_retry_ms d = 0"
  shows "rd_file d2 = rd_file d @ take (wa_taken a) data @ data \<and> rd_pending d2 = None"
proof -
  have "\<not> wrote_all a data" "take (wa_taken a2) data = data"
    using assms(3,4) by (auto simp: wrote_all_def)
  then have "d1 = writer_put a data (Some n) d" "rd_pending d1 = Some data"
    "rd_file d1 = rd_file d @ take (wa_taken a) data" "rd_last_retry_ms d1 = 0"
    using assms(1,2,5,7)
    by (auto simp: writer_iteration_def writer_put_def file_write_def Let_def)
  then show ?thesis
    using assms(4,6) \<open>take (wa_taken a2) data = data\<close>
    by (auto simp: writer_iteration_def writer_retry_def file_write_def Let_def)
qed

theorem partial_write_repeats_witness:
  "rd_file (snd (writer_iteration (gui_record_callbacks 0) disk_fine \<lparr>wa_taken = 4, wa_error = False\<rparr> 9
     (snd (writer_iteration (gui_record_callbacks 0) disk_fine \<lparr>wa_taken = 1, wa_error = True\<rparr> 8
       (sample_ctx full_manager None))))) = [1, 1, 2, 3, 4]"
proof -
  let ?d = "sample_ctx full_manager None"
  obtain go1 d1 where i1: "writer_iteration (gui_record_callbacks 0) disk_fine
      \<lparr>wa_taken = 1, wa_error = True\<rparr> 8 ?d = (go1, d1)" by fastforce
  obtain go2 d2 where i2: "writer_iteration (gui_record_callbacks 0) disk_fine
      \<lparr>wa_taken = 4, wa_error = False\<rparr> 9 d1 = (go2, d2)" by fastforce
  have "mem_load [1, 2, 3, 4] 0 4 = [1, 2, 3, 4]" by code_simp
  then have rb: "ring_block ?d = Some (4, [1, 2, 3, 4])"
    by (simp add: ring_block_def sample_ctx_def full_manager_def bufmgr_fill_level_def
        bufmgr_read_begin_def capped_def GUI_RECORD_DIRECT_MAX_BLOCK_BYTES_def rb_read_ptr_def)
  have "rd_pending ?d = None" "rd_last_retry_ms ?d = 0" by (simp_all add: sample_ctx_def)
  then have "rd_file d2 = rd_file ?d @ take 1 [1, 2, 3, 4] @ [1, 2, 3, 4]"
    using partial_write_repeats [OF _ rb _ _ i1 i2] by (simp add: wrote_all_def)
  then show ?thesis using i1 i2 by (simp add: sample_ctx_def)
qed

text \<open>C23: When recording stops while a block is held, the next iteration ends the thread whatever
  becomes of that block: even if the file takes it, the bytes in the ring and in the spill
  store stay where they are.\<close>

theorem stop_with_held_block:
  assumes "rd_pending d = Some block" "\<not> rd_recording_active d"
    and "writer_iteration cb e a now_ms d = (go, d')"
  shows "\<not> go \<and> rd_bufmgr d' = rd_bufmgr d \<and> rd_spill d' = rd_spill d \<and>
    rd_file d' = rd_file d @ take (wa_taken a) block \<and>
    (rd_pending d' = None \<longleftrightarrow> wrote_all a block)"
  using assms by (auto simp: writer_iteration_def writer_retry_def file_write_def Let_def split: if_splits)

theorem stop_with_held_block_witness:
  "bm_held (rd_bufmgr (snd (writer_iteration (gui_record_callbacks 0) disk_fine
     \<lparr>wa_taken = 9, wa_error = False\<rparr> 1 (sample_ctx full_manager (Some [8, 9]))))) BUF_RECORD_A \<noteq> []"
proof -
  let ?d = "sample_ctx full_manager (Some [8, 9])"
  obtain go d' where i: "writer_iteration (gui_record_callbacks 0) disk_fine
      \<lparr>wa_taken = 9, wa_error = False\<rparr> 1 ?d = (go, d')" by fastforce
  have "rd_bufmgr d' = rd_bufmgr ?d"
    using stop_with_held_block [OF _ _ i, of "[8, 9]"] by (simp add: sample_ctx_def)
  then show ?thesis
    using i by (simp add: sample_ctx_def full_manager_def bm_held_def rb_contents_def rb_used_def
        mem_load_def)
qed

end
