(* ===== verification/Monitor_Wire.thy ===== *)
theory Monitor_Wire
  imports Prelude
begin

text \<open>
  The wire formats of the monitor connection: the 40-byte header of the video stream with its
  incremental reader (misrc\_gui/net/gui\_monitor\_video\_wire.c and .h) and the 12-byte header
  of the audio stream (gui\_monitor\_audio\_wire.h).  Multi-byte fields are big-endian.  A
  buffer of the reader is the list of the bytes stored in it so far.
\<close>

section \<open>Fields\<close>

definition be16 :: "u16 \<Rightarrow> bytes" where
  "be16 v = [ucast (drop_bit 8 v), ucast v]"

definition be32 :: "u32 \<Rightarrow> bytes" where
  "be32 v = be16 (ucast (drop_bit 16 v)) @ be16 (ucast v)"

definition be64 :: "u64 \<Rightarrow> bytes" where
  "be64 v = be32 (ucast (drop_bit 32 v)) @ be32 (ucast v)"

definition get16 :: "bytes \<Rightarrow> nat \<Rightarrow> u16" where
  "get16 p i = join16 (p ! i) (p ! (i + 1))"

definition get32 :: "bytes \<Rightarrow> nat \<Rightarrow> u32" where
  "get32 p i = join32 (get16 p i) (get16 p (i + 2))"

definition get64 :: "bytes \<Rightarrow> nat \<Rightarrow> u64" where
  "get64 p i = join64 (get32 p i) (get32 p (i + 4))"

lemmas be_defs = be16_def be32_def be64_def get16_def get32_def get64_def

lemma length_be [simp]: "length (be16 a) = 2" "length (be32 b) = 4" "length (be64 c) = 8"
  by (simp_all add: be_defs)

section \<open>The video header\<close>

record mvd_frame_header =
  mvd_codec :: u8
  mvd_flags :: u8
  mvd_stream_id :: u32
  mvd_sequence :: u32
  mvd_pts_us :: u64
  mvd_width :: u16
  mvd_height :: u16
  mvd_fps_x100 :: u16
  mvd_payload_bytes :: u32

abbreviation MVD_HEADER_BYTES :: nat where "MVD_HEADER_BYTES \<equiv> 40"

definition MVD_MAX_PAYLOAD :: u32 where "MVD_MAX_PAYLOAD = 2 * 1024 * 1024"

definition mvd_codec_valid :: "u8 \<Rightarrow> bool" where
  "mvd_codec_valid c = (1 \<le> c \<and> c \<le> 4)"

definition valid :: "mvd_frame_header \<Rightarrow> bool" where
  "valid f =
     (mvd_codec_valid (mvd_codec f) \<and>
      and (mvd_flags f) (not (or 1 (or 2 4))) = 0 \<and>
      2 \<le> mvd_width f \<and> 2 \<le> mvd_height f \<and> mvd_width f \<le> 1920 \<and> mvd_height f \<le> 1080 \<and>
      and (mvd_width f) 1 = 0 \<and> and (mvd_height f) 1 = 0 \<and>
      100 \<le> mvd_fps_x100 f \<and> mvd_fps_x100 f \<le> 6000 \<and>
      4 \<le> mvd_payload_bytes f \<and> mvd_payload_bytes f \<le> MVD_MAX_PAYLOAD)"

definition MVD1 :: bytes where "MVD1 = [0x4d, 0x56, 0x44, 0x31]"

definition mvd_header_encode :: "mvd_frame_header \<Rightarrow> bytes option" where
  "mvd_header_encode f =
     (if \<not> valid f then None
      else Some (MVD1 @ [1, 40, mvd_codec f, mvd_flags f] @ be32 (mvd_stream_id f)
             @ be32 (mvd_sequence f) @ be64 (mvd_pts_us f) @ be16 (mvd_width f)
             @ be16 (mvd_height f) @ be16 (mvd_fps_x100 f) @ [0, 0]
             @ be32 (mvd_payload_bytes f) @ [0, 0, 0, 0]))"

definition mvd_header_decode :: "bytes \<Rightarrow> mvd_frame_header option" where
  "mvd_header_decode buf =
     (if take 4 buf \<noteq> MVD1 \<or> buf ! 4 \<noteq> 1 \<or> buf ! 5 \<noteq> 40 \<or> buf ! 30 \<noteq> 0 \<or> buf ! 31 \<noteq> 0 \<or>
         buf ! 36 \<noteq> 0 \<or> buf ! 37 \<noteq> 0 \<or> buf ! 38 \<noteq> 0 \<or> buf ! 39 \<noteq> 0
      then None
      else let candidate = \<lparr>mvd_codec = buf ! 6, mvd_flags = buf ! 7, mvd_stream_id = get32 buf 8,
             mvd_sequence = get32 buf 12, mvd_pts_us = get64 buf 16, mvd_width = get16 buf 24,
             mvd_height = get16 buf 26, mvd_fps_x100 = get16 buf 28,
             mvd_payload_bytes = get32 buf 32\<rparr> in
      if valid candidate then Some candidate else None)"

text \<open>Buffers of forty and of twelve bytes, byte by byte.\<close>

lemma upt_40: "[0..<40] = [0, 1, 2, 3, 4, 5, 6, 7, 8, 9, 10, 11, 12, 13, 14, 15, 16, 17, 18, 19,
    20, 21, 22, 23, 24, 25, 26, 27, 28, 29, 30, 31, 32, 33, 34, 35, 36, 37, 38, 39]"
  by code_simp

lemma upt_12: "[0..<12] = [0, 1, 2, 3, 4, 5, 6, 7, 8, 9, 10, 11]"
  by code_simp

lemma bytes_of: "length bs = n \<Longrightarrow> bs = map ((!) bs) [0..<n]"
  by (metis map_nth)

lemma length_encoded: "mvd_header_encode f = Some bs \<Longrightarrow> length bs = 40"
  by (auto simp: mvd_header_encode_def MVD1_def split: if_splits)

lemma mvd_decode_encode:
  assumes "mvd_header_encode f = Some bs"
  shows "mvd_header_decode bs = Some f"
proof -
  have v: "valid f" and bs: "bs = MVD1 @ [1, 40, mvd_codec f, mvd_flags f]
      @ be32 (mvd_stream_id f) @ be32 (mvd_sequence f) @ be64 (mvd_pts_us f)
      @ be16 (mvd_width f) @ be16 (mvd_height f) @ be16 (mvd_fps_x100 f) @ [0, 0]
      @ be32 (mvd_payload_bytes f) @ [0, 0, 0, 0]"
    using assms by (auto simp: mvd_header_encode_def split: if_splits)
  show ?thesis
    unfolding bs using v
    by (cases f) (simp add: mvd_header_decode_def MVD1_def be_defs word_split Let_def)
qed

lemma mvd_encode_decode:
  assumes "mvd_header_decode bs = Some f" "length bs = 40"
  shows "mvd_header_encode f = Some bs"
proof -
  have "bs = [bs!0, bs!1, bs!2, bs!3, bs!4, bs!5, bs!6, bs!7, bs!8, bs!9, bs!10, bs!11, bs!12,
      bs!13, bs!14, bs!15, bs!16, bs!17, bs!18, bs!19, bs!20, bs!21, bs!22, bs!23, bs!24, bs!25,
      bs!26, bs!27, bs!28, bs!29, bs!30, bs!31, bs!32, bs!33, bs!34, bs!35, bs!36, bs!37, bs!38,
      bs!39]"
    using bytes_of [OF assms(2)] by (simp only: upt_40 list.map)
  then obtain b0 b1 b2 b3 b4 b5 b6 b7 b8 b9 b10 b11 b12 b13 b14 b15 b16 b17 b18 b19 b20 b21 b22
    b23 b24 b25 b26 b27 b28 b29 b30 b31 b32 b33 b34 b35 b36 b37 b38 b39 where
    bs: "bs = [b0, b1, b2, b3, b4, b5, b6, b7, b8, b9, b10, b11, b12, b13, b14, b15, b16, b17,
      b18, b19, b20, b21, b22, b23, b24, b25, b26, b27, b28, b29, b30, b31, b32, b33, b34, b35,
      b36, b37, b38, b39]" by (rule that)
  show ?thesis
    using assms(1) unfolding bs
    by (auto simp: mvd_header_decode_def mvd_header_encode_def MVD1_def be_defs word_split Let_def
        split: if_splits)
qed

interpretation mvd: header_codec mvd_header_encode mvd_header_decode valid MVD_HEADER_BYTES
proof
  show "mvd_header_encode h = None \<longleftrightarrow> \<not> valid h" for h
    by (simp add: mvd_header_encode_def)
qed (fact length_encoded mvd_decode_encode mvd_encode_decode)+

section \<open>The audio header\<close>

definition MA_WIRE_MAX_PAYLOAD :: size_t where "MA_WIRE_MAX_PAYLOAD = 1275"

definition ma_wire_pack :: "u32 \<Rightarrow> size_t \<Rightarrow> bytes option" where
  "ma_wire_pack sequence len =
     (if len = 0 \<or> MA_WIRE_MAX_PAYLOAD < len then None
      else Some ([0x4d, 0x41, 0x4f, 0x31] @ be32 sequence @ be16 (ucast len) @ [0, 0]))"

definition ma_wire_unpack :: "bytes \<Rightarrow> (u32 \<times> size_t) option" where
  "ma_wire_unpack b =
     (if b ! 0 \<noteq> 0x4d \<or> b ! 1 \<noteq> 0x41 \<or> b ! 2 \<noteq> 0x4f \<or> b ! 3 \<noteq> 0x31 \<or> b ! 10 \<noteq> 0 \<or> b ! 11 \<noteq> 0
      then None
      else let n = ucast (get16 b 8) :: size_t in
      if n = 0 \<or> MA_WIRE_MAX_PAYLOAD < n then None else Some (get32 b 4, n))"

definition ma_valid :: "u32 \<times> size_t \<Rightarrow> bool" where
  "ma_valid h = (snd h \<noteq> 0 \<and> snd h \<le> MA_WIRE_MAX_PAYLOAD)"

lemma small_length: "n \<le> MA_WIRE_MAX_PAYLOAD \<Longrightarrow> (ucast (ucast n :: u16) :: size_t) = n"
  by (simp add: MA_WIRE_MAX_PAYLOAD_def word_le_nat_alt word_unat_eq_iff unsigned_ucast_eq
      unsigned_take_bit_eq take_bit_nat_eq_self)

lemma ucast_up_down: "(ucast (ucast (v :: u16) :: size_t) :: u16) = v"
  by (rule bit_word_eqI) (simp add: bit_simps)

interpretation mao: header_codec "\<lambda>(s, n). ma_wire_pack s n" ma_wire_unpack ma_valid 12
proof
  show "(case h of (s, n) \<Rightarrow> ma_wire_pack s n) = None \<longleftrightarrow> \<not> ma_valid h" for h
    by (auto simp: ma_wire_pack_def ma_valid_def not_le split: prod.splits)
  show "length bs = 12" if "(case h of (s, n) \<Rightarrow> ma_wire_pack s n) = Some bs" for h bs
    using that by (auto simp: ma_wire_pack_def split: prod.splits if_splits)
  show "ma_wire_unpack bs = Some h" if "(case h of (s, n) \<Rightarrow> ma_wire_pack s n) = Some bs" for h bs
    using that
    by (auto simp: ma_wire_pack_def ma_wire_unpack_def be_defs word_split small_length Let_def not_less
        split: prod.splits if_splits)
  show "(case h of (s, n) \<Rightarrow> ma_wire_pack s n) = Some bs"
    if "ma_wire_unpack bs = Some h" "length bs = 12" for h bs
  proof -
    have "bs = [bs!0, bs!1, bs!2, bs!3, bs!4, bs!5, bs!6, bs!7, bs!8, bs!9, bs!10, bs!11]"
      using bytes_of [OF that(2)] by (simp only: upt_12 list.map)
    then obtain b0 b1 b2 b3 b4 b5 b6 b7 b8 b9 b10 b11 where
      bs: "bs = [b0, b1, b2, b3, b4, b5, b6, b7, b8, b9, b10, b11]" by (rule that)
    show ?thesis
      using that(1) unfolding bs
      by (auto simp: ma_wire_unpack_def ma_wire_pack_def be_defs word_split ucast_up_down Let_def
          split: if_splits)
  qed
qed

section \<open>The incremental reader\<close>

record mvd_frame_reader =
  mr_header :: bytes
  mr_has_payload :: bool
  mr_payload_capacity :: nat
  mr_payload :: bytes
  mr_frame :: mvd_frame_header
  mr_state :: int

definition zero_frame :: mvd_frame_header where
  "zero_frame = \<lparr>mvd_codec = 0, mvd_flags = 0, mvd_stream_id = 0, mvd_sequence = 0,
     mvd_pts_us = 0, mvd_width = 0, mvd_height = 0, mvd_fps_x100 = 0, mvd_payload_bytes = 0\<rparr>"

definition mvd_reader_reset :: "mvd_frame_reader \<Rightarrow> mvd_frame_reader" where
  "mvd_reader_reset r =
     r\<lparr>mr_header := [], mr_payload := [], mr_state := 0, mr_frame := zero_frame\<rparr>"

definition mvd_reader_init :: "nat \<Rightarrow> mvd_frame_reader" where
  "mvd_reader_init capacity = \<lparr>mr_header = [], mr_has_payload = True,
     mr_payload_capacity = capacity, mr_payload = [], mr_frame = zero_frame, mr_state = 0\<rparr>"

text \<open>The part of the feed after the header: the result, the bytes consumed, the reader.\<close>

definition feed_payload ::
  "mvd_frame_reader \<Rightarrow> bytes \<Rightarrow> nat \<Rightarrow> int \<times> nat \<times> mvd_frame_reader" where
  "feed_payload r input consumed =
     (let total = unat (mvd_payload_bytes (mr_frame r));
          n = min (total - length (mr_payload r)) (length input - consumed);
          r1 = r\<lparr>mr_payload := mr_payload r @ take n (drop consumed input)\<rparr> in
      if length (mr_payload r1) = total then (1, consumed + n, r1\<lparr>mr_state := 2\<rparr>)
      else (0, consumed + n, r1))"

definition mvd_reader_feed ::
  "mvd_frame_reader \<Rightarrow> bytes \<Rightarrow> int \<times> nat \<times> mvd_frame_reader" where
  "mvd_reader_feed r input =
     (if input \<noteq> [] \<and> \<not> mr_has_payload r then (-1, 0, r)
      else if mr_state r < 0 \<or> mr_state r = 2 then (-1, 0, r)
      else if mr_state r = 0
      then let n = min (MVD_HEADER_BYTES - length (mr_header r)) (length input);
               r1 = r\<lparr>mr_header := mr_header r @ take n input\<rparr> in
        if length (mr_header r1) \<noteq> MVD_HEADER_BYTES then (0, n, r1)
        else case mvd_header_decode (mr_header r1) of
          None \<Rightarrow> (-1, n, r1\<lparr>mr_state := -1\<rparr>)
        | Some f \<Rightarrow>
            if mr_payload_capacity r1 < unat (mvd_payload_bytes f)
            then (-2, n, r1\<lparr>mr_frame := f, mr_state := -1\<rparr>)
            else feed_payload (r1\<lparr>mr_frame := f, mr_state := 1\<rparr>) input n
      else feed_payload r input 0)"

text \<open>The receive loop of gui\_monitor\_video\_client.c over one received block: it feeds the
  reader what is left of the block, takes a complete frame out and resets the reader, and
  gives the connection up when the reader fails or makes no progress.\<close>

record mvd_stream =
  ms_reader :: mvd_frame_reader
  ms_frames :: "(mvd_frame_header \<times> bytes) list"
  ms_failed :: bool

function mvd_receive :: "mvd_stream \<Rightarrow> bytes \<Rightarrow> mvd_stream" where
  "mvd_receive s input =
     (if ms_failed s \<or> input = [] then s
      else case mvd_reader_feed (ms_reader s) input of
        (rc, consumed, r) \<Rightarrow>
          if rc < 0 \<or> consumed = 0 then s\<lparr>ms_reader := r, ms_failed := True\<rparr>
          else if rc = 0 then mvd_receive (s\<lparr>ms_reader := r\<rparr>) (drop consumed input)
          else mvd_receive (s\<lparr>ms_reader := mvd_reader_reset r,
                              ms_frames := ms_frames s @ [(mr_frame r, mr_payload r)]\<rparr>)
                 (drop consumed input))"
  by pat_completeness auto
termination
  by (relation "measure (\<lambda>(s, input). length input)") auto

declare mvd_receive.simps [simp del]

definition mvd_connect :: "nat \<Rightarrow> mvd_stream" where
  "mvd_connect capacity =
     \<lparr>ms_reader = mvd_reader_init capacity, ms_frames = [], ms_failed = False\<rparr>"

section \<open>The borders of the blocks do not matter\<close>

definition reader_ok :: "mvd_frame_reader \<Rightarrow> bool" where
  "reader_ok r =
     (mr_has_payload r \<and>
      (mr_state r = 0 \<and> length (mr_header r) < MVD_HEADER_BYTES \<and> mr_payload r = [] \<or>
       mr_state r = 1 \<and> mvd_header_decode (mr_header r) = Some (mr_frame r) \<and>
         length (mr_header r) = MVD_HEADER_BYTES \<and>
         unat (mvd_payload_bytes (mr_frame r)) \<le> mr_payload_capacity r \<and>
         length (mr_payload r) < unat (mvd_payload_bytes (mr_frame r))))"

definition stream_ok :: "mvd_stream \<Rightarrow> bool" where
  "stream_ok s = (ms_failed s \<or> reader_ok (ms_reader s))"

lemma decoded_payload_pos:
  assumes "mvd_header_decode bs = Some f" "length bs = 40"
  shows "4 \<le> unat (mvd_payload_bytes f)"
  using mvd.decode_wf [OF assms] by (simp add: valid_def word_le_nat_alt)

text \<open>One byte, in a reader that expects one.\<close>

lemma feed_one_header:
  assumes "reader_ok r" "mr_state r = 0"
  shows "mvd_reader_feed r [b] =
    (let h = mr_header r @ [b] in
     if length h \<noteq> 40 then (0, 1, r\<lparr>mr_header := h\<rparr>)
     else case mvd_header_decode h of
         None \<Rightarrow> (-1, 1, r\<lparr>mr_header := h, mr_state := -1\<rparr>)
       | Some f \<Rightarrow> if mr_payload_capacity r < unat (mvd_payload_bytes f)
           then (-2, 1, r\<lparr>mr_header := h, mr_frame := f, mr_state := -1\<rparr>)
           else (0, 1, r\<lparr>mr_header := h, mr_frame := f, mr_state := 1\<rparr>))"
proof -
  let ?h = "mr_header r @ [b]"
  have r: "mr_has_payload r" "length (mr_header r) < 40" "mr_payload r = []"
    using assms by (auto simp: reader_ok_def)
  have n: "min (40 - length (mr_header r)) (length [b]) = 1" using r(2) by simp
  show ?thesis
  proof (cases "length ?h = 40")
    case False
    then show ?thesis using r n assms(2) by (simp add: mvd_reader_feed_def Let_def)
  next
    case True
    show ?thesis
    proof (cases "mvd_header_decode ?h")
      case None
      then show ?thesis using True r n assms(2) by (simp add: mvd_reader_feed_def Let_def)
    next
      case (Some f)
      have "unat (mvd_payload_bytes f) \<noteq> 0" using decoded_payload_pos [OF Some True] by simp
      then show ?thesis
        using Some True r n assms(2) by (simp add: mvd_reader_feed_def feed_payload_def Let_def)
    qed
  qed
qed

lemma feed_one_payload:
  assumes "reader_ok r" "mr_state r = 1"
  shows "mvd_reader_feed r [b] =
    (let p = mr_payload r @ [b] in
     if length p = unat (mvd_payload_bytes (mr_frame r))
     then (1, 1, r\<lparr>mr_payload := p, mr_state := 2\<rparr>) else (0, 1, r\<lparr>mr_payload := p\<rparr>))"
proof -
  have "min (unat (mvd_payload_bytes (mr_frame r)) - length (mr_payload r)) (length [b] - 0) = 1"
    "mr_has_payload r"
    using assms by (auto simp: reader_ok_def)
  then show ?thesis using assms(2) by (simp add: mvd_reader_feed_def feed_payload_def Let_def)
qed

lemma feed_one_ok:
  assumes "reader_ok r" "mvd_reader_feed r [b] = (rc, c, r1)"
  shows "c = 1 \<and> rc \<le> 1 \<and> (rc = 0 \<longrightarrow> reader_ok r1) \<and>
    (rc = 1 \<longrightarrow> mr_has_payload r1 \<and> mvd_header_decode (mr_header r1) = Some (mr_frame r1) \<and>
       length (mr_header r1) = 40 \<and>
       length (mr_payload r1) = unat (mvd_payload_bytes (mr_frame r1)))"
proof (cases "mr_state r = 0")
  case True
  have "length (mr_header r) < 40" "mr_payload r = []" "mr_has_payload r"
    using assms(1) True by (auto simp: reader_ok_def)
  then show ?thesis
    using assms(2) feed_one_header [OF assms(1) True, of b]
      decoded_payload_pos [of "mr_header r @ [b]"] True
    by (auto simp: Let_def reader_ok_def split: if_splits option.splits)
next
  case False
  then have "mr_state r = 1" using assms(1) by (auto simp: reader_ok_def)
  then show ?thesis
    using assms feed_one_payload [OF assms(1), of b]
    by (auto simp: Let_def reader_ok_def split: if_splits)
qed

definition one_more :: "int \<times> nat \<times> mvd_frame_reader \<Rightarrow> int \<times> nat \<times> mvd_frame_reader" where
  "one_more x = (case x of (rc, c, r) \<Rightarrow> (rc, Suc c, r))"

lemma feed_payload_later:
  "feed_payload r (b # rest) (Suc k) = one_more (feed_payload r rest k)"
  by (simp add: feed_payload_def Let_def one_more_def)

lemma feed_cons:
  assumes "reader_ok r" "mvd_reader_feed r [b] = (rc, c, r1)" "rest \<noteq> []"
  shows "mvd_reader_feed r (b # rest) = (if rc = 0 then one_more (mvd_reader_feed r1 rest) else (rc, c, r1))"
proof (cases "mr_state r = 0")
  case zero: True
  let ?h = "mr_header r @ [b]"
  have r: "length (mr_header r) < 40" "mr_payload r = []" "mr_has_payload r"
    using assms(1) zero by (auto simp: reader_ok_def)
  define k where "k = min (40 - length ?h) (length rest)"
  have n: "min (40 - length (mr_header r)) (length (b # rest)) = Suc k"
    using r(1) by (auto simp: k_def)
  note one = feed_one_header [OF assms(1) zero, of b, unfolded assms(2)]
  show ?thesis
  proof (cases "length ?h = 40")
    case False
    then have "rc = 0" "r1 = r\<lparr>mr_header := ?h\<rparr>" using one by (auto simp: Let_def)
    then show ?thesis
      using r zero n
      by (simp add: mvd_reader_feed_def Let_def feed_payload_later one_more_def k_def
          split: option.split)
  next
    case True
    then have k: "k = 0" by (simp add: k_def)
    show ?thesis
    proof (cases "mvd_header_decode ?h")
      case None
      then show ?thesis using True r zero n k one by (auto simp: mvd_reader_feed_def Let_def)
    next
      case (Some f)
      show ?thesis
      proof (cases "mr_payload_capacity r < unat (mvd_payload_bytes f)")
        case bad: True
        then show ?thesis using Some True r zero n k one by (auto simp: mvd_reader_feed_def Let_def)
      next
        case False
        then have "rc = 0" "r1 = r\<lparr>mr_header := ?h, mr_frame := f, mr_state := 1\<rparr>"
          using one True Some by (auto simp: Let_def)
        then show ?thesis
          using False Some True r zero n k feed_payload_later [of r1 b rest 0]
          by (simp add: mvd_reader_feed_def Let_def)
      qed
    qed
  qed
next
  case False
  then have st: "mr_state r = 1" using assms(1) by (auto simp: reader_ok_def)
  let ?t = "unat (mvd_payload_bytes (mr_frame r))" and ?p = "mr_payload r @ [b]"
  have r: "length (mr_payload r) < ?t" "mr_has_payload r"
    using assms(1) st by (auto simp: reader_ok_def)
  note one = feed_one_payload [OF assms(1) st, of b, unfolded assms(2)]
  have n: "min (?t - length (mr_payload r)) (length (b # rest) - 0)
      = Suc (min (?t - length ?p) (length rest - 0))" using r(1) by auto
  show ?thesis
  proof (cases "length ?p = ?t")
    case True
    then show ?thesis using one r st n by (auto simp: mvd_reader_feed_def feed_payload_def Let_def)
  next
    case False
    then have "rc = 0" "r1 = r\<lparr>mr_payload := ?p\<rparr>" using one by (auto simp: Let_def)
    then show ?thesis
      using r st n by (simp add: mvd_reader_feed_def feed_payload_def Let_def one_more_def)
  qed
qed

lemma feed_progress:
  assumes "reader_ok r" "rest \<noteq> []" "mvd_reader_feed r rest = (rc, c, r')"
  shows "c \<noteq> 0"
proof -
  obtain b ys where rest: "rest = b # ys" using assms(2) by (cases rest) auto
  obtain rc1 c1 r1 where f: "mvd_reader_feed r [b] = (rc1, c1, r1)" by (metis prod_cases3)
  show ?thesis
  proof (cases "ys = []")
    case True
    then show ?thesis using feed_one_ok [OF assms(1) f] f assms(3) rest by simp
  next
    case False
    then show ?thesis
      using feed_cons [OF assms(1) f False] feed_one_ok [OF assms(1) f] assms(3) rest
      by (auto simp: one_more_def split: if_splits prod.splits)
  qed
qed

lemma receive_one_ok:
  assumes "stream_ok s"
  shows "stream_ok (mvd_receive s [b])"
proof (cases "ms_failed s")
  case False
  obtain rc c r where f: "mvd_reader_feed (ms_reader s) [b] = (rc, c, r)" by (metis prod_cases3)
  note ok = feed_one_ok [OF _ f]
  then show ?thesis
    using assms False f
    by (auto simp: mvd_receive.simps [of s "[b]"] mvd_receive.simps [of _ "[]"] stream_ok_def
        mvd_reader_reset_def reader_ok_def)
qed (use assms in \<open>simp add: mvd_receive.simps\<close>)

lemma receive_cons:
  assumes "stream_ok s"
  shows "mvd_receive s (b # rest) = mvd_receive (mvd_receive s [b]) rest"
proof (cases "ms_failed s \<or> rest = []")
  case False
  obtain rc c r where f: "mvd_reader_feed (ms_reader s) [b] = (rc, c, r)" by (metis prod_cases3)
  have rok: "reader_ok (ms_reader s)" using assms False by (simp add: stream_ok_def)
  have one: "mvd_receive s [b] = (if rc < 0 then s\<lparr>ms_reader := r, ms_failed := True\<rparr>
      else if rc = 0 then s\<lparr>ms_reader := r\<rparr>
      else s\<lparr>ms_reader := mvd_reader_reset r,
             ms_frames := ms_frames s @ [(mr_frame r, mr_payload r)]\<rparr>)"
    using f False feed_one_ok [OF rok f]
    by (auto simp: mvd_receive.simps [of s "[b]"] mvd_receive.simps [of _ "[]"])
  show ?thesis
  proof (cases "rc = 0")
    case zero: True
    obtain rc' c' r' where g: "mvd_reader_feed r rest = (rc', c', r')" by (metis prod_cases3)
    have full: "mvd_reader_feed (ms_reader s) (b # rest) = (rc', Suc c', r')"
      using feed_cons [OF rok f] False zero g by (simp add: one_more_def)
    have "c' \<noteq> 0" using feed_progress [OF _ _ g] feed_one_ok [OF rok f] zero False by simp
    then show ?thesis
      using one zero g full False
      by (auto simp: mvd_receive.simps [of s "b # rest"] mvd_receive.simps [of "s\<lparr>ms_reader := r\<rparr>" rest])
  next
    case False
    then show ?thesis
      using one feed_cons [OF rok f] feed_one_ok [OF rok f] \<open>\<not> (ms_failed s \<or> rest = [])\<close>
      by (auto simp: mvd_receive.simps [of s "b # rest"] mvd_receive.simps [of _ rest])
  qed
qed (auto simp: mvd_receive.simps)

lemma receive_append:
  "stream_ok s \<Longrightarrow> mvd_receive s (xs @ ys) = mvd_receive (mvd_receive s xs) ys"
proof (induction xs arbitrary: s)
  case Nil
  then show ?case by (simp add: mvd_receive.simps [of s "[]"])
next
  case (Cons x xs)
  then show ?case
    using receive_cons [of s x] receive_one_ok [of s x] by (metis append_Cons)
qed

lemma receive_ok: "stream_ok s \<Longrightarrow> stream_ok (mvd_receive s xs)"
proof (induction xs arbitrary: s)
  case (Cons x xs)
  then show ?case using receive_cons [of s x xs] receive_one_ok [of s x] by metis
qed (simp add: mvd_receive.simps)

interpretation mvd_stream: guarded_feed stream_ok mvd_receive
proof
  show "mvd_receive s [] = s" for s by (simp add: mvd_receive.simps)
qed (fact receive_ok receive_append)+

section \<open>What is sent is what is received\<close>

definition wire_frame :: "mvd_frame_header \<times> bytes \<Rightarrow> bytes" where
  "wire_frame fp = the (mvd_header_encode (fst fp)) @ snd fp"

definition sendable :: "nat \<Rightarrow> mvd_frame_header \<times> bytes \<Rightarrow> bool" where
  "sendable capacity fp =
     (valid (fst fp) \<and> length (snd fp) = unat (mvd_payload_bytes (fst fp)) \<and>
      length (snd fp) \<le> capacity)"

text \<open>A reader between two frames.\<close>

definition reader_idle :: "mvd_frame_reader \<Rightarrow> bool" where
  "reader_idle r = (mr_state r = 0 \<and> mr_header r = [] \<and> mr_payload r = [] \<and> mr_has_payload r)"

lemma receive_frame:
  assumes "reader_idle (ms_reader s)" "\<not> ms_failed s"
    and "sendable (mr_payload_capacity (ms_reader s)) fp"
  shows "\<exists>r. mvd_receive s (wire_frame fp) = s\<lparr>ms_reader := r, ms_frames := ms_frames s @ [fp]\<rparr> \<and>
    reader_idle r \<and> mr_payload_capacity r = mr_payload_capacity (ms_reader s)"
proof -
  obtain f p where fp: "fp = (f, p)" by fastforce
  have v: "valid f" "length p = unat (mvd_payload_bytes f)"
    "unat (mvd_payload_bytes f) \<le> mr_payload_capacity (ms_reader s)"
    using assms(3) fp by (auto simp: sendable_def)
  obtain h where h: "mvd_header_encode f = Some h" "length h = 40" using mvd.encode_some [OF v(1)] by blast
  have d: "mvd_header_decode h = Some f" using h(1) by (rule mvd.decode_encode)
  have "h \<noteq> []" using h(2) by auto
  then have wire: "wire_frame fp = h @ p" "h @ p \<noteq> []" "h \<noteq> []" using h fp by (auto simp: wire_frame_def)
  let ?r = "(ms_reader s)\<lparr>mr_header := h, mr_frame := f, mr_payload := p, mr_state := 2\<rparr>"
  have "mvd_reader_feed (ms_reader s) (h @ p) = (1, 40 + length p, ?r)"
    using assms(1) h d v by (simp add: mvd_reader_feed_def feed_payload_def reader_idle_def Let_def)
  then have "mvd_receive s (h @ p) = s\<lparr>ms_reader := mvd_reader_reset ?r,
      ms_frames := ms_frames s @ [(f, p)]\<rparr>"
    using assms(2) wire(2,3) h
    by (simp add: mvd_receive.simps [of s "h @ p"] mvd_receive.simps [of _ "[]"])
  then show ?thesis
    using assms(1) wire(1) fp by (auto simp: reader_idle_def mvd_reader_reset_def)
qed

lemma idle_ok: "reader_idle (ms_reader s) \<Longrightarrow> stream_ok s"
  by (simp add: stream_ok_def reader_ok_def reader_idle_def)

lemma receive_frames:
  assumes "reader_idle (ms_reader s)" "\<not> ms_failed s"
    and "list_all (sendable (mr_payload_capacity (ms_reader s))) fps"
  shows "\<exists>r. mvd_receive s (concat (map wire_frame fps))
      = s\<lparr>ms_reader := r, ms_frames := ms_frames s @ fps\<rparr> \<and> reader_idle r"
  using assms
proof (induction fps arbitrary: s)
  case Nil
  then show ?case
    by (auto intro!: exI [of _ "ms_reader s"] simp: mvd_receive.simps)
next
  case (Cons fp fps)
  obtain r where r: "mvd_receive s (wire_frame fp) = s\<lparr>ms_reader := r, ms_frames := ms_frames s @ [fp]\<rparr>"
    "reader_idle r" "mr_payload_capacity r = mr_payload_capacity (ms_reader s)"
    using receive_frame [OF Cons.prems(1,2), of fp] Cons.prems(3)
    by (metis list.pred_inject(2))
  let ?s1 = "s\<lparr>ms_reader := r, ms_frames := ms_frames s @ [fp]\<rparr>"
  obtain r' where "mvd_receive ?s1 (concat (map wire_frame fps))
      = ?s1\<lparr>ms_reader := r', ms_frames := ms_frames ?s1 @ fps\<rparr>" "reader_idle r'"
    using Cons.IH [of ?s1] r Cons.prems by auto
  then show ?case
    using r(1) mvd_stream.feed_append [OF idle_ok [OF Cons.prems(1)], of "wire_frame fp"] by auto
qed

text \<open>Every byte the reader took is in a delivered frame or in the frame it is reading, so
  nothing is delivered that was not received.\<close>

definition received :: "mvd_stream \<Rightarrow> bytes" where
  "received s = concat (map wire_frame (ms_frames s)) @
     (if ms_failed s then [] else mr_header (ms_reader s) @ mr_payload (ms_reader s))"

lemma receive_one_received:
  assumes "stream_ok s" "\<not> ms_failed s"
  shows "if ms_failed (mvd_receive s [b]) then ms_frames (mvd_receive s [b]) = ms_frames s
    else received (mvd_receive s [b]) = received s @ [b]"
proof -
  obtain rc c r where f: "mvd_reader_feed (ms_reader s) [b] = (rc, c, r)" by (metis prod_cases3)
  have rok: "reader_ok (ms_reader s)" using assms by (simp add: stream_ok_def)
  note ok = feed_one_ok [OF rok f]
  have hp: "mr_header r @ mr_payload r = mr_header (ms_reader s) @ mr_payload (ms_reader s) @ [b]"
    if "0 \<le> rc"
  proof (cases "mr_state (ms_reader s) = 0")
    case True
    then show ?thesis
      using feed_one_header [OF rok True, of b] f rok that
      by (auto simp: Let_def reader_ok_def split: if_splits option.splits)
  next
    case False
    then have "mr_state (ms_reader s) = 1" using rok by (auto simp: reader_ok_def)
    then show ?thesis using feed_one_payload [OF rok, of b] f by (auto simp: Let_def split: if_splits)
  qed
  have "wire_frame (mr_frame r, mr_payload r) = mr_header r @ mr_payload r" if "rc = 1"
    using ok that mvd.encode_decode [of "mr_header r" "mr_frame r"] by (simp add: wire_frame_def)
  then show ?thesis
    using f assms(2) ok hp
    by (auto simp: mvd_receive.simps [of s "[b]"] mvd_receive.simps [of _ "[]"] received_def
        mvd_reader_reset_def)
qed

lemma failed_stays: "ms_failed s \<Longrightarrow> mvd_receive s xs = s"
  by (simp add: mvd_receive.simps)

lemma receive_prefix:
  assumes "stream_ok s" "\<not> ms_failed s"
  shows "\<exists>rest. received s @ xs = concat (map wire_frame (ms_frames (mvd_receive s xs))) @ rest"
  using assms
proof (induction xs arbitrary: s)
  case Nil
  then show ?case by (simp add: mvd_receive.simps received_def)
next
  case (Cons x xs)
  let ?t = "mvd_receive s [x]"
  note step = receive_cons [OF Cons.prems(1), of x xs] and one = receive_one_received [OF Cons.prems, of x]
  show ?case
  proof (cases "ms_failed ?t")
    case True
    then show ?thesis
      using step one failed_stays [OF True, of xs] Cons.prems(2) by (simp add: received_def)
  next
    case False
    then show ?thesis
      using Cons.IH [OF receive_one_ok [OF Cons.prems(1)] False] step one by simp
  qed
qed

section \<open>Properties\<close>

text \<open>C24: Decoding a video or audio header that was encoded gives the header back; what decodes
  from a buffer of the header's size is a well-formed header that encodes to exactly these
  bytes; and exactly the well-formed headers can be encoded.\<close>

theorem wire_roundtrip:
  "(if length bs = MVD_HEADER_BYTES
    then (mvd_header_decode bs = Some f) = (mvd_header_encode f = Some bs)
    else mvd_header_encode f \<noteq> Some bs) \<and>
   (mvd_header_encode f = None \<longleftrightarrow> \<not> valid f) \<and>
   (if length as = 12 then (ma_wire_unpack as = Some (sq, n)) = (ma_wire_pack sq n = Some as)
    else ma_wire_pack sq n \<noteq> Some as) \<and>
   (ma_wire_pack sq n = None \<longleftrightarrow> n = 0 \<or> 1275 < n)"
  using mvd.decode_iff [of bs f] mvd.encode_width [of f bs] mvd.encode_none [of f]
    mao.decode_iff [of as "(sq, n)"] mao.encode_width [of "(sq, n)" as] mao.encode_none [of "(sq, n)"]
  by (auto simp: ma_valid_def MA_WIRE_MAX_PAYLOAD_def not_le)

text \<open>C25: However the network splits the stream into blocks, a client that connects with a
  payload buffer of the given size delivers frames whose wire form is a prefix of what it
  received; and when what it received is the wire form of frames that fit the buffer, it
  delivers exactly these frames, does not fail and waits for the next header.\<close>

theorem mvd_stream_exact:
  "let s = foldl mvd_receive (mvd_connect capacity) cs in
   (\<exists>rest. concat cs = concat (map wire_frame (ms_frames s)) @ rest) \<and>
   (if list_all (sendable capacity) fps \<and> concat cs = concat (map wire_frame fps)
    then ms_frames s = fps \<and> \<not> ms_failed s \<and> reader_idle (ms_reader s) else True)"
proof -
  let ?c = "mvd_connect capacity"
  have idle: "reader_idle (ms_reader ?c)" "\<not> ms_failed ?c" "ms_frames ?c = []"
    "mr_payload_capacity (ms_reader ?c) = capacity" "received ?c = []"
    by (simp_all add: mvd_connect_def mvd_reader_init_def reader_idle_def received_def)
  have ok: "stream_ok ?c" using idle(1) by (rule idle_ok)
  have "foldl mvd_receive ?c cs = mvd_receive ?c (concat cs)"
    by (simp add: mvd_stream.feed_concat [OF ok])
  then show ?thesis
    using receive_prefix [OF ok idle(2), of "concat cs"] receive_frames [OF idle(1,2), of fps] idle
    by (auto simp: Let_def)
qed

end
