(* ===== verification/Monitor_Client.thy ===== *)
theory Monitor_Client
  imports Monitor_Wire "HOL-Library.Sublist"
begin

unbundle bit_operations_syntax

text \<open>What the video client does with a complete frame (mvd\_receive in
  net/gui\_monitor\_video\_client.c): it skips heartbeats, changes the decoder when the codec
  changes, waits for a key frame, decodes the frames of its stream and publishes the pictures of
  the announced size. It also holds mvd\_codec\_select, by which the server chooses the codec.
  The decoder (mvd\_video\_decoder\_new and mvd\_video\_decoder\_frame, which call a codec
  library) and the test of the picture lock are arguments.\<close>

definition MVD_FLAG_KEYFRAME :: u8 where "MVD_FLAG_KEYFRAME = 1"
definition MVD_FLAG_HEARTBEAT :: u8 where "MVD_FLAG_HEARTBEAT = 4"

definition MVD_CODEC_BIT :: "u8 \<Rightarrow> u32" where
  "MVD_CODEC_BIT codec = push_bit (unat codec) 1"

abbreviation MVD_CODEC_H264_ANNEXB :: u8 where "MVD_CODEC_H264_ANNEXB \<equiv> 1"
abbreviation MVD_CODEC_HEVC_ANNEXB :: u8 where "MVD_CODEC_HEVC_ANNEXB \<equiv> 2"
abbreviation MVD_CODEC_VP9 :: u8 where "MVD_CODEC_VP9 \<equiv> 3"
abbreviation MVD_CODEC_AV1 :: u8 where "MVD_CODEC_AV1 \<equiv> 4"

definition MVD_CODEC_ALL :: u32 where
  "MVD_CODEC_ALL = MVD_CODEC_BIT MVD_CODEC_H264_ANNEXB OR MVD_CODEC_BIT MVD_CODEC_HEVC_ANNEXB OR
     MVD_CODEC_BIT MVD_CODEC_VP9 OR MVD_CODEC_BIT MVD_CODEC_AV1"

section \<open>The choice of the codec\<close>

fun first_codec :: "u32 \<Rightarrow> u8 list \<Rightarrow> u8 option" where
  "first_codec codecs [] = None"
| "first_codec codecs (c # cs) = (if codecs AND MVD_CODEC_BIT c \<noteq> 0 then Some c else first_codec codecs cs)"

definition preference :: "u8 list" where
  "preference = [MVD_CODEC_AV1, MVD_CODEC_VP9, MVD_CODEC_HEVC_ANNEXB, MVD_CODEC_H264_ANNEXB]"

definition realtime_software :: "u8 list" where
  "realtime_software = [MVD_CODEC_VP9, MVD_CODEC_HEVC_ANNEXB, MVD_CODEC_AV1, MVD_CODEC_H264_ANNEXB]"

definition mvd_codec_select :: "u32 \<Rightarrow> u32 \<Rightarrow> u32 \<Rightarrow> u8" where
  "mvd_codec_select client hw sw =
     (let allowed = client AND MVD_CODEC_ALL in
      case first_codec (allowed AND hw) preference of
        Some c \<Rightarrow> c
      | None \<Rightarrow> case first_codec (allowed AND sw) realtime_software of
          Some c \<Rightarrow> c
        | None \<Rightarrow> 0)"

text \<open>The encoder of a connection: the candidate mvd\_codec\_select names is opened, and is
  struck out when that fails.  Whether a backend opens (try\_create) is an argument; the result
  is the codec and whether the encoder is a hardware one.\<close>

definition mvd_video_encoder_mask :: "bool \<Rightarrow> (bool \<Rightarrow> u32) \<Rightarrow> bool \<Rightarrow> u32" where
  "mvd_video_encoder_mask avc_available ff_encode_mask hw =
     ff_encode_mask hw OR (if \<not> hw \<and> avc_available then MVD_CODEC_BIT MVD_CODEC_H264_ANNEXB else 0)"

fun encoder_attempts ::
  "nat \<Rightarrow> (u8 \<Rightarrow> bool \<Rightarrow> bool) \<Rightarrow> u32 \<Rightarrow> u32 \<Rightarrow> u32 \<Rightarrow> (u8 \<times> bool) option" where
  "encoder_attempts 0 opens client hw sw = None"
| "encoder_attempts (Suc n) opens client hw sw =
     (let codec = mvd_codec_select client hw sw in
      if codec = 0 then None
      else let hardware = (hw AND MVD_CODEC_BIT codec \<noteq> 0) in
        if opens codec hardware then Some (codec, hardware)
        else if hardware then encoder_attempts n opens client (hw AND NOT (MVD_CODEC_BIT codec)) sw
        else encoder_attempts n opens client hw (sw AND NOT (MVD_CODEC_BIT codec)))"

definition mvd_video_encoder_best ::
  "(u8 \<Rightarrow> bool \<Rightarrow> bool) \<Rightarrow> (bool \<Rightarrow> u32) \<Rightarrow> u32 \<Rightarrow> (u8 \<times> bool) option" where
  "mvd_video_encoder_best opens encoder_mask client =
     encoder_attempts 8 opens client (encoder_mask True AND client) (encoder_mask False AND client)"

subsection \<open>The reference order\<close>

text \<open>All backends, the preferred ones first.\<close>

definition backends :: "(u8 \<times> bool) list" where
  "backends = map (\<lambda>c. (c, True)) preference @ map (\<lambda>c. (c, False)) realtime_software"

definition offered :: "u32 \<Rightarrow> u32 \<Rightarrow> u8 \<times> bool \<Rightarrow> bool" where
  "offered hw sw b = bit (if snd b then hw else sw) (unat (fst b))"

lemma codec_bit [simp]: "x AND MVD_CODEC_BIT c = 0 \<longleftrightarrow> \<not> bit x (unat c)"
  by (simp add: MVD_CODEC_BIT_def push_bit_eq_mult and_exp_eq_0_iff_not_bit)

lemma bit_codec_bit: "bit (MVD_CODEC_BIT c) n \<longleftrightarrow> n = unat c \<and> n < 32"
  by (auto simp: MVD_CODEC_BIT_def push_bit_eq_mult bit_exp_iff)

lemma bit_all: "bit MVD_CODEC_ALL n \<longleftrightarrow> n \<in> {1, 2, 3, 4}"
  by (auto simp: MVD_CODEC_ALL_def bit_or_iff bit_codec_bit)

lemma first_codec_filter:
  "first_codec codecs cs = (case filter (\<lambda>c. bit codecs (unat c)) cs of [] \<Rightarrow> None | c # _ \<Rightarrow> Some c)"
  by (induction cs) auto

lemma codecs_of_lists:
  "c \<in> set preference \<Longrightarrow> unat c \<in> {1, 2, 3, 4}" "c \<in> set realtime_software \<Longrightarrow> unat c \<in> {1, 2, 3, 4}"
  by (auto simp: preference_def realtime_software_def)

lemma offered_backends:
  "filter (offered hw sw) backends =
     map (\<lambda>c. (c, True)) (filter (\<lambda>c. bit hw (unat c)) preference) @
     map (\<lambda>c. (c, False)) (filter (\<lambda>c. bit sw (unat c)) realtime_software)"
  by (simp add: backends_def filter_map comp_def offered_def)

lemma select_is_first:
  assumes "hw AND client = hw" "sw AND client = sw"
  shows "mvd_codec_select client hw sw = (case filter (offered hw sw) backends of [] \<Rightarrow> 0 | b # _ \<Rightarrow> fst b)"
proof -
  have sub: "bit hw n \<longrightarrow> bit client n" "bit sw n \<longrightarrow> bit client n" for n
    using assms by (metis bit_and_iff)+
  have f: "filter (\<lambda>c. bit ((client AND MVD_CODEC_ALL) AND hw) (unat c)) preference
      = filter (\<lambda>c. bit hw (unat c)) preference"
    "filter (\<lambda>c. bit ((client AND MVD_CODEC_ALL) AND sw) (unat c)) realtime_software
      = filter (\<lambda>c. bit sw (unat c)) realtime_software"
    using sub codecs_of_lists by (auto simp: bit_and_iff bit_all intro!: filter_cong)
  show ?thesis
    unfolding mvd_codec_select_def Let_def first_codec_filter f offered_backends
    by (cases "filter (\<lambda>c. bit hw (unat c)) preference";
        cases "filter (\<lambda>c. bit sw (unat c)) realtime_software") simp_all
qed

lemma backends_distinct: "distinct backends" by code_simp

lemma backends_nonzero: "b \<in> set backends \<Longrightarrow> fst b \<noteq> 0 \<and> unat (fst b) \<in> {1, 2, 3, 4}"
  by (auto simp: backends_def preference_def realtime_software_def)

lemma struck:
  "x \<in> set backends \<Longrightarrow>
   offered (if snd b then hw AND NOT (MVD_CODEC_BIT (fst b)) else hw)
     (if snd b then sw else sw AND NOT (MVD_CODEC_BIT (fst b))) x \<longleftrightarrow> offered hw sw x \<and> x \<noteq> b"
  using backends_nonzero [of x]
  by (cases x; cases b)
    (auto simp: offered_def bit_and_iff bit_not_iff bit_codec_bit word_unat_eq_iff split: if_splits)

lemma first_backend_hardware:
  assumes "filter (offered hw sw) backends = b # bs"
  shows "bit hw (unat (fst b)) \<longleftrightarrow> snd b"
proof (cases "filter (\<lambda>c. bit hw (unat c)) preference")
  case Nil
  then have "snd b = False" "fst b \<in> set realtime_software"
    using assms unfolding offered_backends
    by (auto simp: Cons_eq_map_conv) (metis filter_is_subset list.set_intros(1) subsetD)
  moreover have "set realtime_software = set preference" by (auto simp: preference_def realtime_software_def)
  ultimately show ?thesis using Nil by (auto simp: filter_empty_conv)
next
  case (Cons c cs)
  then have "b = (c, True)" using assms unfolding offered_backends Cons by simp
  moreover have "c \<in> set (filter (\<lambda>c. bit hw (unat c)) preference)" unfolding Cons by simp
  ultimately show ?thesis by simp
qed

text \<open>Striking out a backend removes it from the offered ones and no other.\<close>

lemma strike:
  assumes "filter (offered hw sw) backends = b # bs"
  shows "filter (offered (if snd b then hw AND NOT (MVD_CODEC_BIT (fst b)) else hw)
      (if snd b then sw else sw AND NOT (MVD_CODEC_BIT (fst b)))) backends = bs"
proof -
  have "b \<notin> set bs" using backends_distinct assms by (metis distinct.simps(2) distinct_filter)
  then have "filter (\<lambda>x. x \<noteq> b) (b # bs) = bs" by (simp add: filter_id_conv) metis
  moreover have "filter (offered (if snd b then hw AND NOT (MVD_CODEC_BIT (fst b)) else hw)
      (if snd b then sw else sw AND NOT (MVD_CODEC_BIT (fst b)))) backends
      = filter (\<lambda>x. x \<noteq> b) (filter (offered hw sw) backends)"
    unfolding filter_filter
    by (rule filter_cong [OF refl]) (use struck in simp)
  ultimately show ?thesis by (simp add: assms)
qed

lemma attempts_find:
  assumes "hw AND client = hw" "sw AND client = sw"
    and "length (filter (offered hw sw) backends) \<le> n"
  shows "encoder_attempts n opens client hw sw =
    find (\<lambda>b. opens (fst b) (snd b)) (filter (offered hw sw) backends)"
  using assms
proof (induction n arbitrary: hw sw)
  case 0
  then show ?case by simp
next
  case (Suc n)
  note sel = select_is_first [OF Suc.prems(1,2)]
  show ?case
  proof (cases "filter (offered hw sw) backends")
    case Nil
    then show ?thesis using sel by simp
  next
    case (Cons b bs)
    have "b \<in> set backends" using Cons by (metis filter_is_subset list.set_intros(1) subsetD)
    note nz = backends_nonzero [OF this]
    have sub: "(hw AND NOT (MVD_CODEC_BIT (fst b))) AND client = hw AND NOT (MVD_CODEC_BIT (fst b))"
      "(sw AND NOT (MVD_CODEC_BIT (fst b))) AND client = sw AND NOT (MVD_CODEC_BIT (fst b))"
      using Suc.prems(1,2) by (metis and.assoc and.commute)+
    show ?thesis
      using Suc.IH sub strike [OF Cons] sel Cons nz first_backend_hardware [OF Cons] Suc.prems
      by (cases "snd b"; cases b) (simp_all add: Let_def)
  qed
qed

lemma find_filter: "find P (filter Q xs) = find (\<lambda>x. Q x \<and> P x) xs"
  by (induction xs) auto

lemma sub_mask: "((m :: u32) AND client) AND client = m AND client"
  by (simp add: and.assoc)

section \<open>One frame at the client\<close>

record 'd mvd_client =
  cl_open :: bool
  cl_decoder :: "'d option"
  cl_current_codec :: u8
  cl_synced :: bool
  cl_failed_codecs :: u32
  cl_published :: "(mvd_frame_header \<times> bytes) list"

definition client_init :: "u32 \<Rightarrow> 'd mvd_client" where
  "client_init failed = \<lparr>cl_open = True, cl_decoder = None, cl_current_codec = 0,
     cl_synced = False, cl_failed_codecs = failed, cl_published = []\<rparr>"

text \<open>A codec other than H.264 that does not work is not asked for again.\<close>

definition codec_failed :: "u8 \<Rightarrow> 'd mvd_client \<Rightarrow> 'd mvd_client" where
  "codec_failed c s =
     (if c \<noteq> MVD_CODEC_H264_ANNEXB
      then s\<lparr>cl_open := False, cl_failed_codecs := cl_failed_codecs s OR MVD_CODEC_BIT c\<rparr>
      else s\<lparr>cl_open := False\<rparr>)"

definition change_codec ::
  "u32 \<Rightarrow> (u8 \<Rightarrow> 'd option) \<Rightarrow> u8 \<Rightarrow> 'd mvd_client \<Rightarrow> 'd mvd_client" where
  "change_codec codecs new c s =
     (if c = cl_current_codec s then s
      else let s1 = s\<lparr>cl_decoder := None, cl_current_codec := c, cl_synced := False\<rparr> in
        if codecs AND MVD_CODEC_BIT c = 0 then s1\<lparr>cl_open := False\<rparr>
        else case new c of
          None \<Rightarrow> codec_failed c s1
        | Some d \<Rightarrow> s1\<lparr>cl_decoder := Some d\<rparr>)"

text \<open>The decoder's answer is its result, the width and height, the picture and its new state.\<close>

type_synonym 'd decode = "'d \<Rightarrow> bytes \<Rightarrow> int \<times> u32 \<times> u32 \<times> bytes \<times> 'd"

definition decode_frame ::
  "'d decode \<Rightarrow> u32 \<Rightarrow> bool \<Rightarrow> mvd_frame_header \<Rightarrow> bytes \<Rightarrow> 'd mvd_client \<Rightarrow> 'd mvd_client" where
  "decode_frame decode channel busy h packet s =
     (if cl_synced s \<and> mvd_stream_id h = channel + 1 \<and> mvd_payload_bytes h \<le> MVD_MAX_PAYLOAD
      then case cl_decoder s of
          None \<Rightarrow> codec_failed (mvd_codec h) s
        | Some d \<Rightarrow>
            (case decode d packet of (produced, w, ht, output, d') \<Rightarrow>
              let s1 = s\<lparr>cl_decoder := Some d'\<rparr>;
                  s2 = (if produced = 1 \<and> w = ucast (mvd_width h) \<and> ht = ucast (mvd_height h) \<and> \<not> busy
                        then s1\<lparr>cl_published := cl_published s1 @
                               [(h, take (unat w * unat ht * 4) output)]\<rparr>
                        else s1)
              in if produced < 0 then codec_failed (mvd_codec h) s2 else s2)
      else s)"

definition client_frame ::
  "u32 \<Rightarrow> (u8 \<Rightarrow> 'd option) \<Rightarrow> 'd decode \<Rightarrow> u32 \<Rightarrow> 'd mvd_client \<Rightarrow>
   bool \<times> mvd_frame_header \<times> bytes \<Rightarrow> 'd mvd_client" where
  "client_frame codecs new decode channel s e =
     (case e of (busy, h, packet) \<Rightarrow>
        if \<not> cl_open s \<or> mvd_flags h AND MVD_FLAG_HEARTBEAT \<noteq> 0 then s
        else let s1 = change_codec codecs new (mvd_codec h) s in
          if \<not> cl_open s1 then s1
          else let s2 = (if mvd_flags h AND MVD_FLAG_KEYFRAME \<noteq> 0 then s1\<lparr>cl_synced := True\<rparr> else s1)
            in decode_frame decode channel busy h packet s2)"

definition client_frames where
  "client_frames codecs new decode channel failed es =
     foldl (client_frame codecs new decode channel) (client_init failed) es"


section \<open>What the decoder has been given\<close>

definition heartbeat :: "mvd_frame_header \<times> bytes \<Rightarrow> bool" where
  "heartbeat f = (mvd_flags (fst f) AND MVD_FLAG_HEARTBEAT \<noteq> 0)"

definition keyframe :: "mvd_frame_header \<times> bytes \<Rightarrow> bool" where
  "keyframe f = (mvd_flags (fst f) AND MVD_FLAG_KEYFRAME \<noteq> 0)"

definition own :: "u32 \<Rightarrow> mvd_frame_header \<times> bytes \<Rightarrow> bool" where
  "own channel f = (mvd_stream_id (fst f) = channel + 1 \<and> mvd_payload_bytes (fst f) \<le> MVD_MAX_PAYLOAD)"

text \<open>The frames received since the codec was last changed to the given one.\<close>

definition last_run ::
  "u8 \<Rightarrow> (mvd_frame_header \<times> bytes) list \<Rightarrow> (mvd_frame_header \<times> bytes) list" where
  "last_run c fs = rev (takeWhile (\<lambda>f. mvd_codec (fst f) = c) (rev (filter (\<lambda>f. \<not> heartbeat f) fs)))"

definition units :: "u32 \<Rightarrow> u8 \<Rightarrow> (mvd_frame_header \<times> bytes) list \<Rightarrow> bytes list" where
  "units channel c fs =
     map snd (filter (own channel) (dropWhile (\<lambda>f. \<not> keyframe f) (last_run c fs)))"

definition feeds :: "'d decode \<Rightarrow> 'd \<Rightarrow> bytes list \<Rightarrow> 'd" where
  "feeds decode d ps = foldl (\<lambda>d p. snd (snd (snd (snd (decode d p))))) d ps"

definition last_codec :: "(mvd_frame_header \<times> bytes) list \<Rightarrow> u8" where
  "last_codec fs = (case rev (filter (\<lambda>f. \<not> heartbeat f) fs) of [] \<Rightarrow> 0 | f # _ \<Rightarrow> mvd_codec (fst f))"

lemma last_run_snoc:
  "last_run c (fs @ [f]) = (if heartbeat f then last_run c fs
     else if mvd_codec (fst f) = c then last_run c fs @ [f] else [])"
  by (simp add: last_run_def)

lemma last_codec_snoc:
  "last_codec (fs @ [f]) = (if heartbeat f then last_codec fs else mvd_codec (fst f))"
  by (simp add: last_codec_def)

lemma last_run_other: "c \<noteq> last_codec fs \<Longrightarrow> last_run c fs = []"
  by (auto simp: last_run_def last_codec_def split: list.splits)

lemma dropWhile_snoc:
  "dropWhile P (xs @ [x]) = (if \<exists>y\<in>set xs. \<not> P y then dropWhile P xs @ [x] else if P x then [] else [x])"
  by (induction xs) auto

lemma units_snoc:
  "units channel c (fs @ [f]) =
     (if heartbeat f then units channel c fs
      else if mvd_codec (fst f) \<noteq> c then []
      else if list_ex keyframe (last_run c fs @ [f]) \<and> own channel f
      then units channel c fs @ [snd f] else units channel c fs)"
proof -
  have none: "units channel c fs = []" if "\<not> list_ex keyframe (last_run c fs)"
  proof -
    have "dropWhile (\<lambda>f. \<not> keyframe f) (last_run c fs) = []"
      using that by (simp add: list_ex_iff)
    then show ?thesis unfolding units_def by (simp only: filter.simps list.map)
  qed
  then show ?thesis
    by (auto simp: units_def last_run_snoc dropWhile_snoc list_ex_iff)
qed

lemma feeds_simps [simp]:
  "feeds decode d [] = d"
  "feeds decode d (ps @ [p]) = snd (snd (snd (snd (decode (feeds decode d ps) p))))"
  by (simp_all add: feeds_def)

text \<open>The invariant of a connection that is still open.\<close>

definition client_inv ::
  "(u8 \<Rightarrow> 'd option) \<Rightarrow> 'd decode \<Rightarrow> u32 \<Rightarrow> (mvd_frame_header \<times> bytes) list \<Rightarrow> 'd mvd_client \<Rightarrow> bool"
  where
  "client_inv new decode channel fs s =
     (cl_open s \<longrightarrow> cl_current_codec s = last_codec fs \<and>
      cl_synced s = list_ex keyframe (last_run (last_codec fs) fs) \<and>
      (last_codec fs = 0 \<or>
       (\<exists>d. new (last_codec fs) = Some d \<and>
            cl_decoder s = Some (feeds decode d (units channel (last_codec fs) fs)))))"

lemma codec_failed_closed [simp]: "cl_open (codec_failed c s) = False"
  by (simp add: codec_failed_def)

lemma change_codec_open:
  "cl_open (change_codec codecs new c s) \<Longrightarrow>
   change_codec codecs new c s = s \<and> c = cl_current_codec s \<or>
   c \<noteq> cl_current_codec s \<and> (\<exists>d. new c = Some d \<and>
     change_codec codecs new c s =
       s\<lparr>cl_decoder := Some d, cl_current_codec := c, cl_synced := False\<rparr>)"
  by (auto simp: change_codec_def Let_def split: if_splits option.splits)

lemma unat_ucast_16_32 [simp]: "unat (ucast (x :: u16) :: u32) = unat x"
proof -
  have "unat x < 2 ^ 32" by (rule order_less_trans [OF unsigned_less]) simp
  then show ?thesis by (simp add: unsigned_ucast_eq take_bit_nat_eq_self)
qed

lemma decode_frame_open:
  assumes "cl_open (decode_frame decode channel busy h packet s)" "cl_open s"
  shows "cl_current_codec (decode_frame decode channel busy h packet s) = cl_current_codec s"
    "cl_synced (decode_frame decode channel busy h packet s) = cl_synced s"
    "cl_decoder (decode_frame decode channel busy h packet s) =
       (if cl_synced s \<and> own channel (h, packet)
        then map_option (\<lambda>d. feeds decode d [packet]) (cl_decoder s) else cl_decoder s)"
    "cl_published (decode_frame decode channel busy h packet s) = cl_published s \<or>
     (\<exists>pic. own channel (h, packet) \<and> length pic \<le> unat (mvd_width h) * unat (mvd_height h) * 4 \<and>
       cl_published (decode_frame decode channel busy h packet s) = cl_published s @ [(h, pic)])"
  using assms feeds_simps(2) [of decode _ "[]" packet]
  by (auto simp: decode_frame_def own_def Let_def unsigned_ucast_eq split: option.splits prod.splits if_splits)

lemma client_inv_step:
  assumes "client_inv new decode channel fs s"
  shows "client_inv new decode channel (fs @ [(h, p)]) (client_frame codecs new decode channel s (busy, h, p))"
proof (cases "cl_open (client_frame codecs new decode channel s (busy, h, p)) \<and> \<not> heartbeat (h, p)")
  case False
  then show ?thesis
    using assms by (auto simp: client_inv_def client_frame_def heartbeat_def units_snoc last_codec_snoc
        last_run_snoc)
next
  case True
  let ?s1 = "change_codec codecs new (mvd_codec h) s"
  let ?s2 = "if mvd_flags h AND MVD_FLAG_KEYFRAME \<noteq> 0 then ?s1\<lparr>cl_synced := True\<rparr> else ?s1"
  let ?t = "decode_frame decode channel busy h p ?s2"
  have nhb: "\<not> heartbeat (h, p)" using True by simp
  have t: "client_frame codecs new decode channel s (busy, h, p) = ?t" and open': "cl_open s" "cl_open ?s1" "cl_open ?t"
    using True by (auto simp: client_frame_def heartbeat_def Let_def split: if_splits)
  have i: "cl_current_codec s = last_codec fs"
    "cl_synced s = list_ex keyframe (last_run (last_codec fs) fs)"
    "last_codec fs = 0 \<or> (\<exists>d. new (last_codec fs) = Some d \<and>
       cl_decoder s = Some (feeds decode d (units channel (last_codec fs) fs)))"
    using assms open'(1) by (auto simp: client_inv_def)
  note d = decode_frame_open [OF open'(3)]
  have o2: "cl_open ?s2" using open'(2) by simp
  have c: "cl_current_codec ?t = cl_current_codec ?s1" "cl_synced ?t = (cl_synced ?s1 \<or> keyframe (h, p))"
    "cl_decoder ?t = (if (cl_synced ?s1 \<or> keyframe (h, p)) \<and> own channel (h, p)
        then map_option (\<lambda>d. feeds decode d [p]) (cl_decoder ?s1) else cl_decoder ?s1)"
    using d(1-3) [OF o2] by (auto simp: keyframe_def)
  show ?thesis
    using change_codec_open [OF open'(2)]
  proof (elim disjE conjE exE)
    assume same: "?s1 = s" "mvd_codec h = cl_current_codec s"
    then show ?thesis
      using i c nhb feeds_simps(2) [of decode _ "units channel (last_codec fs) fs" p]
        feeds_simps(2) [of decode _ "[]" p]
      unfolding t client_inv_def
      by (auto simp: last_codec_snoc last_run_snoc units_snoc)
  next
    fix d
    assume new: "mvd_codec h \<noteq> cl_current_codec s" "new (mvd_codec h) = Some d"
      "?s1 = s\<lparr>cl_decoder := Some d, cl_current_codec := mvd_codec h, cl_synced := False\<rparr>"
    then have "last_run (mvd_codec h) fs = []" using i(1) last_run_other by simp
    moreover from this have "units channel (mvd_codec h) fs = []" by (simp add: units_def)
    ultimately show ?thesis
      using i c new nhb feeds_simps(2) [of decode _ "[]" p]
      unfolding t client_inv_def
      by (auto simp: last_codec_snoc last_run_snoc units_snoc)
  qed
qed

lemma client_frames_inv:
  "client_inv new decode channel (map snd es) (client_frames codecs new decode channel failed es)"
proof (induction es rule: rev_induct)
  case Nil
  show ?case by (simp add: client_inv_def client_frames_def client_init_def last_codec_def last_run_def)
next
  case (snoc e es)
  then show ?case
    using client_inv_step [of new decode channel "map snd es" _ "fst (snd e)" "snd (snd e)" codecs "fst e"]
    by (simp add: client_frames_def)
qed

text \<open>What is published.\<close>

lemma client_frame_published:
  "cl_published (client_frame codecs new decode channel s (busy, h, p)) = cl_published s \<or>
   (\<exists>pic. own channel (h, p) \<and> \<not> heartbeat (h, p) \<and>
      length pic \<le> unat (mvd_width h) * unat (mvd_height h) * 4 \<and>
      cl_published (client_frame codecs new decode channel s (busy, h, p)) = cl_published s @ [(h, pic)])"
proof -
  have "cl_published (change_codec codecs new c s) = cl_published s" for c
    by (simp add: change_codec_def codec_failed_def Let_def split: option.split)
  then show ?thesis
    by (auto simp: client_frame_def decode_frame_def codec_failed_def own_def heartbeat_def Let_def
        split: option.splits prod.splits)
qed

section \<open>Properties\<close>


text \<open>C27: While the connection of a video client is open, its decoder has been given exactly
  the payloads of the frames of its stream that arrived since the codec last changed, from the
  first key frame on, in order and without a gap; the published pictures belong to frames of its
  stream other than heartbeats, in the order of arrival, and are no larger than announced.\<close>

theorem client_decoding:
  "let s = client_frames codecs new decode channel failed es; fs = map snd es; c = cl_current_codec s in
   (if cl_open s \<and> c \<noteq> 0
    then \<exists>d. new c = Some d \<and> cl_decoder s = Some (feeds decode d (units channel c fs)) else True) \<and>
   subseq (map fst (cl_published s)) (map fst (filter (\<lambda>f. own channel f \<and> \<not> heartbeat f) fs)) \<and>
   list_all (\<lambda>(h, pic). length pic \<le> unat (mvd_width h) * unat (mvd_height h) * 4) (cl_published s)"
proof -
  let ?s = "\<lambda>es. client_frames codecs new decode channel failed es"
  have "subseq (map fst (cl_published (?s es))) (map fst (filter (\<lambda>f. own channel f \<and> \<not> heartbeat f) (map snd es))) \<and>
    list_all (\<lambda>(h, pic). length pic \<le> unat (mvd_width h) * unat (mvd_height h) * 4) (cl_published (?s es))"
  proof (induction es rule: rev_induct)
    case (snoc e es)
    then show ?case
      using client_frame_published [of codecs new decode channel "?s es" "fst e" "fst (snd e)" "snd (snd e)"]
      by (auto simp: client_frames_def subseq_rev_drop_many)
  qed (simp add: client_frames_def client_init_def)
  then show ?thesis
    using client_frames_inv [of new decode channel es codecs failed] by (auto simp: client_inv_def Let_def)
qed

end
