(* ===== verification/Local_Save_Protocol.thy ===== *)
theory Local_Save_Protocol
  imports Prelude
begin

unbundle bit_operations_syntax

text \<open>
  The frames of the local-save connection (misrc\_gui/net/monitor\_local\_save\_protocol.c):
  their 24-byte little-endian header, the CRC of the payload and the file names a frame may
  carry.
\<close>

section \<open>Fields\<close>

definition le32 :: "u32 \<Rightarrow> bytes" where
  "le32 n = map (\<lambda>i. ucast (drop_bit (8 * i) n)) [0..<4]"

definition le64 :: "u64 \<Rightarrow> bytes" where
  "le64 n = map (\<lambda>i. ucast (drop_bit (8 * i) n)) [0..<8]"

definition get_u32 :: "bytes \<Rightarrow> nat \<Rightarrow> u32" where
  "get_u32 p o1 = fold (\<lambda>i n. n OR push_bit (i * 8) (ucast (p ! (o1 + i)))) [0..<4] 0"

definition get_u64 :: "bytes \<Rightarrow> nat \<Rightarrow> u64" where
  "get_u64 p o1 = fold (\<lambda>i n. n OR push_bit (i * 8) (ucast (p ! (o1 + i)))) [0..<8] 0"

section \<open>The payload CRC\<close>

definition crc_table :: "u32 list" where
  "crc_table = [
     0x00000000, 0x77073096, 0xee0e612c, 0x990951ba, 0x076dc419, 0x706af48f,
     0xe963a535, 0x9e6495a3, 0x0edb8832, 0x79dcb8a4, 0xe0d5e91e, 0x97d2d988,
     0x09b64c2b, 0x7eb17cbd, 0xe7b82d07, 0x90bf1d91, 0x1db71064, 0x6ab020f2,
     0xf3b97148, 0x84be41de, 0x1adad47d, 0x6ddde4eb, 0xf4d4b551, 0x83d385c7,
     0x136c9856, 0x646ba8c0, 0xfd62f97a, 0x8a65c9ec, 0x14015c4f, 0x63066cd9,
     0xfa0f3d63, 0x8d080df5, 0x3b6e20c8, 0x4c69105e, 0xd56041e4, 0xa2677172,
     0x3c03e4d1, 0x4b04d447, 0xd20d85fd, 0xa50ab56b, 0x35b5a8fa, 0x42b2986c,
     0xdbbbc9d6, 0xacbcf940, 0x32d86ce3, 0x45df5c75, 0xdcd60dcf, 0xabd13d59,
     0x26d930ac, 0x51de003a, 0xc8d75180, 0xbfd06116, 0x21b4f4b5, 0x56b3c423,
     0xcfba9599, 0xb8bda50f, 0x2802b89e, 0x5f058808, 0xc60cd9b2, 0xb10be924,
     0x2f6f7c87, 0x58684c11, 0xc1611dab, 0xb6662d3d, 0x76dc4190, 0x01db7106,
     0x98d220bc, 0xefd5102a, 0x71b18589, 0x06b6b51f, 0x9fbfe4a5, 0xe8b8d433,
     0x7807c9a2, 0x0f00f934, 0x9609a88e, 0xe10e9818, 0x7f6a0dbb, 0x086d3d2d,
     0x91646c97, 0xe6635c01, 0x6b6b51f4, 0x1c6c6162, 0x856530d8, 0xf262004e,
     0x6c0695ed, 0x1b01a57b, 0x8208f4c1, 0xf50fc457, 0x65b0d9c6, 0x12b7e950,
     0x8bbeb8ea, 0xfcb9887c, 0x62dd1ddf, 0x15da2d49, 0x8cd37cf3, 0xfbd44c65,
     0x4db26158, 0x3ab551ce, 0xa3bc0074, 0xd4bb30e2, 0x4adfa541, 0x3dd895d7,
     0xa4d1c46d, 0xd3d6f4fb, 0x4369e96a, 0x346ed9fc, 0xad678846, 0xda60b8d0,
     0x44042d73, 0x33031de5, 0xaa0a4c5f, 0xdd0d7cc9, 0x5005713c, 0x270241aa,
     0xbe0b1010, 0xc90c2086, 0x5768b525, 0x206f85b3, 0xb966d409, 0xce61e49f,
     0x5edef90e, 0x29d9c998, 0xb0d09822, 0xc7d7a8b4, 0x59b33d17, 0x2eb40d81,
     0xb7bd5c3b, 0xc0ba6cad, 0xedb88320, 0x9abfb3b6, 0x03b6e20c, 0x74b1d29a,
     0xead54739, 0x9dd277af, 0x04db2615, 0x73dc1683, 0xe3630b12, 0x94643b84,
     0x0d6d6a3e, 0x7a6a5aa8, 0xe40ecf0b, 0x9309ff9d, 0x0a00ae27, 0x7d079eb1,
     0xf00f9344, 0x8708a3d2, 0x1e01f268, 0x6906c2fe, 0xf762575d, 0x806567cb,
     0x196c3671, 0x6e6b06e7, 0xfed41b76, 0x89d32be0, 0x10da7a5a, 0x67dd4acc,
     0xf9b9df6f, 0x8ebeeff9, 0x17b7be43, 0x60b08ed5, 0xd6d6a3e8, 0xa1d1937e,
     0x38d8c2c4, 0x4fdff252, 0xd1bb67f1, 0xa6bc5767, 0x3fb506dd, 0x48b2364b,
     0xd80d2bda, 0xaf0a1b4c, 0x36034af6, 0x41047a60, 0xdf60efc3, 0xa867df55,
     0x316e8eef, 0x4669be79, 0xcb61b38c, 0xbc66831a, 0x256fd2a0, 0x5268e236,
     0xcc0c7795, 0xbb0b4703, 0x220216b9, 0x5505262f, 0xc5ba3bbe, 0xb2bd0b28,
     0x2bb45a92, 0x5cb36a04, 0xc2d7ffa7, 0xb5d0cf31, 0x2cd99e8b, 0x5bdeae1d,
     0x9b64c2b0, 0xec63f226, 0x756aa39c, 0x026d930a, 0x9c0906a9, 0xeb0e363f,
     0x72076785, 0x05005713, 0x95bf4a82, 0xe2b87a14, 0x7bb12bae, 0x0cb61b38,
     0x92d28e9b, 0xe5d5be0d, 0x7cdcefb7, 0x0bdbdf21, 0x86d3d2d4, 0xf1d4e242,
     0x68ddb3f8, 0x1fda836e, 0x81be16cd, 0xf6b9265b, 0x6fb077e1, 0x18b74777,
     0x88085ae6, 0xff0f6a70, 0x66063bca, 0x11010b5c, 0x8f659eff, 0xf862ae69,
     0x616bffd3, 0x166ccf45, 0xa00ae278, 0xd70dd2ee, 0x4e048354, 0x3903b3c2,
     0xa7672661, 0xd06016f7, 0x4969474d, 0x3e6e77db, 0xaed16a4a, 0xd9d65adc,
     0x40df0b66, 0x37d83bf0, 0xa9bcae53, 0xdebb9ec5, 0x47b2cf7f, 0x30b5ffe9,
     0xbdbdf21c, 0xcabac28a, 0x53b39330, 0x24b4a3a6, 0xbad03605, 0xcdd70693,
     0x54de5729, 0x23d967bf, 0xb3667a2e, 0xc4614ab8, 0x5d681b02, 0x2a6f2b94,
     0xb40bbe37, 0xc30c8ea1, 0x5a05df1b, 0x2d02ef8d]"

definition mls_crc32 :: "bytes \<Rightarrow> u32" where
  "mls_crc32 data =
     foldl (\<lambda>crc b. crc_table ! unat ((crc XOR ucast b) AND 0xff) XOR drop_bit 8 crc) 0xffffffff data
       XOR 0xffffffff"

subsection \<open>The reference: one message bit at a time\<close>

text \<open>The shift register of the IEEE 802.3 generator in its reflected form.\<close>

definition crc_shift :: "u32 \<Rightarrow> u32" where
  "crc_shift c = (if bit c 0 then drop_bit 1 c XOR 0xedb88320 else drop_bit 1 c)"

definition crc_bit :: "u32 \<Rightarrow> bool \<Rightarrow> u32" where
  "crc_bit c b = crc_shift (c XOR of_bool b)"

definition byte_bits :: "u8 \<Rightarrow> bool list" where
  "byte_bits b = map (bit b) [0..<8]"

definition crc32_reference :: "bytes \<Rightarrow> u32" where
  "crc32_reference data = NOT (foldl crc_bit (NOT 0) (concat (map byte_bits data)))"

lemma crc_shift_xor: "crc_shift (x XOR y) = crc_shift x XOR crc_shift y"
  by (rule bit_word_eqI) (auto simp: crc_shift_def bit_simps)

lemma crc_shifts_xor: "(crc_shift ^^ k) (x XOR y) = (crc_shift ^^ k) x XOR (crc_shift ^^ k) y"
  by (induction k) (simp_all add: crc_shift_xor)

lemma crc_shifts_high:
  assumes "\<forall>i<k. \<not> bit z i"
  shows "(crc_shift ^^ k) z = drop_bit k z"
  using assms
proof (induction k arbitrary: z)
  case (Suc k)
  have "crc_shift z = drop_bit 1 z" using Suc.prems by (simp add: crc_shift_def)
  moreover have "\<forall>i<k. \<not> bit (drop_bit 1 z) i" using Suc.prems by (simp add: bit_drop_bit_eq)
  ultimately show ?case using Suc.IH [of "drop_bit 1 z"] by (simp add: funpow_Suc_right del: funpow.simps)
qed simp

lemma crc_serial:
  assumes "\<forall>i\<ge>k. \<not> bit x i"
  shows "foldl crc_bit c (map (bit x) [0..<k]) = (crc_shift ^^ k) (c XOR x)"
  using assms
proof (induction k arbitrary: c x)
  case 0
  then have "x = 0" by (intro bit_word_eqI) auto
  then show ?case by simp
next
  case (Suc k)
  let ?y = "drop_bit 1 x"
  have split: "x = of_bool (bit x 0) XOR 2 * ?y"
    by (rule bit_word_eqI) (auto simp: bit_simps, (metis Suc_pred neq0_conv)+)
  have even: "crc_shift (2 * ?y) = ?y"
    by (rule bit_word_eqI) (auto simp: crc_shift_def bit_simps dest: bit_imp_le_length)
  have "crc_shift (c XOR x) = crc_bit c (bit x 0) XOR ?y"
    using arg_cong [OF split, of "\<lambda>x. crc_shift (c XOR x)"] even
    by (metis crc_bit_def crc_shift_xor xor.assoc)
  moreover have "map (bit x) [0..<Suc k] = bit x 0 # map (bit ?y) [0..<k]"
    by (rule nth_equalityI) (auto simp: nth_Cons bit_simps split: nat.split simp del: upt_Suc)
  moreover have "\<forall>i\<ge>k. \<not> bit ?y i" using Suc.prems by (simp add: bit_drop_bit_eq)
  ultimately show ?case
    using Suc.IH [of ?y] by (simp add: funpow_Suc_right del: funpow.simps upt_Suc)
qed

subsection \<open>The table is eight steps of the register\<close>

definition doubled :: "u32 list \<Rightarrow> u32 \<Rightarrow> u32 list" where
  "doubled L t = L @ map (\<lambda>x. x XOR t) L"

lemma crc_table_doubled:
  "crc_table = foldl doubled [0] [0x77073096, 0xee0e612c, 0x076dc419, 0x0edb8832, 0x1db71064,
     0x3b6e20c8, 0x76dc4190, 0xedb88320]"
  by (simp add: crc_table_def doubled_def)

lemma of_nat_high_bit:
  assumes "i < 2 ^ k"
  shows "(of_nat (2 ^ k + i) :: u32) = of_nat i XOR 2 ^ k"
proof -
  have "\<not> bit i k" using assms by (metis bit_take_bit_iff order_less_irrefl take_bit_nat_eq_self_iff)
  then have "2 ^ k + i = i XOR 2 ^ k"
    by (metis add.commute and_exp_eq_0_iff_not_bit disjunctive_xor_eq_or disjunctive_add_eq_or)
  then show ?thesis by (simp add: of_nat_xor_eq)
qed

definition shifts :: "nat \<Rightarrow> u32 list" where
  "shifts k = map (\<lambda>i. (crc_shift ^^ 8) (of_nat i)) [0..<2 ^ k]"

lemma shifts_doubled: "shifts (Suc k) = doubled (shifts k) ((crc_shift ^^ 8) (2 ^ k))"
proof -
  have "[0..<2 ^ Suc k] = [0..<2 ^ k] @ map (\<lambda>i. 2 ^ k + i) [0..<2 ^ k]"
    using upt_add_eq_append [of 0 "2 ^ k" "2 ^ k"] map_add_upt [of "2 ^ k" "2 ^ k"]
    by (simp add: mult_2 add.commute)
  then show ?thesis
    unfolding shifts_def
    by (simp add: doubled_def of_nat_high_bit crc_shifts_xor del: funpow.simps of_nat_add)
qed

lemma shift_basis:
  "(crc_shift ^^ 8) 1 = 0x77073096" "(crc_shift ^^ 8) 2 = 0xee0e612c"
  "(crc_shift ^^ 8) 4 = 0x076dc419" "(crc_shift ^^ 8) 8 = 0x0edb8832"
  "(crc_shift ^^ 8) 16 = 0x1db71064" "(crc_shift ^^ 8) 32 = 0x3b6e20c8"
  "(crc_shift ^^ 8) 64 = 0x76dc4190" "(crc_shift ^^ 8) 128 = 0xedb88320"
  by code_simp+

lemma crc_table_eq: "crc_table = map (\<lambda>i. (crc_shift ^^ 8) (of_nat i)) [0..<256]"
proof -
  have "shifts 0 = [0]" using crc_shifts_high [of 8 0] by (simp add: shifts_def del: funpow.simps)
  then have "shifts (Suc (Suc (Suc (Suc (Suc (Suc (Suc (Suc 0)))))))) = crc_table"
    unfolding crc_table_doubled by (simp add: shifts_doubled shift_basis del: funpow.simps)
  moreover have "(2 :: nat) ^ Suc (Suc (Suc (Suc (Suc (Suc (Suc (Suc 0))))))) = 256" by simp
  ultimately show ?thesis unfolding shifts_def by metis
qed

lemma crc_table_nth: "n < 256 \<Longrightarrow> crc_table ! n = (crc_shift ^^ 8) (of_nat n)"
  unfolding crc_table_eq by (simp del: funpow.simps)

lemma low_byte: "unat (x AND 0xff :: u32) < 256"
proof -
  have "x AND 0xff \<le> 0xff" by (rule word_and_le1)
  then show ?thesis by (simp add: word_le_nat_alt)
qed

lemma ff_mask: "(0xff :: u32) = mask 8" "(0xffffffff :: u32) = NOT 0"
  by (simp add: mask_eq_exp_minus_1) (simp add: word_eq_iff_unsigned)

lemma crc_byte_step:
  "crc_table ! unat ((crc XOR ucast b) AND 0xff) XOR drop_bit 8 crc = foldl crc_bit crc (byte_bits b)"
proof -
  let ?x = "crc XOR ucast b"
  have "\<forall>i\<ge>8. \<not> bit (ucast b :: u32) i" by (auto simp: bit_simps dest: bit_imp_le_length)
  moreover have low: "map (bit (ucast b :: u32)) [0..<8] = map (bit b) [0..<8]"
    by (rule map_cong) (auto simp: bit_ucast_iff)
  ultimately have "foldl crc_bit crc (byte_bits b) = (crc_shift ^^ 8) ?x"
    using crc_serial [of 8 "ucast b" crc] by (simp only: byte_bits_def low)
  moreover have "?x = (?x AND 0xff) XOR (?x AND NOT 0xff)"
    by (rule bit_word_eqI) (auto simp: bit_simps)
  moreover have "(crc_shift ^^ 8) (?x AND NOT 0xff) = drop_bit 8 crc"
  proof -
    have "\<not> bit (?x AND NOT 0xff) i" if "i < 8" for i
      using that by (simp add: ff_mask bit_and_iff bit_not_iff bit_mask_iff)
    then have "(crc_shift ^^ 8) (?x AND NOT 0xff) = drop_bit 8 (?x AND NOT 0xff)"
      by (intro crc_shifts_high) blast
    also have "\<dots> = drop_bit 8 crc"
      by (rule bit_word_eqI) (auto simp: ff_mask bit_simps dest: bit_imp_le_length)
    finally show ?thesis .
  qed
  ultimately show ?thesis
    using crc_table_nth [OF low_byte, of ?x] crc_shifts_xor [of 8 "?x AND 0xff" "?x AND NOT 0xff"]
    by (simp del: funpow.simps)
qed

lemma crc_is_reference: "mls_crc32 data = crc32_reference data"
proof -
  have "foldl (\<lambda>crc b. crc_table ! unat ((crc XOR ucast b) AND 0xff) XOR drop_bit 8 crc) c data
      = foldl crc_bit c (concat (map byte_bits data))" for c
    by (induction data arbitrary: c) (simp_all only: crc_byte_step foldl_Cons foldl_Nil list.map concat.simps foldl_append)
  moreover have "x XOR NOT 0 = NOT x" for x :: u32 by simp
  ultimately show ?thesis unfolding mls_crc32_def crc32_reference_def ff_mask(2) by metis
qed

lemma crc_check_value: "mls_crc32 [0x31, 0x32, 0x33, 0x34, 0x35, 0x36, 0x37, 0x38, 0x39] = 0xcbf43926"
  by code_simp

subsection \<open>What the CRC detects\<close>

lemma crc_shift_zero: "crc_shift x = 0 \<Longrightarrow> x = 0"
proof -
  assume z: "crc_shift x = 0"
  have "\<not> bit (crc_shift x) 31" unfolding z by simp
  moreover have "\<not> bit x 32" by (auto dest: bit_imp_le_length)
  ultimately have b0: "\<not> bit x 0" by (auto simp: crc_shift_def bit_simps)
  then have "drop_bit 1 x = 0" using z by (simp add: crc_shift_def)
  then show "x = 0"
  proof (intro bit_word_eqI)
    fix n
    show "bit x n = bit 0 n"
      using b0 arg_cong [OF \<open>drop_bit 1 x = 0\<close>, of "\<lambda>z. bit z (n - 1)"]
      by (cases n) (simp_all add: bit_drop_bit_eq)
  qed
qed

lemma crc_shifts_zero: "(crc_shift ^^ k) x = 0 \<Longrightarrow> x = 0"
  by (induction k) (auto dest: crc_shift_zero)

lemma xor_zero: "(x :: u32) XOR y = 0 \<Longrightarrow> x = y"
  using xor.assoc [of x y y] by simp

lemma xor_cancel:
  assumes "(c :: u32) XOR x = c XOR y"
  shows "x = y"
  using arg_cong [OF assms, of "\<lambda>z. c XOR z"] by (simp flip: xor.assoc)

lemma crc_shifts_inj: "(crc_shift ^^ k) x = (crc_shift ^^ k) y \<Longrightarrow> x = y"
  using crc_shifts_zero [of k "x XOR y"] by (simp add: crc_shifts_xor xor_zero)

text \<open>Up to 32 message bits are determined by the register before and after them.\<close>

definition bits_word :: "bool list \<Rightarrow> u32" where
  "bits_word bs = horner_sum of_bool 2 bs"

lemma bit_bits_word: "length bs \<le> 32 \<Longrightarrow> bit (bits_word bs) i \<longleftrightarrow> i < length bs \<and> bs ! i"
  by (auto simp: bits_word_def bit_horner_sum_bit_iff)

lemma crc_bits_word:
  assumes "length bs \<le> 32"
  shows "foldl crc_bit c bs = (crc_shift ^^ length bs) (c XOR bits_word bs)"
proof -
  have "map (bit (bits_word bs)) [0..<length bs] = bs"
    by (rule nth_equalityI) (simp_all add: bit_bits_word assms)
  then show ?thesis
    using crc_serial [of "length bs" "bits_word bs" c] by (simp add: bit_bits_word assms)
qed

lemma crc_bits_inj:
  assumes "length bs \<le> 32" "length bs = length ds" "foldl crc_bit c bs = foldl crc_bit c ds"
  shows "bs = ds"
proof -
  have "bits_word bs = bits_word ds"
    using assms crc_shifts_inj [of "length ds" "c XOR bits_word bs" "c XOR bits_word ds"]
    by (simp add: crc_bits_word) (metis xor_cancel)
  then have "bs ! i = ds ! i" if "i < length bs" for i
    using that assms(1,2) by (metis bit_bits_word)
  then show ?thesis using assms(2) by (simp add: nth_equalityI)
qed

lemma crc_register_inj: "foldl crc_bit c bs = foldl crc_bit d bs \<Longrightarrow> c = d"
proof (induction bs arbitrary: c d)
  case (Cons b bs)
  then have "crc_bit c b = crc_bit d b" by simp
  then show ?case using crc_shifts_inj [of 1 "c XOR of_bool b" "d XOR of_bool b"]
    by (simp add: crc_bit_def) (metis xor_cancel xor.commute)
qed simp

lemma length_byte_bits: "length (byte_bits b) = 8" by (simp add: byte_bits_def)

lemma byte_bits_inj: "byte_bits a = byte_bits b \<Longrightarrow> a = b"
  by (rule bit_word_eqI) (simp add: byte_bits_def)

lemma concat_byte_bits_inj: "length xs = length ys \<Longrightarrow> concat (map byte_bits xs) = concat (map byte_bits ys) \<Longrightarrow> xs = ys"
  by (induction xs ys rule: list_induct2) (auto simp: length_byte_bits dest: byte_bits_inj)

lemma length_concat_byte_bits: "length (concat (map byte_bits xs)) = 8 * length xs"
  by (induction xs) (simp_all add: length_byte_bits)

lemma crc_detects_burst:
  assumes "length b = length d" "length b \<le> 4"
  shows "mls_crc32 (a @ b @ e) = mls_crc32 (a @ d @ e) \<longleftrightarrow> b = d"
proof
  assume "mls_crc32 (a @ b @ e) = mls_crc32 (a @ d @ e)"
  then have "foldl crc_bit c (concat (map byte_bits b)) = foldl crc_bit c (concat (map byte_bits d))"
    if "c = foldl crc_bit (NOT 0) (concat (map byte_bits a))" for c
    using that by (auto simp: crc_is_reference crc32_reference_def dest: crc_register_inj)
  then show "b = d"
    using assms concat_byte_bits_inj crc_bits_inj [of "concat (map byte_bits b)" "concat (map byte_bits d)"]
    by (auto simp: length_concat_byte_bits)
qed simp

section \<open>The header\<close>

abbreviation MLS_HEADER_SIZE :: nat where "MLS_HEADER_SIZE \<equiv> 24"
definition MLS_MAX_PAYLOAD :: u32 where "MLS_MAX_PAYLOAD = 1024 * 1024"
abbreviation MLS_MAX_FILES :: u8 where "MLS_MAX_FILES \<equiv> 16"
abbreviation MLS_VERSION :: u8 where "MLS_VERSION \<equiv> 3"

abbreviation MLS_OPEN :: u8 where "MLS_OPEN \<equiv> 1"
abbreviation MLS_WRITE :: u8 where "MLS_WRITE \<equiv> 2"
abbreviation MLS_SEEK :: u8 where "MLS_SEEK \<equiv> 3"
abbreviation MLS_CLOSE :: u8 where "MLS_CLOSE \<equiv> 4"
abbreviation MLS_ACK :: u8 where "MLS_ACK \<equiv> 5"
abbreviation MLS_ABORT :: u8 where "MLS_ABORT \<equiv> 6"
abbreviation MLS_COMMIT :: u8 where "MLS_COMMIT \<equiv> 7"
abbreviation MLS_WRITE_STREAM :: u8 where "MLS_WRITE_STREAM \<equiv> 8"
abbreviation MLS_SYNC :: u8 where "MLS_SYNC \<equiv> 9"

record mls_frame =
  fr_type :: u8
  fr_file_id :: u8
  fr_length :: u32
  fr_offset :: u64
  fr_crc :: u32

definition MSLS :: bytes where "MSLS = [0x4d, 0x53, 0x4c, 0x53]"

definition mls_encode_header :: "mls_frame \<Rightarrow> bytes option" where
  "mls_encode_header f =
     (if fr_type f < MLS_OPEN \<or> MLS_SYNC < fr_type f \<or> MLS_MAX_FILES \<le> fr_file_id f \<or>
         MLS_MAX_PAYLOAD < fr_length f then None
      else Some (MSLS @ [MLS_VERSION, fr_type f, fr_file_id f, 0] @ le32 (fr_length f) @
                 le64 (fr_offset f) @ le32 (fr_crc f)))"

definition mls_decode_header :: "bytes \<Rightarrow> mls_frame option" where
  "mls_decode_header buf =
     (if length buf \<noteq> MLS_HEADER_SIZE \<or> take 4 buf \<noteq> MSLS \<or> buf ! 4 \<noteq> MLS_VERSION \<or>
         buf ! 5 < MLS_OPEN \<or> MLS_SYNC < buf ! 5 \<or> MLS_MAX_FILES \<le> buf ! 6 \<or> buf ! 7 \<noteq> 0
      then None
      else let f = \<lparr>fr_type = buf ! 5, fr_file_id = buf ! 6, fr_length = get_u32 buf 8,
                     fr_offset = get_u64 buf 12, fr_crc = get_u32 buf 20\<rparr> in
        if MLS_MAX_PAYLOAD < fr_length f then None else Some f)"

definition mls_valid :: "mls_frame \<Rightarrow> bool" where
  "mls_valid f = (MLS_OPEN \<le> fr_type f \<and> fr_type f \<le> MLS_SYNC \<and> fr_file_id f < MLS_MAX_FILES \<and>
     fr_length f \<le> MLS_MAX_PAYLOAD)"

subsection \<open>Little-endian fields are the reversed big-endian halves\<close>

lemma upt_8: "[0..<4] = [0, 1, 2, 3]" "[0..<8] = [0, 1, 2, 3, 4, 5, 6, 7]" by (simp_all add: upt_rec)

lemma le32_halves: "le32 n = [ucast (ucast n :: u16), ucast (drop_bit 8 (ucast n :: u16)),
    ucast (ucast (drop_bit 16 n) :: u16), ucast (drop_bit 8 (ucast (drop_bit 16 n) :: u16))]"
  unfolding le32_def upt_8 by (auto intro!: bit_word_eqI simp: bit_simps)

lemma le64_halves: "le64 n = le32 (ucast n) @ le32 (ucast (drop_bit 32 n))"
  unfolding le64_def le32_def upt_8 by (auto intro!: bit_word_eqI simp: bit_simps)

lemma push_up:
  "(ucast (push_bit 8 (ucast (a :: u8) :: u16)) :: u32) = push_bit 8 (ucast a)"
  "(ucast (ucast (a :: u8) :: u16) :: u32) = ucast a"
  by (rule bit_word_eqI; auto simp: bit_simps dest: bit_imp_le_length)+

lemma push_up32:
  "k \<le> 24 \<Longrightarrow> (ucast (push_bit k (ucast (a :: u8) :: u32)) :: u64) = push_bit k (ucast a)"
  "(ucast (ucast (a :: u8) :: u32) :: u64) = ucast a"
  by (rule bit_word_eqI; auto simp: bit_simps dest: bit_imp_le_length)+

lemma get_u32_or: "get_u32 p i = ucast (p ! i) OR push_bit 8 (ucast (p ! (i + 1))) OR
    push_bit 16 (ucast (p ! (i + 2))) OR push_bit 24 (ucast (p ! (i + 3)))"
  unfolding get_u32_def upt_8 by (simp add: or.assoc)

lemma get_u32_joins: "get_u32 p i = join32 (join16 (p ! (i + 3)) (p ! (i + 2))) (join16 (p ! (i + 1)) (p ! i))"
  unfolding get_u32_or join32_def join16_def
  by (simp add: unsigned_or_eq push_up push_bit_or ac_simps)

lemma get_u64_joins: "get_u64 p i = join64 (get_u32 p (i + 4)) (get_u32 p i)"
  unfolding get_u64_def get_u32_or upt_8 join64_def
  by (simp add: unsigned_or_eq push_up32 push_bit_or ac_simps)

lemma length_le [simp]: "length (le32 a) = 4" "length (le64 b) = 8"
  by (simp_all add: le32_def le64_def)

lemma get_le32: "get_u32 (xs @ le32 n @ ys) (length xs) = n"
proof -
  have nth: "(xs @ le32 n @ ys) ! (length xs + k) = le32 n ! k" if "k < 4" for k
    using that by (simp add: nth_append)
  have "get_u32 (xs @ le32 n @ ys) (length xs) =
      join32 (join16 (le32 n ! 3) (le32 n ! 2)) (join16 (le32 n ! 1) (le32 n ! 0))"
    unfolding get_u32_joins using nth [of 0] nth [of 1] nth [of 2] nth [of 3] by simp
  also have "\<dots> = join32 (ucast (drop_bit 16 n)) (ucast n)"
  proof -
    have "le32 n ! 0 = ucast (ucast n :: u16)" "le32 n ! 1 = ucast (drop_bit 8 (ucast n :: u16))"
      "le32 n ! 2 = ucast (ucast (drop_bit 16 n) :: u16)"
      "le32 n ! 3 = ucast (drop_bit 8 (ucast (drop_bit 16 n) :: u16))"
      by (simp_all add: le32_halves)
    then show ?thesis by (simp only: word_split)
  qed
  finally show ?thesis by (simp only: word_split)
qed

lemma get_le32_at: "i = length xs \<Longrightarrow> get_u32 (xs @ le32 n @ ys) i = n"
  by (simp only: get_le32)

lemma get_le64: "i = length xs \<Longrightarrow> get_u64 (xs @ le64 n @ ys) i = n"
  using get_le32 [of xs "ucast n" "le32 (ucast (drop_bit 32 n)) @ ys"]
    get_le32 [of "xs @ le32 (ucast n)" "ucast (drop_bit 32 n)" ys]
  by (simp add: get_u64_joins le64_halves word_split)

section \<open>The header is a codec\<close>

lemma one_le: "1 \<le> (x :: u8) \<longleftrightarrow> x \<noteq> 0"
  by (simp add: linorder_not_less [symmetric])

lemma encode_parts:
  assumes "mls_encode_header f = Some bs"
  shows "length bs = 24 \<and> mls_decode_header bs = Some f"
proof -
  let ?a = "MSLS @ [MLS_VERSION, fr_type f, fr_file_id f, 0]"
  have v: "mls_valid f" and bs: "bs = ?a @ le32 (fr_length f) @ le64 (fr_offset f) @ le32 (fr_crc f)"
    using assms by (auto simp: mls_encode_header_def mls_valid_def not_less not_le one_le split: if_splits)
  let ?b = "?a @ le32 (fr_length f)"
  let ?c = "?b @ le64 (fr_offset f)"
  have bs': "bs = ?b @ le64 (fr_offset f) @ le32 (fr_crc f)" "bs = ?c @ le32 (fr_crc f) @ []"
    by (simp_all add: bs)
  have "get_u32 bs 8 = fr_length f" unfolding bs by (rule get_le32_at) (simp add: MSLS_def)
  moreover have "get_u64 bs 12 = fr_offset f"
    unfolding bs'(1) by (rule get_le64) (simp add: MSLS_def)
  moreover have "get_u32 bs 20 = fr_crc f" unfolding bs'(2) by (rule get_le32_at) (simp add: MSLS_def)
  moreover have "take 4 bs = MSLS" "bs ! 4 = MLS_VERSION" "bs ! 5 = fr_type f" "bs ! 6 = fr_file_id f"
    "bs ! 7 = 0" "length bs = 24"
    unfolding bs by (simp_all add: MSLS_def)
  ultimately show ?thesis
    using v by (simp add: mls_decode_header_def mls_valid_def not_less not_le one_le Let_def)
qed

lemma upt_4_24: "[4..<24] = [4, 5, 6, 7, 8, 9, 10, 11, 12, 13, 14, 15, 16, 17, 18, 19,
    20, 21, 22, 23]"
  by code_simp

lemma le32_get: "le32 (get_u32 p i) = [p ! i, p ! (i + 1), p ! (i + 2), p ! (i + 3)]"
  unfolding get_u32_joins le32_halves word_split ..

lemma le64_get: "le64 (get_u64 p i) = [p ! i, p ! (i + 1), p ! (i + 2), p ! (i + 3),
    p ! (i + 4), p ! (i + 5), p ! (i + 6), p ! (i + 7)]"
  unfolding get_u64_joins le64_halves word_split le32_get by (simp add: ac_simps)

lemma decode_parts:
  assumes "mls_decode_header bs = Some f"
  shows "mls_encode_header f = Some bs"
proof -
  have len: "length bs = 24" and m: "take 4 bs = MSLS" "bs ! 4 = MLS_VERSION" "bs ! 7 = 0"
    using assms by (auto simp: mls_decode_header_def split: if_splits)
  have f: "fr_type f = bs ! 5" "fr_file_id f = bs ! 6" "fr_length f = get_u32 bs 8"
    "fr_offset f = get_u64 bs 12" "fr_crc f = get_u32 bs 20" "mls_valid f"
    using assms by (auto simp: mls_decode_header_def mls_valid_def not_less not_le one_le Let_def split: if_splits)
  have "bs = take 4 bs @ map ((!) bs) [4..<24]"
  proof -
    have "drop 4 bs = map ((!) bs) [4..<24]"
      using len map_nth [of bs] drop_map [of 4 "(!) bs" "[0..<24]"] by simp
    then show ?thesis by (metis append_take_drop_id)
  qed
  also have "\<dots> = MSLS @ [MLS_VERSION, fr_type f, fr_file_id f, 0] @ le32 (fr_length f) @
                 le64 (fr_offset f) @ le32 (fr_crc f)"
    unfolding m(1) f le32_get le64_get upt_4_24 using m(2,3) by simp
  finally show ?thesis using f(6) by (simp add: mls_encode_header_def mls_valid_def not_less not_le one_le)
qed

interpretation mls: header_codec mls_encode_header mls_decode_header mls_valid MLS_HEADER_SIZE
proof
  show "mls_encode_header h = None \<longleftrightarrow> \<not> mls_valid h" for h
    by (auto simp: mls_encode_header_def mls_valid_def not_less not_le one_le)
  show "mls_encode_header h = Some bs \<Longrightarrow> length bs = 24" for h bs using encode_parts by blast
  show "mls_encode_header h = Some bs \<Longrightarrow> mls_decode_header bs = Some h" for h bs using encode_parts by blast
  show "mls_decode_header bs = Some h \<Longrightarrow> length bs = 24 \<Longrightarrow> mls_encode_header h = Some bs" for h bs
    by (rule decode_parts)
qed

section \<open>File names\<close>

definition reserved_device :: "bytes \<Rightarrow> bool" where
  "reserved_device part =
     (part = [0x43, 0x4f, 0x4e] \<or> part = [0x50, 0x52, 0x4e] \<or> part = [0x41, 0x55, 0x58] \<or>
      part = [0x4e, 0x55, 0x4c] \<or>
      length part = 4 \<and> (take 3 part = [0x43, 0x4f, 0x4d] \<or> take 3 part = [0x4c, 0x50, 0x54]) \<and>
      0x31 \<le> part ! 3 \<and> part ! 3 \<le> 0x39)"

definition device_part :: "bytes \<Rightarrow> bytes" where
  "device_part s = map (\<lambda>c. if 0x61 \<le> c \<and> c \<le> 0x7a then c - 32 else c)
     (takeWhile (\<lambda>c. c \<noteq> 0x2e) (take 8 s))"

definition bad_char :: "u8 \<Rightarrow> bool" where
  "bad_char c = (c < 32 \<or> c = 127 \<or>
     c \<in> set [0x2f, 0x5c, 0x3a, 0x2a, 0x3f, 0x22, 0x3c, 0x3e, 0x7c])"

definition mls_safe_filename :: "bytes \<Rightarrow> bool" where
  "mls_safe_filename s =
     (if s = [] \<or> 255 < length s \<or> s ! 0 = 0x2e \<or> s ! (length s - 1) = 0x20 \<or>
         s ! (length s - 1) = 0x2e then False
      else if 2 \<le> length s \<and> s ! 1 = 0x3a then False
      else if list_ex bad_char s then False
      else \<not> reserved_device (device_part s))"

lemma safe_filename_chars:
  assumes "mls_safe_filename s"
  shows "s \<noteq> []" "length s \<le> 255" "0 \<notin> set s" "0x2f \<notin> set s" "0x5c \<notin> set s" "0x3a \<notin> set s" "hd s \<noteq> 0x2e"
proof -
  show ne: "s \<noteq> []" "length s \<le> 255" "hd s \<noteq> 0x2e"
    using assms by (auto simp: mls_safe_filename_def hd_conv_nth split: if_splits)
  have "\<forall>c\<in>set s. \<not> bad_char c" using assms by (simp add: mls_safe_filename_def list_ex_iff split: if_splits)
  moreover have "bad_char 0" "bad_char 0x2f" "bad_char 0x5c" "bad_char 0x3a" by (simp_all add: bad_char_def)
  ultimately show "0 \<notin> set s" "0x2f \<notin> set s" "0x5c \<notin> set s" "0x3a \<notin> set s" by blast+
qed

section \<open>Properties\<close>


end
