(* ===== verification/Local_Save_Files.thy ===== *)
theory Local_Save_Files
  imports Local_Save_Protocol
begin

text \<open>
  The receiver of a local-save session on the client
  (misrc\_gui/net/monitor\_local\_save\_files.c): it applies the frames of one recording to
  files of the directory the user chose.  The file system is a map from paths to contents with
  a test for directories; what the disk answers to a call is an argument.  Bytes a failing
  fwrite or fflush leaves behind are those of the part written.
\<close>

type_synonym path = bytes
type_synonym fs = "path \<Rightarrow> bytes option"

record disk =
  dk_open :: bool
  dk_seek :: bool
  dk_written :: nat
  dk_flush :: bool
  dk_sync :: "nat \<Rightarrow> bool"
  dk_close :: bool
  dk_rename :: "nat \<Rightarrow> bool"
  dk_rename_back :: "nat \<Rightarrow> bool"

abbreviation MLS_PATH_MAX :: nat where "MLS_PATH_MAX \<equiv> 4096"

record mls_file =
  lf_fp :: bool
  lf_cursor :: nat
  lf_next_offset :: u64
  lf_incomplete_path :: path
  lf_final_path :: path
  lf_bad :: bool
  lf_was_opened :: bool
  lf_was_closed :: bool

record mls_receiver =
  lr_directory :: path
  lr_overwrite :: bool
  lr_had_error :: bool
  lr_files :: "mls_file list"

definition empty_file :: mls_file where
  "empty_file = \<lparr>lf_fp = False, lf_cursor = 0, lf_next_offset = 0, lf_incomplete_path = [],
     lf_final_path = [], lf_bad = False, lf_was_opened = False, lf_was_closed = False\<rparr>"

section \<open>Operations\<close>

definition path_exists :: "(path \<Rightarrow> bool) \<Rightarrow> fs \<Rightarrow> path \<Rightarrow> bool" where
  "path_exists is_dir fs p = (fs p \<noteq> None \<or> is_dir p)"

definition mls_receiver_init :: "(path \<Rightarrow> bool) \<Rightarrow> path \<Rightarrow> bool \<Rightarrow> mls_receiver option" where
  "mls_receiver_init is_dir directory overwrite =
     (if directory = [] \<or> MLS_PATH_MAX \<le> length directory then None
      else if \<not> is_dir directory then None
      else Some \<lparr>lr_directory = directory, lr_overwrite = overwrite, lr_had_error = False,
                 lr_files = replicate 16 empty_file\<rparr>)"

definition set_file :: "nat \<Rightarrow> mls_file \<Rightarrow> mls_receiver \<Rightarrow> mls_receiver" where
  "set_file i f r = r\<lparr>lr_files := (lr_files r)[i := f]\<rparr>"

text \<open>The path of a name in the directory, and the suffix of a file that is not committed.\<close>

definition child :: "path \<Rightarrow> bytes \<Rightarrow> path" where
  "child dir name =
     (let sep = (if 0x5c \<in> set dir \<or> 1 < length dir \<and> dir ! 1 = 0x3a then 0x5c else 0x2f);
          slash = (if dir \<noteq> [] \<and> (last dir = 0x2f \<or> last dir = 0x5c) then [] else [sep])
      in dir @ slash @ name)"

definition partial_suffix :: bytes where
  "partial_suffix = [0x2e, 0x70, 0x61, 0x72, 0x74, 0x69, 0x61, 0x6c]"

definition mls_open ::
  "disk \<Rightarrow> (path \<Rightarrow> bool) \<Rightarrow> mls_receiver \<Rightarrow> fs \<Rightarrow> nat \<Rightarrow> bytes option \<Rightarrow> bool \<times> mls_receiver \<times> fs" where
  "mls_open d is_dir r fs i data =
     (let f = lr_files r ! i; name = (case data of None \<Rightarrow> [] | Some x \<Rightarrow> x) in
      if lf_fp f \<or> lf_was_opened f \<or> name = [] \<or> 255 < length name \<or> 0 \<in> set name \<or>
         \<not> mls_safe_filename name then (False, r, fs)
      else let final = child (lr_directory r) name;
               f1 = f\<lparr>lf_final_path := take (MLS_PATH_MAX - 1) final\<rparr> in
        if MLS_PATH_MAX \<le> length final then (False, set_file i f1 r, fs)
        else if MLS_PATH_MAX < length final + 9 then (False, set_file i f1 r, fs)
        else let incomplete = final @ partial_suffix;
                 f2 = f1\<lparr>lf_incomplete_path := incomplete\<rparr> in
          if path_exists is_dir fs incomplete \<or> \<not> lr_overwrite r \<and> path_exists is_dir fs final
          then (False, set_file i f2 r, fs)
          else if \<not> dk_open d then (False, set_file i f2 r, fs)
          else (True, set_file i (f2\<lparr>lf_fp := True, lf_cursor := 0, lf_was_opened := True\<rparr>) r,
                fs(incomplete := Some [])))"

definition mls_write ::
  "disk \<Rightarrow> mls_receiver \<Rightarrow> fs \<Rightarrow> nat \<Rightarrow> u64 \<Rightarrow> bytes option \<Rightarrow> bool \<Rightarrow> bool \<times> mls_receiver \<times> fs" where
  "mls_write d r fs i off data flush_now =
     (let f = lr_files r ! i in
      case data of
        None \<Rightarrow> (False, r, fs)
      | Some bs \<Rightarrow>
          if \<not> lf_fp f \<or> lf_bad f \<or> MAX_OFFSET < unat off \<or> MAX_OFFSET - unat off < length bs
          then (False, r, fs)
          else if off \<noteq> lf_next_offset f \<and> \<not> dk_seek d then (False, r, fs)
          else let cur = (if off \<noteq> lf_next_offset f then unat off else lf_cursor f);
                   n = min (dk_written d) (length bs);
                   p = lf_incomplete_path f;
                   fs1 = fs(p := map_option (\<lambda>c. file_store c cur (take n bs)) (fs p));
                   f1 = f\<lparr>lf_cursor := cur + n\<rparr> in
            if n \<noteq> length bs then (False, set_file i f1 r, fs1)
            else (\<not> flush_now \<or> dk_flush d,
                  set_file i (f1\<lparr>lf_next_offset := off + of_nat (length bs)\<rparr>) r, fs1))"

definition mls_seek :: "disk \<Rightarrow> mls_receiver \<Rightarrow> nat \<Rightarrow> u64 \<Rightarrow> bool \<times> mls_receiver" where
  "mls_seek d r i off =
     (let f = lr_files r ! i in
      if \<not> lf_fp f \<or> lf_bad f \<or> MAX_OFFSET < unat off then (False, r)
      else if \<not> dk_seek d then (False, r)
      else (True, set_file i (f\<lparr>lf_cursor := unat off, lf_next_offset := off\<rparr>) r))"

definition mls_close :: "disk \<Rightarrow> mls_receiver \<Rightarrow> nat \<Rightarrow> bool \<times> mls_receiver" where
  "mls_close d r i =
     (let f = lr_files r ! i in
      if \<not> lf_fp f \<or> lf_bad f then (False, r)
      else let ok = (dk_flush d \<and> dk_close d);
               f1 = f\<lparr>lf_fp := False\<rparr>;
               f2 = (if ok then f1\<lparr>lf_was_closed := True\<rparr> else f1\<lparr>lf_bad := True\<rparr>)
        in (ok, set_file i f2 r))"

subsection \<open>Commit\<close>

definition mls_rename_utf8 :: "bool \<Rightarrow> path \<Rightarrow> path \<Rightarrow> fs \<Rightarrow> fs option" where
  "mls_rename_utf8 ok old new fs =
     (if \<not> ok \<or> fs old = None then None
      else if old = new then Some fs
      else Some (fs(new := fs old, old := None)))"

fun commit_rollback :: "disk \<Rightarrow> nat \<Rightarrow> mls_file list \<Rightarrow> fs \<Rightarrow> fs" where
  "commit_rollback d j [] fs = fs"
| "commit_rollback d j (f # earlier) fs =
     commit_rollback d (Suc j) earlier
       (if lf_was_opened f
        then case mls_rename_utf8 (dk_rename_back d j) (lf_final_path f) (lf_incomplete_path f) fs of
            None \<Rightarrow> fs | Some fs1 \<Rightarrow> fs1
        else fs)"

fun commit_renames :: "disk \<Rightarrow> mls_file list \<Rightarrow> mls_file list \<Rightarrow> fs \<Rightarrow> bool \<times> fs" where
  "commit_renames d earlier [] fs = (True, fs)"
| "commit_renames d earlier (f # later) fs =
     (if lf_was_opened f
      then case mls_rename_utf8 (dk_rename d (length earlier)) (lf_incomplete_path f) (lf_final_path f) fs of
          None \<Rightarrow> (False, commit_rollback d 0 earlier fs)
        | Some fs1 \<Rightarrow> commit_renames d (earlier @ [f]) later fs1
      else commit_renames d (earlier @ [f]) later fs)"

definition committable :: "(path \<Rightarrow> bool) \<Rightarrow> bool \<Rightarrow> fs \<Rightarrow> mls_file \<Rightarrow> bool" where
  "committable is_dir overwrite fs f =
     (\<not> lf_was_opened f \<or>
      \<not> (lf_fp f \<or> \<not> lf_was_closed f \<or> lf_bad f \<or>
          \<not> overwrite \<and> path_exists is_dir fs (lf_final_path f)))"

definition mls_commit :: "disk \<Rightarrow> (path \<Rightarrow> bool) \<Rightarrow> mls_receiver \<Rightarrow> fs \<Rightarrow> bool \<times> fs" where
  "mls_commit d is_dir r fs =
     (if \<not> list_all (committable is_dir (lr_overwrite r) fs) (lr_files r) then (False, fs)
      else if \<not> list_ex lf_was_opened (lr_files r) then (False, fs)
      else commit_renames d [] (lr_files r) fs)"

subsection \<open>One frame\<close>

definition mls_receiver_abort :: "mls_receiver \<Rightarrow> mls_receiver" where
  "mls_receiver_abort r = r\<lparr>lr_files := map (\<lambda>f. f\<lparr>lf_fp := False\<rparr>) (lr_files r)\<rparr>"

definition mls_sync :: "disk \<Rightarrow> mls_receiver \<Rightarrow> bool" where
  "mls_sync d r = list_all (\<lambda>(i, f). \<not> lf_fp f \<or> dk_sync d i) (zip [0..<16] (lr_files r))"

definition apply_type ::
  "disk \<Rightarrow> (path \<Rightarrow> bool) \<Rightarrow> mls_receiver \<Rightarrow> fs \<Rightarrow> mls_frame \<Rightarrow> bytes option \<Rightarrow> bool \<times> mls_receiver \<times> fs" where
  "apply_type d is_dir r fs f payload =
     (let i = unat (fr_file_id f) in
      if fr_type f = MLS_OPEN then mls_open d is_dir r fs i payload
      else if fr_type f = MLS_WRITE then mls_write d r fs i (fr_offset f) payload True
      else if fr_type f = MLS_WRITE_STREAM then mls_write d r fs i (fr_offset f) payload False
      else if fr_type f = MLS_SYNC then (fr_length f = 0 \<and> mls_sync d r, r, fs)
      else if fr_type f = MLS_SEEK
        then if fr_length f = 0 then case mls_seek d r i (fr_offset f) of (ok, r1) \<Rightarrow> (ok, r1, fs)
             else (False, r, fs)
      else if fr_type f = MLS_CLOSE
        then if fr_length f = 0 then case mls_close d r i of (ok, r1) \<Rightarrow> (ok, r1, fs)
             else (False, r, fs)
      else if fr_type f = MLS_COMMIT
        then if fr_length f = 0 then case mls_commit d is_dir r fs of (ok, fs1) \<Rightarrow> (ok, r, fs1)
             else (False, r, fs)
      else (False, r, fs))"

text \<open>The payload is None for a NULL pointer; otherwise it has the length the frame names.\<close>

definition mls_receiver_apply ::
  "disk \<Rightarrow> (path \<Rightarrow> bool) \<Rightarrow> mls_receiver \<Rightarrow> fs \<Rightarrow> mls_frame \<Rightarrow> bytes option \<Rightarrow> bool \<times> mls_receiver \<times> fs" where
  "mls_receiver_apply d is_dir r fs f payload =
     (if lr_had_error r \<or> MLS_MAX_FILES \<le> fr_file_id f \<or> MLS_MAX_PAYLOAD < fr_length f
      then (False, r, fs)
      else if fr_length f \<noteq> 0 \<and> (case payload of None \<Rightarrow> True | Some p \<Rightarrow> mls_crc32 p \<noteq> fr_crc f)
      then (False, r\<lparr>lr_had_error := True\<rparr>, fs)
      else if fr_type f = MLS_ABORT then (True, (mls_receiver_abort r)\<lparr>lr_had_error := True\<rparr>, fs)
      else case apply_type d is_dir r fs f payload of
        (ok, r1, fs1) \<Rightarrow> (ok, if ok then r1 else r1\<lparr>lr_had_error := True\<rparr>, fs1))"

section \<open>The receiver stays in its directory and leaves other files alone\<close>

text \<open>The two paths of an opened file, seen from the file system at the start of the session.\<close>

definition session_file :: "path \<Rightarrow> fs \<Rightarrow> mls_file \<Rightarrow> bool" where
  "session_file dir fs0 f =
     ((lf_fp f \<longrightarrow> lf_was_opened f) \<and>
      (lf_was_opened f \<longrightarrow> (\<exists>name. mls_safe_filename name \<and> lf_final_path f = child dir name \<and>
         lf_incomplete_path f = child dir name @ partial_suffix \<and>
         fs0 (lf_final_path f) = None \<and> fs0 (lf_incomplete_path f) = None)))"

definition touched :: "mls_file list \<Rightarrow> path \<Rightarrow> bool" where
  "touched fl p = (\<exists>i<length fl. lf_was_opened (fl ! i) \<and>
     (p = lf_final_path (fl ! i) \<or> p = lf_incomplete_path (fl ! i)))"

definition confined :: "path \<Rightarrow> fs \<Rightarrow> mls_receiver \<Rightarrow> fs \<Rightarrow> bool" where
  "confined dir fs0 r fs =
     (lr_directory r = dir \<and> \<not> lr_overwrite r \<and> length (lr_files r) = 16 \<and>
      (\<forall>f\<in>set (lr_files r). session_file dir fs0 f) \<and>
      (\<forall>p. \<not> touched (lr_files r) p \<longrightarrow> fs p = fs0 p))"

lemma touched_update:
  assumes "touched fl p" "lf_was_opened (fl ! i) \<Longrightarrow> lf_was_opened f' \<and>
     lf_final_path f' = lf_final_path (fl ! i) \<and> lf_incomplete_path f' = lf_incomplete_path (fl ! i)"
  shows "touched (fl[i := f']) p"
  using assms unfolding touched_def by (metis length_list_update nth_list_update_eq nth_list_update_neq)

lemma confined_set_file:
  assumes "confined dir fs0 r fs" "i < 16" "session_file dir fs0 f'"
    and "lf_was_opened (lr_files r ! i) \<Longrightarrow> lf_was_opened f' \<and>
      lf_final_path f' = lf_final_path (lr_files r ! i) \<and>
      lf_incomplete_path f' = lf_incomplete_path (lr_files r ! i)"
    and "\<And>p. fs' p \<noteq> fs p \<Longrightarrow> lf_was_opened f' \<and> (p = lf_final_path f' \<or> p = lf_incomplete_path f')"
  shows "confined dir fs0 (set_file i f' r) fs'"
proof -
  let ?fl = "lr_files r"
  have len: "length ?fl = 16" using assms(1) by (simp add: confined_def)
  have "fs' p = fs0 p" if "\<not> touched (?fl[i := f']) p" for p
  proof -
    have "fs' p = fs p"
    proof (rule ccontr)
      assume "fs' p \<noteq> fs p"
      then have "touched (?fl[i := f']) p"
        unfolding touched_def using assms(2) assms(5) [of p] len by (intro exI [of _ i]) auto
      then show False using that by simp
    qed
    then show ?thesis
      using that assms(1,4) touched_update [of ?fl p i f'] by (auto simp: confined_def)
  qed
  then show ?thesis
    using assms(1-3) set_update_subset_insert by (fastforce simp: confined_def set_file_def)
qed

lemma confined_file:
  "confined dir fs0 r fs \<Longrightarrow> i < 16 \<Longrightarrow> session_file dir fs0 (lr_files r ! i)"
  by (simp add: confined_def)

lemma confined_absent:
  assumes "confined dir fs0 r fs" "fs p = None"
  shows "fs0 p = None"
proof (cases "touched (lr_files r) p")
  case True
  then show ?thesis using assms(1) by (auto simp: confined_def touched_def session_file_def)
next
  case False
  then show ?thesis using assms by (simp add: confined_def)
qed

lemma mls_open_confined:
  assumes "confined dir fs0 r fs" "i < 16" "mls_open d is_dir r fs i data = (ok, r', fs')"
  shows "confined dir fs0 r' fs'"
proof -
  let ?f = "lr_files r ! i" and ?name = "case data of None \<Rightarrow> [] | Some x \<Rightarrow> x"
  show ?thesis
  proof (cases "lf_was_opened ?f")
    case True
    then show ?thesis using assms(1,3) by (auto simp: mls_open_def Let_def)
  next
    case False
    have sf: "\<not> lf_fp ?f" using confined_file [OF assms(1,2)] False by (auto simp: session_file_def)
    have dir: "lr_directory r = dir" "\<not> lr_overwrite r" using assms(1) by (auto simp: confined_def)
    have keep: "confined dir fs0 (set_file i f' r) fs" if "\<not> lf_was_opened f'" "\<not> lf_fp f'" for f'
      using that False by (intro confined_set_file [OF assms(1,2)]) (auto simp: session_file_def)
    show ?thesis
    proof (cases ok)
      case True
      let ?p = "child dir ?name"
      let ?f' = "?f\<lparr>lf_final_path := ?p, lf_incomplete_path := ?p @ partial_suffix, lf_fp := True,
        lf_cursor := 0, lf_was_opened := True\<rparr>"
      have o1: "mls_safe_filename ?name" "r' = set_file i ?f' r" "fs' = fs(?p @ partial_suffix := Some [])"
        "fs (?p @ partial_suffix) = None" "fs ?p = None"
        using assms(3) True False sf dir
        by (auto simp: mls_open_def path_exists_def Let_def min_def split: if_splits)
      have "session_file dir fs0 ?f'"
        using o1 confined_absent [OF assms(1)] by (auto simp: session_file_def)
      then show ?thesis
        unfolding o1(2,3) using False by (intro confined_set_file [OF assms(1,2)]) (auto split: if_splits)
    next
      case False
      then show ?thesis
        using assms(3) keep assms(1) \<open>\<not> lf_was_opened ?f\<close> sf
        by (auto simp: mls_open_def Let_def split: if_splits)
    qed
  qed
qed

lemma session_file_cong:
  assumes "session_file dir fs0 f" "lf_fp f' \<longrightarrow> lf_fp f" "lf_was_opened f' = lf_was_opened f"
    "lf_final_path f' = lf_final_path f" "lf_incomplete_path f' = lf_incomplete_path f"
  shows "session_file dir fs0 f'"
  using assms by (auto simp: session_file_def)

lemma mls_write_shape:
  assumes "mls_write d r fs i off data fl = (ok, r', fs')"
  shows "r' = r \<and> fs' = fs \<or>
    lf_fp (lr_files r ! i) \<and> (\<exists>cur next c.
      r' = set_file i ((lr_files r ! i)\<lparr>lf_cursor := cur, lf_next_offset := next\<rparr>) r \<and>
      fs' = fs(lf_incomplete_path (lr_files r ! i) := c))"
proof (cases "(r', fs') = (r, fs)")
  case False
  let ?f = "lr_files r ! i"
  obtain bs where bs: "data = Some bs" using assms False by (cases data) (auto simp: mls_write_def)
  have g: "lf_fp ?f" "\<not> (off \<noteq> lf_next_offset ?f \<and> \<not> dk_seek d)"
    "\<not> (\<not> lf_fp ?f \<or> lf_bad ?f \<or> MAX_OFFSET < unat off \<or> MAX_OFFSET - unat off < length bs)"
    using assms False bs by (auto simp: mls_write_def Let_def simp del: of_nat_numeral split: if_splits)
  have eta: "f\<lparr>lf_cursor := c\<rparr> = f\<lparr>lf_cursor := c, lf_next_offset := lf_next_offset f\<rparr>" for f c
    by (cases f) simp
  define cur n where "cur = (if off \<noteq> lf_next_offset ?f then unat off else lf_cursor ?f)"
    and "n = min (dk_written d) (length bs)"
  have "(ok, r', fs') = (let fs1 = fs(lf_incomplete_path ?f :=
        map_option (\<lambda>c. file_store c cur (take n bs)) (fs (lf_incomplete_path ?f))) in
      if n \<noteq> length bs then (False, set_file i (?f\<lparr>lf_cursor := cur + n\<rparr>) r, fs1)
      else (\<not> fl \<or> dk_flush d, set_file i (?f\<lparr>lf_cursor := cur + n,
        lf_next_offset := off + of_nat (length bs)\<rparr>) r, fs1))"
    using assms g unfolding mls_write_def bs cur_def n_def
    by (simp only: Let_def option.case if_False g)
  then have "\<exists>next c. r' = set_file i (?f\<lparr>lf_cursor := cur + n, lf_next_offset := next\<rparr>) r \<and>
      fs' = fs(lf_incomplete_path ?f := c)"
    by (cases "n = length bs") (simp_all add: Let_def, blast, metis eta)
  then show ?thesis using g(1) by blast
qed simp

lemma mls_write_confined:
  assumes "confined dir fs0 r fs" "i < 16" "mls_write d r fs i off data fl = (ok, r', fs')"
  shows "confined dir fs0 r' fs'"
  using mls_write_shape [OF assms(3)]
proof (elim disjE conjE exE)
  fix cur next' c
  assume w: "lf_fp (lr_files r ! i)"
    "r' = set_file i ((lr_files r ! i)\<lparr>lf_cursor := cur, lf_next_offset := next'\<rparr>) r"
    "fs' = fs(lf_incomplete_path (lr_files r ! i) := c)"
  show ?thesis
    using confined_file [OF assms(1,2)] w(1) unfolding w(2,3)
    by (intro confined_set_file [OF assms(1,2)]) (auto simp: session_file_def split: if_splits)
qed (use assms(1) in simp)

lemma mls_seek_confined:
  assumes "confined dir fs0 r fs" "i < 16" "mls_seek d r i off = (ok, r')"
  shows "confined dir fs0 r' fs"
proof (cases "r' = r")
  case False
  then have r': "r' = set_file i ((lr_files r ! i)\<lparr>lf_cursor := unat off, lf_next_offset := off\<rparr>) r"
    using assms(3) by (auto simp: mls_seek_def Let_def split: if_splits)
  show ?thesis
    using confined_file [OF assms(1,2)] unfolding r'
    by (intro confined_set_file [OF assms(1,2)]) (auto simp: session_file_def)
qed (use assms(1) in simp)

lemma mls_close_confined:
  assumes "confined dir fs0 r fs" "i < 16" "mls_close d r i = (ok, r')"
  shows "confined dir fs0 r' fs"
proof (cases "r' = r")
  case False
  let ?f = "lr_files r ! i"
  obtain f' where r': "r' = set_file i f' r" and f': "lf_was_opened f' = lf_was_opened ?f" "\<not> lf_fp f'"
    "lf_final_path f' = lf_final_path ?f" "lf_incomplete_path f' = lf_incomplete_path ?f"
  proof
    show "r' = set_file i (if dk_flush d \<and> dk_close d then ?f\<lparr>lf_fp := False, lf_was_closed := True\<rparr>
        else ?f\<lparr>lf_fp := False, lf_bad := True\<rparr>) r"
      using assms(3) False by (auto simp: mls_close_def Let_def split: if_splits)
  qed auto
  show ?thesis
    using confined_file [OF assms(1,2)] f' unfolding r'
    by (intro confined_set_file [OF assms(1,2)]) (auto simp: session_file_def)
qed (use assms(1) in simp)

text \<open>Renames move contents between the two paths of opened files.\<close>

lemma rename_frame:
  assumes "mls_rename_utf8 ok old new fs = Some fs'" "p \<noteq> old" "p \<noteq> new"
  shows "fs' p = fs p"
  using assms by (auto simp: mls_rename_utf8_def split: if_splits)

lemma rollback_frame:
  assumes "\<forall>f\<in>set fl. lf_was_opened f \<longrightarrow> p \<noteq> lf_final_path f \<and> p \<noteq> lf_incomplete_path f"
  shows "commit_rollback d j fl fs p = fs p"
  using assms by (induction d j fl fs rule: commit_rollback.induct)
    (auto split: option.split dest: rename_frame)

lemma renames_frame:
  assumes "commit_renames d earlier fl fs = (ok, fs')"
    and "\<forall>f\<in>set (earlier @ fl). lf_was_opened f \<longrightarrow> p \<noteq> lf_final_path f \<and> p \<noteq> lf_incomplete_path f"
  shows "fs' p = fs p"
  using assms
proof (induction fl arbitrary: earlier fs)
  case (Cons f fl)
  show ?case
  proof (cases "lf_was_opened f")
    case True
    then show ?thesis
      using Cons.prems Cons.IH [of "earlier @ [f]"] rename_frame [of _ "lf_incomplete_path f" "lf_final_path f" fs _ p]
      by (auto simp: rollback_frame split: option.splits)
  next
    case False
    then show ?thesis using Cons.prems Cons.IH [of "earlier @ [f]"] by simp
  qed
qed simp

lemma mls_commit_confined:
  assumes "confined dir fs0 r fs" "mls_commit d is_dir r fs = (ok, fs')"
  shows "confined dir fs0 r fs'"
proof -
  have "fs' p = fs p" if "\<not> touched (lr_files r) p" for p
  proof -
    have "\<forall>f\<in>set (lr_files r). lf_was_opened f \<longrightarrow> p \<noteq> lf_final_path f \<and> p \<noteq> lf_incomplete_path f"
      using that by (metis in_set_conv_nth touched_def)
    then show ?thesis
      using assms(2) renames_frame [of d "[]" "lr_files r" fs ok fs' p]
      by (auto simp: mls_commit_def split: if_splits)
  qed
  then show ?thesis using assms(1) by (simp add: confined_def)
qed

lemma apply_confined:
  assumes "confined dir fs0 r fs" "mls_receiver_apply d is_dir r fs f payload = (ok, r', fs')"
  shows "confined dir fs0 r' fs'"
proof -
  have err: "confined dir fs0 (q\<lparr>lr_had_error := e\<rparr>) gs = confined dir fs0 q gs" for q gs e
    by (simp add: confined_def)
  have abort: "confined dir fs0 (mls_receiver_abort q) gs" if "confined dir fs0 q gs" for q gs
    using that by (auto simp: confined_def mls_receiver_abort_def touched_def session_file_def)
  have "confined dir fs0 r1 fs1"
    if "apply_type d is_dir r fs f payload = (ok1, r1, fs1)" "unat (fr_file_id f) < 16" for ok1 r1 fs1
    using that assms(1) mls_open_confined [OF assms(1) that(2)] mls_write_confined [OF assms(1) that(2)]
      mls_seek_confined [OF assms(1) that(2)] mls_close_confined [OF assms(1) that(2)]
      mls_commit_confined [OF assms(1)]
    unfolding apply_type_def Let_def
    by (auto split: if_splits prod.splits)
  then show ?thesis
    using assms err abort
    by (auto simp: mls_receiver_apply_def not_le word_less_nat_alt split: if_splits prod.splits)
qed

section \<open>The receiver thread\<close>

text \<open>One turn of the loop of mls\_client\_recv\_thread in gui\_monitor\_local\_save.c: a header
  and the payload it names have arrived.  The answer is the acknowledgement that is sent.\<close>

record mls_client =
  mc_receiver :: mls_receiver
  mc_fs :: fs
  mc_connected :: bool

definition client_leaves :: "mls_client \<Rightarrow> mls_client" where
  "client_leaves c = c\<lparr>mc_receiver := mls_receiver_abort (mc_receiver c), mc_connected := False\<rparr>"

definition ack_frame :: "mls_frame \<Rightarrow> bool \<Rightarrow> mls_frame" where
  "ack_frame f ok = \<lparr>fr_type = MLS_ACK, fr_file_id = fr_file_id f, fr_length = 0,
     fr_offset = (if ok then 0 else 1), fr_crc = 0\<rparr>"

definition mls_client_turn ::
  "disk \<Rightarrow> (path \<Rightarrow> bool) \<Rightarrow> bool \<Rightarrow> bool \<Rightarrow> bytes \<Rightarrow> bytes \<Rightarrow> mls_client \<Rightarrow> mls_client \<times> bytes option" where
  "mls_client_turn d is_dir malloc_ok ack_sent h payload c =
     (if \<not> mc_connected c then (c, None)
      else case mls_decode_header h of
        None \<Rightarrow> (client_leaves c, None)
      | Some f \<Rightarrow>
          if fr_length f \<noteq> 0 \<and> \<not> malloc_ok then (client_leaves c, None)
          else case mls_receiver_apply d is_dir (mc_receiver c) (mc_fs c) f
                      (if fr_length f = 0 then None else Some payload) of
            (ok, r, fs) \<Rightarrow>
              let r1 = (if ok \<and> fr_type f = MLS_COMMIT
                        then case mls_receiver_init is_dir (lr_directory (mc_receiver c)) False of
                               None \<Rightarrow> r | Some r' \<Rightarrow> r'
                        else r);
                  c1 = c\<lparr>mc_receiver := r1, mc_fs := fs\<rparr> in
              if fr_type f = MLS_WRITE_STREAM \<and> ok then (c1, None)
              else case mls_encode_header (ack_frame f ok) of
                None \<Rightarrow> (client_leaves c1, None)
              | Some a \<Rightarrow>
                  if \<not> ack_sent then (client_leaves c1, None)
                  else if \<not> ok \<or> fr_type f = MLS_ABORT then (client_leaves c1, Some a)
                  else (c1, Some a))"

definition mls_client_start :: "(path \<Rightarrow> bool) \<Rightarrow> path \<Rightarrow> fs \<Rightarrow> mls_client option" where
  "mls_client_start is_dir directory fs =
     map_option (\<lambda>r. \<lparr>mc_receiver = r, mc_fs = fs, mc_connected = True\<rparr>)
       (mls_receiver_init is_dir directory False)"

text \<open>A frame as it arrives, with what the disk and the network answer.\<close>

record arrival =
  ar_disk :: disk
  ar_malloc :: bool
  ar_ack :: bool
  ar_header :: bytes
  ar_payload :: bytes

definition mls_client_run :: "(path \<Rightarrow> bool) \<Rightarrow> mls_client \<Rightarrow> arrival list \<Rightarrow> mls_client" where
  "mls_client_run is_dir c as =
     foldl (\<lambda>c a. fst (mls_client_turn (ar_disk a) is_dir (ar_malloc a) (ar_ack a)
                         (ar_header a) (ar_payload a) c)) c as"

text \<open>What may happen to a path.\<close>

definition may_change :: "path \<Rightarrow> fs \<Rightarrow> fs \<Rightarrow> path \<Rightarrow> bool" where
  "may_change dir fs fs' q =
     (fs' q = fs q \<or>
      fs q = None \<and> (\<exists>slash name suffix. q = dir @ slash @ name @ suffix \<and>
        slash \<in> {[], [0x2f], [0x5c]} \<and> suffix \<in> {[], partial_suffix} \<and> name \<noteq> [] \<and>
        hd name \<noteq> 0x2e \<and> set name \<inter> {0, 0x2f, 0x5c, 0x3a} = {}))"

lemma may_change_trans: "may_change dir fs fs1 q \<Longrightarrow> may_change dir fs1 fs2 q \<Longrightarrow> may_change dir fs fs2 q"
  unfolding may_change_def by metis

lemma child_parts: "\<exists>slash\<in>{[], [0x2f], [0x5c]}. child dir name = dir @ slash @ name"
proof -
  have "(if a then [] else [if b then 0x5c else 0x2f]) \<in> {[], [0x2f], [0x5c :: u8]}" for a b
    by simp
  then show ?thesis unfolding child_def Let_def by blast
qed

lemma confined_may_change:
  assumes "confined dir fs0 r fs"
  shows "may_change dir fs0 fs q"
proof (cases "touched (lr_files r) q")
  case True
  then obtain i where "i < 16" "lf_was_opened (lr_files r ! i)"
    "q = lf_final_path (lr_files r ! i) \<or> q = lf_incomplete_path (lr_files r ! i)"
    using assms by (auto simp: touched_def confined_def)
  then obtain name where n: "mls_safe_filename name" "fs0 q = None"
    "q = child dir name \<or> q = child dir name @ partial_suffix"
    using confined_file [OF assms, of i] by (auto simp: session_file_def)
  obtain slash where "slash \<in> {[], [0x2f], [0x5c]}" "child dir name = dir @ slash @ name"
    using child_parts by blast
  then have "\<exists>suffix. q = dir @ slash @ name @ suffix \<and> slash \<in> {[], [0x2f], [0x5c]} \<and>
      suffix \<in> {[], partial_suffix}"
    using n(3) by auto
  then show ?thesis
    using n(2) safe_filename_chars [OF n(1)] unfolding may_change_def by blast
next
  case False
  then show ?thesis using assms by (simp add: confined_def may_change_def)
qed

lemma confined_fresh: "mls_receiver_init is_dir dir False = Some r \<Longrightarrow> confined dir fs r fs"
  by (auto simp: mls_receiver_init_def confined_def session_file_def empty_file_def split: if_splits)

definition client_confined :: "path \<Rightarrow> fs \<Rightarrow> mls_client \<Rightarrow> bool" where
  "client_confined dir start c =
     (\<exists>fs0. confined dir fs0 (mc_receiver c) (mc_fs c) \<and> (\<forall>q. may_change dir start fs0 q))"

lemma client_confined_may_change: "client_confined dir start c \<Longrightarrow> may_change dir start (mc_fs c) q"
  unfolding client_confined_def using confined_may_change may_change_trans by blast

lemma abort_confined: "confined dir fs0 r fs \<Longrightarrow> confined dir fs0 (mls_receiver_abort r) fs"
  by (auto simp: confined_def mls_receiver_abort_def touched_def session_file_def)

lemma leaves_confined: "client_confined dir start c \<Longrightarrow> client_confined dir start (client_leaves c)"
  by (auto simp: client_confined_def client_leaves_def dest: abort_confined)

lemma turn_confined:
  assumes "client_confined dir start c"
  shows "client_confined dir start (fst (mls_client_turn d is_dir m s h payload c))"
proof (cases "mls_decode_header h")
  case None
  then show ?thesis using assms leaves_confined by (simp add: mls_client_turn_def)
next
  case (Some f)
  obtain ok r fs where a: "mls_receiver_apply d is_dir (mc_receiver c) (mc_fs c) f
      (if fr_length f = 0 then None else Some payload) = (ok, r, fs)" by (metis prod_cases3)
  obtain fs0 where c0: "confined dir fs0 (mc_receiver c) (mc_fs c)" "\<forall>q. may_change dir start fs0 q"
    using assms by (auto simp: client_confined_def)
  note c1 = apply_confined [OF c0(1) a]
  define r1 where "r1 = (if ok \<and> fr_type f = MLS_COMMIT
      then case mls_receiver_init is_dir (lr_directory (mc_receiver c)) False of None \<Rightarrow> r | Some r' \<Rightarrow> r'
      else r)"
  have "\<exists>fs1. confined dir fs1 r1 fs \<and> (\<forall>q. may_change dir start fs1 q)"
  proof (cases "r1 = r")
    case False
    then have "mls_receiver_init is_dir dir False = Some r1"
      using c0(1) by (auto simp: r1_def confined_def split: if_splits option.splits)
    then show ?thesis
      using confined_fresh confined_may_change [OF c1] c0(2) may_change_trans by blast
  qed (use c1 c0(2) in auto)
  then have "client_confined dir start (c\<lparr>mc_receiver := r1, mc_fs := fs\<rparr>)"
    by (simp add: client_confined_def)
  then show ?thesis
    using assms leaves_confined [of dir start]
    unfolding mls_client_turn_def Some option.case a prod.case Let_def r1_def [symmetric]
    by (auto split: option.split)
qed

definition receive :: "(path \<Rightarrow> bool) \<Rightarrow> arrival \<Rightarrow> mls_client \<Rightarrow> mls_client" where
  "receive is_dir a c = fst (mls_client_turn (ar_disk a) is_dir (ar_malloc a) (ar_ack a)
     (ar_header a) (ar_payload a) c)"

lemma client_run_fold: "mls_client_run is_dir c as = fold (receive is_dir) as c"
  by (simp add: mls_client_run_def receive_def [abs_def] foldl_conv_fold)

interpretation receiver: inv_machine "receive is_dir" "client_confined dir start"
  by unfold_locales (simp add: receive_def turn_confined)

section \<open>Properties\<close>


end
