(* ===== verification/Local_Save_Session.thy ===== *)
theory Local_Save_Session
  imports Local_Save_Files
begin

text \<open>
  The recording side of a local-save session: the file proxies the recorders write to
  (monitor\_local\_save\_proxy.c) and the queue, the sender and the session calls of
  gui\_monitor\_local\_save.c, connected to the receiver of Local\_Save\_Files.  Every call is
  one step; the sender works between the calls and while a call waits for it.  What memory
  allocation, the network, the client's disk and the sender's pace answer is read from an
  oracle; the diagnostics counters are left out.
\<close>

record call_answer =
  an_proxy_malloc :: bool
  an_job_malloc :: bool
  an_progress :: nat

record wire_answer =
  wa_sent :: bool
  wa_arrives :: bool
  wa_ack_received :: bool
  wa_disk :: disk
  wa_malloc :: bool
  wa_ack_sent :: bool

record world =
  wo_is_dir :: "path \<Rightarrow> bool"
  wo_call :: "nat \<Rightarrow> call_answer"
  wo_wire :: "nat \<Rightarrow> wire_answer"

record mls_job =
  jb_type :: u8
  jb_id :: nat
  jb_offset :: u64
  jb_payload :: bytes

record proxy =
  px_pos :: u64
  px_file_size :: u64
  px_buffered_offset :: u64
  px_cache :: bytes
  px_bad :: bool

record session =
  ss_client :: mls_client
  ss_active :: bool
  ss_record :: bool
  ss_failed :: bool
  ss_queue :: "mls_job list"
  ss_q_bytes :: nat
  ss_outstanding :: nat
  ss_handles :: "nat \<Rightarrow> proxy option"
  ss_next_id :: u32
  ss_calls :: nat
  ss_wires :: nat

abbreviation MAX_PAYLOAD :: nat where "MAX_PAYLOAD \<equiv> unat MLS_MAX_PAYLOAD"

definition MLS_QUEUE_MAX_BYTES :: nat where "MLS_QUEUE_MAX_BYTES = 64 * 1024 * 1024"

section \<open>The sender\<close>

definition mls_mark_failed_locked :: "session \<Rightarrow> session" where
  "mls_mark_failed_locked s = s\<lparr>ss_failed := True, ss_active := False\<rparr>"

text \<open>A frame goes out: whether it was sent, the answer that came back.  When a frame does not
  arrive the connection is gone, and the client leaves.\<close>

definition wire_frame_out ::
  "world \<Rightarrow> mls_frame \<Rightarrow> bytes \<Rightarrow> session \<Rightarrow> bool \<times> bytes option \<times> session" where
  "wire_frame_out w f payload s =
     (case mls_encode_header f of
        None \<Rightarrow> (False, None, s)
      | Some h \<Rightarrow>
          let a = wo_wire w (ss_wires s); s1 = s\<lparr>ss_wires := ss_wires s + 1\<rparr> in
          if \<not> wa_arrives a
          then (wa_sent a, None, s1\<lparr>ss_client := client_leaves (ss_client s1)\<rparr>)
          else case mls_client_turn (wa_disk a) (wo_is_dir w) (wa_malloc a) (wa_ack_sent a)
                      h payload (ss_client s1) of
            (c, ack) \<Rightarrow> (wa_sent a, if wa_ack_received a then ack else None, s1\<lparr>ss_client := c\<rparr>))"

definition mls_send_wire_sync ::
  "world \<Rightarrow> u8 \<Rightarrow> nat \<Rightarrow> u64 \<Rightarrow> bytes \<Rightarrow> session \<Rightarrow> bool \<times> session" where
  "mls_send_wire_sync w type i off payload s =
     (if 16 \<le> i \<or> MAX_PAYLOAD < length payload then (False, s)
      else if \<not> ss_record s \<or> \<not> ss_active s \<or> ss_failed s then (False, s)
      else let f = \<lparr>fr_type = type, fr_file_id = of_nat i, fr_length = of_nat (length payload),
                    fr_offset = off, fr_crc = (if payload = [] then 0 else mls_crc32 payload)\<rparr> in
        case wire_frame_out w f payload s of
          (sent, answer, s1) \<Rightarrow>
            let ok = (sent \<and> (case answer of None \<Rightarrow> False
                     | Some b \<Rightarrow> case mls_decode_header b of None \<Rightarrow> False
                        | Some ack \<Rightarrow> fr_type ack = MLS_ACK \<and> fr_file_id ack = of_nat i \<and>
                                     fr_offset ack = 0 \<and> fr_length ack = 0))
            in (ok, if ok then s1 else mls_mark_failed_locked s1))"

definition mls_send_wire_stream ::
  "world \<Rightarrow> nat \<Rightarrow> u64 \<Rightarrow> bytes \<Rightarrow> session \<Rightarrow> bool \<times> session" where
  "mls_send_wire_stream w i off payload s =
     (if \<not> ss_record s \<or> \<not> ss_active s \<or> ss_failed s then (False, s)
      else let f = \<lparr>fr_type = MLS_WRITE_STREAM, fr_file_id = of_nat i,
                    fr_length = of_nat (length payload), fr_offset = off,
                    fr_crc = mls_crc32 payload\<rparr> in
        case wire_frame_out w f payload s of
          (sent, _, s1) \<Rightarrow> (sent, if sent then s1 else mls_mark_failed_locked s1))"

text \<open>One job of mls\_sender\_worker, already taken off the queue.\<close>

definition sender_job :: "world \<Rightarrow> mls_job \<Rightarrow> session \<Rightarrow> bool \<times> session" where
  "sender_job w job s =
     (case (if jb_type job = MLS_WRITE
            then case mls_send_wire_stream w (jb_id job) (jb_offset job) (jb_payload job) s of
                (ok, s1) \<Rightarrow> (ok, if ok then s1\<lparr>ss_outstanding := ss_outstanding s1 + 1\<rparr> else s1)
            else (True, s)) of (r1, s1) \<Rightarrow>
      case (if r1 \<and> (8 \<le> ss_outstanding s1 \<or> 0 < ss_outstanding s1 \<and> jb_type job \<noteq> MLS_WRITE)
            then case mls_send_wire_sync w MLS_SYNC 0 0 [] s1 of
                (ok, s2) \<Rightarrow> (ok, s2\<lparr>ss_outstanding := 0\<rparr>)
            else (r1, s1)) of (r2, s2) \<Rightarrow>
      case (if r2 \<and> jb_type job \<noteq> MLS_WRITE
            then mls_send_wire_sync w (jb_type job) (jb_id job) (jb_offset job) (jb_payload job) s2
            else (r2, s2)) of (r3, s3) \<Rightarrow>
        (r3, if length (jb_payload job) \<le> ss_q_bytes s3
             then s3\<lparr>ss_q_bytes := ss_q_bytes s3 - length (jb_payload job)\<rparr> else s3))"

definition sender_turn :: "world \<Rightarrow> session \<Rightarrow> session" where
  "sender_turn w s =
     (case ss_queue s of [] \<Rightarrow> s | job # q \<Rightarrow> snd (sender_job w job (s\<lparr>ss_queue := q\<rparr>)))"

text \<open>A writer waits until the queue has room; the jobs ahead are worked off meanwhile.\<close>

fun wait_room :: "world \<Rightarrow> nat \<Rightarrow> mls_job list \<Rightarrow> session \<Rightarrow> session" where
  "wait_room w n [] s = s\<lparr>ss_queue := []\<rparr>"
| "wait_room w n (job # q) s =
     (if ss_failed s \<or> ss_q_bytes s + n \<le> MLS_QUEUE_MAX_BYTES then s\<lparr>ss_queue := job # q\<rparr>
      else wait_room w n q (snd (sender_job w job s)))"

text \<open>A caller of a control operation waits until its own job, the last one, is done.\<close>

fun drain :: "world \<Rightarrow> mls_job list \<Rightarrow> session \<Rightarrow> bool \<times> session" where
  "drain w [] s = (False, s\<lparr>ss_queue := []\<rparr>)"
| "drain w [job] s = sender_job w job (s\<lparr>ss_queue := []\<rparr>)"
| "drain w (job # q) s = drain w q (snd (sender_job w job s))"

definition gui_monitor_local_save_send ::
  "world \<Rightarrow> u8 \<Rightarrow> nat \<Rightarrow> u64 \<Rightarrow> bytes \<Rightarrow> session \<Rightarrow> bool \<times> session" where
  "gui_monitor_local_save_send w type i off payload s =
     (let a = wo_call w (ss_calls s); s0 = s\<lparr>ss_calls := ss_calls s + 1\<rparr> in
      if 16 \<le> i \<or> MAX_PAYLOAD < length payload then (False, s0)
      else if \<not> an_job_malloc a then (False, s0)
      else let s1 = (sender_turn w ^^ an_progress a) s0;
               s2 = (if type = MLS_WRITE then wait_room w (length payload) (ss_queue s1) s1 else s1)
      in if ss_failed s2 \<or> \<not> ss_active s2 \<or> \<not> ss_record s2 then (False, s2)
         else let job = \<lparr>jb_type = type, jb_id = i, jb_offset = off, jb_payload = payload\<rparr>;
                  s3 = s2\<lparr>ss_queue := ss_queue s2 @ [job], ss_q_bytes := ss_q_bytes s2 + length payload\<rparr>
           in if type = MLS_WRITE then (True, s3) else drain w (ss_queue s3) s3)"

section \<open>The file proxies\<close>

definition set_proxy :: "nat \<Rightarrow> proxy option \<Rightarrow> session \<Rightarrow> session" where
  "set_proxy i p s = s\<lparr>ss_handles := (ss_handles s)(i := p)\<rparr>"

definition flush_proxy :: "world \<Rightarrow> nat \<Rightarrow> session \<Rightarrow> bool \<times> session" where
  "flush_proxy w i s =
     (case ss_handles s i of
        None \<Rightarrow> (False, s)
      | Some p \<Rightarrow>
          if px_bad p then (False, s)
          else if px_cache p = [] then (True, s)
          else (case gui_monitor_local_save_send w MLS_WRITE i (px_buffered_offset p) (px_cache p) s of
                  (ok, s1) \<Rightarrow>
                    (ok, set_proxy i (Some (if ok then p\<lparr>px_cache := []\<rparr> else p\<lparr>px_bad := True\<rparr>)) s1)))"

definition base_name :: "path \<Rightarrow> bytes" where
  "base_name p = rev (takeWhile (\<lambda>c. c \<noteq> 0x2f \<and> c \<noteq> 0x5c) (rev p))"

definition new_proxy :: proxy where
  "new_proxy = \<lparr>px_pos = 0, px_file_size = 0, px_buffered_offset = 0, px_cache = [], px_bad = False\<rparr>"

text \<open>Opening while a session records, in a mode for writing; the result is the wire id.\<close>

definition mls_proxy_open :: "world \<Rightarrow> path \<Rightarrow> session \<Rightarrow> nat option \<times> session" where
  "mls_proxy_open w p s =
     (let name = base_name p in
      if \<not> mls_safe_filename name then (None, s)
      else if \<not> an_proxy_malloc (wo_call w (ss_calls s)) then (None, s)
      else let i = unat (ss_next_id s); s1 = s\<lparr>ss_next_id := ss_next_id s + 1\<rparr> in
        if 16 \<le> i then (None, s1)
        else if ss_handles s1 i \<noteq> None then (None, s1)
        else case gui_monitor_local_save_send w MLS_OPEN i 0 name (set_proxy i (Some new_proxy) s1) of
            (ok, s2) \<Rightarrow> if ok then (Some i, s2) else (None, set_proxy i None s2))"

lemma flush_clears:
  "flush_proxy w i s = (True, s') \<Longrightarrow> \<exists>p. ss_handles s' i = Some p \<and> px_cache p = []"
  by (auto simp: flush_proxy_def set_proxy_def split: option.splits if_splits prod.splits bool.splits)

text \<open>One turn of the copying loop: whether it goes on, and how many bytes it took.\<close>

definition write_turn :: "world \<Rightarrow> nat \<Rightarrow> bytes \<Rightarrow> session \<Rightarrow> bool \<times> nat \<times> session" where
  "write_turn w i data s =
     (case ss_handles s i of
        None \<Rightarrow> (False, 0, s)
      | Some p \<Rightarrow>
          (case (if px_cache p \<noteq> [] \<and> px_buffered_offset p + of_nat (length (px_cache p)) \<noteq> px_pos p
                 then flush_proxy w i s else (True, s)) of
             (ok, s1) \<Rightarrow>
               if \<not> ok then (False, 0, s1)
               else case ss_handles s1 i of
                 None \<Rightarrow> (False, 0, s1)
               | Some q \<Rightarrow>
                   let q1 = (if px_cache q = [] then q\<lparr>px_buffered_offset := px_pos q\<rparr> else q);
                       avail = MAX_PAYLOAD - length (px_cache q1) in
                   if avail = 0
                   then (case flush_proxy w i (set_proxy i (Some q1) s1) of (ok2, s2) \<Rightarrow> (ok2, 0, s2))
                   else let n = min (length data) avail;
                            pos = px_pos q1 + of_nat n;
                            q2 = q1\<lparr>px_cache := px_cache q1 @ take n data, px_pos := pos,
                                    px_file_size := max (px_file_size q1) pos\<rparr>
                     in (True, n, set_proxy i (Some q2) s1)))"

definition cache_full :: "nat \<Rightarrow> session \<Rightarrow> bool" where
  "cache_full i s = (case ss_handles s i of None \<Rightarrow> False | Some p \<Rightarrow> MAX_PAYLOAD \<le> length (px_cache p))"

lemma max_payload: "MAX_PAYLOAD = 1048576" by (simp add: MLS_MAX_PAYLOAD_def)

lemma flush_not_full: "flush_proxy w i s = (True, s') \<Longrightarrow> \<not> cache_full i s'"
  using flush_clears [of w i s s'] by (auto simp: cache_full_def max_payload)

lemma write_turn_progress:
  assumes "write_turn w i data s = (True, n, s')" "data \<noteq> []"
  shows "0 < n \<or> cache_full i s \<and> \<not> cache_full i s'"
proof -
  obtain p where p: "ss_handles s i = Some p" using assms by (auto simp: write_turn_def split: option.splits)
  obtain s1 where s1: "(if px_cache p \<noteq> [] \<and> px_buffered_offset p + of_nat (length (px_cache p)) \<noteq> px_pos p
      then flush_proxy w i s else (True, s)) = (True, s1)"
    using assms(1) p by (auto simp: write_turn_def split: prod.splits if_splits)
  obtain q where q: "ss_handles s1 i = Some q" using assms(1) p s1
    by (auto simp: write_turn_def split: option.splits if_splits)
  show ?thesis
  proof (cases "length (px_cache q) < MAX_PAYLOAD")
    case True
    then have "n = min (length data) (MAX_PAYLOAD - length (px_cache q))"
      using assms p s1 q by (auto simp: write_turn_def Let_def split: if_splits)
    then show ?thesis using True assms(2) by simp
  next
    case False
    then have "s1 = s" using s1 flush_not_full [of w i s s1] q by (auto simp: cache_full_def split: if_splits)
    then show ?thesis
      using assms p s1 q False flush_not_full
      by (auto simp: write_turn_def Let_def cache_full_def split: if_splits prod.splits)
  qed
qed

function write_loop :: "world \<Rightarrow> nat \<Rightarrow> bytes \<Rightarrow> session \<Rightarrow> bytes \<times> session" where
  "write_loop w i data s =
     (if data = [] then ([], s)
      else case write_turn w i data s of
        (go, n, s1) \<Rightarrow> if go then write_loop w i (drop n data) s1 else (data, s1))"
  by pat_completeness auto
termination
  by (relation "measures [\<lambda>(w, i, data, s). length data, \<lambda>(w, i, data, s). of_bool (cache_full i s)]")
    (auto dest!: write_turn_progress [OF sym])

declare write_loop.simps [simp del]

text \<open>The data are the size times count bytes of the caller's buffer.\<close>

definition mls_proxy_write :: "world \<Rightarrow> nat \<Rightarrow> nat \<Rightarrow> nat \<Rightarrow> bytes \<Rightarrow> session \<Rightarrow> nat \<times> session" where
  "mls_proxy_write w i sz count data s =
     (case ss_handles s i of
        None \<Rightarrow> (0, s)
      | Some p \<Rightarrow>
          if px_bad p then (0, s)
          else case write_loop w i data s of
            (rest, s1) \<Rightarrow> (if sz \<noteq> 0 then (length data - length rest) div sz else count, s1))"

datatype whence = SEEK_SET | SEEK_CUR | SEEK_END | SEEK_OTHER

definition mls_proxy_seek :: "world \<Rightarrow> nat \<Rightarrow> int \<Rightarrow> whence \<Rightarrow> session \<Rightarrow> bool \<times> session" where
  "mls_proxy_seek w i off wh s =
     (case flush_proxy w i s of
        (ok, s1) \<Rightarrow>
          if \<not> ok then (False, s1)
          else case ss_handles s1 i of
            None \<Rightarrow> (False, s1)
          | Some p \<Rightarrow>
              let base = (case wh of SEEK_SET \<Rightarrow> 0 | SEEK_CUR \<Rightarrow> px_pos p | SEEK_END \<Rightarrow> px_file_size p
                          | SEEK_OTHER \<Rightarrow> - 1) :: u64;
                  magnitude = (if off < 0 then of_int (- (off + 1)) + 1 else of_int off) :: u64 in
              if base = - 1 \<or> off < 0 \<and> base < magnitude \<or>
                 0 \<le> off \<and> of_nat MAX_OFFSET - base < magnitude then (False, s1)
              else (True, set_proxy i (Some (p\<lparr>px_pos := if off < 0 then base - magnitude
                                                      else base + magnitude\<rparr>)) s1))"

definition mls_proxy_tell :: "nat \<Rightarrow> session \<Rightarrow> int" where
  "mls_proxy_tell i s = (case ss_handles s i of None \<Rightarrow> - 1
     | Some p \<Rightarrow> if unat (px_pos p) \<le> MAX_OFFSET then int (unat (px_pos p)) else - 1)"

definition mls_proxy_flush :: "world \<Rightarrow> nat \<Rightarrow> session \<Rightarrow> bool \<times> session" where
  "mls_proxy_flush w i s = flush_proxy w i s"

definition mls_proxy_close :: "world \<Rightarrow> nat \<Rightarrow> session \<Rightarrow> bool \<times> session" where
  "mls_proxy_close w i s =
     (case ss_handles s i of
        None \<Rightarrow> (False, s)
      | Some _ \<Rightarrow>
          (case flush_proxy w i s of (flushed, s1) \<Rightarrow>
           case (if flushed \<and> \<not> ss_failed s1
                 then gui_monitor_local_save_send w MLS_CLOSE i 0 [] s1 else (False, s1)) of (ok, s2) \<Rightarrow>
           let s3 = (if ok then s2 else snd (gui_monitor_local_save_send w MLS_ABORT i 0 [] s2))
           in (ok, set_proxy i None s3)))"

text \<open>The formatted text is an argument; what vsnprintf makes of it is its length and its bytes.\<close>

definition mls_proxy_printf :: "world \<Rightarrow> nat \<Rightarrow> bool \<Rightarrow> bytes \<Rightarrow> session \<Rightarrow> int \<times> session" where
  "mls_proxy_printf w i malloc_ok text_bytes s =
     (if 1048576 < length text_bytes then (- 1, s)
      else if \<not> malloc_ok then (- 1, s)
      else case mls_proxy_write w i 1 (length text_bytes) text_bytes s of
        (wr, s1) \<Rightarrow> (if wr = length text_bytes then int (length text_bytes) else - 1, s1))"

definition mls_proxy_open_count :: "session \<Rightarrow> nat" where
  "mls_proxy_open_count s = length (filter (\<lambda>i. ss_handles s i \<noteq> None) [0..<16])"

definition mls_proxy_reset_session_ids :: "session \<Rightarrow> session" where
  "mls_proxy_reset_session_ids s =
     (if mls_proxy_open_count s = 0 then s\<lparr>ss_next_id := 0\<rparr> else s)"

section \<open>The session\<close>

text \<open>A receiver has attached to the server.\<close>

definition gui_monitor_local_save_server_attach :: "mls_client \<Rightarrow> session" where
  "gui_monitor_local_save_server_attach c = \<lparr>ss_client = c, ss_active = True, ss_record = False,
     ss_failed = False, ss_queue = [], ss_q_bytes = 0, ss_outstanding = 0,
     ss_handles = (\<lambda>_. None), ss_next_id = 0, ss_calls = 0, ss_wires = 0\<rparr>"

text \<open>Beginning a recording; the first argument says whether the sender thread starts.\<close>

definition gui_monitor_local_save_begin :: "bool \<Rightarrow> session \<Rightarrow> bool \<times> session" where
  "gui_monitor_local_save_begin thread_ok s =
     (if \<not> (ss_active s \<and> \<not> ss_record s \<and> \<not> ss_failed s) then (False, s)
      else let s1 = (mls_proxy_reset_session_ids s)\<lparr>ss_queue := [], ss_q_bytes := 0,
                      ss_outstanding := 0, ss_record := True\<rparr>
        in if thread_ok then (True, s1) else (False, s1\<lparr>ss_record := False\<rparr>))"

text \<open>Ending it: the commit, and the sender works off what is still queued.\<close>

definition gui_monitor_local_save_end :: "world \<Rightarrow> bool \<Rightarrow> session \<Rightarrow> bool \<times> session" where
  "gui_monitor_local_save_end w commit s =
     (case (if ss_record s \<and> commit \<and> \<not> ss_failed s
            then gui_monitor_local_save_send w MLS_COMMIT 0 0 [] s
            else if ss_record s \<and> ss_active s \<and> \<not> ss_failed s
            then (False, snd (gui_monitor_local_save_send w MLS_ABORT 0 0 [] s))
            else (False, s)) of
        (complete, s1) \<Rightarrow>
          (complete, ((sender_turn w ^^ length (ss_queue s1)) s1)\<lparr>ss_record := False\<rparr>))"

text \<open>The client disconnects while the sender is idle.\<close>

definition detach :: "session \<Rightarrow> session" where
  "detach s = s\<lparr>ss_active := False, ss_failed := True\<rparr>"

end
