(* ===== verification/Local_Save_Refinement.thy ===== *)
theory Local_Save_Refinement
  imports Local_Save_Session
begin

text \<open>
  A committed local-save session leaves at the client exactly the files the recorders wrote.
  The reference is a plain file per proxy: its contents as the results of the calls report them.
\<close>

section \<open>Calls and reference files\<close>

datatype ls_event =
  Ls_Open path
| Ls_Write nat nat nat bytes
| Ls_Seek nat int whence
| Ls_Flush nat
| Ls_Close nat
| Ls_Sender
| Ls_Detach

record ref_file =
  rf_name :: bytes
  rf_pos :: nat
  rf_content :: bytes

record ref_state =
  rs_files :: "nat \<Rightarrow> ref_file option"
  rs_max :: nat

definition ref_write :: "bytes \<Rightarrow> ref_file \<Rightarrow> ref_file" where
  "ref_write bs f = f\<lparr>rf_content := file_store (rf_content f) (rf_pos f) bs,
                     rf_pos := rf_pos f + length bs\<rparr>"

definition ref_target :: "int \<Rightarrow> whence \<Rightarrow> ref_file \<Rightarrow> nat" where
  "ref_target off wh f =
     nat ((case wh of SEEK_SET \<Rightarrow> 0 | SEEK_CUR \<Rightarrow> int (rf_pos f) | SEEK_END \<Rightarrow> int (length (rf_content f))
           | SEEK_OTHER \<Rightarrow> 0) + off)"

definition ref_set :: "nat \<Rightarrow> ref_file \<Rightarrow> ref_state \<Rightarrow> ref_state" where
  "ref_set i f rs = \<lparr>rs_files = (rs_files rs)(i := Some f),
     rs_max = max (rs_max rs) (max (rf_pos f) (length (rf_content f)))\<rparr>"

text \<open>One call on the session and on the reference.  A buffer whose length is not size times
  count and an offset outside the 64-bit range are no calls.\<close>

fun ls_step :: "world \<Rightarrow> ls_event \<Rightarrow> session \<times> ref_state \<Rightarrow> session \<times> ref_state" where
  "ls_step w (Ls_Open p) (s, rs) =
     (case mls_proxy_open w p s of
        (Some i, s') \<Rightarrow> (s', ref_set i \<lparr>rf_name = base_name p, rf_pos = 0, rf_content = []\<rparr> rs)
      | (None, s') \<Rightarrow> (s', rs))"
| "ls_step w (Ls_Write i sz count data) (s, rs) =
     (if length data \<noteq> sz * count then (s, rs)
      else case mls_proxy_write w i sz count data s of
        (n, s') \<Rightarrow> (s', case rs_files rs i of None \<Rightarrow> rs
                      | Some f \<Rightarrow> ref_set i (ref_write (take (sz * n) data) f) rs))"
| "ls_step w (Ls_Seek i off wh) (s, rs) =
     (if off < - (2 ^ 63) \<or> 2 ^ 63 \<le> off then (s, rs)
      else case mls_proxy_seek w i off wh s of
        (ok, s') \<Rightarrow> (s', case rs_files rs i of None \<Rightarrow> rs
                      | Some f \<Rightarrow> if ok then ref_set i (f\<lparr>rf_pos := ref_target off wh f\<rparr>) rs else rs))"
| "ls_step w (Ls_Flush i) (s, rs) = (snd (mls_proxy_flush w i s), rs)"
| "ls_step w (Ls_Close i) (s, rs) = (snd (mls_proxy_close w i s), rs)"
| "ls_step w Ls_Sender (s, rs) = (sender_turn w s, rs)"
| "ls_step w Ls_Detach (s, rs) = (detach s, rs)"

definition ls_run :: "world \<Rightarrow> ls_event list \<Rightarrow> session \<times> ref_state \<Rightarrow> session \<times> ref_state" where
  "ls_run w es x = foldl (\<lambda>x e. ls_step w e x) x es"

section \<open>Sessions that can no longer commit\<close>

definition live :: "session \<Rightarrow> bool" where
  "live s = (ss_record s \<and> ss_active s \<and> \<not> ss_failed s \<and> mc_connected (ss_client s))"

text \<open>A frame that leaves the session live was applied by the receiver.\<close>

definition frame_applied :: "world \<Rightarrow> mls_frame \<Rightarrow> bytes \<Rightarrow> mls_client \<Rightarrow> mls_client \<Rightarrow> bool" where
  "frame_applied w f payload c c' =
     (\<exists>d r fs. mls_receiver_apply d (wo_is_dir w) (mc_receiver c) (mc_fs c) f
          (if fr_length f = 0 then None else Some payload) = (True, r, fs) \<and>
        fr_type f \<noteq> MLS_ABORT \<and> mc_fs c' = fs \<and> (fr_type f \<noteq> MLS_COMMIT \<longrightarrow> mc_receiver c' = r))"

lemma leaves_not_connected [simp]: "\<not> mc_connected (client_leaves c)"
  by (simp add: client_leaves_def)

lemma turn_live:
  assumes "mls_client_turn d is_dir m a h payload c = (c', ans)" "mc_connected c'"
  shows "mc_connected c \<and> (\<exists>f r fs. mls_decode_header h = Some f \<and>
    mls_receiver_apply d is_dir (mc_receiver c) (mc_fs c) f
      (if fr_length f = 0 then None else Some payload) = (True, r, fs) \<and> fr_type f \<noteq> MLS_ABORT \<and>
    mc_fs c' = fs \<and> (fr_type f \<noteq> MLS_COMMIT \<longrightarrow> mc_receiver c' = r))"
proof (cases "mls_decode_header h")
  case None
  then show ?thesis using assms by (auto simp: mls_client_turn_def split: if_splits)
next
  case (Some f)
  obtain ok r fs where ap: "mls_receiver_apply d is_dir (mc_receiver c) (mc_fs c) f
      (if fr_length f = 0 then None else Some payload) = (ok, r, fs)" by (metis prod_cases3)
  show ?thesis
    using assms ap Some
    by (cases ok; cases "fr_type f = MLS_COMMIT")
      (auto simp: mls_client_turn_def Let_def split: if_splits option.splits)
qed

text \<open>The parts of the session the sender leaves alone.\<close>

definition sender_frame :: "session \<Rightarrow> session \<Rightarrow> bool" where
  "sender_frame s s' = (ss_queue s' = ss_queue s \<and> ss_handles s' = ss_handles s)"

lemma frame_out_live:
  assumes "wire_frame_out w f payload s = (sent, ans, s')" "live s'" "mls_valid f"
  shows "live s \<and> frame_applied w f payload (ss_client s) (ss_client s') \<and>
    sender_frame s s'"
proof -
  obtain h where h: "mls_encode_header f = Some h" using mls.encode_some [OF assms(3)] by blast
  note d = mls.decode_encode [OF h]
  let ?a = "wo_wire w (ss_wires s)"
  show ?thesis
  proof (cases "wa_arrives ?a")
    case False
    then show ?thesis using assms h by (auto simp: wire_frame_out_def Let_def live_def)
  next
    case True
    obtain c ack where t: "mls_client_turn (wa_disk ?a) (wo_is_dir w) (wa_malloc ?a) (wa_ack_sent ?a) h payload
        (ss_client s) = (c, ack)" by fastforce
    then have s': "s' = s\<lparr>ss_wires := ss_wires s + 1, ss_client := c\<rparr>"
      using assms(1) h True by (auto simp: wire_frame_out_def Let_def)
    then have "mc_connected c" using assms(2) by (simp add: live_def)
    note tl = turn_live [OF t this]
    then have "frame_applied w f payload (ss_client s) c"
      unfolding frame_applied_def using d by (metis option.inject)
    then show ?thesis using assms(2) tl by (simp add: s' live_def sender_frame_def)
  qed
qed

lemma valid_frame [simp]:
  assumes "i < 16" "length payload \<le> MAX_PAYLOAD" "type \<noteq> 0" "type \<le> MLS_SYNC"
  shows "mls_valid \<lparr>fr_type = type, fr_file_id = of_nat i, fr_length = of_nat (length payload),
    fr_offset = off, fr_crc = crc\<rparr>"
proof -
  have "unat (of_nat i :: u8) = i" "unat (of_nat (length payload) :: u32) = length payload"
    using assms(1,2) by (simp_all add: unat_of_nat_lt max_payload)
  then show ?thesis
    using assms unfolding mls_valid_def one_le by (simp add: word_le_nat_alt word_less_nat_alt)
qed

text \<open>What each layer of the sender keeps, and what a live session after it means.\<close>

lemma send_sync_live:
  assumes "mls_send_wire_sync w type i off payload s = (ok, s')" "live s'" "type \<noteq> 0" "type \<le> MLS_SYNC"
    "i < 16" "length payload \<le> MAX_PAYLOAD"
  shows "ok \<and> live s \<and> sender_frame s s' \<and>
    frame_applied w \<lparr>fr_type = type, fr_file_id = of_nat i, fr_length = of_nat (length payload),
      fr_offset = off, fr_crc = (if payload = [] then 0 else mls_crc32 payload)\<rparr>
      payload (ss_client s) (ss_client s')"
proof -
  let ?f = "\<lparr>fr_type = type, fr_file_id = of_nat i, fr_length = of_nat (length payload),
      fr_offset = off, fr_crc = (if payload = [] then 0 else mls_crc32 payload)\<rparr>"
  obtain sent ans s1 where o1: "wire_frame_out w ?f payload s = (sent, ans, s1)" by (metis prod_cases3)
  have v: "mls_valid ?f" using assms(3-6) by (intro valid_frame)
  show ?thesis
  proof (cases "ss_record s \<and> ss_active s \<and> \<not> ss_failed s")
    case True
    then have "ok \<and> s' = s1 \<or> \<not> ok \<and> s' = mls_mark_failed_locked s1"
      using assms(1,5,6) o1 unfolding mls_send_wire_sync_def by (auto simp: Let_def)
    moreover have "\<not> live (mls_mark_failed_locked s1)" by (simp add: live_def mls_mark_failed_locked_def)
    ultimately have "ok" "s' = s1" using assms(2) by auto
    then show ?thesis using frame_out_live [OF o1 _ v] assms(2) by blast
  next
    case False
    then show ?thesis using assms by (auto simp: mls_send_wire_sync_def live_def)
  qed
qed

lemma send_stream_live:
  assumes "mls_send_wire_stream w i off payload s = (ok, s')" "live s'" "i < 16" "length payload \<le> MAX_PAYLOAD"
  shows "ok \<and> live s \<and> sender_frame s s' \<and>
    frame_applied w \<lparr>fr_type = MLS_WRITE_STREAM, fr_file_id = of_nat i,
      fr_length = of_nat (length payload), fr_offset = off, fr_crc = mls_crc32 payload\<rparr>
      payload (ss_client s) (ss_client s')"
proof -
  let ?f = "\<lparr>fr_type = MLS_WRITE_STREAM, fr_file_id = of_nat i, fr_length = of_nat (length payload),
      fr_offset = off, fr_crc = mls_crc32 payload\<rparr>"
  obtain sent ans s1 where o1: "wire_frame_out w ?f payload s = (sent, ans, s1)" by (metis prod_cases3)
  have v: "mls_valid ?f" using assms(3,4) by (intro valid_frame) simp_all
  show ?thesis
  proof (cases "ss_record s \<and> ss_active s \<and> \<not> ss_failed s")
    case True
    then have "ok = sent" "s' = (if sent then s1 else mls_mark_failed_locked s1)"
      using assms(1) o1 unfolding mls_send_wire_stream_def by (auto simp: Let_def)
    moreover have "\<not> live (mls_mark_failed_locked s1)" by (simp add: live_def mls_mark_failed_locked_def)
    ultimately have "ok" "s' = s1" using assms(2) by (auto split: if_splits)
    then show ?thesis using frame_out_live [OF o1 _ v] assms(2) by blast
  next
    case False
    then show ?thesis using assms by (auto simp: mls_send_wire_stream_def live_def)
  qed
qed

section \<open>The invariant of a live session\<close>

definition pending :: "nat \<Rightarrow> mls_job list \<Rightarrow> mls_job list" where
  "pending i q = filter (\<lambda>j. jb_id j = i) q"

definition apply_jobs :: "bytes \<Rightarrow> mls_job list \<Rightarrow> bytes" where
  "apply_jobs c js = foldl (\<lambda>c j. file_store c (unat (jb_offset j)) (jb_payload j)) c js"

definition job_ok :: "mls_job \<Rightarrow> bool" where
  "job_ok j = (jb_type j = MLS_WRITE \<and> jb_id j < 16 \<and> jb_payload j \<noteq> [] \<and>
     length (jb_payload j) \<le> MAX_PAYLOAD)"

text \<open>What a proxy, its queued jobs and the client's file make up is the reference file.\<close>

definition proxy_rel :: "bytes \<Rightarrow> mls_job list \<Rightarrow> proxy \<Rightarrow> ref_file \<Rightarrow> bool" where
  "proxy_rel c js p f =
     (file_store (apply_jobs c js) (unat (px_buffered_offset p)) (px_cache p) = rf_content f \<and>
      (px_cache p \<noteq> [] \<longrightarrow> unat (px_buffered_offset p) + length (px_cache p) = rf_pos f) \<and>
      unat (px_pos p) = rf_pos f \<and> unat (px_file_size p) = length (rf_content f) \<and>
      rf_pos f \<le> MAX_OFFSET \<and> length (rf_content f) \<le> MAX_OFFSET)"

text \<open>One file id; the relation is claimed for the ids of a set only.\<close>

definition file_inv ::
  "path \<Rightarrow> fs \<Rightarrow> nat set \<Rightarrow> (nat \<Rightarrow> ref_file option) \<Rightarrow> fs \<Rightarrow> mls_job list \<Rightarrow> (nat \<Rightarrow> proxy option) \<Rightarrow>
   nat \<Rightarrow> mls_file \<Rightarrow> bool" where
  "file_inv dir fs0 G ref fs q h i f =
     (\<not> lf_bad f \<and> (h i \<noteq> None \<longrightarrow> lf_fp f) \<and>
      (lf_fp f \<longrightarrow> lf_was_opened f \<and> lf_cursor f = unat (lf_next_offset f)) \<and>
      (if lf_was_opened f
       then \<exists>g c. ref i = Some g \<and> fs (lf_incomplete_path f) = Some c \<and>
         lf_final_path f = child dir (rf_name g) \<and>
         lf_incomplete_path f = lf_final_path f @ partial_suffix \<and>
         fs0 (lf_final_path f) = None \<and> fs0 (lf_incomplete_path f) = None \<and>
         (\<not> lf_fp f \<longrightarrow> c = rf_content g) \<and>
         (\<forall>p. h i = Some p \<and> \<not> px_bad p \<and> i \<in> G \<longrightarrow> proxy_rel c (pending i q) p g) \<and>
         (\<forall>p. h i = Some p \<longrightarrow> length (px_cache p) \<le> MAX_PAYLOAD)
       else ref i = None \<and> lf_next_offset f = 0))"

definition session_inv ::
  "path \<Rightarrow> fs \<Rightarrow> nat set \<Rightarrow> (nat \<Rightarrow> ref_file option) \<Rightarrow> mls_client \<Rightarrow> mls_job list \<Rightarrow>
   (nat \<Rightarrow> proxy option) \<Rightarrow> bool" where
  "session_inv dir fs0 G ref c q h =
     (let r = mc_receiver c; fl = lr_files r; fs = mc_fs c in
      lr_directory r = dir \<and> \<not> lr_overwrite r \<and> \<not> lr_had_error r \<and> length fl = 16 \<and>
      (\<forall>j\<in>set q. job_ok j \<and> lf_fp (fl ! jb_id j)) \<and>
      (\<forall>i\<ge>16. h i = None \<and> ref i = None) \<and>
      (\<forall>i<16. file_inv dir fs0 G ref fs q h i (fl ! i)) \<and>
      (\<forall>i<16. \<forall>j<16. i \<noteq> j \<and> lf_was_opened (fl ! i) \<and> lf_was_opened (fl ! j) \<longrightarrow>
         lf_incomplete_path (fl ! i) \<noteq> lf_incomplete_path (fl ! j)) \<and>
      (\<forall>p. (\<forall>i<16. lf_was_opened (fl ! i) \<longrightarrow> p \<noteq> lf_incomplete_path (fl ! i)) \<longrightarrow> fs p = fs0 p))"

lemma session_invD:
  assumes "session_inv dir fs0 G ref c q h" "i < 16"
  shows "file_inv dir fs0 G ref (mc_fs c) q h i (lr_files (mc_receiver c) ! i)"
    "length (lr_files (mc_receiver c)) = 16"
    "j \<in> set q \<Longrightarrow> job_ok j \<and> lf_fp (lr_files (mc_receiver c) ! jb_id j)"
    "lr_directory (mc_receiver c) = dir" "\<not> lr_overwrite (mc_receiver c)" "\<not> lr_had_error (mc_receiver c)"
    "k < 16 \<Longrightarrow> i \<noteq> k \<Longrightarrow> lf_was_opened (lr_files (mc_receiver c) ! i) \<Longrightarrow>
      lf_was_opened (lr_files (mc_receiver c) ! k) \<Longrightarrow>
      lf_incomplete_path (lr_files (mc_receiver c) ! i) \<noteq> lf_incomplete_path (lr_files (mc_receiver c) ! k)"
  using assms unfolding session_inv_def Let_def by blast+

text \<open>Exchanging one file of the receiver.\<close>

lemma session_inv_set_file:
  assumes inv: "session_inv dir fs0 G ref c q h" and i: "i < 16"
    and fi: "file_inv dir fs0 G ref' fs' q' h' i f'"
    and c': "mc_receiver c' = set_file i f' (mc_receiver c)" "mc_fs c' = fs'"
    and q': "\<forall>j\<in>set q'. (j \<in> set q \<and> jb_id j \<noteq> i) \<or> job_ok j \<and> jb_id j = i \<and> lf_fp f'"
    and same: "\<And>k. k \<noteq> i \<Longrightarrow> ref' k = ref k \<and> h' k = h k \<and> pending k q' = pending k q"
    and fs: "\<And>p. p \<noteq> lf_incomplete_path f' \<Longrightarrow> fs' p = mc_fs c p"
    and op: "lf_was_opened f'"
    and path: "if lf_was_opened (lr_files (mc_receiver c) ! i)
      then lf_incomplete_path f' = lf_incomplete_path (lr_files (mc_receiver c) ! i)
      else mc_fs c (lf_incomplete_path f') = None"
  shows "session_inv dir fs0 G ref' c' q' h'"
proof -
  let ?r = "mc_receiver c" and ?r' = "mc_receiver c'"
  note D = session_invD [OF inv]
  have nth: "lr_files ?r' ! k = (if k = i then f' else lr_files ?r ! k)" if "k < 16" for k
    using that D(2) [OF i] i by (simp add: c' set_file_def)
  have diff: "lf_incomplete_path (lr_files ?r ! k) \<noteq> lf_incomplete_path f'"
    if "k < 16" "k \<noteq> i" "lf_was_opened (lr_files ?r ! k)" for k
  proof (cases "lf_was_opened (lr_files ?r ! i)")
    case True
    then show ?thesis using D(7) [OF that(1) i] that path by simp
  next
    case False
    then show ?thesis using D(1) [OF that(1)] that path by (auto simp: file_inv_def)
  qed
  have other: "file_inv dir fs0 G ref' fs' q' h' k (lr_files ?r ! k)" if "k < 16" "k \<noteq> i" for k
    using D(1) [OF that(1)] same [OF that(2)] diff [OF that] fs by (auto simp: file_inv_def)
  have "fs' p = fs0 p" if "\<forall>k<16. lf_was_opened (lr_files ?r' ! k) \<longrightarrow> p \<noteq> lf_incomplete_path (lr_files ?r' ! k)" for p
  proof -
    have "p \<noteq> lf_incomplete_path f'" using that i op nth [OF i] by auto
    moreover have "p \<noteq> lf_incomplete_path (lr_files ?r ! k)" if "k < 16" "lf_was_opened (lr_files ?r ! k)" for k
    proof (cases "k = i")
      case True
      then show ?thesis using that path calculation by simp
    next
      case False
      then show ?thesis using that \<open>\<forall>k<16. _ k\<close> nth [OF that(1)] by auto
    qed
    ultimately show ?thesis using fs inv unfolding session_inv_def Let_def by metis
  qed
  moreover have "\<forall>j\<in>set q'. job_ok j \<and> lf_fp (lr_files ?r' ! jb_id j)"
    using q' D(3) [OF i] nth i by (fastforce simp: job_ok_def)
  moreover have "\<forall>k<16. file_inv dir fs0 G ref' fs' q' h' k (lr_files ?r' ! k)"
    using fi other nth by simp
  moreover have "\<forall>j<16. \<forall>k<16. j \<noteq> k \<and> lf_was_opened (lr_files ?r' ! j) \<and> lf_was_opened (lr_files ?r' ! k) \<longrightarrow>
      lf_incomplete_path (lr_files ?r' ! j) \<noteq> lf_incomplete_path (lr_files ?r' ! k)"
    using diff D(7) nth by (metis (full_types))
  moreover have "\<forall>k\<ge>16. h' k = None \<and> ref' k = None"
    using inv same i unfolding session_inv_def Let_def by (metis not_less)
  ultimately show ?thesis
    using D(2,4-6) [OF i] unfolding session_inv_def Let_def c'(2) by (simp add: c'(1) set_file_def)
qed

lemma write_frame_ok:
  assumes "mls_write d r fs i off data fl = (True, r', fs')" "lf_cursor (lr_files r ! i) = unat (lf_next_offset (lr_files r ! i))"
  shows "\<exists>bs. data = Some bs \<and> lf_fp (lr_files r ! i) \<and> unat off + length bs \<le> MAX_OFFSET \<and>
    r' = set_file i ((lr_files r ! i)\<lparr>lf_cursor := unat (off + of_nat (length bs)),
           lf_next_offset := off + of_nat (length bs)\<rparr>) r \<and>
    fs' = fs(lf_incomplete_path (lr_files r ! i) :=
           map_option (\<lambda>c. file_store c (unat off) bs) (fs (lf_incomplete_path (lr_files r ! i))))"
proof -
  let ?f = "lr_files r ! i"
  obtain bs where bs: "data = Some bs" using assms(1) by (cases data) (auto simp: mls_write_def)
  have g: "\<not> (\<not> lf_fp ?f \<or> lf_bad ?f \<or> MAX_OFFSET < unat off \<or> MAX_OFFSET - unat off < length bs)"
    using assms(1) bs by (auto simp: mls_write_def Let_def split: if_splits)
  have len: "unat off + length bs \<le> MAX_OFFSET" using g by linarith
  then have u: "unat (off + of_nat (length bs)) = unat off + length bs"
    by (simp add: unat_sum_lt unat_of_nat_lt)
  have sk: "\<not> (off \<noteq> lf_next_offset ?f \<and> \<not> dk_seek d)"
    using assms(1) unfolding mls_write_def bs option.case Let_def if_not_P [OF g]
    by (auto split: if_splits)
  have cur: "(if off \<noteq> lf_next_offset ?f then unat off else lf_cursor ?f) = unat off"
    using assms(2) by simp
  have n: "min (dk_written d) (length bs) = length bs"
    using assms(1) unfolding mls_write_def bs option.case Let_def if_not_P [OF g] if_not_P [OF sk]
    by (auto split: if_splits)
  show ?thesis
    using assms(1) len g u
    unfolding mls_write_def bs option.case Let_def if_not_P [OF g] if_not_P [OF sk] cur n
    by (intro exI [of _ bs]) auto
qed

lemma stream_applied:
  assumes inv: "session_inv dir fs0 G ref c (job # q) h"
    and ap: "frame_applied w \<lparr>fr_type = MLS_WRITE_STREAM, fr_file_id = of_nat (jb_id job),
      fr_length = of_nat (length (jb_payload job)), fr_offset = jb_offset job,
      fr_crc = mls_crc32 (jb_payload job)\<rparr> (jb_payload job) c c'"
  shows "session_inv dir fs0 G ref c' q h"
proof -
  let ?r = "mc_receiver c" and ?i = "jb_id job" and ?bs = "jb_payload job" and ?off = "jb_offset job"
  let ?f = "lr_files ?r ! ?i" and ?fs = "mc_fs c"
  have job: "job_ok job" "lf_fp ?f" "length (lr_files ?r) = 16" and fi: "file_inv dir fs0 G ref ?fs (job # q) h ?i ?f"
    using inv by (auto simp: session_inv_def Let_def job_ok_def)
  have idx: "unat (of_nat ?i :: u8) = ?i" and len: "unat (of_nat (length ?bs) :: u32) = length ?bs"
    using job(1) by (simp_all add: job_ok_def unat_of_nat_lt max_payload)
  then have ne: "(of_nat (length ?bs) :: u32) \<noteq> 0" using job(1) by (auto simp: job_ok_def)
  obtain d r fs where ap': "mls_receiver_apply d (wo_is_dir w) ?r ?fs \<lparr>fr_type = MLS_WRITE_STREAM,
      fr_file_id = of_nat ?i, fr_length = of_nat (length ?bs), fr_offset = ?off, fr_crc = mls_crc32 ?bs\<rparr>
      (Some ?bs) = (True, r, fs)" and c': "mc_fs c' = fs" "mc_receiver c' = r"
    using ap ne unfolding frame_applied_def by auto
  have w: "mls_write d ?r ?fs ?i ?off (Some ?bs) False = (True, r, fs)"
    using ap' idx by (auto simp: mls_receiver_apply_def apply_type_def split: if_splits prod.splits)
  obtain g c0 where g: "ref ?i = Some g" "?fs (lf_incomplete_path ?f) = Some c0" "lf_was_opened ?f"
    using fi job(2) by (auto simp: file_inv_def split: if_splits)
  let ?f' = "?f\<lparr>lf_cursor := unat (?off + of_nat (length ?bs)), lf_next_offset := ?off + of_nat (length ?bs)\<rparr>"
  have r: "r = set_file ?i ?f' ?r" and fs: "fs = ?fs(lf_incomplete_path ?f := Some (file_store c0 (unat ?off) ?bs))"
    using write_frame_ok [OF w] fi job(2) g by (auto simp: file_inv_def)
  have fi': "file_inv dir fs0 G ref fs q h ?i ?f'"
    using fi g job(2) by (auto simp: file_inv_def fs pending_def proxy_rel_def apply_jobs_def)
  show ?thesis
    by (rule session_inv_set_file [OF inv _ fi'])
      (use job g c' r fs inv in \<open>auto simp: session_inv_def Let_def job_ok_def pending_def\<close>)
qed

section \<open>The sender keeps the invariant\<close>

definition keeps ::
  "path \<Rightarrow> fs \<Rightarrow> nat set \<Rightarrow> (nat \<Rightarrow> ref_file option) \<Rightarrow> (nat \<Rightarrow> proxy option) \<Rightarrow> session \<Rightarrow> bool" where
  "keeps dir fs0 G ref h s = session_inv dir fs0 G ref (ss_client s) (ss_queue s) h"

abbreviation keeps_all :: "path \<Rightarrow> fs \<Rightarrow> nat set \<Rightarrow> (nat \<Rightarrow> ref_file option) \<Rightarrow> session \<Rightarrow> bool" where
  "keeps_all dir fs0 G ref s \<equiv> keeps dir fs0 G ref (ss_handles s) s"

lemma sync_applied:
  assumes "frame_applied w \<lparr>fr_type = MLS_SYNC, fr_file_id = x, fr_length = y, fr_offset = z, fr_crc = v\<rparr> pl c c'"
  shows "mc_receiver c' = mc_receiver c" "mc_fs c' = mc_fs c"
  using assms by (auto simp: frame_applied_def mls_receiver_apply_def apply_type_def split: if_splits)

lemma session_inv_cong:
  "mc_receiver c' = mc_receiver c \<Longrightarrow> mc_fs c' = mc_fs c \<Longrightarrow>
   session_inv dir fs0 G ref c' q h = session_inv dir fs0 G ref c q h"
  by (simp add: session_inv_def)

lemma sender_job_write:
  assumes inv: "session_inv dir fs0 G ref (ss_client s) (job # q) h"
    and run: "sender_job w job s = (ok, s')" and live: "live s'"
  shows "ok \<and> live s \<and> session_inv dir fs0 G ref (ss_client s') q h \<and> sender_frame s s'"
proof -
  have job: "job_ok job" using session_invD(3) [OF inv, of 0 job] by simp
  then have ty: "jb_type job = MLS_WRITE" "jb_id job < 16" "length (jb_payload job) \<le> MAX_PAYLOAD"
    by (simp_all add: job_ok_def)
  obtain ok1 s1 where st: "mls_send_wire_stream w (jb_id job) (jb_offset job) (jb_payload job) s = (ok1, s1)"
    by fastforce
  let ?s1 = "if ok1 then s1\<lparr>ss_outstanding := ss_outstanding s1 + 1\<rparr> else s1"
  obtain ok2 s2 where sy: "(if ok1 \<and> 8 \<le> ss_outstanding ?s1
      then case mls_send_wire_sync w MLS_SYNC 0 0 [] ?s1 of (ok, s2) \<Rightarrow> (ok, s2\<lparr>ss_outstanding := 0\<rparr>)
      else (ok1, ?s1)) = (ok2, s2)" by fastforce
  have s': "ok = ok2" "s' = (if length (jb_payload job) \<le> ss_q_bytes s2
             then s2\<lparr>ss_q_bytes := ss_q_bytes s2 - length (jb_payload job)\<rparr> else s2)"
    using run st sy ty(1) by (auto simp: sender_job_def split: if_splits prod.splits)
  have lv2: "live s2" using live by (auto simp: s' live_def split: if_splits)
  have two: "ok2 = ok1 \<and> live s1 \<and> mc_receiver (ss_client s2) = mc_receiver (ss_client s1) \<and>
      mc_fs (ss_client s2) = mc_fs (ss_client s1) \<and> sender_frame s1 s2"
  proof (cases "ok1 \<and> 8 \<le> ss_outstanding ?s1")
    case True
    obtain ok3 s3 where sy3: "mls_send_wire_sync w MLS_SYNC 0 0 [] ?s1 = (ok3, s3)" by fastforce
    then have s2: "ok2 = ok3" "s2 = s3\<lparr>ss_outstanding := 0\<rparr>" using sy True by auto
    have "live s3" using lv2 by (simp add: s2 live_def)
    note r3 = send_sync_live [OF sy3 this]
    then have r: "ok3" "live ?s1" "sender_frame ?s1 s3"
      "mc_receiver (ss_client s3) = mc_receiver (ss_client ?s1)" "mc_fs (ss_client s3) = mc_fs (ss_client ?s1)"
      using sync_applied by (auto simp: live_def)
    then show ?thesis using s2 True by (auto simp: sender_frame_def live_def)
  next
    case False
    then show ?thesis using sy lv2 by (auto simp: sender_frame_def live_def split: if_splits)
  qed
  then have r1: "ok1 \<and> live s \<and> sender_frame s s1 \<and> session_inv dir fs0 G ref (ss_client s1) q h"
    using send_stream_live [OF st _ ty(2,3)] stream_applied [OF inv] by blast
  have "session_inv dir fs0 G ref (ss_client s2) q h"
    using two r1 session_inv_cong [of "ss_client s2" "ss_client s1"] by (simp add: sender_frame_def)
  then show ?thesis
    using two r1 s' by (auto simp: keeps_def sender_frame_def)
qed

lemma sender_turn_keeps:
  assumes "keeps dir fs0 G ref h s" "live (sender_turn w s)"
  shows "live s \<and> keeps dir fs0 G ref h (sender_turn w s) \<and> ss_handles (sender_turn w s) = ss_handles s"
proof (cases "ss_queue s")
  case Nil
  then show ?thesis using assms by (simp add: sender_turn_def)
next
  case (Cons job q)
  obtain ok s' where run: "sender_job w job (s\<lparr>ss_queue := q\<rparr>) = (ok, s')" by fastforce
  then have t: "sender_turn w s = s'" using Cons by (simp add: sender_turn_def)
  then show ?thesis
    using sender_job_write [OF _ run, of dir fs0 G ref q h] assms Cons
    by (auto simp: keeps_def sender_frame_def live_def)
qed

text \<open>A session that is no longer live stays so.\<close>

lemma frame_out_mono: "wire_frame_out w f payload s = (b, a, s') \<Longrightarrow> live s' \<Longrightarrow> live s"
  by (auto simp: wire_frame_out_def Let_def live_def dest: turn_live split: option.splits if_splits prod.splits)

lemma send_sync_mono: "mls_send_wire_sync w t i off payload s = (ok, s') \<Longrightarrow> live s' \<Longrightarrow> live s"
  by (auto simp: mls_send_wire_sync_def Let_def mls_mark_failed_locked_def
      dest: frame_out_mono split: if_splits prod.splits) (auto simp: live_def)

lemma send_stream_mono: "mls_send_wire_stream w i off payload s = (ok, s') \<Longrightarrow> live s' \<Longrightarrow> live s"
  by (auto simp: mls_send_wire_stream_def Let_def mls_mark_failed_locked_def
      dest: frame_out_mono split: if_splits prod.splits) (auto simp: live_def)

lemma live_updates [simp]:
  "live (s\<lparr>ss_queue := q\<rparr>) = live s" "live (s\<lparr>ss_q_bytes := n\<rparr>) = live s" "live (s\<lparr>ss_outstanding := n\<rparr>) = live s"
  "live (s\<lparr>ss_handles := h\<rparr>) = live s" "live (s\<lparr>ss_next_id := k\<rparr>) = live s" "live (s\<lparr>ss_calls := n\<rparr>) = live s"
  "live (set_proxy i p s) = live s"
  by (simp_all add: live_def set_proxy_def)

lemma sender_job_mono:
  assumes "sender_job w job s = (ok, s')" "live s'"
  shows "live s"
proof -
  obtain r1 s1 where a: "(if jb_type job = MLS_WRITE
            then case mls_send_wire_stream w (jb_id job) (jb_offset job) (jb_payload job) s of
                (ok, s1) \<Rightarrow> (ok, if ok then s1\<lparr>ss_outstanding := ss_outstanding s1 + 1\<rparr> else s1)
            else (True, s)) = (r1, s1)" by fastforce
  obtain r2 s2 where b: "(if r1 \<and> (8 \<le> ss_outstanding s1 \<or> 0 < ss_outstanding s1 \<and> jb_type job \<noteq> MLS_WRITE)
            then case mls_send_wire_sync w MLS_SYNC 0 0 [] s1 of
                (ok, s2) \<Rightarrow> (ok, s2\<lparr>ss_outstanding := 0\<rparr>)
            else (r1, s1)) = (r2, s2)" by fastforce
  obtain r3 s3 where c: "(if r2 \<and> jb_type job \<noteq> MLS_WRITE
            then mls_send_wire_sync w (jb_type job) (jb_id job) (jb_offset job) (jb_payload job) s2
            else (r2, s2)) = (r3, s3)" by fastforce
  have "live s3" using assms unfolding sender_job_def a prod.case b c by (auto split: if_splits)
  then have "live s2" using c send_sync_mono by (auto split: if_splits)
  then have "live s1" using b send_sync_mono by (auto split: if_splits prod.splits)
  then show ?thesis using a send_stream_mono by (auto split: if_splits prod.splits)
qed

lemma sender_turn_mono: "live (sender_turn w s) \<Longrightarrow> live s"
proof (cases "ss_queue s")
  case (Cons job q)
  assume "live (sender_turn w s)"
  then show ?thesis
    using Cons sender_job_mono [of w job "s\<lparr>ss_queue := q\<rparr>"]
    by (cases "sender_job w job (s\<lparr>ss_queue := q\<rparr>)") (simp add: sender_turn_def)
qed (simp add: sender_turn_def)

lemma sender_turns_keep:
  assumes "keeps dir fs0 G ref h s" "live ((sender_turn w ^^ n) s)"
  shows "live s \<and> keeps dir fs0 G ref h ((sender_turn w ^^ n) s) \<and> ss_handles ((sender_turn w ^^ n) s) = ss_handles s"
  using assms
proof (induction n)
  case (Suc n)
  then show ?case
    using sender_turn_keeps [of dir fs0 G ref h "(sender_turn w ^^ n) s" w]
      sender_turn_mono [of w "(sender_turn w ^^ n) s"] by auto
qed simp

lemma sender_turns_mono: "live ((sender_turn w ^^ n) s) \<Longrightarrow> live s"
  by (induction n) (auto dest: sender_turn_mono)

lemma wait_room_mono: "live (wait_room w n q s) \<Longrightarrow> live s"
proof (induction w n q s rule: wait_room.induct)
  case (2 w n job q s)
  then show ?case using sender_job_mono [of w job s] by (cases "sender_job w job s") (auto split: if_splits)
qed simp

lemma wait_room_keeps:
  assumes "session_inv dir fs0 G ref (ss_client s) q h" "live (wait_room w n q s)"
  shows "live s \<and> keeps dir fs0 G ref h (wait_room w n q s) \<and> ss_handles (wait_room w n q s) = ss_handles s"
  using assms
proof (induction w n q s rule: wait_room.induct)
  case (2 w n job q s)
  show ?case
  proof (cases "ss_failed s \<or> ss_q_bytes s + n \<le> MLS_QUEUE_MAX_BYTES")
    case False
    obtain ok s' where run: "sender_job w job s = (ok, s')" by fastforce
    then have w: "wait_room w n (job # q) s = wait_room w n q s'" using False by simp
    then have "live s'" using wait_room_mono 2(3) by simp
    note k = sender_job_write [OF 2(2) run this]
    have "snd (sender_job w job s) = s'" using run by simp
    then show ?thesis
      using 2(1) [OF False] k 2(3) unfolding w by (simp add: sender_frame_def)
  qed (use 2 in \<open>simp add: keeps_def\<close>)
qed (simp add: keeps_def)

text \<open>A control operation finds an empty queue.\<close>

definition control_done ::
  "world \<Rightarrow> path \<Rightarrow> fs \<Rightarrow> nat set \<Rightarrow> (nat \<Rightarrow> ref_file option) \<Rightarrow> (nat \<Rightarrow> proxy option) \<Rightarrow> u8 \<Rightarrow> nat \<Rightarrow> u64 \<Rightarrow> bytes \<Rightarrow>
   session \<Rightarrow> session \<Rightarrow> bool" where
  "control_done w dir fs0 G ref h type i off payload s s' =
     (\<exists>c. session_inv dir fs0 G ref c [] h \<and>
        frame_applied w \<lparr>fr_type = type, fr_file_id = of_nat i, fr_length = of_nat (length payload),
          fr_offset = off, fr_crc = (if payload = [] then 0 else mls_crc32 payload)\<rparr>
          payload c (ss_client s') \<and>
        ss_queue s' = [] \<and> ss_handles s' = ss_handles s)"

lemma sender_job_control:
  assumes inv: "session_inv dir fs0 G ref (ss_client s) [] h"
    and run: "sender_job w job s = (ok, s')" and live: "live s'" and q: "ss_queue s = []"
    and job: "jb_type job \<noteq> MLS_WRITE" "jb_type job \<noteq> 0" "jb_type job \<le> MLS_SYNC" "jb_id job < 16"
      "length (jb_payload job) \<le> MAX_PAYLOAD"
  shows "ok \<and> control_done w dir fs0 G ref h (jb_type job) (jb_id job) (jb_offset job) (jb_payload job) s s'"
proof -
  obtain r2 s2 where b: "(if 8 \<le> ss_outstanding s \<or> 0 < ss_outstanding s
            then case mls_send_wire_sync w MLS_SYNC 0 0 [] s of
                (ok, s2) \<Rightarrow> (ok, s2\<lparr>ss_outstanding := 0\<rparr>)
            else (True, s)) = (r2, s2)" by fastforce
  obtain r3 s3 where c: "(if r2
            then mls_send_wire_sync w (jb_type job) (jb_id job) (jb_offset job) (jb_payload job) s2
            else (r2, s2)) = (r3, s3)" by fastforce
  have s': "ok = r3" "ss_client s' = ss_client s3" "sender_frame s3 s'" "live s3"
    using run job(1) b c live unfolding sender_job_def
    by (auto simp: sender_frame_def split: if_splits)
  have "live s2" using c s'(4) send_sync_mono by (auto split: if_splits)
  then have two: "r2 \<and> mc_receiver (ss_client s2) = mc_receiver (ss_client s) \<and>
      mc_fs (ss_client s2) = mc_fs (ss_client s) \<and> sender_frame s s2"
  proof (cases "0 < ss_outstanding s")
    case True
    obtain ok3 s4 where sy: "mls_send_wire_sync w MLS_SYNC 0 0 [] s = (ok3, s4)" by fastforce
    then have s2: "r2 = ok3" "s2 = s4\<lparr>ss_outstanding := 0\<rparr>" using b True by auto
    have "live s4" using \<open>live s2\<close> by (simp add: s2)
    from send_sync_live [OF sy this] sync_applied show ?thesis
      by (auto simp: s2 sender_frame_def)
  qed (use b in \<open>auto simp: sender_frame_def\<close>)
  then have sy: "mls_send_wire_sync w (jb_type job) (jb_id job) (jb_offset job) (jb_payload job) s2 = (r3, s3)"
    using c by simp
  note r = send_sync_live [OF sy s'(4) job(2-5)]
  have "session_inv dir fs0 G ref (ss_client s2) [] h"
    using inv two session_inv_cong [of "ss_client s2" "ss_client s"] by simp
  then show ?thesis
    using r two s' q unfolding control_done_def by (auto simp: sender_frame_def)
qed

lemma drain_mono: "drain w q s = (ok, s') \<Longrightarrow> live s' \<Longrightarrow> live s"
proof (induction w q s arbitrary: ok s' rule: drain.induct)
  case (2 w job s)
  then show ?case using sender_job_mono [of w job "s\<lparr>ss_queue := []\<rparr>"] by simp
next
  case (3 w job j2 q s)
  then show ?case using sender_job_mono [of w job s] by (cases "sender_job w job s") simp
qed simp

lemma drain_control:
  assumes "session_inv dir fs0 G ref (ss_client s) q h"
    and "drain w (q @ [job]) s = (ok, s')" "live s'"
    and "jb_type job \<noteq> MLS_WRITE" "jb_type job \<noteq> 0" "jb_type job \<le> MLS_SYNC" "jb_id job < 16"
      "length (jb_payload job) \<le> MAX_PAYLOAD"
  shows "ok \<and> control_done w dir fs0 G ref h (jb_type job) (jb_id job) (jb_offset job) (jb_payload job) s s'"
  using assms
proof (induction q arbitrary: s)
  case Nil
  then show ?case using sender_job_control [of dir fs0 G ref "s\<lparr>ss_queue := []\<rparr>" h w job ok s']
    by (simp add: control_done_def)
next
  case (Cons j q)
  obtain ok1 s1 where run: "sender_job w j s = (ok1, s1)" by fastforce
  have d: "drain w (q @ [job]) s1 = (ok, s')" using Cons.prems(2) run by (cases q) simp_all
  have "live s1" using drain_mono [OF d Cons.prems(3)] .
  note k = sender_job_write [OF _ run this, of dir fs0 G ref q h]
  then show ?case
    using Cons.IH [OF _ d Cons.prems(3-)] Cons.prems(1) by (auto simp: control_done_def sender_frame_def)
qed

text \<open>The state in which a job is queued.\<close>

definition before_queue :: "world \<Rightarrow> u8 \<Rightarrow> nat \<Rightarrow> session \<Rightarrow> session" where
  "before_queue w type n s =
     (let s1 = (sender_turn w ^^ an_progress (wo_call w (ss_calls s))) (s\<lparr>ss_calls := ss_calls s + 1\<rparr>) in
      if type = MLS_WRITE then wait_room w n (ss_queue s1) s1 else s1)"

lemma before_queue_keeps:
  assumes "keeps dir fs0 G ref h s" "live (before_queue w type n s)"
  shows "live s \<and> keeps dir fs0 G ref h (before_queue w type n s) \<and> ss_handles (before_queue w type n s) = ss_handles s"
proof -
  let ?s0 = "s\<lparr>ss_calls := ss_calls s + 1\<rparr>"
  let ?s1 = "(sender_turn w ^^ an_progress (wo_call w (ss_calls s))) ?s0"
  have "live ?s1" using assms(2) wait_room_mono by (auto simp: before_queue_def Let_def split: if_splits)
  moreover have "keeps dir fs0 G ref h ?s0" using assms(1) by (simp add: keeps_def)
  ultimately have k: "live s \<and> keeps dir fs0 G ref h ?s1 \<and> ss_handles ?s1 = ss_handles s"
    using sender_turns_keep [of dir fs0 G ref h ?s0 _ w] by simp
  show ?thesis
  proof (cases "type = MLS_WRITE")
    case True
    have "session_inv dir fs0 G ref (ss_client ?s1) (ss_queue ?s1) h"
      using conjunct1 [OF conjunct2 [OF k]] by (simp add: keeps_def)
    from wait_room_keeps [OF this] assms(2) k True show ?thesis
      by (simp add: before_queue_def Let_def)
  next
    case False
    then show ?thesis using k by (simp add: before_queue_def Let_def)
  qed
qed

lemma before_queue_mono:
  assumes "live (before_queue w type n s)"
  shows "live s"
proof -
  let ?s1 = "(sender_turn w ^^ an_progress (wo_call w (ss_calls s))) (s\<lparr>ss_calls := ss_calls s + 1\<rparr>)"
  have "live ?s1"
    using assms wait_room_mono [of w n "ss_queue ?s1" ?s1] by (simp add: before_queue_def Let_def split: if_splits)
  then show ?thesis using sender_turns_mono by fastforce
qed

lemma send_unfold:
  "gui_monitor_local_save_send w type i off payload s =
     (if 16 \<le> i \<or> MAX_PAYLOAD < length payload \<or> \<not> an_job_malloc (wo_call w (ss_calls s))
      then (False, s\<lparr>ss_calls := ss_calls s + 1\<rparr>)
      else let s2 = before_queue w type (length payload) s in
        if ss_failed s2 \<or> \<not> ss_active s2 \<or> \<not> ss_record s2 then (False, s2)
        else let job = \<lparr>jb_type = type, jb_id = i, jb_offset = off, jb_payload = payload\<rparr>;
                 s3 = s2\<lparr>ss_queue := ss_queue s2 @ [job], ss_q_bytes := ss_q_bytes s2 + length payload\<rparr>
          in if type = MLS_WRITE then (True, s3) else drain w (ss_queue s3) s3)"
  by (simp add: gui_monitor_local_save_send_def before_queue_def Let_def)

lemma send_mono: "gui_monitor_local_save_send w type i off payload s = (ok, s') \<Longrightarrow> live s' \<Longrightarrow> live s"
  unfolding send_unfold
  by (auto simp: Let_def dest!: drain_mono dest: before_queue_mono split: if_splits)

lemma send_write_keeps:
  assumes "keeps dir fs0 G ref h s" "gui_monitor_local_save_send w MLS_WRITE i off payload s = (ok, s')" "live s'"
  shows "live s \<and> ss_handles s' = ss_handles s \<and>
    (\<exists>q. session_inv dir fs0 G ref (ss_client s') q h \<and> ss_queue s' =
       (if ok then q @ [\<lparr>jb_type = MLS_WRITE, jb_id = i, jb_offset = off, jb_payload = payload\<rparr>] else q))"
proof (cases "16 \<le> i \<or> MAX_PAYLOAD < length payload \<or> \<not> an_job_malloc (wo_call w (ss_calls s))")
  case True
  then show ?thesis using assms by (auto simp: send_unfold keeps_def)
next
  case False
  let ?s2 = "before_queue w MLS_WRITE (length payload) s"
  have "live ?s2" using assms(2,3) False by (auto simp: send_unfold Let_def split: if_splits)
  note k = before_queue_keeps [OF assms(1) this]
  show ?thesis
    using assms(2,3) False k \<open>live ?s2\<close>
    by (auto simp: send_unfold Let_def keeps_def live_def split: if_splits)
qed

lemma send_control:
  assumes "keeps dir fs0 G ref h s" "gui_monitor_local_save_send w type i off payload s = (ok, s')" "live s'"
    and ty: "type \<noteq> MLS_WRITE" "type \<noteq> 0" "type \<le> MLS_SYNC"
  shows "live s \<and> (if ok then i < 16 \<and> control_done w dir fs0 G ref h type i off payload s s'
    else keeps dir fs0 G ref h s' \<and> ss_handles s' = ss_handles s)"
proof (cases "16 \<le> i \<or> MAX_PAYLOAD < length payload \<or> \<not> an_job_malloc (wo_call w (ss_calls s))")
  case True
  then show ?thesis using assms by (auto simp: send_unfold keeps_def)
next
  case False
  let ?s2 = "before_queue w type (length payload) s"
  let ?job = "\<lparr>jb_type = type, jb_id = i, jb_offset = off, jb_payload = payload\<rparr>"
  let ?s3 = "?s2\<lparr>ss_queue := ss_queue ?s2 @ [?job], ss_q_bytes := ss_q_bytes ?s2 + length payload\<rparr>"
  show ?thesis
  proof (cases "ss_failed ?s2 \<or> \<not> ss_active ?s2 \<or> \<not> ss_record ?s2")
    case True
    then show ?thesis using assms(2,3) False by (auto simp: send_unfold Let_def live_def)
  next
    case ok2: False
    have d: "drain w (ss_queue ?s2 @ [?job]) ?s3 = (ok, s')"
      using assms(2) False ok2 ty(1) by (simp add: send_unfold Let_def)
    have "live ?s2" using drain_mono [OF d assms(3)] by simp
    note k = before_queue_keeps [OF assms(1) this]
    have "session_inv dir fs0 G ref (ss_client ?s3) (ss_queue ?s2) h"
      using conjunct1 [OF conjunct2 [OF k]] by (simp add: keeps_def)
    from drain_control [OF this d assms(3)] ty False k show ?thesis
      by (auto simp: control_done_def)
  qed
qed

section \<open>The proxies keep the invariant\<close>

lemma handle_open:
  assumes "session_inv dir fs0 G ref c q h" "h i \<noteq> None"
  shows "i < 16" "lf_fp (lr_files (mc_receiver c) ! i)" "lf_was_opened (lr_files (mc_receiver c) ! i)"
    "\<exists>g. ref i = Some g" "h i = Some p \<Longrightarrow> length (px_cache p) \<le> MAX_PAYLOAD"
proof -
  show i: "i < 16" using assms unfolding session_inv_def Let_def by (metis not_less)
  note f = session_invD(1) [OF assms(1) i]
  then show "lf_fp (lr_files (mc_receiver c) ! i)" "lf_was_opened (lr_files (mc_receiver c) ! i)"
    using assms(2) by (auto simp: file_inv_def)
  then show "\<exists>g. ref i = Some g" "h i = Some p \<Longrightarrow> length (px_cache p) \<le> MAX_PAYLOAD"
    using f by (auto simp: file_inv_def)
qed

text \<open>Changing the proxy and the reference of one open file, and queueing its job.\<close>

lemma session_inv_proxy:
  assumes inv: "session_inv dir fs0 G ref c q h" and open': "h i \<noteq> None" "ref i = Some g"
    and name: "rf_name g' = rf_name g" and size: "\<And>p. p' = Some p \<Longrightarrow> length (px_cache p) \<le> MAX_PAYLOAD"
    and js: "\<forall>j\<in>set js. job_ok j \<and> jb_id j = i"
    and rel: "\<And>p c0. p' = Some p \<Longrightarrow> \<not> px_bad p \<Longrightarrow> i \<in> G \<Longrightarrow>
      (\<And>r. h i = Some r \<Longrightarrow> \<not> px_bad r \<Longrightarrow> proxy_rel c0 (pending i q) r g) \<Longrightarrow>
      proxy_rel c0 (pending i q @ js) p g'"
  shows "session_inv dir fs0 G (ref(i := Some g')) c (q @ js) (h(i := p'))"
proof -
  let ?f = "lr_files (mc_receiver c) ! i"
  note o1 = handle_open [OF inv open'(1)]
  have f: "file_inv dir fs0 G ref (mc_fs c) q h i ?f" using session_invD(1) [OF inv o1(1)] .
  have pj: "pending i (q @ js) = pending i q @ js" "k \<noteq> i \<Longrightarrow> pending k (q @ js) = pending k q" for k
    using js by (auto simp: pending_def filter_id_conv filter_empty_conv)
  have "file_inv dir fs0 G (ref(i := Some g')) (mc_fs c) (q @ js) (h(i := p')) i ?f"
    using f o1(2,3) open' name size rel by (auto simp: file_inv_def pj)
  moreover have "mc_receiver c = set_file i ?f (mc_receiver c)"
    using session_invD(2) [OF inv o1(1)] o1(1) by (simp add: set_file_def)
  ultimately show ?thesis
    by (rule session_inv_set_file [OF inv o1(1)])
      (use js pj session_invD(3) [OF inv o1(1)] o1 in auto)
qed

lemma flush_keeps:
  assumes "keeps_all dir fs0 G ref s" "flush_proxy w i s = (ok, s')" "live s'"
  shows "live s \<and> keeps_all dir fs0 G ref s' \<and> (\<forall>k. k \<noteq> i \<longrightarrow> ss_handles s' k = ss_handles s k) \<and>
    (case ss_handles s i of None \<Rightarrow> \<not> ok \<and> ss_handles s' i = None
     | Some p \<Rightarrow> if ok then \<not> px_bad p \<and> ss_handles s' i = Some (p\<lparr>px_cache := []\<rparr>)
                else \<exists>p'. ss_handles s' i = Some p' \<and> px_bad p')"
proof (cases "\<exists>p. ss_handles s i = Some p \<and> \<not> px_bad p \<and> px_cache p \<noteq> []")
  case False
  then show ?thesis using assms by (auto simp: flush_proxy_def split: option.splits if_splits)
next
  case True
  then obtain p where p: "ss_handles s i = Some p" "\<not> px_bad p" "px_cache p \<noteq> []" by blast
  obtain s1 where sd: "gui_monitor_local_save_send w MLS_WRITE i (px_buffered_offset p) (px_cache p) s = (ok, s1)"
    and s': "s' = set_proxy i (Some (if ok then p\<lparr>px_cache := []\<rparr> else p\<lparr>px_bad := True\<rparr>)) s1"
    using assms(2) p by (auto simp: flush_proxy_def split: prod.splits)
  let ?p' = "if ok then p\<lparr>px_cache := []\<rparr> else p\<lparr>px_bad := True\<rparr>"
  let ?job = "\<lparr>jb_type = MLS_WRITE, jb_id = i, jb_offset = px_buffered_offset p, jb_payload = px_cache p\<rparr>"
  have "live s1" using assms(3) by (simp add: s')
  from send_write_keeps [OF assms(1) sd this] obtain q where q: "live s" "ss_handles s1 = ss_handles s"
    "session_inv dir fs0 G ref (ss_client s1) q (ss_handles s)"
    "ss_queue s1 = q @ (if ok then [?job] else [])"
    by auto
  note o1 = handle_open [OF q(3), of i]
  obtain g where g: "ref i = Some g" using o1(4) p(1) by auto
  have "session_inv dir fs0 G (ref(i := Some g)) (ss_client s1) (q @ (if ok then [?job] else []))
      ((ss_handles s)(i := Some ?p'))"
  proof (rule session_inv_proxy [OF q(3) _ g refl])
    show "\<forall>j\<in>set (if ok then [?job] else []). job_ok j \<and> jb_id j = i"
      using o1(1) o1(5) [OF _ p(1)] p by (simp add: job_ok_def)
  qed (use o1(5) [OF _ p(1)] p in \<open>auto simp: proxy_rel_def apply_jobs_def split: if_splits\<close>)
  moreover have "ref(i := Some g) = ref" using g by (simp add: fun_upd_idem)
  ultimately show ?thesis
    using q p by (simp add: s' keeps_def set_proxy_def)
qed

lemma flush_mono: "flush_proxy w i s = (ok, s') \<Longrightarrow> live s' \<Longrightarrow> live s"
  by (auto simp: flush_proxy_def dest: send_mono split: option.splits if_splits prod.splits)

lemma flush_set_mono: "flush_proxy w i (set_proxy j p s) = (ok, s') \<Longrightarrow> live s' \<Longrightarrow> live s"
  using flush_mono [of w i "set_proxy j p s"] by simp

lemma ref_write_Nil [simp]: "ref_write [] g = g"
  by (simp add: ref_write_def)

lemma ref_write_append: "ref_write (a @ b) g = ref_write b (ref_write a g)"
  by (simp add: ref_write_def file_store_append add.assoc)

lemma ref_write_name [simp]: "rf_name (ref_write a g) = rf_name g"
  by (simp add: ref_write_def)

lemma pos_plus:
  assumes "unat (x :: u64) + n \<le> MAX_OFFSET"
  shows "unat (x + of_nat n) = unat x + n"
  using assms by (simp add: unat_sum_lt unat_of_nat_lt)

text \<open>Taking bytes into the cache.\<close>

lemma proxy_rel_take:
  assumes rel: "proxy_rel c js p g" and bound: "rf_pos g + length bs \<le> MAX_OFFSET" and ne: "bs \<noteq> []"
  shows "proxy_rel c js (let p1 = (if px_cache p = [] then p\<lparr>px_buffered_offset := px_pos p\<rparr> else p);
      pos = px_pos p1 + of_nat (length bs) in
      p1\<lparr>px_cache := px_cache p1 @ bs, px_pos := pos, px_file_size := max (px_file_size p1) pos\<rparr>)
    (ref_write bs g)"
proof -
  have r: "file_store (apply_jobs c js) (unat (px_buffered_offset p)) (px_cache p) = rf_content g"
    "px_cache p \<noteq> [] \<longrightarrow> unat (px_buffered_offset p) + length (px_cache p) = rf_pos g"
    "unat (px_pos p) = rf_pos g" "unat (px_file_size p) = length (rf_content g)"
    "length (rf_content g) \<le> MAX_OFFSET"
    using rel by (simp_all add: proxy_rel_def)
  have pos: "unat (px_pos p + of_nat (length bs)) = rf_pos g + length bs"
    using pos_plus [of "px_pos p" "length bs"] bound r(3) by simp
  have max: "unat (max (px_file_size p) (px_pos p + of_nat (length bs))) =
      max (length (rf_content g)) (rf_pos g + length bs)"
    using pos r(4) by (simp add: max_def word_le_nat_alt)
  have len: "length (rf_content (ref_write bs g)) = max (length (rf_content g)) (rf_pos g + length bs)"
    using ne by (simp add: ref_write_def length_file_store)
  show ?thesis
  proof (cases "px_cache p = []")
    case True
    then show ?thesis
      using r pos max len bound by (simp add: proxy_rel_def Let_def) (simp add: ref_write_def)
  next
    case False
    have "file_store (apply_jobs c js) (unat (px_buffered_offset p)) (px_cache p @ bs) =
        file_store (rf_content g) (rf_pos g) bs"
      using r(1,2) False file_store_append [of "apply_jobs c js" "unat (px_buffered_offset p)" "px_cache p" bs]
      by simp
    then show ?thesis
      using r pos max len bound False by (simp add: proxy_rel_def Let_def) (simp add: ref_write_def)
  qed
qed

lemma write_turn_keeps:
  assumes k: "keeps_all dir fs0 G ref s" and run: "write_turn w i data s = (go, n, s')" and live: "live s'"
    and g: "ref i = Some g" and ne: "data \<noteq> []"
    and bound: "i \<in> G \<Longrightarrow> rf_pos g + n \<le> MAX_OFFSET"
    and good: "\<exists>p. ss_handles s i = Some p \<and> \<not> px_bad p"
  shows "live s \<and> n \<le> length data \<and> keeps_all dir fs0 G (ref(i := Some (ref_write (take n data) g))) s' \<and>
    (\<forall>k. k \<noteq> i \<longrightarrow> ss_handles s' k = ss_handles s k) \<and>
    (if go then \<exists>p. ss_handles s' i = Some p \<and> \<not> px_bad p
     else n = 0 \<and> (\<exists>p. ss_handles s' i = Some p \<and> px_bad p))"
proof -
  obtain p where Some: "ss_handles s i = Some p" using good by blast
  obtain ok s1 where fl: "(if px_cache p \<noteq> [] \<and> px_buffered_offset p + of_nat (length (px_cache p)) \<noteq> px_pos p
      then flush_proxy w i s else (True, s)) = (ok, s1)" by fastforce
  have same: "ref(i := Some g) = ref" using g by (simp add: fun_upd_idem)
  have lv1: "live s1"
    using run live Some fl unfolding write_turn_def
    by (auto simp: Let_def dest: flush_set_mono split: if_splits option.splits prod.splits)
  have one: "live s \<and> keeps_all dir fs0 G ref s1 \<and> (\<forall>k. k \<noteq> i \<longrightarrow> ss_handles s1 k = ss_handles s k) \<and>
      (if ok then \<exists>q. ss_handles s1 i = Some q \<and> \<not> px_bad q
       else \<exists>p'. ss_handles s1 i = Some p' \<and> px_bad p')"
    using fl flush_keeps [OF k, of w i ok s1] lv1 Some good k by (auto split: if_splits)
  show ?thesis
  proof (cases ok)
    case False
    then have "go = False" "n = 0" "s' = s1" using run Some fl by (auto simp: write_turn_def)
    then show ?thesis using one False same by auto
  next
    case True
    then obtain q where q: "ss_handles s1 i = Some q" "\<not> px_bad q" using one by auto
    let ?q1 = "if px_cache q = [] then q\<lparr>px_buffered_offset := px_pos q\<rparr> else q"
    have cq: "px_cache ?q1 = px_cache q" by simp
    show ?thesis
    proof (cases "MAX_PAYLOAD - length (px_cache q) = 0")
      case full: True
      then have "set_proxy i (Some ?q1) s1 = s1" using q max_payload by (auto simp: set_proxy_def fun_upd_idem)
      then have "flush_proxy w i s1 = (go, s')" "n = 0"
        using run Some fl True q full cq by (auto simp: write_turn_def Let_def split: prod.splits)
      then show ?thesis using flush_keeps [of dir fs0 G ref s1 w i go s'] one live q same by auto
    next
      case False
      let ?pos = "px_pos ?q1 + of_nat n"
      let ?q2 = "?q1\<lparr>px_cache := px_cache ?q1 @ take n data, px_pos := ?pos,
          px_file_size := max (px_file_size ?q1) ?pos\<rparr>"
      have n: "n = min (length data) (MAX_PAYLOAD - length (px_cache q))" "go" "s' = set_proxy i (Some ?q2) s1"
        using run Some fl True q False cq by (auto simp: write_turn_def Let_def)
      have t: "length (take n data) = n" "take n data \<noteq> []" using n(1) False ne by auto
      have inv1: "session_inv dir fs0 G ref (ss_client s1) (ss_queue s1) (ss_handles s1)"
        using one by (simp add: keeps_def)
      have "session_inv dir fs0 G (ref(i := Some (ref_write (take n data) g))) (ss_client s1)
          (ss_queue s1 @ []) ((ss_handles s1)(i := Some ?q2))"
      proof (rule session_inv_proxy [OF inv1 _ g])
        fix p c0
        assume "Some ?q2 = Some p" "i \<in> G"
          "\<And>r. ss_handles s1 i = Some r \<Longrightarrow> \<not> px_bad r \<Longrightarrow> proxy_rel c0 (pending i (ss_queue s1)) r g"
        then show "proxy_rel c0 (pending i (ss_queue s1) @ []) p (ref_write (take n data) g)"
          using proxy_rel_take [of c0 "pending i (ss_queue s1)" q g "take n data"] q t bound
          by (simp add: Let_def)
      next
        fix p
        assume "Some ?q2 = Some p"
        then have "px_cache p = px_cache q @ take n data" by auto
        then show "length (px_cache p) \<le> MAX_PAYLOAD" using n(1) False by (simp add: min_def) linarith
      qed (use q in auto)
      then show ?thesis
        using one n q by (auto simp: keeps_def set_proxy_def)
    qed
  qed
qed

lemma write_turn_mono:
  assumes "write_turn w i data s = (go, n, s')" "live s'"
  shows "live s"
proof (cases "ss_handles s i")
  case (Some p)
  obtain ok s1 where fl: "(if px_cache p \<noteq> [] \<and> px_buffered_offset p + of_nat (length (px_cache p)) \<noteq> px_pos p
      then flush_proxy w i s else (True, s)) = (ok, s1)" by fastforce
  have "live s1"
    using assms Some fl unfolding write_turn_def
    by (auto simp: Let_def dest: flush_set_mono split: if_splits option.splits prod.splits)
  then show ?thesis using fl by (auto dest: flush_mono split: if_splits)
qed (use assms in \<open>simp add: write_turn_def\<close>)

lemma write_loop_mono: "write_loop w i data s = (rest, s') \<Longrightarrow> live s' \<Longrightarrow> live s"
proof (induction w i data s arbitrary: rest s' rule: write_loop.induct)
  case (1 w i data s)
  obtain go n s1 where t: "write_turn w i data s = (go, n, s1)" by (metis prod_cases3)
  show ?case
    using 1 t write_turn_mono [OF t]
    by (subst (asm) (2) write_loop.simps) (auto split: if_splits)
qed

lemma write_loop_keeps:
  assumes "keeps_all dir fs0 G ref s" "write_loop w i data s = (rest, s')" "live s'" "ref i = Some g"
    and "i \<in> G \<Longrightarrow> rest = [] \<and> rf_pos g + length data \<le> MAX_OFFSET"
    and "\<exists>p. ss_handles s i = Some p \<and> \<not> px_bad p"
  shows "live s \<and> (\<exists>done. data = done @ rest \<and> keeps_all dir fs0 G (ref(i := Some (ref_write done g))) s') \<and>
    (\<forall>k. k \<noteq> i \<longrightarrow> ss_handles s' k = ss_handles s k) \<and>
    (rest = [] \<or> (\<exists>p. ss_handles s' i = Some p \<and> px_bad p))"
  using assms
proof (induction w i data s arbitrary: rest s' ref g rule: write_loop.induct)
  case (1 w i data s)
  show ?case
  proof (cases "data = []")
    case True
    then have "rest = []" "s' = s" using 1(3) by (simp_all add: write_loop.simps [of w i "[]" s])
    moreover have "ref(i := Some (ref_write [] g)) = ref" using 1(5) by (simp add: fun_upd_idem)
    ultimately show ?thesis using 1(2,4) True by (intro conjI exI [of _ "[]"]) simp_all
  next
    case ne: False
    obtain go n s1 where t: "write_turn w i data s = (go, n, s1)" by (metis prod_cases3)
    show ?thesis
    proof (cases go)
      case False
      then have r: "rest = data" "s' = s1" using 1(3) ne t by (simp_all add: write_loop.simps [of w i data s])
      have n0: "n = 0" using t False by (auto simp: write_turn_def Let_def split: option.splits if_splits prod.splits)
      have b: "i \<in> G \<Longrightarrow> rf_pos g + n \<le> MAX_OFFSET" using 1(6) n0 by auto
      have "live s1" using 1(4) r by simp
      from write_turn_keeps [OF 1(2) t this 1(5) ne b 1(7)] r False n0 show ?thesis
        by (intro conjI exI [of _ "[]"]) (simp_all add: fun_upd_def)
    next
      case True
      then have r: "write_loop w i (drop n data) s1 = (rest, s')"
        using 1(3) ne t by (simp add: write_loop.simps [of w i data s])
      have l1: "live s1" using write_loop_mono [OF r 1(4)] .
      have nle: "n \<le> length data" using t by (auto simp: write_turn_def Let_def split: option.splits if_splits prod.splits)
      then have b: "i \<in> G \<Longrightarrow> rf_pos g + n \<le> MAX_OFFSET" using 1(6) by fastforce
      note k = write_turn_keeps [OF 1(2) t l1 1(5) ne b 1(7)]
      let ?g = "ref_write (take n data) g"
      have b2: "i \<in> G \<Longrightarrow> rest = [] \<and> rf_pos ?g + length (drop n data) \<le> MAX_OFFSET"
        using 1(6) nle by (auto simp: ref_write_def)
      have "live s1 \<and> (\<exists>done. drop n data = done @ rest \<and>
          keeps_all dir fs0 G ((ref(i := Some ?g))(i := Some (ref_write done ?g))) s') \<and>
        (\<forall>k. k \<noteq> i \<longrightarrow> ss_handles s' k = ss_handles s1 k) \<and>
        (rest = [] \<or> (\<exists>p. ss_handles s' i = Some p \<and> px_bad p))"
        by (rule 1(1) [OF ne t [symmetric] refl True _ r 1(4) _ b2]) (use k True in \<open>auto simp: fun_upd_def\<close>)
      then obtain d where d: "drop n data = d @ rest"
        "keeps_all dir fs0 G (ref(i := Some (ref_write (take n data @ d) g))) s'"
        "\<forall>k. k \<noteq> i \<longrightarrow> ss_handles s' k = ss_handles s1 k"
        "rest = [] \<or> (\<exists>p. ss_handles s' i = Some p \<and> px_bad p)"
        by (auto simp: ref_write_append)
      moreover have "data = (take n data @ d) @ rest" using d(1) by (metis append_assoc append_take_drop_id)
      ultimately show ?thesis
        using k by (intro conjI exI [of _ "take n data @ d"]) (auto simp: fun_upd_def)
    qed
  qed
qed

section \<open>The calls keep the invariant\<close>

lemma session_inv_less: "session_inv dir fs0 UNIV ref c q h \<Longrightarrow> session_inv dir fs0 G ref c q h"
proof -
  assume inv: "session_inv dir fs0 UNIV ref c q h"
  have "file_inv dir fs0 G ref fs q h k f" if "file_inv dir fs0 UNIV ref fs q h k f" for fs k f
    using that by (auto simp: file_inv_def)
  then show ?thesis using inv unfolding session_inv_def Let_def by blast
qed

lemma session_inv_bad:
  assumes "session_inv dir fs0 (UNIV - {i}) ref c q h" "h i = Some p" "px_bad p"
  shows "session_inv dir fs0 UNIV ref c q h"
proof -
  have "file_inv dir fs0 UNIV ref fs q h k f" if "file_inv dir fs0 (UNIV - {i}) ref fs q h k f" for fs k f
    using that assms(2,3) by (cases "k = i") (auto simp: file_inv_def)
  then show ?thesis using assms(1) unfolding session_inv_def Let_def by blast
qed

lemma session_inv_no_handle:
  assumes "session_inv dir fs0 G ref c q h" "ref i = None"
  shows "h i = None"
  using assms handle_open(4) [OF assms(1), of i] by (cases "h i") auto

lemma proxy_write_keeps:
  assumes k: "keeps_all dir fs0 UNIV ref s" and run: "mls_proxy_write w i sz count data s = (n, s')"
    and live: "live s'" and len: "length data = sz * count" and g: "ref i = Some g"
    and bound: "rf_pos (ref_write (take (sz * n) data) g) \<le> MAX_OFFSET"
  shows "keeps_all dir fs0 UNIV (ref(i := Some (ref_write (take (sz * n) data) g))) s'"
proof (cases "\<exists>p. ss_handles s i = Some p \<and> \<not> px_bad p")
  case False
  then have "n = 0" "s' = s" using run by (auto simp: mls_proxy_write_def split: option.splits if_splits)
  then show ?thesis using k g by (simp add: fun_upd_idem)
next
  case True
  obtain rest where l: "write_loop w i data s = (rest, s')"
    and n: "n = (if sz \<noteq> 0 then (length data - length rest) div sz else count)"
    using run True by (auto simp: mls_proxy_write_def split: prod.splits)
  show ?thesis
  proof (cases "rest = []")
    case r: True
    have t: "take (sz * n) data = data" using n r len by (cases "sz = 0") auto
    have b: "rest = [] \<and> rf_pos g + length data \<le> MAX_OFFSET"
      using bound r by (simp add: t ref_write_def)
    show ?thesis using write_loop_keeps [OF k l live g b True] r by (auto simp: t)
  next
    case r: False
    have kw: "keeps_all dir fs0 (UNIV - {i}) ref s" using k session_inv_less by (auto simp: keeps_def)
    obtain d p where d: "keeps_all dir fs0 (UNIV - {i}) (ref(i := Some (ref_write d g))) s'"
      "ss_handles s' i = Some p" "px_bad p"
      using write_loop_keeps [OF kw l live g _ True] r by auto
    let ?g' = "ref_write (take (sz * n) data) g"
    have "session_inv dir fs0 (UNIV - {i}) ((ref(i := Some (ref_write d g)))(i := Some ?g')) (ss_client s')
        (ss_queue s' @ []) ((ss_handles s')(i := Some p))"
    proof (rule session_inv_proxy [where g = "ref_write d g"])
      show inv: "session_inv dir fs0 (UNIV - {i}) (ref(i := Some (ref_write d g))) (ss_client s')
          (ss_queue s') (ss_handles s')"
        using d(1) by (simp add: keeps_def)
      show "length (px_cache q) \<le> MAX_PAYLOAD" if "Some p = Some q" for q
        using handle_open(5) [OF inv, of i p] d(2) that by simp
    qed (use d(2) in auto)
    then show ?thesis
      using session_inv_bad [of dir fs0 i _ _ _ "ss_handles s'" p] d(2,3) by (simp add: keeps_def fun_upd_idem)
  qed
qed

lemma unat_magnitude:
  assumes "- (2 ^ 63) \<le> off" "off < 2 ^ 63"
  shows "off < 0 \<Longrightarrow> unat (of_int (- (off + 1)) + 1 :: u64) = nat (- off)"
    "0 \<le> off \<Longrightarrow> unat (of_int off :: u64) = nat off"
proof -
  have oi: "unat (of_int z :: u64) = nat z" if "0 \<le> z" "z < 2 ^ 63" for z
    using that unat_of_nat_lt [of "nat z", where ?'a = 64] by simp
  show "unat (of_int off :: u64) = nat off" if "0 \<le> off" using oi that assms by simp
  show "unat (of_int (- (off + 1)) + 1 :: u64) = nat (- off)" if "off < 0"
    using oi [of "- (off + 1)"] that assms unat_sum_lt [of "of_int (- (off + 1))" "1 :: u64"] by simp
qed

lemma proxy_seek_keeps:
  assumes k: "keeps_all dir fs0 UNIV ref s" and run: "mls_proxy_seek w i off wh s = (ok, s')"
    and live: "live s'" and g: "ref i = Some g" and off: "- (2 ^ 63) \<le> off" "off < 2 ^ 63"
    and bound: "ok \<Longrightarrow> ref_target off wh g \<le> MAX_OFFSET"
  shows "keeps_all dir fs0 UNIV (if ok then ref(i := Some (g\<lparr>rf_pos := ref_target off wh g\<rparr>)) else ref) s'"
proof -
  obtain fl s1 where fl: "flush_proxy w i s = (fl, s1)" by fastforce
  have l1: "live s1" using run live fl
    by (auto simp: mls_proxy_seek_def Let_def split: if_splits option.splits)
  note f = flush_keeps [OF k fl l1]
  show ?thesis
  proof (cases ok)
    case False
    then have "s' = s1" using run fl by (auto simp: mls_proxy_seek_def Let_def split: if_splits option.splits)
    then show ?thesis using f False by simp
  next
    case True
    have fl1: fl using run fl True by (auto simp: mls_proxy_seek_def split: if_splits)
    then obtain p where p: "ss_handles s1 i = Some p" "\<not> px_bad p" "px_cache p = []"
      using f by (auto split: option.splits)
    have inv1: "session_inv dir fs0 UNIV ref (ss_client s1) (ss_queue s1) (ss_handles s1)"
      using f by (simp add: keeps_def)
    obtain c0 where "proxy_rel c0 (pending i (ss_queue s1)) p g"
      using session_invD(1) [OF inv1 handle_open(1) [OF inv1]] handle_open(3) [OF inv1] p g
      by (fastforce simp: file_inv_def)
    then have rel: "unat (px_pos p) = rf_pos g" "unat (px_file_size p) = length (rf_content g)"
      "rf_pos g \<le> MAX_OFFSET" "length (rf_content g) \<le> MAX_OFFSET"
      by (simp_all add: proxy_rel_def)
    define base :: u64 where "base = (case wh of SEEK_SET \<Rightarrow> 0 | SEEK_CUR \<Rightarrow> px_pos p
      | SEEK_END \<Rightarrow> px_file_size p | SEEK_OTHER \<Rightarrow> - 1)"
    define mag :: u64 where "mag = (if off < 0 then of_int (- (off + 1)) + 1 else of_int off)"
    define pw where "pw = (if off < 0 then base - mag else base + mag)"
    have r: "\<not> (base = - 1 \<or> off < 0 \<and> base < mag \<or> 0 \<le> off \<and> of_nat MAX_OFFSET - base < mag)"
      "s' = set_proxy i (Some (p\<lparr>px_pos := pw\<rparr>)) s1"
      using run fl fl1 p(1) True unfolding mls_proxy_seek_def base_def mag_def pw_def
      by (simp_all only: prod.case Let_def option.case simp_thms if_True if_False split: if_splits) auto
    then have wh: "wh \<noteq> SEEK_OTHER" by (auto simp: base_def)
    define bn where "bn = (case wh of SEEK_SET \<Rightarrow> 0 | SEEK_CUR \<Rightarrow> rf_pos g | _ \<Rightarrow> length (rf_content g))"
    have b: "unat base = bn" "bn \<le> MAX_OFFSET" "ref_target off wh g = nat (int bn + off)"
      using wh rel by (cases wh; simp add: base_def bn_def ref_target_def)+
    have m: "unat mag = nat \<bar>off\<bar>" using unat_magnitude [OF off] by (simp add: mag_def)
    have pw: "unat pw = ref_target off wh g"
    proof (cases "off < 0")
      case True
      then have "mag \<le> base" using r(1) by auto
      then show ?thesis using True b m by (simp add: pw_def unat_sub word_le_nat_alt)
    next
      case False
      have "unat (of_nat MAX_OFFSET :: u64) = MAX_OFFSET" by (rule unat_of_nat_lt) simp
      then have "unat (of_nat MAX_OFFSET - base) = MAX_OFFSET - bn"
        using b by (subst unat_sub) (simp_all add: word_le_nat_alt)
      then have "nat off \<le> MAX_OFFSET - bn" using r(1) False m by (simp add: word_less_nat_alt not_less)
      then show ?thesis using False b m by (simp add: pw_def unat_sum_lt)
    qed
    have "session_inv dir fs0 UNIV (ref(i := Some (g\<lparr>rf_pos := ref_target off wh g\<rparr>))) (ss_client s1)
        (ss_queue s1 @ []) ((ss_handles s1)(i := Some (p\<lparr>px_pos := pw\<rparr>)))"
      by (rule session_inv_proxy [OF inv1 _ g])
        (use p pw bound True in \<open>auto simp: proxy_rel_def\<close>)
    then show ?thesis using True by (simp add: r(2) keeps_def set_proxy_def)
  qed
qed

text \<open>What the receiver did for a control frame.\<close>

lemma unat_id: "i < 16 \<Longrightarrow> unat (of_nat i :: u8) = i"
  by (simp add: unat_of_nat_lt)

lemma close_applied:
  assumes "frame_applied w \<lparr>fr_type = MLS_CLOSE, fr_file_id = of_nat i, fr_length = 0, fr_offset = off,
      fr_crc = x\<rparr> pl c c'" "i < 16"
  shows "mc_fs c' = mc_fs c \<and> lf_fp (lr_files (mc_receiver c) ! i) \<and>
    mc_receiver c' = set_file i ((lr_files (mc_receiver c) ! i)\<lparr>lf_fp := False, lf_was_closed := True\<rparr>) (mc_receiver c)"
  using assms
  by (auto simp: frame_applied_def mls_receiver_apply_def apply_type_def mls_close_def unat_id Let_def
      split: if_splits prod.splits)

lemma abort_not_applied: "\<not> frame_applied w \<lparr>fr_type = MLS_ABORT, fr_file_id = j, fr_length = n, fr_offset = off,
      fr_crc = x\<rparr> pl c c'"
  by (simp add: frame_applied_def)

lemma send_abort:
  assumes "keeps dir fs0 G ref h s" "gui_monitor_local_save_send w MLS_ABORT i off [] s = (ok, s')" "live s'"
  shows "keeps dir fs0 G ref h s' \<and> ss_handles s' = ss_handles s"
  using send_control [OF assms(1-3)] abort_not_applied
  by (auto simp: control_done_def split: if_splits)

lemma proxy_close_keeps:
  assumes k: "keeps_all dir fs0 UNIV ref s" and run: "mls_proxy_close w i s = (ok, s')" and live: "live s'"
  shows "keeps_all dir fs0 UNIV ref s'"
proof (cases "ss_handles s i")
  case None
  then show ?thesis using run k by (simp add: mls_proxy_close_def)
next
  case (Some p)
  obtain fl s1 where fl: "flush_proxy w i s = (fl, s1)" by fastforce
  obtain ok2 s2 where cl: "(if fl \<and> \<not> ss_failed s1
      then gui_monitor_local_save_send w MLS_CLOSE i 0 [] s1 else (False, s1)) = (ok2, s2)" by fastforce
  obtain oka s3 where ab: "gui_monitor_local_save_send w MLS_ABORT i 0 [] s2 = (oka, s3)" by fastforce
  have s': "s' = set_proxy i None (if ok2 then s2 else s3)" "ok = ok2"
    using run Some fl cl ab by (auto simp: mls_proxy_close_def Let_def split: if_splits)
  have l2: "live s2" using live s'(1) send_mono [OF ab] by (auto split: if_splits)
  have l1: "live s1" using cl l2 send_mono by (auto split: if_splits)
  note f = flush_keeps [OF k fl l1]
  have h1: "ss_handles s1 i \<noteq> None" using f Some by (auto split: if_splits)
  show ?thesis
  proof (cases ok2)
    case True
    then have fl1: fl and sd: "gui_monitor_local_save_send w MLS_CLOSE i 0 [] s1 = (True, s2)"
      using cl by (auto split: if_splits)
    have "i < 16 \<and> control_done w dir fs0 UNIV ref (ss_handles s1) MLS_CLOSE i 0 [] s1 s2"
      using send_control [OF _ sd l2, of dir fs0 UNIV ref "ss_handles s1"] f by simp
    then obtain c where c: "i < 16" "session_inv dir fs0 UNIV ref c [] (ss_handles s1)"
      "frame_applied w \<lparr>fr_type = MLS_CLOSE, fr_file_id = of_nat i, fr_length = 0, fr_offset = 0, fr_crc = 0\<rparr>
         [] c (ss_client s2)" "ss_queue s2 = []" "ss_handles s2 = ss_handles s1"
      by (auto simp: control_done_def)
    note a = close_applied [OF c(3,1)]
    have h: "ss_handles s1 i = Some (p\<lparr>px_cache := []\<rparr>)" "\<not> px_bad p" using f Some fl1 by auto
    let ?f = "lr_files (mc_receiver c) ! i"
    have "file_inv dir fs0 UNIV ref (mc_fs c) [] ((ss_handles s1)(i := None)) i
        (?f\<lparr>lf_fp := False, lf_was_closed := True\<rparr>)"
      using session_invD(1) [OF c(2,1)] handle_open(3) [OF c(2) h1] h
      by (auto simp: file_inv_def proxy_rel_def pending_def apply_jobs_def)
    then have "session_inv dir fs0 UNIV ref (ss_client s2) [] ((ss_handles s1)(i := None))"
      by (rule session_inv_set_file [OF c(2,1)]) (use a handle_open(3) [OF c(2) h1] in auto)
    then show ?thesis using True c(4,5) by (simp add: s' keeps_def set_proxy_def)
  next
    case False
    have "keeps dir fs0 UNIV ref (ss_handles s1) s2 \<and> ss_handles s2 = ss_handles s1"
      using cl False f send_control [of dir fs0 UNIV ref "ss_handles s1" s1 w MLS_CLOSE i 0 "[]" False s2] l2
      by (auto split: if_splits)
    then have a: "keeps dir fs0 UNIV ref (ss_handles s1) s3" "ss_handles s3 = ss_handles s1"
      using send_abort [OF _ ab] live s'(1) False by auto
    then have inv: "session_inv dir fs0 UNIV ref (ss_client s3) (ss_queue s3) (ss_handles s1)" by (simp add: keeps_def)
    obtain g where g: "ref i = Some g" using handle_open(4) [OF inv h1] by blast
    have "session_inv dir fs0 UNIV (ref(i := Some g)) (ss_client s3) (ss_queue s3 @ []) ((ss_handles s1)(i := None))"
      by (rule session_inv_proxy [OF inv h1 g]) auto
    then show ?thesis using False a(2) g by (simp add: s' keeps_def set_proxy_def fun_upd_idem)
  qed
qed

lemma open_applied:
  assumes "frame_applied w \<lparr>fr_type = MLS_OPEN, fr_file_id = of_nat i, fr_length = n, fr_offset = off,
      fr_crc = x\<rparr> name c c'" "i < 16" "session_inv dir fs0 G ref c [] h" "length name \<le> 255"
  shows "\<not> lf_was_opened (lr_files (mc_receiver c) ! i) \<and>
    mc_fs c (child dir name @ partial_suffix) = None \<and> mc_fs c (child dir name) = None \<and>
    mc_fs c' = (mc_fs c)(child dir name @ partial_suffix := Some []) \<and>
    mc_receiver c' = set_file i ((lr_files (mc_receiver c) ! i)\<lparr>lf_final_path := child dir name,
      lf_incomplete_path := child dir name @ partial_suffix, lf_fp := True, lf_cursor := 0,
      lf_was_opened := True\<rparr>) (mc_receiver c)"
proof -
  obtain d r fs pl where a: "mls_open d (wo_is_dir w) (mc_receiver c) (mc_fs c) i pl = (True, r, fs)"
    "pl = (if n = 0 then None else Some name)" "mc_fs c' = fs" "mc_receiver c' = r"
    using assms(1,2) by (auto simp: frame_applied_def mls_receiver_apply_def apply_type_def unat_id
        split: if_splits prod.splits)
  then show ?thesis
    using session_invD(4-6) [OF assms(3,2)]
    by (auto simp: mls_open_def path_exists_def Let_def split: if_splits)
qed

lemma proxy_open_keeps:
  assumes k: "keeps_all dir fs0 UNIV ref s" and run: "mls_proxy_open w p s = (res, s')" and live: "live s'"
  shows "case res of None \<Rightarrow> keeps_all dir fs0 UNIV ref s'
    | Some i \<Rightarrow> keeps_all dir fs0 UNIV (ref(i := Some \<lparr>rf_name = base_name p, rf_pos = 0, rf_content = []\<rparr>)) s'"
proof -
  let ?name = "base_name p" and ?i = "unat (ss_next_id s)"
  let ?s1 = "s\<lparr>ss_next_id := ss_next_id s + 1\<rparr>"
  show ?thesis
  proof (cases "mls_safe_filename ?name \<and> an_proxy_malloc (wo_call w (ss_calls s)) \<and> ?i < 16 \<and> ss_handles s ?i = None")
    case False
    then have "res = None" "s' = s \<or> s' = ?s1" using run by (auto simp: mls_proxy_open_def Let_def split: if_splits)
    then show ?thesis using k by (auto simp: keeps_def)
  next
    case True
    then have name: "mls_safe_filename ?name" and i: "?i < 16" "ss_handles s ?i = None" by auto
    let ?s2 = "set_proxy ?i (Some new_proxy) ?s1"
    obtain ok s3 where sd: "gui_monitor_local_save_send w MLS_OPEN ?i 0 ?name ?s2 = (ok, s3)" by fastforce
    have r: "res = (if ok then Some ?i else None)" "s' = (if ok then s3 else set_proxy ?i None s3)"
      using run True sd by (auto simp: mls_proxy_open_def Let_def)
    have l3: "live s3" using live r(2) by (auto split: if_splits)
    have k2: "keeps dir fs0 UNIV ref (ss_handles s) ?s2" using k by (simp add: keeps_def set_proxy_def)
    note sc = send_control [OF k2 sd l3]
    have h2: "ss_handles ?s2 = (ss_handles s)(?i := Some new_proxy)" by (simp add: set_proxy_def)
    have noh: "(ss_handles s)(?i := None) = ss_handles s" using i(2) by (simp add: fun_upd_idem)
    show ?thesis
    proof (cases ok)
      case False
      then have "keeps dir fs0 UNIV ref (ss_handles s) s3" "ss_handles s3 = (ss_handles s)(?i := Some new_proxy)"
        using sc h2 by auto
      then show ?thesis using False r noh by (simp add: keeps_def set_proxy_def)
    next
      case ok: True
      then obtain c where c: "session_inv dir fs0 UNIV ref c [] (ss_handles s)"
        "frame_applied w \<lparr>fr_type = MLS_OPEN, fr_file_id = of_nat ?i, fr_length = of_nat (length ?name),
           fr_offset = 0, fr_crc = (if ?name = [] then 0 else mls_crc32 ?name)\<rparr> ?name c (ss_client s3)"
        "ss_queue s3 = []" "ss_handles s3 = (ss_handles s)(?i := Some new_proxy)"
        using sc h2 by (auto simp: control_done_def)
      note a = open_applied [OF c(2) i(1) c(1) safe_filename_chars(2) [OF name]]
      let ?f = "lr_files (mc_receiver c) ! ?i"
      let ?f' = "?f\<lparr>lf_final_path := child dir ?name, lf_incomplete_path := child dir ?name @ partial_suffix,
          lf_fp := True, lf_cursor := 0, lf_was_opened := True\<rparr>"
      let ?g = "\<lparr>rf_name = ?name, rf_pos = 0, rf_content = []\<rparr>"
      have absent: "fs0 q = None" if "mc_fs c q = None" for q
      proof (cases "\<forall>k<16. lf_was_opened (lr_files (mc_receiver c) ! k) \<longrightarrow>
          q \<noteq> lf_incomplete_path (lr_files (mc_receiver c) ! k)")
        case True
        then show ?thesis using c(1) that unfolding session_inv_def Let_def by metis
      next
        case False
        then obtain k where k: "k < 16" "lf_was_opened (lr_files (mc_receiver c) ! k)"
          "q = lf_incomplete_path (lr_files (mc_receiver c) ! k)" by blast
        then show ?thesis using session_invD(1) [OF c(1) k(1)] by (auto simp: file_inv_def)
      qed
      have f: "lf_next_offset ?f = 0" "\<not> lf_bad ?f"
        using session_invD(1) [OF c(1) i(1)] a by (auto simp: file_inv_def split: if_splits)
      have "file_inv dir fs0 UNIV (ref(?i := Some ?g)) (mc_fs (ss_client s3)) []
          ((ss_handles s)(?i := Some new_proxy)) ?i ?f'"
        using a absent f by (auto simp: file_inv_def proxy_rel_def new_proxy_def pending_def apply_jobs_def)
      then have "session_inv dir fs0 UNIV (ref(?i := Some ?g)) (ss_client s3) [] ((ss_handles s)(?i := Some new_proxy))"
        by (rule session_inv_set_file [OF c(1) i(1)]) (use a in auto)
      then show ?thesis using ok r c(3,4) by (simp add: keeps_def)
    qed
  qed
qed

section \<open>Runs\<close>

lemma proxy_write_mono: "mls_proxy_write w i sz count data s = (n, s') \<Longrightarrow> live s' \<Longrightarrow> live s"
  by (auto simp: mls_proxy_write_def dest: write_loop_mono split: option.splits if_splits prod.splits)

lemma proxy_close_mono:
  assumes "mls_proxy_close w i s = (ok, s')" "live s'"
  shows "live s"
proof (cases "ss_handles s i")
  case (Some p)
  obtain fl s1 where fl: "flush_proxy w i s = (fl, s1)" by fastforce
  obtain ok2 s2 where cl: "(if fl \<and> \<not> ss_failed s1
      then gui_monitor_local_save_send w MLS_CLOSE i 0 [] s1 else (False, s1)) = (ok2, s2)" by fastforce
  obtain oka s3 where ab: "gui_monitor_local_save_send w MLS_ABORT i 0 [] s2 = (oka, s3)" by fastforce
  have "s' = set_proxy i None (if ok2 then s2 else s3)"
    using assms(1) Some fl cl ab by (auto simp: mls_proxy_close_def Let_def split: if_splits)
  then have "live s2" using assms(2) send_mono [OF ab] by (auto split: if_splits)
  then have "live s1" using cl send_mono by (auto split: if_splits)
  then show ?thesis using flush_mono [OF fl] by simp
qed (use assms in \<open>simp add: mls_proxy_close_def\<close>)

lemma ref_write_bound:
  "rs_max (ref_set i g rs) \<le> MAX_OFFSET \<Longrightarrow> rs_max rs \<le> MAX_OFFSET \<and> rf_pos g \<le> MAX_OFFSET"
  by (simp add: ref_set_def)

definition run_inv :: "path \<Rightarrow> fs \<Rightarrow> session \<times> ref_state \<Rightarrow> bool" where
  "run_inv dir fs0 x = (rs_max (snd x) \<le> MAX_OFFSET \<and> live (fst x) \<longrightarrow>
     keeps_all dir fs0 UNIV (rs_files (snd x)) (fst x))"

lemma ls_step_inv:
  assumes "run_inv dir fs0 (s, rs)"
  shows "run_inv dir fs0 (ls_step w e (s, rs))"
proof (cases e)
  case (Ls_Open p)
  obtain res s' where r: "mls_proxy_open w p s = (res, s')" by fastforce
  have m: "live s" if "live s'"
    using r that send_mono by (fastforce simp: mls_proxy_open_def Let_def split: if_splits prod.splits)
  show ?thesis
    using assms m proxy_open_keeps [OF _ r, of dir fs0 "rs_files rs"] Ls_Open r
    by (cases res) (auto simp: run_inv_def ref_set_def)
next
  case (Ls_Write i sz count data)
  obtain n s' where r: "mls_proxy_write w i sz count data s = (n, s')" by fastforce
  show ?thesis
  proof (cases "length data = sz * count")
    case len: True
    show ?thesis
    proof (cases "rs_files rs i")
      case None
      have "s' = s" if "live s'" "rs_max rs \<le> MAX_OFFSET"
        using r proxy_write_mono [OF r that(1)] assms that None session_inv_no_handle [of dir fs0 UNIV "rs_files rs" "ss_client s" "ss_queue s" "ss_handles s" i]
        by (auto simp: run_inv_def keeps_def mls_proxy_write_def)
      then show ?thesis using assms Ls_Write r None len by (auto simp: run_inv_def)
    next
      case (Some g)
      let ?g = "ref_write (take (sz * n) data) g"
      have "keeps_all dir fs0 UNIV ((rs_files rs)(i := Some ?g)) s'"
        if "rs_max (ref_set i ?g rs) \<le> MAX_OFFSET" "live s'"
        using proxy_write_keeps [where ref = "rs_files rs", OF _ r that(2) len Some] ref_write_bound [OF that(1)]
          proxy_write_mono [OF r that(2)] assms by (auto simp: run_inv_def)
      then show ?thesis using Ls_Write r Some len by (simp add: run_inv_def ref_set_def)
    qed
  qed (use assms Ls_Write in simp)
next
  case (Ls_Seek i off wh)
  obtain ok s' where r: "mls_proxy_seek w i off wh s = (ok, s')" by fastforce
  have m: "live s" if "live s'"
    using r that flush_mono by (fastforce simp: mls_proxy_seek_def Let_def split: if_splits option.splits prod.splits)
  show ?thesis
  proof (cases "off < - (2 ^ 63) \<or> 2 ^ 63 \<le> off")
    case True
    then show ?thesis using assms Ls_Seek by simp
  next
    case False
    show ?thesis
    proof (cases "rs_files rs i")
      case None
      have "s' = s" if "live s'" "rs_max rs \<le> MAX_OFFSET"
        using r m that assms None session_inv_no_handle [of dir fs0 UNIV "rs_files rs" "ss_client s" "ss_queue s" "ss_handles s" i]
        by (auto simp: run_inv_def keeps_def mls_proxy_seek_def flush_proxy_def)
      then show ?thesis using assms Ls_Seek r None False by (auto simp: run_inv_def)
    next
      case (Some g)
      let ?rs = "if ok then ref_set i (g\<lparr>rf_pos := ref_target off wh g\<rparr>) rs else rs"
      have "keeps_all dir fs0 UNIV (rs_files ?rs) s'" if "rs_max ?rs \<le> MAX_OFFSET" "live s'"
        using proxy_seek_keeps [where ref = "rs_files rs", OF _ r that(2) Some, of dir fs0] that m assms False
        by (cases ok) (auto simp: run_inv_def ref_set_def)
      then show ?thesis using Ls_Seek r Some False by (simp add: run_inv_def)
    qed
  qed
next
  case (Ls_Flush i)
  obtain ok s' where r: "flush_proxy w i s = (ok, s')" by fastforce
  then show ?thesis
    using assms Ls_Flush flush_keeps [OF _ r, of dir fs0] flush_mono [OF r]
    by (auto simp: run_inv_def mls_proxy_flush_def)
next
  case (Ls_Close i)
  obtain ok s' where r: "mls_proxy_close w i s = (ok, s')" by fastforce
  have m: "live s" if "live s'" using proxy_close_mono [OF r that] .
  then show ?thesis
    using assms Ls_Close r proxy_close_keeps [OF _ r, of dir fs0] by (auto simp: run_inv_def)
next
  case Ls_Sender
  then show ?thesis
    using assms sender_turn_keeps [of dir fs0 UNIV "rs_files rs" "ss_handles s" s w] sender_turn_mono [of w s]
    by (auto simp: run_inv_def)
next
  case Ls_Detach
  then show ?thesis by (simp add: run_inv_def detach_def live_def)
qed

interpretation ls: inv_machine "ls_step w" "run_inv dir fs0"
proof
  show "run_inv dir fs0 (ls_step w e x)" if "run_inv dir fs0 x" for x e
    using that ls_step_inv [of dir fs0 "fst x" "snd x" w e] by simp
qed

lemma ls_run_inv: "run_inv dir fs0 x \<Longrightarrow> run_inv dir fs0 (ls_run w es x)"
  unfolding ls_run_def foldl_conv_fold by (rule ls.run_good)

section \<open>Commit\<close>

text \<open>An acknowledged control operation leaves the session live.\<close>

lemma frame_out_acked:
  assumes "wire_frame_out w f payload s = (sent, Some b, s')" "mls_decode_header b = Some ack"
    "fr_offset ack = 0" "fr_type f \<noteq> MLS_ABORT"
  shows "mc_connected (ss_client s') \<and> ss_record s' = ss_record s \<and> ss_active s' = ss_active s \<and>
    ss_failed s' = ss_failed s"
proof -
  obtain h where h: "mls_encode_header f = Some h"
    using assms(1) by (auto simp: wire_frame_out_def split: option.splits)
  note d = mls.decode_encode [OF h]
  let ?a = "wo_wire w (ss_wires s)"
  obtain c where t: "mls_client_turn (wa_disk ?a) (wo_is_dir w) (wa_malloc ?a) (wa_ack_sent ?a) h payload
      (ss_client s) = (c, Some b)" and s': "s' = s\<lparr>ss_wires := ss_wires s + 1, ss_client := c\<rparr>"
    using assms(1) h by (auto simp: wire_frame_out_def Let_def split: if_splits prod.splits)
  obtain ok r fs where ap: "mls_receiver_apply (wa_disk ?a) (wo_is_dir w) (mc_receiver (ss_client s)) (mc_fs (ss_client s)) f
      (if fr_length f = 0 then None else Some payload) = (ok, r, fs)" by (metis prod_cases3)
  have "mls_encode_header (ack_frame f ok) = Some b"
    using t d ap by (auto simp: mls_client_turn_def Let_def split: if_splits option.splits)
  then have "ack = ack_frame f ok" using mls.decode_encode assms(2) by fastforce
  then have ok using assms(3) by (simp add: ack_frame_def split: if_splits)
  then have "mc_connected c"
    using t d ap assms(4) by (auto simp: mls_client_turn_def Let_def split: if_splits option.splits)
  then show ?thesis by (simp add: s')
qed

lemma send_sync_acked:
  assumes "mls_send_wire_sync w type i off payload s = (True, s')" "type \<noteq> MLS_ABORT"
  shows "live s'"
proof -
  let ?f = "\<lparr>fr_type = type, fr_file_id = of_nat i, fr_length = of_nat (length payload),
      fr_offset = off, fr_crc = (if payload = [] then 0 else mls_crc32 payload)\<rparr>"
  obtain sent ans s1 where o1: "wire_frame_out w ?f payload s = (sent, ans, s1)" by (metis prod_cases3)
  have act: "ss_record s" "ss_active s" "\<not> ss_failed s" "s' = s1" and
    "\<exists>b ack. ans = Some b \<and> mls_decode_header b = Some ack \<and> fr_offset ack = 0"
    using assms(1) o1 unfolding mls_send_wire_sync_def
    by (auto simp: Let_def split: if_splits option.splits)
  then show ?thesis
    using frame_out_acked [of w ?f payload s sent _ s1] o1 assms(2) by (auto simp: live_def)
qed

lemma sender_job_acked:
  assumes "sender_job w job s = (True, s')" "jb_type job \<noteq> MLS_WRITE" "jb_type job \<noteq> MLS_ABORT"
  shows "live s'"
proof -
  obtain r2 s2 where b: "(if 8 \<le> ss_outstanding s \<or> 0 < ss_outstanding s
            then case mls_send_wire_sync w MLS_SYNC 0 0 [] s of
                (ok, s2) \<Rightarrow> (ok, s2\<lparr>ss_outstanding := 0\<rparr>)
            else (True, s)) = (r2, s2)" by fastforce
  obtain r3 s3 where c: "(if r2
            then mls_send_wire_sync w (jb_type job) (jb_id job) (jb_offset job) (jb_payload job) s2
            else (r2, s2)) = (r3, s3)" by fastforce
  have "r3" "live s' = live s3"
    using assms(1,2) b c unfolding sender_job_def by (auto split: if_splits)
  moreover have "live s3" if r3 using c that send_sync_acked assms(3) by (auto split: if_splits)
  ultimately show ?thesis by simp
qed

lemma drain_acked:
  "drain w (q @ [job]) s = (True, s') \<Longrightarrow> jb_type job \<noteq> MLS_WRITE \<Longrightarrow> jb_type job \<noteq> MLS_ABORT \<Longrightarrow> live s'"
proof (induction q arbitrary: s)
  case Nil
  then show ?case using sender_job_acked by simp
next
  case (Cons j q)
  then show ?case by (cases q) auto
qed

lemma send_acked:
  assumes "gui_monitor_local_save_send w type i off payload s = (True, s')"
    "type \<noteq> MLS_WRITE" "type \<noteq> MLS_ABORT"
  shows "live s'"
  using assms drain_acked unfolding send_unfold by (fastforce simp: Let_def split: if_splits)

end
