(* ===== verification/Local_Save_Commit.thy ===== *)
theory Local_Save_Commit
  imports Local_Save_Refinement
begin

text \<open>
  A recording that ends with an acknowledged COMMIT: the renames of the receiver, and the files
  they leave behind.
\<close>

definition opened :: "mls_file list \<Rightarrow> mls_file list" where
  "opened fl = filter lf_was_opened fl"

lemma opened_simps [simp]:
  "opened [] = []"
  "opened (f # fl) = (if lf_was_opened f then f # opened fl else opened fl)"
  by (simp_all add: opened_def)

lemma commit_renames_ok:
  assumes "commit_renames d earlier fl fs = (True, fs')"
    and "distinct (map lf_final_path (opened fl) @ map lf_incomplete_path (opened fl))"
  shows "fs' p = (case map_of (map (\<lambda>f. (lf_final_path f, the (fs (lf_incomplete_path f)))) (opened fl)) p of
      Some c \<Rightarrow> Some c
    | None \<Rightarrow> if p \<in> lf_incomplete_path ` set (opened fl) then None else fs p)"
  using assms
proof (induction fl arbitrary: earlier fs)
  case (Cons f fl)
  show ?case
  proof (cases "lf_was_opened f")
    case True
    let ?i = "lf_incomplete_path f" and ?n = "lf_final_path f"
    let ?L = "\<lambda>fs. map (\<lambda>f. (lf_final_path f, the (fs (lf_incomplete_path f)))) (opened fl)"
    obtain fs1 where r: "mls_rename_utf8 (dk_rename d (length earlier)) ?i ?n fs = Some fs1"
      "commit_renames d (earlier @ [f]) fl fs1 = (True, fs')"
      using Cons.prems(1) True by (auto split: option.splits)
    have ne: "?i \<noteq> ?n" "?n \<notin> lf_final_path ` set (opened fl)" "?i \<notin> lf_final_path ` set (opened fl)"
      "?n \<notin> lf_incomplete_path ` set (opened fl)" "?i \<notin> lf_incomplete_path ` set (opened fl)"
      using Cons.prems(2) True by auto
    obtain c where c: "fs ?i = Some c" and fs1: "fs1 = fs(?n := Some c, ?i := None)"
      using r(1) ne(1) by (auto simp: mls_rename_utf8_def split: if_splits)
    have L: "?L fs1 = ?L fs" using ne by (auto simp: fs1 image_iff)
    have none: "map_of (?L fs) ?n = None" "map_of (?L fs) ?i = None"
      using ne(2,3) by (auto simp: map_of_eq_None_iff)
    have ih: "fs' p = (case map_of (?L fs) p of Some c \<Rightarrow> Some c
        | None \<Rightarrow> if p \<in> lf_incomplete_path ` set (opened fl) then None else fs1 p)"
      using Cons.IH [OF r(2)] Cons.prems(2) True by (simp add: L)
    consider "p = ?n" | "p = ?i" | "p \<noteq> ?n" "p \<noteq> ?i" by blast
    then show ?thesis
    proof cases
      case 1
      then show ?thesis using ih none(1) ne c True by (simp add: fs1)
    next
      case 2
      then show ?thesis using ih none(2) ne True by (simp add: fs1)
    next
      case 3
      then have "fs1 p = fs p" by (simp add: fs1)
      then show ?thesis using ih True 3 by (auto split: option.split)
    qed
  qed (use Cons in simp)
qed simp

lemma opened_nth:
  "opened fl = map ((!) fl) (filter (\<lambda>i. lf_was_opened (fl ! i)) [0..<length fl])"
proof -
  have "opened fl = filter lf_was_opened (map ((!) fl) [0..<length fl])"
    by (simp add: opened_def map_nth)
  then show ?thesis by (simp add: filter_map comp_def)
qed

text \<open>The files a reference state describes.\<close>

definition recorded :: "(nat \<Rightarrow> ref_file option) \<Rightarrow> ref_file list" where
  "recorded ref = List.map_filter ref [0..<16]"

definition committed :: "path \<Rightarrow> (nat \<Rightarrow> ref_file option) \<Rightarrow> fs" where
  "committed dir ref = map_of (map (\<lambda>g. (child dir (rf_name g), rf_content g)) (recorded ref))"

lemma recorded_the: "recorded ref = map (\<lambda>i. the (ref i)) (filter (\<lambda>i. ref i \<noteq> None) [0..<16])"
  by (simp add: recorded_def List.map_filter_def comp_def)

lemma commit_effect:
  assumes inv: "session_inv dir fs0 G ref c q h"
    and run: "mls_commit d is_dir (mc_receiver c) (mc_fs c) = (True, fs')"
  shows "fs' = fs0 ++ committed dir ref \<and> distinct (map (\<lambda>g. child dir (rf_name g)) (recorded ref)) \<and>
    list_all (\<lambda>g. fs0 (child dir (rf_name g)) = None) (recorded ref)"
proof -
  let ?fl = "lr_files (mc_receiver c)" and ?fs = "mc_fs c"
  let ?is = "filter (\<lambda>i. lf_was_opened (?fl ! i)) [0..<16]"
  note I = session_invD [OF inv]
  have len: "length ?fl = 16" using I(2) [of 0] by simp
  have ov: "\<not> lr_overwrite (mc_receiver c)" using I(5) [of 0] by simp
  have com: "list_all (committable is_dir False ?fs) ?fl"
    "commit_renames d [] ?fl ?fs = (True, fs')"
    using run ov by (auto simp: mls_commit_def split: if_splits)
  have op: "opened ?fl = map ((!) ?fl) ?is" using opened_nth [of ?fl] len by simp
  have fi: "\<not> lf_fp (?fl ! i)" "?fs (lf_final_path (?fl ! i)) = None"
    "\<exists>g. ref i = Some g \<and> ?fs (lf_incomplete_path (?fl ! i)) = Some (rf_content g) \<and>
       lf_final_path (?fl ! i) = child dir (rf_name g) \<and>
       lf_incomplete_path (?fl ! i) = lf_final_path (?fl ! i) @ partial_suffix \<and>
       fs0 (lf_final_path (?fl ! i)) = None \<and> fs0 (lf_incomplete_path (?fl ! i)) = None"
    if "i < 16" "lf_was_opened (?fl ! i)" for i
  proof -
    have "committable is_dir False ?fs (?fl ! i)" using com(1) that(1) len by (simp add: list_all_length)
    then show "\<not> lf_fp (?fl ! i)" "?fs (lf_final_path (?fl ! i)) = None"
      using that(2) by (auto simp: committable_def path_exists_def)
    then show "\<exists>g. ref i = Some g \<and> ?fs (lf_incomplete_path (?fl ! i)) = Some (rf_content g) \<and>
       lf_final_path (?fl ! i) = child dir (rf_name g) \<and>
       lf_incomplete_path (?fl ! i) = lf_final_path (?fl ! i) @ partial_suffix \<and>
       fs0 (lf_final_path (?fl ! i)) = None \<and> fs0 (lf_incomplete_path (?fl ! i)) = None"
      using I(1) [OF that(1)] that(2) by (auto simp: file_inv_def)
  qed
  have idx: "i < 16 \<and> lf_was_opened (?fl ! i)" if "i \<in> set ?is" for i using that by auto
  have refi: "(ref i \<noteq> None) = lf_was_opened (?fl ! i)" if "i < 16" for i
    using I(1) [OF that] by (auto simp: file_inv_def split: if_splits)
  then have rec: "recorded ref = map (\<lambda>i. the (ref i)) ?is"
    unfolding recorded_the by (intro arg_cong2 [where f = map] filter_cong) auto
  have inc_inj: "inj_on (\<lambda>i. lf_incomplete_path (?fl ! i)) (set ?is)"
    using I(7) idx by (intro inj_onI) metis
  have fin_inj: "inj_on (\<lambda>i. lf_final_path (?fl ! i)) (set ?is)"
  proof (rule inj_onI)
    fix i j assume "i \<in> set ?is" "j \<in> set ?is" "lf_final_path (?fl ! i) = lf_final_path (?fl ! j)"
    then have "lf_incomplete_path (?fl ! i) = lf_incomplete_path (?fl ! j)"
      using fi(3) idx by metis
    then show "i = j" using inj_onD [OF inc_inj] \<open>i \<in> set ?is\<close> \<open>j \<in> set ?is\<close> by blast
  qed
  have apart: "lf_final_path (?fl ! i) \<noteq> lf_incomplete_path (?fl ! j)"
    if "i \<in> set ?is" "j \<in> set ?is" for i j
    using fi(2,3) idx that by (metis option.distinct(1))
  have dis: "distinct (map lf_final_path (opened ?fl) @ map lf_incomplete_path (opened ?fl))"
    using apart inc_inj fin_inj unfolding op
    by (auto simp: distinct_map inj_on_def comp_def)
  have names: "child dir (rf_name (the (ref i))) = lf_final_path (?fl ! i) \<and>
      rf_content (the (ref i)) = the (?fs (lf_incomplete_path (?fl ! i)))" if "i \<in> set ?is" for i
    using fi(3) idx [OF that] by fastforce
  have com_eq: "map (\<lambda>f. (lf_final_path f, the (?fs (lf_incomplete_path f)))) (opened ?fl) =
      map (\<lambda>g. (child dir (rf_name g), rf_content g)) (recorded ref)"
    unfolding op rec using names by (simp add: comp_def)
  have base: "(if p \<in> lf_incomplete_path ` set (opened ?fl) then None else ?fs p) = fs0 p" for p
  proof (cases "p \<in> lf_incomplete_path ` set (opened ?fl)")
    case True
    then obtain i where i: "i < 16" "lf_was_opened (?fl ! i)" "p = lf_incomplete_path (?fl ! i)"
      unfolding op by auto
    then show ?thesis using True fi(3) [OF i(1,2)] by metis
  next
    case False
    then have "\<forall>i<16. lf_was_opened (?fl ! i) \<longrightarrow> p \<noteq> lf_incomplete_path (?fl ! i)"
      unfolding op by auto
    then show ?thesis using False inv by (simp add: session_inv_def Let_def)
  qed
  have "fs' p = (fs0 ++ committed dir ref) p" for p
    using commit_renames_ok [OF com(2) dis, of p] unfolding com_eq base
    by (simp add: map_add_def committed_def)
  moreover have "map (\<lambda>g. child dir (rf_name g)) (recorded ref) = map (\<lambda>i. lf_final_path (?fl ! i)) ?is"
    unfolding rec map_map comp_def using names by (intro map_cong refl) blast
  then have "distinct (map (\<lambda>g. child dir (rf_name g)) (recorded ref))"
    by (simp only: distinct_map fin_inj distinct_filter distinct_upt simp_thms)
  moreover have "list_all (\<lambda>g. fs0 (child dir (rf_name g)) = None) (recorded ref)"
  proof (unfold list_all_iff, rule ballI)
    fix g assume "g \<in> set (recorded ref)"
    then obtain i where i: "i \<in> set ?is" "g = the (ref i)" unfolding rec by auto
    show "fs0 (child dir (rf_name g)) = None"
      using names [OF i(1)] fi(3) [of i] idx [OF i(1)] by (auto simp: i(2))
  qed
  ultimately show ?thesis by blast
qed

lemma commit_applied:
  assumes "frame_applied w \<lparr>fr_type = MLS_COMMIT, fr_file_id = i, fr_length = n, fr_offset = off,
      fr_crc = x\<rparr> pl c c'"
  shows "\<exists>d. mls_commit d (wo_is_dir w) (mc_receiver c) (mc_fs c) = (True, mc_fs c')"
  using assms
  by (auto simp: frame_applied_def mls_receiver_apply_def apply_type_def Let_def split: if_splits prod.splits)

lemma start_inv:
  assumes "mls_client_start is_dir dir fs = Some c"
    and "gui_monitor_local_save_begin th (gui_monitor_local_save_server_attach c) = (True, s0)"
  shows "keeps_all dir fs UNIV (\<lambda>_. None) s0"
proof -
  have h: "ss_handles s0 = (\<lambda>_. None)" "ss_queue s0 = []" "ss_client s0 = c"
    using assms(2) by (auto simp: gui_monitor_local_save_begin_def gui_monitor_local_save_server_attach_def
        mls_proxy_reset_session_ids_def Let_def split: if_splits)
  have c: "lr_directory (mc_receiver c) = dir" "\<not> lr_overwrite (mc_receiver c)"
    "\<not> lr_had_error (mc_receiver c)" "lr_files (mc_receiver c) = replicate 16 empty_file" "mc_fs c = fs"
    using assms(1) by (auto simp: mls_client_start_def mls_receiver_init_def split: if_splits)
  show ?thesis
    unfolding keeps_def session_inv_def Let_def h
    by (simp add: c file_inv_def empty_file_def)
qed

lemma sender_turns_idle: "ss_queue s = [] \<Longrightarrow> (sender_turn w ^^ n) s = s"
  by (induction n) (simp_all add: sender_turn_def)

lemma end_commits:
  assumes run: "gui_monitor_local_save_end w True s = (True, s')"
    and inv: "run_inv dir fs (s, rs)" "rs_max rs \<le> MAX_OFFSET"
  shows "mc_fs (ss_client s') = fs ++ committed dir (rs_files rs) \<and>
    distinct (map (\<lambda>g. child dir (rf_name g)) (recorded (rs_files rs))) \<and>
    list_all (\<lambda>g. fs (child dir (rf_name g)) = None) (recorded (rs_files rs))"
proof -
  obtain s1 where send: "gui_monitor_local_save_send w MLS_COMMIT 0 0 [] s = (True, s1)"
    and s': "s' = ((sender_turn w ^^ length (ss_queue s1)) s1)\<lparr>ss_record := False\<rparr>"
    using run by (auto simp: gui_monitor_local_save_end_def split: if_splits prod.splits)
  have live: "live s1" using send_acked [OF send] by simp
  have "live s" using send_mono [OF send live] .
  then have k: "keeps_all dir fs UNIV (rs_files rs) s" using inv by (simp add: run_inv_def)
  have "control_done w dir fs UNIV (rs_files rs) (ss_handles s) MLS_COMMIT 0 0 [] s s1"
    using send_control [OF k send live] by simp
  then obtain c where c: "session_inv dir fs UNIV (rs_files rs) c [] (ss_handles s)"
    "frame_applied w \<lparr>fr_type = MLS_COMMIT, fr_file_id = 0, fr_length = 0, fr_offset = 0, fr_crc = 0\<rparr>
       [] c (ss_client s1)" "ss_queue s1 = []"
    by (auto simp: control_done_def)
  obtain d where "mls_commit d (wo_is_dir w) (mc_receiver c) (mc_fs c) = (True, mc_fs (ss_client s1))"
    using commit_applied [OF c(2)] by blast
  from commit_effect [OF c(1) this] show ?thesis by (simp add: s' sender_turns_idle c(3))
qed

section \<open>Properties\<close>

text \<open>C28: A recording whose end is acknowledged as committed leaves the client's file system
  as it was when the receiver started plus, for every proxy opened, one new file with the name
  that was opened and exactly the contents the results of the calls on the proxy report
  (opens, writes, seeks, closes, in any order with the sender's turns, under any answers of
  memory allocation, network and disk).  No existing file is replaced.\<close>

theorem local_save_commits:
  "case mls_client_start (wo_is_dir w) dir fs of None \<Rightarrow> True
   | Some c \<Rightarrow>
       (case gui_monitor_local_save_begin thread_ok (gui_monitor_local_save_server_attach c) of
         (began, s0) \<Rightarrow>
        case ls_run w es (s0, \<lparr>rs_files = (\<lambda>_. None), rs_max = 0\<rparr>) of (s, rs) \<Rightarrow>
        case gui_monitor_local_save_end w True s of (complete, s') \<Rightarrow>
          if began \<and> complete \<and> rs_max rs \<le> MAX_OFFSET
          then mc_fs (ss_client s') = fs ++ committed dir (rs_files rs) \<and>
            distinct (map (\<lambda>g. child dir (rf_name g)) (recorded (rs_files rs))) \<and>
            list_all (\<lambda>g. fs (child dir (rf_name g)) = None) (recorded (rs_files rs))
          else True)"
proof (cases "mls_client_start (wo_is_dir w) dir fs")
  case (Some c)
  obtain began s0 where b: "gui_monitor_local_save_begin thread_ok (gui_monitor_local_save_server_attach c) = (began, s0)"
    by fastforce
  obtain s rs where r: "ls_run w es (s0, \<lparr>rs_files = (\<lambda>_. None), rs_max = 0\<rparr>) = (s, rs)" by fastforce
  obtain complete s' where e: "gui_monitor_local_save_end w True s = (complete, s')" by fastforce
  have "run_inv dir fs (s, rs)" if began
    using ls_run_inv [of dir fs "(s0, \<lparr>rs_files = (\<lambda>_. None), rs_max = 0\<rparr>)" w es] r
      start_inv [OF Some, of thread_ok s0] b that by (simp add: run_inv_def)
  then show ?thesis
    using Some b r e end_commits [of w s s' dir fs rs] by (cases began; cases complete) simp_all
qed simp

end
