(* ===== verification/Ddd_Async.thy ===== *)
theory Ddd_Async
  imports Ddd_Telemetry
begin

text \<open>
  The asynchronous USB capture queue for firmware 3.1 (misrc\_gui/input/gui\_ddd\_async.c and
  gui\_ddd\_async.h): 96 bulk transfers of 128 KiB, their completion callbacks, delivery of
  the blocks to the consumer in submission order, telemetry reads, and the bounded stop and
  cancel phases.  Every read of the clock and of the running flag, and every call of libusb and
  of the consumer, takes the next answer of a sequence; the callbacks run inside the event
  pump, as the single event thread guarantees.  Clock readings are natural numbers: they are
  microseconds of a 64-bit clock divided by 1000, so adding the deadlines does not wrap.
\<close>

section \<open>Constants and policies\<close>

definition GUI_DDD_ASYNC_TRANSFER_BYTES :: nat where "GUI_DDD_ASYNC_TRANSFER_BYTES = 128 * 1024"
definition GUI_DDD_ASYNC_QUEUE_BYTES :: nat where "GUI_DDD_ASYNC_QUEUE_BYTES = 12 * 1024 * 1024"
definition GUI_DDD_ASYNC_TRANSFER_COUNT :: nat where
  "GUI_DDD_ASYNC_TRANSFER_COUNT = GUI_DDD_ASYNC_QUEUE_BYTES div GUI_DDD_ASYNC_TRANSFER_BYTES"

abbreviation STOP_DRAIN_TIMEOUT_MS :: nat where "STOP_DRAIN_TIMEOUT_MS \<equiv> 1000"
abbreviation CANCEL_REAP_TIMEOUT_MS :: nat where "CANCEL_REAP_TIMEOUT_MS \<equiv> 1000"
abbreviation TELEMETRY_INTERVAL_MS :: nat where "TELEMETRY_INTERVAL_MS \<equiv> 250"
abbreviation TELEMETRY_MAX_FAILURES :: u32 where "TELEMETRY_MAX_FAILURES \<equiv> 2"
abbreviation DDD_FIFO_TELEMETRY_LENGTH :: nat where "DDD_FIFO_TELEMETRY_LENGTH \<equiv> 23"
abbreviation ABANDONED_CAPACITY :: nat where "ABANDONED_CAPACITY \<equiv> 1"

lemma transfer_count [simp]: "GUI_DDD_ASYNC_TRANSFER_COUNT = 96"
  by (simp add: GUI_DDD_ASYNC_TRANSFER_COUNT_def GUI_DDD_ASYNC_QUEUE_BYTES_def GUI_DDD_ASYNC_TRANSFER_BYTES_def)

datatype slot_state = SLOT_UNUSED | SLOT_SUBMITTED | SLOT_COMPLETE | SLOT_CANCELLED | SLOT_FAILED
  | SLOT_RETIRED

record policy_slot =
  ps_submission_id :: u64
  ps_state :: slot_state

record order_policy =
  op_next_consume_id :: u64
  op_slot_count :: u64

datatype next_state = NEXT_WAIT | NEXT_READY nat | NEXT_STALE

definition order_policy_init :: "u64 \<Rightarrow> order_policy" where
  "order_policy_init n = \<lparr>op_next_consume_id = 0, op_slot_count = n\<rparr>"

definition order_policy_peek :: "order_policy \<Rightarrow> (nat \<Rightarrow> policy_slot) \<Rightarrow> next_state" where
  "order_policy_peek policy slots =
     (if op_slot_count policy = 0 then NEXT_STALE
      else let index = unat (op_next_consume_id policy mod op_slot_count policy);
               slot = slots index in
        if ps_submission_id slot \<noteq> op_next_consume_id policy then NEXT_STALE
        else if ps_state slot \<noteq> SLOT_COMPLETE then NEXT_WAIT
        else NEXT_READY index)"

definition order_policy_advance :: "order_policy \<Rightarrow> order_policy" where
  "order_policy_advance policy = policy\<lparr>op_next_consume_id := op_next_consume_id policy + 1\<rparr>"

definition policy_initial_queue_ready :: "u64 \<Rightarrow> bool \<Rightarrow> bool" where
  "policy_initial_queue_ready submitted failed =
     (\<not> failed \<and> submitted = of_nat GUI_DDD_ASYNC_TRANSFER_COUNT)"

definition policy_stream_ready :: "bool \<Rightarrow> bool \<Rightarrow> bool \<Rightarrow> bool \<Rightarrow> bool" where
  "policy_stream_ready queue_ready verified_block_published capture_running startup_failed =
     (queue_ready \<and> verified_block_published \<and> capture_running \<and> \<not> startup_failed)"

definition policy_should_resubmit :: "bool \<Rightarrow> bool \<Rightarrow> bool \<Rightarrow> bool" where
  "policy_should_resubmit accepting running failed = (accepting \<and> running \<and> \<not> failed)"

definition policy_stop_drain_complete :: "bool \<Rightarrow> nat \<Rightarrow> u64 \<Rightarrow> u64 \<Rightarrow> bool" where
  "policy_stop_drain_complete running in_flight completed consumed =
     (\<not> running \<and> in_flight = 0 \<and> completed = consumed)"

datatype reap_action = REAP_WAIT | REAP_COMPLETE | REAP_ORPHAN

definition policy_reap_action :: "bool \<Rightarrow> nat \<Rightarrow> nat \<Rightarrow> nat \<Rightarrow> reap_action" where
  "policy_reap_action cancel_started now deadline in_flight =
     (if in_flight = 0 then REAP_COMPLETE
      else if cancel_started \<and> deadline \<le> now then REAP_ORPHAN
      else REAP_WAIT)"

definition policy_has_pending :: "nat \<Rightarrow> nat \<Rightarrow> bool" where
  "policy_has_pending in_flight callbacks = (in_flight \<noteq> 0 \<or> callbacks \<noteq> 0)"

definition policy_telemetry_should_submit :: "bool \<Rightarrow> bool \<Rightarrow> u32 \<Rightarrow> nat \<Rightarrow> nat \<Rightarrow> bool" where
  "policy_telemetry_should_submit enabled in_flight failures now due =
     (enabled \<and> \<not> in_flight \<and> failures < TELEMETRY_MAX_FAILURES \<and> due \<le> now)"

definition policy_telemetry_should_publish :: "bool \<Rightarrow> bool \<times> bool" where
  "policy_telemetry_should_publish primed = (if \<not> primed then (False, True) else (True, primed))"

definition policy_sync_control_allowed :: "bool \<Rightarrow> bool" where
  "policy_sync_control_allowed orphan_pending = (\<not> orphan_pending)"

definition policy_exact_length :: "nat \<Rightarrow> bool" where
  "policy_exact_length n = (n = GUI_DDD_ASYNC_TRANSFER_BYTES)"

definition policy_abandon_slot_available :: "nat \<Rightarrow> bool" where
  "policy_abandon_slot_available n = (n < ABANDONED_CAPACITY)"

section \<open>The engine\<close>

datatype async_code = ASYNC_SUCCESS | ASYNC_INVALID_ARGUMENT | ASYNC_ALLOCATION_FAILURE
  | ASYNC_SUBMIT_FAILURE | ASYNC_TRANSFER_FAILURE | ASYNC_SHORT_TRANSFER | ASYNC_EVENT_FAILURE
  | ASYNC_DRAIN_TIMEOUT | ASYNC_ORDER_FAILURE | ASYNC_CONSUMER_FAILURE

record async_result =
  aq_code :: async_code
  aq_libusb_error :: int
  aq_transfer_status :: int
  aq_actual_length :: int
  aq_submission_id :: u64
  aq_completed_transfers :: u64
  aq_consumed_transfers :: u64
  aq_telemetry_readings :: u64
  aq_telemetry_failures :: u32
  aq_ready_signalled :: bool
  aq_transfers_unreaped :: bool
  aq_unreaped_transfers :: nat
  aq_active_callbacks :: nat

record async_slot =
  as_buffer :: bytes
  as_actual_length :: nat
  as_cancel_requested :: bool

text \<open>What the engine exchanges with libusb and the consumer, in order.\<close>

datatype async_trace =
  Tr_submit nat
| Tr_done nat int bytes
| Tr_consume bytes

record async_engine =
  eg_slots :: "nat \<Rightarrow> async_slot"
  eg_policy :: "nat \<Rightarrow> policy_slot"
  eg_order :: order_policy
  eg_result :: async_result
  eg_next_submit_id :: u64
  eg_submitted_count :: u64
  eg_in_flight :: nat
  eg_callbacks_active :: nat
  eg_telemetry :: bool
  eg_telemetry_transfer :: bool
  eg_telemetry_in_flight :: bool
  eg_telemetry_due_ms :: nat
  eg_telemetry_failures :: u32
  eg_telemetry_primed :: bool
  eg_telemetry_cancel_requested :: bool
  eg_cancel_deadline_ms :: nat
  eg_stop_deadline_ms :: nat
  eg_accepting :: bool
  eg_stopping :: bool
  eg_cancel_issued :: bool
  eg_failed :: bool
  eg_transfer_ready :: bool
  eg_startup_failed :: bool
  eg_published :: "bytes option list"
  eg_trace :: "async_trace list"
  eg_tick :: nat

datatype async_event = Ev_transfer nat int bytes | Ev_telemetry int bytes

record async_answer =
  aa_running :: bool
  aa_now :: nat
  aa_rc :: int
  aa_consume :: bool
  aa_events :: "async_event list"

type_synonym async_world = "nat \<Rightarrow> async_answer"

definition ask :: "async_world \<Rightarrow> async_engine \<Rightarrow> async_answer \<times> async_engine" where
  "ask w e = (w (eg_tick e), e\<lparr>eg_tick := Suc (eg_tick e)\<rparr>)"

abbreviation LIBUSB_TRANSFER_COMPLETED :: int where "LIBUSB_TRANSFER_COMPLETED \<equiv> 0"
abbreviation LIBUSB_TRANSFER_CANCELLED :: int where "LIBUSB_TRANSFER_CANCELLED \<equiv> 3"
abbreviation LIBUSB_ERROR_NOT_FOUND :: int where "LIBUSB_ERROR_NOT_FOUND \<equiv> - 5"
abbreviation LIBUSB_ERROR_INTERRUPTED :: int where "LIBUSB_ERROR_INTERRUPTED \<equiv> - 10"
abbreviation LIBUSB_ERROR_NO_MEM :: int where "LIBUSB_ERROR_NO_MEM \<equiv> - 11"
abbreviation LIBUSB_ERROR_OTHER :: int where "LIBUSB_ERROR_OTHER \<equiv> - 99"

definition engine_has_pending :: "async_engine \<Rightarrow> bool" where
  "engine_has_pending e =
     policy_has_pending (eg_in_flight e + (if eg_telemetry_in_flight e then 1 else 0)) (eg_callbacks_active e)"

definition signal_failure :: "async_engine \<Rightarrow> async_engine" where
  "signal_failure e = e\<lparr>eg_transfer_ready := False, eg_startup_failed := True\<rparr>"

definition latch_failure :: "async_code \<Rightarrow> int \<Rightarrow> int \<Rightarrow> int \<Rightarrow> u64 \<Rightarrow> async_engine \<Rightarrow> async_engine" where
  "latch_failure code err status len sid e =
     (if eg_failed e then e
      else signal_failure (e\<lparr>eg_failed := True, eg_accepting := False,
        eg_result := (eg_result e)\<lparr>aq_code := code, aq_libusb_error := err, aq_transfer_status := status,
          aq_actual_length := len, aq_submission_id := sid\<rparr>\<rparr>))"

definition set_state :: "nat \<Rightarrow> slot_state \<Rightarrow> async_engine \<Rightarrow> async_engine" where
  "set_state i st e = e\<lparr>eg_policy := (eg_policy e)(i := (eg_policy e i)\<lparr>ps_state := st\<rparr>)\<rparr>"

section \<open>Callbacks\<close>

definition leave_flight :: "async_engine \<Rightarrow> async_engine" where
  "leave_flight e = e\<lparr>eg_in_flight := eg_in_flight e - 1, eg_callbacks_active := eg_callbacks_active e - 1\<rparr>"

definition transfer_callback :: "nat \<Rightarrow> int \<Rightarrow> nat \<Rightarrow> async_engine \<Rightarrow> async_engine" where
  "transfer_callback i status actual e0 =
     (let e = e0\<lparr>eg_callbacks_active := eg_callbacks_active e0 + 1\<rparr>;
          sid = ps_submission_id (eg_policy e i) in
      if ps_state (eg_policy e i) \<noteq> SLOT_SUBMITTED \<or> eg_in_flight e = 0
      then (let e1 = set_state i SLOT_FAILED (latch_failure ASYNC_ORDER_FAILURE 0 status (int actual) sid e)
            in e1\<lparr>eg_callbacks_active := eg_callbacks_active e1 - 1\<rparr>)
      else let e1 = e\<lparr>eg_result := (eg_result e)\<lparr>aq_completed_transfers := aq_completed_transfers (eg_result e) + 1\<rparr>,
                      eg_slots := (eg_slots e)(i := (eg_slots e i)\<lparr>as_actual_length := actual\<rparr>)\<rparr> in
        if status = LIBUSB_TRANSFER_COMPLETED
        then if \<not> policy_exact_length actual
             then leave_flight (latch_failure ASYNC_SHORT_TRANSFER 0 status (int actual) sid
                    (set_state i SLOT_FAILED e1))
             else leave_flight (set_state i SLOT_COMPLETE e1)
        else if status = LIBUSB_TRANSFER_CANCELLED \<and> (as_cancel_requested (eg_slots e1 i) \<or> eg_failed e1)
        then leave_flight (set_state i SLOT_CANCELLED e1)
        else leave_flight (latch_failure ASYNC_TRANSFER_FAILURE 0 status (int actual) sid
               (set_state i SLOT_FAILED e1)))"

definition note_telemetry_failure :: "async_engine \<Rightarrow> async_engine" where
  "note_telemetry_failure e =
     (let e1 = (if eg_telemetry_failures e < - 1
                then e\<lparr>eg_telemetry_failures := eg_telemetry_failures e + 1\<rparr> else e);
          r = eg_result e1;
          e2 = (if aq_telemetry_failures r < - 1
                then e1\<lparr>eg_result := r\<lparr>aq_telemetry_failures := aq_telemetry_failures r + 1\<rparr>\<rparr> else e1)
      in if eg_telemetry_failures e2 = TELEMETRY_MAX_FAILURES \<and> \<not> eg_stopping e2 \<and> eg_telemetry e2
         then e2\<lparr>eg_published := eg_published e2 @ [None]\<rparr> else e2)"

definition telemetry_callback :: "int \<Rightarrow> bytes \<Rightarrow> async_engine \<Rightarrow> async_engine" where
  "telemetry_callback status data e0 =
     (let e = e0\<lparr>eg_callbacks_active := eg_callbacks_active e0 + 1, eg_telemetry_in_flight := False\<rparr>;
          e1 = (if status = LIBUSB_TRANSFER_COMPLETED
                then if length data < DDD_FIFO_TELEMETRY_LENGTH then note_telemetry_failure e
                else if \<not> fst (ddd_fifo_telemetry_parse (Some data)) then note_telemetry_failure e
                else let r = eg_result e;
                         e2 = e\<lparr>eg_result := r\<lparr>aq_telemetry_readings := aq_telemetry_readings r + 1\<rparr>\<rparr> in
                  if \<not> eg_stopping e2 \<and> eg_telemetry e2
                  then case policy_telemetry_should_publish (eg_telemetry_primed e2) of
                      (publish, primed) \<Rightarrow>
                        let e3 = e2\<lparr>eg_telemetry_primed := primed\<rparr> in
                        if publish
                        then e3\<lparr>eg_published := eg_published e3 @ [Some (take DDD_FIFO_TELEMETRY_LENGTH data)]\<rparr>
                        else e3
                  else e2
                else if status \<noteq> LIBUSB_TRANSFER_CANCELLED then note_telemetry_failure e
                else e)
      in e1\<lparr>eg_callbacks_active := eg_callbacks_active e1 - 1\<rparr>)"

text \<open>A transfer has put its bytes into the buffer of its slot before its callback runs.  libusb
  knows no other transfers than those of the slots and the telemetry transfer it was given.\<close>

definition deliver :: "async_event \<Rightarrow> async_engine \<Rightarrow> async_engine" where
  "deliver ev e =
     (case ev of
        Ev_transfer i status data \<Rightarrow>
          if GUI_DDD_ASYNC_TRANSFER_COUNT \<le> i then e
          else let b = as_buffer (eg_slots e i) in
            transfer_callback i status (length data)
              (e\<lparr>eg_slots := (eg_slots e)(i := (eg_slots e i)\<lparr>as_buffer := data @ drop (length data) b\<rparr>),
                 eg_trace := eg_trace e @ [Tr_done i status data]\<rparr>)
      | Ev_telemetry status data \<Rightarrow>
          if eg_telemetry_in_flight e then telemetry_callback status data e else e)"

section \<open>Submission, cancellation, consumption\<close>

definition submit_slot :: "async_world \<Rightarrow> nat \<Rightarrow> async_engine \<Rightarrow> bool \<times> async_engine" where
  "submit_slot w i e =
     (let sid = eg_next_submit_id e;
          e1 = e\<lparr>eg_next_submit_id := sid + 1,
                 eg_policy := (eg_policy e)(i := \<lparr>ps_submission_id = sid, ps_state = SLOT_SUBMITTED\<rparr>),
                 eg_slots := (eg_slots e)(i := (eg_slots e i)\<lparr>as_actual_length := 0, as_cancel_requested := False\<rparr>)\<rparr>
      in case ask w e1 of (a, e2) \<Rightarrow>
        if aa_rc a < 0
        then (False, latch_failure ASYNC_SUBMIT_FAILURE (aa_rc a) 0 0 sid (set_state i SLOT_FAILED e2))
        else (True, e2\<lparr>eg_submitted_count := eg_submitted_count e2 + 1, eg_in_flight := eg_in_flight e2 + 1,
                       eg_trace := eg_trace e2 @ [Tr_submit i]\<rparr>))"

definition maybe_submit_telemetry :: "async_world \<Rightarrow> nat \<Rightarrow> async_engine \<Rightarrow> async_engine" where
  "maybe_submit_telemetry w now e =
     (let enabled = (eg_telemetry e \<and> eg_telemetry_transfer e \<and> \<not> eg_stopping e \<and> \<not> eg_failed e) in
      if \<not> policy_telemetry_should_submit enabled (eg_telemetry_in_flight e) (eg_telemetry_failures e)
             now (eg_telemetry_due_ms e)
      then e
      else case ask w (e\<lparr>eg_telemetry_due_ms := now + TELEMETRY_INTERVAL_MS,
                         eg_telemetry_cancel_requested := False\<rparr>) of (a, e1) \<Rightarrow>
        if aa_rc a < 0 then note_telemetry_failure e1 else e1\<lparr>eg_telemetry_in_flight := True\<rparr>)"

definition cancel_telemetry :: "async_world \<Rightarrow> async_engine \<Rightarrow> async_engine" where
  "cancel_telemetry w e =
     (if \<not> eg_telemetry_in_flight e \<or> eg_telemetry_cancel_requested e then e
      else snd (ask w (e\<lparr>eg_telemetry_cancel_requested := True\<rparr>)))"

definition cancel_slot :: "async_world \<Rightarrow> nat \<Rightarrow> async_engine \<Rightarrow> async_engine" where
  "cancel_slot w i e =
     (if ps_state (eg_policy e i) \<noteq> SLOT_SUBMITTED then e
      else case ask w (e\<lparr>eg_slots := (eg_slots e)(i := (eg_slots e i)\<lparr>as_cancel_requested := True\<rparr>)\<rparr>) of
        (a, e1) \<Rightarrow>
          if aa_rc a < 0 \<and> aa_rc a \<noteq> LIBUSB_ERROR_NOT_FOUND
          then latch_failure ASYNC_EVENT_FAILURE (aa_rc a) 0 0 (ps_submission_id (eg_policy e1 i)) e1
          else e1)"

definition cancel_in_flight :: "async_world \<Rightarrow> async_engine \<Rightarrow> async_engine" where
  "cancel_in_flight w e =
     (if eg_cancel_issued e then e
      else case ask w (e\<lparr>eg_cancel_issued := True\<rparr>) of (a, e1) \<Rightarrow>
        fold (cancel_slot w) [0..<GUI_DDD_ASYNC_TRANSFER_COUNT]
          (cancel_telemetry w (e1\<lparr>eg_cancel_deadline_ms := aa_now a + CANCEL_REAP_TIMEOUT_MS,
                                  eg_accepting := False\<rparr>)))"

definition drained :: "bool \<Rightarrow> async_engine \<Rightarrow> bool" where
  "drained running e =
     policy_stop_drain_complete running (eg_in_flight e) (aq_completed_transfers (eg_result e))
       (aq_consumed_transfers (eg_result e))"

text \<open>A block that is ready goes to the consumer, and its transfer is submitted again.  The
  result is the value gui\_ddd\_async\_consume\_ready returns, or None when its loop goes on.\<close>

definition resubmit :: "async_world \<Rightarrow> nat \<Rightarrow> async_engine \<Rightarrow> bool option \<times> async_engine" where
  "resubmit w i e =
     (case ask w e of (c, e1) \<Rightarrow>
      if policy_should_resubmit (eg_accepting e1) (aa_running c) (eg_failed e1)
      then (case submit_slot w i e1 of (ok, e2) \<Rightarrow> (if ok then None else Some False, e2))
      else (None, e1))"

definition retire :: "nat \<Rightarrow> async_engine \<Rightarrow> async_engine" where
  "retire i e =
     (let r = eg_result e in
      set_state i SLOT_RETIRED
        (e\<lparr>eg_result := r\<lparr>aq_consumed_transfers := aq_consumed_transfers r + 1\<rparr>,
           eg_order := order_policy_advance (eg_order e)\<rparr>))"

definition consume_block :: "async_world \<Rightarrow> nat \<Rightarrow> async_engine \<Rightarrow> bool option \<times> async_engine" where
  "consume_block w i e =
     (let s = eg_slots e i; block = take (as_actual_length s) (as_buffer s) in
      case ask w (e\<lparr>eg_trace := eg_trace e @ [Tr_consume block]\<rparr>) of (b, e1) \<Rightarrow>
        if \<not> aa_consume b
        then (Some False, latch_failure ASYNC_CONSUMER_FAILURE 0 0 (int (as_actual_length s))
                (ps_submission_id (eg_policy e1 i)) (set_state i SLOT_FAILED e1))
        else resubmit w i (retire i e1))"

definition consume_turn :: "async_world \<Rightarrow> async_engine \<Rightarrow> bool option \<times> async_engine" where
  "consume_turn w e =
     (case ask w e of (a, e1) \<Rightarrow>
      if drained (aa_running a) e1 then (Some True, e1)
      else case order_policy_peek (eg_order e1) (eg_policy e1) of
        NEXT_WAIT \<Rightarrow> (Some True, e1)
      | NEXT_STALE \<Rightarrow>
          (Some False, latch_failure ASYNC_ORDER_FAILURE 0 0 0 (op_next_consume_id (eg_order e1)) e1)
      | NEXT_READY i \<Rightarrow> consume_block w i e1)"

definition complete_slots :: "async_engine \<Rightarrow> nat set" where
  "complete_slots e = {i. i < unat (op_slot_count (eg_order e)) \<and> ps_state (eg_policy e i) = SLOT_COMPLETE}"

lemma latch_sel [simp]:
  "eg_slots (latch_failure c x y z v e) = eg_slots e"
  "eg_policy (latch_failure c x y z v e) = eg_policy e"
  "eg_order (latch_failure c x y z v e) = eg_order e"
  "eg_next_submit_id (latch_failure c x y z v e) = eg_next_submit_id e"
  "eg_in_flight (latch_failure c x y z v e) = eg_in_flight e"
  "eg_callbacks_active (latch_failure c x y z v e) = eg_callbacks_active e"
  "eg_telemetry_in_flight (latch_failure c x y z v e) = eg_telemetry_in_flight e"
  "eg_telemetry_cancel_requested (latch_failure c x y z v e) = eg_telemetry_cancel_requested e"
  "eg_cancel_deadline_ms (latch_failure c x y z v e) = eg_cancel_deadline_ms e"
  "eg_stop_deadline_ms (latch_failure c x y z v e) = eg_stop_deadline_ms e"
  "eg_stopping (latch_failure c x y z v e) = eg_stopping e"
  "eg_cancel_issued (latch_failure c x y z v e) = eg_cancel_issued e"
  "eg_failed (latch_failure c x y z v e) = True"
  "eg_trace (latch_failure c x y z v e) = eg_trace e"
  "eg_tick (latch_failure c x y z v e) = eg_tick e"
  by (simp_all add: latch_failure_def signal_failure_def)

lemma set_state_sel [simp]:
  "eg_slots (set_state i st e) = eg_slots e"
  "eg_policy (set_state i st e) = (eg_policy e)(i := (eg_policy e i)\<lparr>ps_state := st\<rparr>)"
  "eg_order (set_state i st e) = eg_order e"
  "eg_result (set_state i st e) = eg_result e"
  "eg_next_submit_id (set_state i st e) = eg_next_submit_id e"
  "eg_in_flight (set_state i st e) = eg_in_flight e"
  "eg_callbacks_active (set_state i st e) = eg_callbacks_active e"
  "eg_telemetry_in_flight (set_state i st e) = eg_telemetry_in_flight e"
  "eg_cancel_deadline_ms (set_state i st e) = eg_cancel_deadline_ms e"
  "eg_stop_deadline_ms (set_state i st e) = eg_stop_deadline_ms e"
  "eg_accepting (set_state i st e) = eg_accepting e"
  "eg_stopping (set_state i st e) = eg_stopping e"
  "eg_cancel_issued (set_state i st e) = eg_cancel_issued e"
  "eg_failed (set_state i st e) = eg_failed e"
  "eg_trace (set_state i st e) = eg_trace e"
  "eg_tick (set_state i st e) = eg_tick e"
  by (simp_all add: set_state_def)

lemma peek_ready:
  assumes "order_policy_peek policy slots = NEXT_READY i"
  shows "i < unat (op_slot_count policy) \<and> ps_state (slots i) = SLOT_COMPLETE \<and>
    ps_submission_id (slots i) = op_next_consume_id policy"
proof -
  have n: "op_slot_count policy \<noteq> 0" and
    i: "i = unat (op_next_consume_id policy mod op_slot_count policy)"
    and s: "ps_state (slots i) = SLOT_COMPLETE" "ps_submission_id (slots i) = op_next_consume_id policy"
    using assms by (auto simp: order_policy_peek_def Let_def split: if_splits)
  have "i = unat (op_next_consume_id policy) mod unat (op_slot_count policy)"
    unfolding i by (rule unat_mod)
  moreover have "0 < unat (op_slot_count policy)" using n by (simp add: unat_gt_0)
  ultimately show ?thesis using s by simp
qed

lemma submit_complete:
  assumes "submit_slot w i e = (ok, e')"
  shows "complete_slots e' = complete_slots e - {i}"
  using assms unfolding submit_slot_def ask_def Let_def
  by (auto simp: complete_slots_def split: if_splits)

lemma resubmit_complete:
  assumes "resubmit w i e = (res, e')"
  shows "complete_slots e' \<subseteq> complete_slots e"
proof -
  let ?e1 = "e\<lparr>eg_tick := Suc (eg_tick e)\<rparr>"
  obtain ok e2 where s: "submit_slot w i ?e1 = (ok, e2)" by fastforce
  have "complete_slots ?e1 = complete_slots e" by (simp add: complete_slots_def)
  then have "complete_slots e2 \<subseteq> complete_slots e" using submit_complete [OF s] by auto
  moreover have "e' = e2 \<or> e' = ?e1"
    using assms s unfolding resubmit_def ask_def by (auto split: if_splits)
  ultimately show ?thesis using \<open>complete_slots ?e1 = complete_slots e\<close> by auto
qed

lemma retire_complete: "complete_slots (retire i e) = complete_slots e - {i}"
  by (auto simp: retire_def Let_def complete_slots_def order_policy_advance_def)

lemma consume_turn_progress:
  assumes "consume_turn w e = (None, e')"
  shows "complete_slots e' \<subset> complete_slots e"
proof -
  let ?e1 = "e\<lparr>eg_tick := Suc (eg_tick e)\<rparr>"
  obtain i where pk: "order_policy_peek (eg_order e) (eg_policy e) = NEXT_READY i"
    and cb: "consume_block w i ?e1 = (None, e')"
    using assms by (auto simp: consume_turn_def ask_def split: if_splits next_state.splits)
  have i: "i \<in> complete_slots e" using peek_ready [OF pk] by (simp add: complete_slots_def)
  let ?e2 = "?e1\<lparr>eg_trace := eg_trace e @ [Tr_consume (take (as_actual_length (eg_slots e i))
      (as_buffer (eg_slots e i)))], eg_tick := Suc (Suc (eg_tick e))\<rparr>"
  have "complete_slots ?e2 = complete_slots e" "resubmit w i (retire i ?e2) = (None, e')"
    using cb unfolding consume_block_def ask_def Let_def
    by (auto simp: complete_slots_def split: if_splits)
  then show ?thesis using resubmit_complete retire_complete i by blast
qed

function consume_ready :: "async_world \<Rightarrow> async_engine \<Rightarrow> bool \<times> async_engine" where
  "consume_ready w e =
     (case consume_turn w e of (Some r, e') \<Rightarrow> (r, e') | (None, e') \<Rightarrow> consume_ready w e')"
  by pat_completeness auto
termination
proof (relation "measure (\<lambda>(w, e). card (complete_slots e))", goal_cases)
  case (2 w e r e')
  then have "complete_slots e' \<subset> complete_slots e" using consume_turn_progress [of w e e'] by simp
  moreover have "finite (complete_slots e)" by (simp add: complete_slots_def)
  ultimately show ?case by (simp add: psubset_card_mono)
qed simp

declare consume_ready.simps [simp del]

definition pump_events :: "async_world \<Rightarrow> async_engine \<Rightarrow> bool \<times> async_engine" where
  "pump_events w e =
     (case ask w e of (a, e1) \<Rightarrow>
      let e2 = fold deliver (aa_events a) e1 in
      if aa_rc a < 0 \<and> aa_rc a \<noteq> LIBUSB_ERROR_INTERRUPTED
      then (False, latch_failure ASYNC_EVENT_FAILURE (aa_rc a) 0 0 (op_next_consume_id (eg_order e2)) e2)
      else (True, e2))"

section \<open>One run\<close>

text \<open>The part of a turn of the main loop up to the tests that end it.\<close>

definition turn_stop :: "async_world \<Rightarrow> bool \<Rightarrow> nat \<Rightarrow> async_engine \<Rightarrow> async_engine" where
  "turn_stop w running now e =
     (if \<not> running \<and> \<not> eg_stopping e
      then cancel_telemetry w (e\<lparr>eg_stopping := True, eg_accepting := False,
             eg_stop_deadline_ms := now + STOP_DRAIN_TIMEOUT_MS\<rparr>)
      else e)"

definition total_in_flight :: "async_engine \<Rightarrow> nat" where
  "total_in_flight e = eg_in_flight e + (if eg_telemetry_in_flight e then 1 else 0)"

definition turn_consume :: "async_world \<Rightarrow> async_engine \<Rightarrow> async_engine" where
  "turn_consume w e =
     (if eg_failed e then e
      else case consume_ready w e of (ok, e1) \<Rightarrow> if ok then e1 else cancel_in_flight w e1)"

definition turn_timeout :: "async_world \<Rightarrow> nat \<Rightarrow> async_engine \<Rightarrow> async_engine" where
  "turn_timeout w now e =
     (if eg_failed e then cancel_in_flight w e
      else if eg_stopping e \<and> 0 < total_in_flight e \<and> eg_stop_deadline_ms e \<le> now
      then cancel_in_flight w
             (latch_failure ASYNC_DRAIN_TIMEOUT 0 0 0 (op_next_consume_id (eg_order e)) e)
      else e)"

definition turn_ends :: "bool \<Rightarrow> nat \<Rightarrow> async_engine \<Rightarrow> bool" where
  "turn_ends running now e =
     (eg_failed e \<and> total_in_flight e = 0 \<or>
      \<not> eg_failed e \<and> drained running e \<and> \<not> eg_telemetry_in_flight e \<or>
      policy_reap_action (eg_cancel_issued e) now (eg_cancel_deadline_ms e) (total_in_flight e) = REAP_ORPHAN)"

definition turn_pump :: "async_world \<Rightarrow> bool \<Rightarrow> async_engine \<Rightarrow> async_engine" where
  "turn_pump w running e =
     (if \<not> eg_failed e \<and> running \<and> eg_in_flight e = 0
      then cancel_in_flight w
             (latch_failure ASYNC_ORDER_FAILURE 0 0 0 (op_next_consume_id (eg_order e)) e)
      else case pump_events w e of (ok, e1) \<Rightarrow> if ok then e1 else cancel_in_flight w e1)"

text \<open>One turn: whether the loop is left, and the engine.\<close>

definition async_turn :: "async_world \<Rightarrow> async_engine \<Rightarrow> bool \<times> async_engine" where
  "async_turn w e =
     (case ask w e of (a, e1) \<Rightarrow>
      case ask w e1 of (b, e2) \<Rightarrow>
      let running = aa_running a; now = aa_now b;
          e3 = turn_stop w running now e2;
          e4 = (if running then maybe_submit_telemetry w now e3 else e3);
          e5 = turn_timeout w now (turn_consume w e4) in
      if turn_ends running now e5 then (True, e5) else (False, turn_pump w running e5))"

primrec async_turns :: "async_world \<Rightarrow> nat \<Rightarrow> async_engine \<Rightarrow> bool \<times> async_engine" where
  "async_turns w 0 e = (False, e)"
| "async_turns w (Suc n) e =
     (case async_turn w e of (ended, e1) \<Rightarrow> if ended then (True, e1) else async_turns w n e1)"

text \<open>What the allocations of gui\_ddd\_async\_allocate give.\<close>

record async_memory =
  am_pool :: bool
  am_transfers :: nat
  am_telemetry :: bool

definition new_engine :: "bool \<Rightarrow> async_engine" where
  "new_engine telemetry =
     \<lparr>eg_slots = (\<lambda>_. \<lparr>as_buffer = replicate GUI_DDD_ASYNC_TRANSFER_BYTES 0, as_actual_length = 0,
                      as_cancel_requested = False\<rparr>),
      eg_policy = (\<lambda>_. \<lparr>ps_submission_id = 0, ps_state = SLOT_UNUSED\<rparr>),
      eg_order = order_policy_init (of_nat GUI_DDD_ASYNC_TRANSFER_COUNT),
      eg_result = \<lparr>aq_code = ASYNC_SUCCESS, aq_libusb_error = 0, aq_transfer_status = 0,
        aq_actual_length = 0, aq_submission_id = 0, aq_completed_transfers = 0,
        aq_consumed_transfers = 0, aq_telemetry_readings = 0, aq_telemetry_failures = 0,
        aq_ready_signalled = False, aq_transfers_unreaped = False, aq_unreaped_transfers = 0,
        aq_active_callbacks = 0\<rparr>,
      eg_next_submit_id = 0, eg_submitted_count = 0, eg_in_flight = 0, eg_callbacks_active = 0,
      eg_telemetry = telemetry, eg_telemetry_transfer = False, eg_telemetry_in_flight = False,
      eg_telemetry_due_ms = 0, eg_telemetry_failures = 0, eg_telemetry_primed = False,
      eg_telemetry_cancel_requested = False, eg_cancel_deadline_ms = 0, eg_stop_deadline_ms = 0,
      eg_accepting = True, eg_stopping = False, eg_cancel_issued = False, eg_failed = False,
      eg_transfer_ready = False, eg_startup_failed = False, eg_published = [], eg_trace = [],
      eg_tick = 0\<rparr>"

definition async_allocate :: "async_memory \<Rightarrow> async_engine \<Rightarrow> bool \<times> async_engine" where
  "async_allocate m e =
     (if \<not> am_pool m
      then (False, latch_failure ASYNC_ALLOCATION_FAILURE LIBUSB_ERROR_NO_MEM 0 0 0 e)
      else if am_transfers m < GUI_DDD_ASYNC_TRANSFER_COUNT
      then (False, latch_failure ASYNC_ALLOCATION_FAILURE LIBUSB_ERROR_NO_MEM 0 0 (of_nat (am_transfers m)) e)
      else if eg_telemetry e
      then if am_telemetry m then (True, e\<lparr>eg_telemetry_transfer := True\<rparr>)
           else (True, e\<lparr>eg_telemetry_failures := TELEMETRY_MAX_FAILURES,
                  eg_result := (eg_result e)\<lparr>aq_telemetry_failures := TELEMETRY_MAX_FAILURES\<rparr>\<rparr>)
      else (True, e))"

fun submit_slots :: "async_world \<Rightarrow> nat list \<Rightarrow> async_engine \<Rightarrow> async_engine" where
  "submit_slots w [] e = e"
| "submit_slots w (i # is) e =
     (case submit_slot w i e of (ok, e1) \<Rightarrow> if ok then submit_slots w is e1 else e1)"

definition async_start :: "async_world \<Rightarrow> async_engine \<Rightarrow> async_engine" where
  "async_start w e =
     (let e1 = submit_slots w [0..<GUI_DDD_ASYNC_TRANSFER_COUNT] e;
          e2 = (if policy_initial_queue_ready (eg_submitted_count e1) (eg_failed e1)
                then e1\<lparr>eg_result := (eg_result e1)\<lparr>aq_ready_signalled := True\<rparr>, eg_transfer_ready := True\<rparr>
                else if \<not> eg_failed e1
                then latch_failure ASYNC_SUBMIT_FAILURE LIBUSB_ERROR_OTHER 0 0 (eg_next_submit_id e1) e1
                else e1)
      in if eg_failed e2 then cancel_in_flight w e2 else e2)"

text \<open>The end of a run: the value that is returned, and whether the caller got the engine.\<close>

definition async_finish :: "async_engine \<Rightarrow> int \<times> bool \<times> async_engine" where
  "async_finish e0 =
     (let e = e0\<lparr>eg_transfer_ready := False\<rparr> in
      if engine_has_pending e
      then (- 1, True, e\<lparr>eg_result := (eg_result e)\<lparr>aq_transfers_unreaped := True,
              aq_unreaped_transfers := total_in_flight e, aq_active_callbacks := eg_callbacks_active e\<rparr>\<rparr>)
      else (if aq_code (eg_result e) = ASYNC_SUCCESS then 0 else - 1, False, e))"

text \<open>A run with a valid configuration, of at most n turns of the loop.\<close>

definition gui_ddd_async_run ::
  "async_world \<Rightarrow> bool \<Rightarrow> async_memory \<Rightarrow> nat \<Rightarrow> (int \<times> bool \<times> async_engine) option" where
  "gui_ddd_async_run w telemetry m n =
     (case async_allocate m (new_engine telemetry) of (allocated, e) \<Rightarrow>
      if \<not> allocated then Some (async_finish e)
      else case async_turns w n (async_start w e) of (ended, e1) \<Rightarrow>
        if ended then Some (async_finish e1) else None)"

section \<open>Orphaned engines\<close>

text \<open>An orphan is known by its address; the process keeps at most one.\<close>

definition orphan_has_unreaped :: "async_engine \<Rightarrow> bool" where
  "orphan_has_unreaped orphan = engine_has_pending orphan"

definition orphan_try_reclaim :: "async_engine option \<Rightarrow> bool" where
  "orphan_try_reclaim orphan =
     (case orphan of None \<Rightarrow> False | Some e \<Rightarrow> \<not> engine_has_pending e)"

definition orphan_abandon :: "(nat \<times> async_engine) option \<Rightarrow> nat option \<Rightarrow> bool \<times> nat option" where
  "orphan_abandon orphan kept =
     (case orphan of None \<Rightarrow> (False, kept)
      | Some (p, e) \<Rightarrow>
          if \<not> engine_has_pending e then (True, kept)
          else if policy_abandon_slot_available (if kept \<noteq> None then 1 else 0) then (True, Some p)
          else (kept = Some p, kept))"

definition global_quarantine_active :: "nat option \<Rightarrow> bool" where
  "global_quarantine_active kept = (kept \<noteq> None)"

end
