(* ===== verification/Ddd_Async_Order.thy ===== *)
theory Ddd_Async_Order
  imports Ddd_Async
begin

text \<open>
  What the transfer queue delivers: the reference is the view of the USB host, which numbers
  the accepted submissions and knows which data each of them brought.
\<close>

section \<open>The host's view\<close>

record usb_view =
  uv_count :: nat
  uv_current :: "nat \<Rightarrow> nat option"
  uv_data :: "nat \<Rightarrow> bytes option"

fun view_step :: "usb_view \<Rightarrow> async_trace \<Rightarrow> usb_view" where
  "view_step v (Tr_submit i) =
     v\<lparr>uv_count := Suc (uv_count v), uv_current := (uv_current v)(i := Some (uv_count v))\<rparr>"
| "view_step v (Tr_done i status d) =
     (case uv_current v i of None \<Rightarrow> v
      | Some k \<Rightarrow> v\<lparr>uv_current := (uv_current v)(i := None), uv_data := (uv_data v)(k := Some d)\<rparr>)"
| "view_step v (Tr_consume b) = v"

definition usb_view :: "async_trace list \<Rightarrow> usb_view" where
  "usb_view tr = foldl view_step \<lparr>uv_count = 0, uv_current = (\<lambda>_. None), uv_data = (\<lambda>_. None)\<rparr> tr"

definition delivered :: "async_trace list \<Rightarrow> bytes list" where
  "delivered tr = concat (map (\<lambda>x. case x of Tr_consume b \<Rightarrow> [b] | _ \<Rightarrow> []) tr)"

lemma usb_view_simps [simp]:
  "usb_view (tr @ [x]) = view_step (usb_view tr) x"
  "uv_count (usb_view []) = 0" "uv_current (usb_view []) i = None" "uv_data (usb_view []) k = None"
  by (simp_all add: usb_view_def)

lemma delivered_simps [simp]:
  "delivered [] = []"
  "delivered (tr @ [Tr_consume b]) = delivered tr @ [b]"
  "delivered (tr @ [Tr_submit i]) = delivered tr"
  "delivered (tr @ [Tr_done i st d]) = delivered tr"
  by (simp_all add: delivered_def)

definition view_ok :: "usb_view \<Rightarrow> bool" where
  "view_ok v =
     ((\<forall>i k. uv_current v i = Some k \<longrightarrow> k < uv_count v \<and> uv_data v k = None) \<and>
      (\<forall>i j k. uv_current v i = Some k \<and> uv_current v j = Some k \<longrightarrow> i = j) \<and>
      (\<forall>k d. uv_data v k = Some d \<longrightarrow> k < uv_count v))"

lemma view_step_ok:
  assumes "view_ok v"
  shows "view_ok (view_step v x)"
proof (cases x)
  case (Tr_submit i)
  then show ?thesis using assms by (fastforce simp: view_ok_def less_Suc_eq)
next
  case (Tr_done i st d)
  then show ?thesis using assms by (auto simp: view_ok_def split: option.splits; metis option.distinct(1))
qed (use assms in simp)

lemma usb_view_ok [simp]: "view_ok (usb_view tr)"
proof (induction tr rule: rev_induct)
  case (snoc x tr)
  then show ?case by (simp add: view_step_ok)
qed (simp add: view_ok_def)

lemma current_no_data: "uv_current (usb_view tr) i = Some k \<Longrightarrow> uv_data (usb_view tr) k = None"
  using usb_view_ok [of tr] by (simp add: view_ok_def)

lemma current_unique:
  "uv_current (usb_view tr) i = Some k \<Longrightarrow> uv_current (usb_view tr) j = Some k \<Longrightarrow> i = j"
  using usb_view_ok [of tr] unfolding view_ok_def by blast

lemma current_counted: "uv_current (usb_view tr) i = Some k \<Longrightarrow> k < uv_count (usb_view tr)"
  using usb_view_ok [of tr] by (simp add: view_ok_def)

lemma data_stays:
  "uv_data (usb_view tr) k = Some d \<Longrightarrow> uv_data (view_step (usb_view tr) x) k = Some d"
  using current_no_data [of tr] by (cases x) (auto split: option.split)

lemma count_grows: "uv_count (usb_view tr) \<le> uv_count (view_step (usb_view tr) x)"
  by (cases x) (auto split: option.split)

section \<open>The invariant\<close>

definition blocks_ok :: "async_engine \<Rightarrow> bool" where
  "blocks_ok e = (\<forall>k<length (delivered (eg_trace e)).
     uv_data (usb_view (eg_trace e)) k = Some (delivered (eg_trace e) ! k) \<and>
     length (delivered (eg_trace e) ! k) = GUI_DDD_ASYNC_TRANSFER_BYTES)"

definition known :: "async_trace list \<Rightarrow> u64 \<Rightarrow> bytes \<Rightarrow> bool" where
  "known tr sid b = (\<exists>k<uv_count (usb_view tr). sid = of_nat k \<and> uv_data (usb_view tr) k = Some b)"

definition passed :: "async_trace list \<Rightarrow> u64 \<Rightarrow> bool" where
  "passed tr sid = (\<exists>k<length (delivered tr). sid = of_nat k)"

lemma known_step: "known tr sid b \<Longrightarrow> known (tr @ [x]) sid b"
  unfolding known_def using data_stays count_grows less_le_trans by fastforce

lemma passed_step: "passed tr sid \<Longrightarrow> passed (tr @ [x]) sid"
  unfolding passed_def by (cases x) (auto intro: less_SucI)

definition slot_ok :: "async_engine \<Rightarrow> nat \<Rightarrow> bool" where
  "slot_ok e i =
     (let v = usb_view (eg_trace e); s = eg_slots e i; p = eg_policy e i in
      \<not> as_cancel_requested s \<and>
      (case ps_state p of
         SLOT_SUBMITTED \<Rightarrow> (\<exists>k. uv_current v i = Some k \<and> ps_submission_id p = of_nat k)
       | SLOT_COMPLETE \<Rightarrow> (known (eg_trace e) (ps_submission_id p) (take (as_actual_length s) (as_buffer s)) \<and>
           as_actual_length s = GUI_DDD_ASYNC_TRANSFER_BYTES \<and>
           GUI_DDD_ASYNC_TRANSFER_BYTES \<le> length (as_buffer s))
       | SLOT_RETIRED \<Rightarrow> passed (eg_trace e) (ps_submission_id p)
       | SLOT_UNUSED \<Rightarrow> True
       | _ \<Rightarrow> False))"

definition submitted_slots :: "async_engine \<Rightarrow> nat set" where
  "submitted_slots e = {i. i < 96 \<and> ps_state (eg_policy e i) = SLOT_SUBMITTED}"

definition flow_ok :: "async_engine \<Rightarrow> bool" where
  "flow_ok e =
     (let n = uv_count (usb_view (eg_trace e)); c = length (delivered (eg_trace e)) in
      aq_code (eg_result e) = ASYNC_SUCCESS \<and> \<not> eg_cancel_issued e \<and>
      eg_next_submit_id e = of_nat n \<and>
      eg_order e = \<lparr>op_next_consume_id = of_nat c, op_slot_count = 96\<rparr> \<and>
      aq_consumed_transfers (eg_result e) = of_nat c \<and>
      aq_completed_transfers (eg_result e) = of_nat (n - eg_in_flight e) \<and>
      eg_in_flight e \<le> n \<and> c \<le> n \<and>
      eg_in_flight e = card (submitted_slots e) \<and>
      (\<forall>i<96. slot_ok e i))"

definition queue_ok :: "async_engine \<Rightarrow> bool" where
  "queue_ok e = (blocks_ok e \<and> (if eg_failed e then aq_code (eg_result e) \<noteq> ASYNC_SUCCESS else flow_ok e))"

abbreviation submissions :: "async_engine \<Rightarrow> nat" where
  "submissions e \<equiv> uv_count (usb_view (eg_trace e))"

text \<open>Steps that change neither the transfers nor what is known of them.\<close>

definition same_flow :: "async_engine \<Rightarrow> async_engine \<Rightarrow> bool" where
  "same_flow e e' =
     (eg_slots e' = eg_slots e \<and> eg_policy e' = eg_policy e \<and> eg_order e' = eg_order e \<and>
      eg_next_submit_id e' = eg_next_submit_id e \<and> eg_in_flight e' = eg_in_flight e \<and>
      eg_failed e' = eg_failed e \<and> eg_trace e' = eg_trace e \<and>
      eg_cancel_issued e' = eg_cancel_issued e \<and>
      aq_code (eg_result e') = aq_code (eg_result e) \<and>
      aq_completed_transfers (eg_result e') = aq_completed_transfers (eg_result e) \<and>
      aq_consumed_transfers (eg_result e') = aq_consumed_transfers (eg_result e))"

lemma same_flow_refl [simp]: "same_flow e e"
  by (simp add: same_flow_def)

lemma same_flow_trans: "same_flow e e1 \<Longrightarrow> same_flow e1 e2 \<Longrightarrow> same_flow e e2"
  by (simp add: same_flow_def)

lemma slot_ok_cong:
  assumes "eg_slots e' i = eg_slots e i" "eg_policy e' i = eg_policy e i" "eg_trace e' = eg_trace e"
  shows "slot_ok e' i = slot_ok e i"
  by (simp only: slot_ok_def assms)

lemma same_flow_queue: "same_flow e e' \<Longrightarrow> queue_ok e' = queue_ok e"
  using slot_ok_cong [of e' _ e]
  by (simp add: same_flow_def queue_ok_def blocks_ok_def flow_ok_def submitted_slots_def)

lemma ask_same: "ask w e = (a, e') \<Longrightarrow> same_flow e e'"
  by (auto simp: ask_def same_flow_def)

lemma note_failure_same [simp]: "same_flow e (note_telemetry_failure e)"
  by (simp add: note_telemetry_failure_def Let_def same_flow_def)

lemma telemetry_callback_same: "same_flow e (telemetry_callback status data e)"
  unfolding telemetry_callback_def Let_def
  by (auto simp: same_flow_def note_telemetry_failure_def Let_def split: prod.split)

lemma telemetry_submit_same: "same_flow e (maybe_submit_telemetry w now e)"
  by (auto simp: maybe_submit_telemetry_def ask_def same_flow_def note_telemetry_failure_def Let_def)

lemma telemetry_cancel_same: "same_flow e (cancel_telemetry w e)"
  by (simp add: cancel_telemetry_def ask_def same_flow_def)

lemma turn_stop_same: "same_flow e (turn_stop w running now e)"
  by (simp add: turn_stop_def cancel_telemetry_def ask_def same_flow_def)

text \<open>In a failed engine only the trace and the code matter.\<close>

lemma queue_failed:
  "eg_failed e \<Longrightarrow> queue_ok e = (blocks_ok e \<and> aq_code (eg_result e) \<noteq> ASYNC_SUCCESS)"
  by (simp add: queue_ok_def)

lemma latch_queue [simp]:
  assumes "queue_ok e" "c \<noteq> ASYNC_SUCCESS"
  shows "queue_ok (latch_failure c x y z v e)"
  using assms by (auto simp: queue_ok_def latch_failure_def signal_failure_def blocks_ok_def)

lemma latch_blocks:
  assumes "blocks_ok e" "eg_failed e \<Longrightarrow> aq_code (eg_result e) \<noteq> ASYNC_SUCCESS" "c \<noteq> ASYNC_SUCCESS"
  shows "queue_ok (latch_failure c x y z v e)"
  using assms by (auto simp: queue_ok_def latch_failure_def signal_failure_def blocks_ok_def)

lemma cancel_slot_failed:
  "eg_failed e \<Longrightarrow> eg_failed (cancel_slot w i e) \<and> eg_trace (cancel_slot w i e) = eg_trace e \<and>
     eg_result (cancel_slot w i e) = eg_result e \<and> eg_cancel_issued (cancel_slot w i e) = eg_cancel_issued e \<and>
     eg_stopping (cancel_slot w i e) = eg_stopping e \<and> eg_tick e \<le> eg_tick (cancel_slot w i e)"
  by (auto simp: cancel_slot_def ask_def latch_failure_def)

lemma cancel_slots_failed:
  "eg_failed e \<Longrightarrow> eg_failed (fold (cancel_slot w) is e) \<and> eg_trace (fold (cancel_slot w) is e) = eg_trace e \<and>
     eg_result (fold (cancel_slot w) is e) = eg_result e \<and>
     eg_cancel_issued (fold (cancel_slot w) is e) = eg_cancel_issued e \<and>
     eg_stopping (fold (cancel_slot w) is e) = eg_stopping e \<and> eg_tick e \<le> eg_tick (fold (cancel_slot w) is e)"
proof (induction "is" arbitrary: e)
  case (Cons i "is")
  then show ?case using cancel_slot_failed [OF Cons.prems, of w i] by fastforce
qed simp

lemma cancel_failed:
  assumes "eg_failed e"
  shows "eg_failed (cancel_in_flight w e) \<and> eg_trace (cancel_in_flight w e) = eg_trace e \<and>
     eg_result (cancel_in_flight w e) = eg_result e \<and> eg_cancel_issued (cancel_in_flight w e) \<and>
     eg_stopping (cancel_in_flight w e) = eg_stopping e \<and> eg_tick e \<le> eg_tick (cancel_in_flight w e)"
proof (cases "eg_cancel_issued e")
  case False
  let ?e1 = "cancel_telemetry w (e\<lparr>eg_cancel_issued := True, eg_tick := Suc (eg_tick e),
    eg_cancel_deadline_ms := aa_now (w (eg_tick e)) + CANCEL_REAP_TIMEOUT_MS, eg_accepting := False\<rparr>)"
  have "cancel_in_flight w e = fold (cancel_slot w) [0..<96] ?e1"
    using False by (simp add: cancel_in_flight_def ask_def)
  moreover have "eg_failed ?e1 \<and> eg_trace ?e1 = eg_trace e \<and> eg_result ?e1 = eg_result e \<and>
      eg_cancel_issued ?e1 \<and> eg_stopping ?e1 = eg_stopping e \<and> eg_tick e \<le> eg_tick ?e1"
    using assms by (simp add: cancel_telemetry_def ask_def)
  ultimately show ?thesis using cancel_slots_failed [of ?e1 w "[0..<96]"] by auto
qed (use assms in \<open>simp add: cancel_in_flight_def\<close>)

lemma cancel_slots_trace: "eg_trace (fold (cancel_slot w) is e) = eg_trace e"
proof (induction "is" arbitrary: e)
  case (Cons i "is")
  have "eg_trace (cancel_slot w i e) = eg_trace e" by (simp add: cancel_slot_def ask_def)
  then show ?case using Cons by simp
qed simp

lemma cancel_trace [simp]: "eg_trace (cancel_in_flight w e) = eg_trace e"
  by (simp add: cancel_in_flight_def ask_def cancel_slots_trace cancel_telemetry_def)

lemma cancel_queue: "queue_ok e \<Longrightarrow> eg_failed e \<Longrightarrow> queue_ok (cancel_in_flight w e)"
  using cancel_failed [of e w] by (simp add: queue_failed blocks_ok_def)

section \<open>Callbacks\<close>

lemma blocks_done:
  assumes "blocks_ok e"
  shows "blocks_ok (e\<lparr>eg_slots := s, eg_trace := eg_trace e @ [Tr_done i st d]\<rparr>)"
  using assms data_stays [of "eg_trace e" _ _ "Tr_done i st d"] by (simp add: blocks_ok_def)

lemma view_done:
  assumes "uv_current (usb_view tr) i = Some k"
  shows "usb_view (tr @ [Tr_done i st d]) =
    (usb_view tr)\<lparr>uv_current := (uv_current (usb_view tr))(i := None), uv_data := (uv_data (usb_view tr))(k := Some d)\<rparr>"
  using assms by simp

lemma slot_ok_done:
  assumes "slot_ok e j" "i \<noteq> j" "uv_current (usb_view (eg_trace e)) i = Some k"
    "eg_slots e' j = eg_slots e j" "eg_policy e' j = eg_policy e j"
    "eg_trace e' = eg_trace e @ [Tr_done i st d]"
  shows "slot_ok e' j"
  using assms(1-3) known_step passed_step
  unfolding slot_ok_def Let_def assms(4-6)
  by (auto split: slot_state.splits)

lemma blocks_ok_cong: "eg_trace e' = eg_trace e \<Longrightarrow> blocks_ok e' = blocks_ok e"
  by (simp add: blocks_ok_def)

lemma transfer_callback_failed:
  assumes "eg_failed e"
  shows "eg_failed (transfer_callback i status n e) \<and> eg_trace (transfer_callback i status n e) = eg_trace e \<and>
    aq_code (eg_result (transfer_callback i status n e)) = aq_code (eg_result e)"
  using assms unfolding transfer_callback_def Let_def leave_flight_def
  by (simp add: latch_failure_def)

text \<open>A callback other than that of a whole block on time makes the engine fail.\<close>

lemma transfer_callback_fails:
  assumes "\<not> eg_failed e" "\<not> as_cancel_requested (eg_slots e i)"
    "\<not> (ps_state (eg_policy e i) = SLOT_SUBMITTED \<and> eg_in_flight e \<noteq> 0 \<and>
        status = LIBUSB_TRANSFER_COMPLETED \<and> policy_exact_length n)"
  shows "eg_failed (transfer_callback i status n e) \<and> eg_trace (transfer_callback i status n e) = eg_trace e \<and>
    aq_code (eg_result (transfer_callback i status n e)) \<noteq> ASYNC_SUCCESS"
  using assms unfolding transfer_callback_def Let_def leave_flight_def
  by (simp add: latch_failure_def signal_failure_def) auto

lemma deliver_transfer_ok:
  assumes ok: "queue_ok e" and i: "i < 96"
  shows "queue_ok (deliver (Ev_transfer i status data) e)"
proof -
  let ?e1 = "e\<lparr>eg_slots := (eg_slots e)(i := (eg_slots e i)\<lparr>as_buffer := data @ drop (length data) (as_buffer (eg_slots e i))\<rparr>),
     eg_trace := eg_trace e @ [Tr_done i status data]\<rparr>"
  have dl: "deliver (Ev_transfer i status data) e = transfer_callback i status (length data) ?e1"
    using i by (simp add: deliver_def)
  have bl: "blocks_ok ?e1" using ok by (simp add: queue_ok_def blocks_done)
  show ?thesis
  proof (cases "eg_failed e")
    case True
    then show ?thesis
      using ok bl transfer_callback_failed [of ?e1 i status "length data"]
        blocks_ok_cong [of "transfer_callback i status (length data) ?e1" ?e1]
      unfolding dl by (simp add: queue_ok_def)
  next
    case False
    then have fl: "flow_ok e" using ok by (simp add: queue_ok_def)
    show ?thesis
    proof (cases "ps_state (eg_policy e i) = SLOT_SUBMITTED \<and> eg_in_flight e \<noteq> 0 \<and>
        status = LIBUSB_TRANSFER_COMPLETED \<and> policy_exact_length (length data)")
      case exact: True
      let ?e2 = "leave_flight (set_state i SLOT_COMPLETE (?e1\<lparr>eg_callbacks_active := eg_callbacks_active e + 1,
        eg_result := (eg_result e)\<lparr>aq_completed_transfers := aq_completed_transfers (eg_result e) + 1\<rparr>,
        eg_slots := (eg_slots ?e1)(i := (eg_slots ?e1 i)\<lparr>as_actual_length := length data\<rparr>)\<rparr>))"
      have e2: "deliver (Ev_transfer i status data) e = ?e2"
        using exact unfolding dl transfer_callback_def Let_def by simp
      have si: "slot_ok e i" using fl i by (simp add: flow_ok_def Let_def)
      obtain k where k: "uv_current (usb_view (eg_trace e)) i = Some k"
        "ps_submission_id (eg_policy e i) = of_nat k"
        using si exact by (auto simp: slot_ok_def Let_def)
      have kn: "k < submissions e" using current_counted [OF k(1)] .
      have sl: "slot_ok ?e2 j" if "j < 96" for j
      proof (cases "j = i")
        case True
        then show ?thesis
          using k kn exact si
          by (auto simp: slot_ok_def Let_def leave_flight_def policy_exact_length_def known_def)
      next
        case False
        have "slot_ok e j" using fl that by (simp add: flow_ok_def Let_def)
        then show ?thesis
          by (rule slot_ok_done [OF _ _ k(1)]) (use False in \<open>auto simp: leave_flight_def\<close>)
      qed
      have "submitted_slots ?e2 = submitted_slots e - {i}"
        by (auto simp: submitted_slots_def leave_flight_def)
      moreover have "i \<in> submitted_slots e" using exact i by (simp add: submitted_slots_def)
      moreover have "finite (submitted_slots e)" by (simp add: submitted_slots_def)
      ultimately have card: "card (submitted_slots ?e2) = card (submitted_slots e) - 1" by simp
      have nat: "of_nat (submissions e - (eg_in_flight e - 1)) = (of_nat (submissions e - eg_in_flight e) + 1 :: u64)"
      proof -
        have "submissions e - (eg_in_flight e - 1) = Suc (submissions e - eg_in_flight e)"
          using fl exact by (auto simp: flow_ok_def Let_def)
        then show ?thesis by simp
      qed
      have le: "eg_in_flight e - 1 \<le> submissions e" using fl by (auto simp: flow_ok_def Let_def)
      have "flow_ok ?e2"
        using fl sl card nat k le unfolding flow_ok_def Let_def
        by (simp add: leave_flight_def)
      moreover have "blocks_ok ?e2"
        using bl blocks_ok_cong [of ?e2 ?e1] by (simp add: leave_flight_def)
      ultimately show ?thesis using False unfolding e2 queue_ok_def by (simp add: leave_flight_def)
    next
      case fail: False
      have "slot_ok e i" using fl i by (simp add: flow_ok_def Let_def)
      then have "\<not> as_cancel_requested (eg_slots e i)" by (simp add: slot_ok_def Let_def)
      then have "eg_failed (transfer_callback i status (length data) ?e1) \<and>
          eg_trace (transfer_callback i status (length data) ?e1) = eg_trace ?e1 \<and>
          aq_code (eg_result (transfer_callback i status (length data) ?e1)) \<noteq> ASYNC_SUCCESS"
        using fail False by (intro transfer_callback_fails) auto
      then show ?thesis
        using bl blocks_ok_cong [of "transfer_callback i status (length data) ?e1" ?e1]
        unfolding dl by (simp add: queue_ok_def)
    qed
  qed
qed

lemma deliver_ok [inv_pres]: "queue_ok e \<Longrightarrow> queue_ok (deliver ev e)"
proof (cases ev)
  case (Ev_transfer i status data)
  assume "queue_ok e"
  then show ?thesis using deliver_transfer_ok [of e i status data] Ev_transfer
    by (cases "i < 96") (auto simp: deliver_def)
next
  case (Ev_telemetry status data)
  assume "queue_ok e"
  then show ?thesis using same_flow_queue [OF telemetry_callback_same] Ev_telemetry
    by (simp add: deliver_def)
qed

interpretation usb_events: inv_machine deliver queue_ok
  by unfold_locales (rule deliver_ok)

lemma pump_ok:
  assumes "queue_ok e" "pump_events w e = (ok, e')"
  shows "queue_ok e' \<and> (\<not> ok \<longrightarrow> eg_failed e')"
proof -
  let ?e1 = "fold deliver (aa_events (w (eg_tick e))) (e\<lparr>eg_tick := Suc (eg_tick e)\<rparr>)"
  have "queue_ok (e\<lparr>eg_tick := Suc (eg_tick e)\<rparr>)"
    using assms(1) same_flow_queue [of e "e\<lparr>eg_tick := Suc (eg_tick e)\<rparr>"] by (simp add: same_flow_def)
  then have "queue_ok ?e1" by (rule usb_events.run_good)
  then show ?thesis using assms(2) by (auto simp: pump_events_def ask_def Let_def split: if_splits)
qed

section \<open>Submission and consumption\<close>

lemma slot_ok_submit:
  assumes "slot_ok e j" "i \<noteq> j" "eg_slots e' j = eg_slots e j" "eg_policy e' j = eg_policy e j"
    "eg_trace e' = eg_trace e @ [Tr_submit i]"
  shows "slot_ok e' j"
  using assms(1,2) known_step passed_step unfolding slot_ok_def Let_def assms(3-5)
  by (auto split: slot_state.splits)

lemma submit_ok:
  assumes ok: "queue_ok e" "\<not> eg_failed e" and i: "i < 96" "ps_state (eg_policy e i) \<noteq> SLOT_SUBMITTED"
    and run: "submit_slot w i e = (res, e')"
  shows "queue_ok e' \<and> (eg_failed e' = (\<not> res))"
proof (cases "aa_rc (w (eg_tick e)) < 0")
  case True
  then show ?thesis
    using run ok by (auto simp: submit_slot_def ask_def Let_def queue_ok_def latch_failure_def
        signal_failure_def blocks_ok_def set_state_def)
next
  case False
  have fl: "flow_ok e" using ok by (simp add: queue_ok_def)
  have res: res and e': "eg_trace e' = eg_trace e @ [Tr_submit i]"
    "eg_policy e' = (eg_policy e)(i := \<lparr>ps_submission_id = eg_next_submit_id e, ps_state = SLOT_SUBMITTED\<rparr>)"
    "eg_slots e' = (eg_slots e)(i := (eg_slots e i)\<lparr>as_actual_length := 0, as_cancel_requested := False\<rparr>)"
    "eg_next_submit_id e' = eg_next_submit_id e + 1" "eg_in_flight e' = Suc (eg_in_flight e)"
    "eg_result e' = eg_result e" "eg_order e' = eg_order e" "\<not> eg_failed e'"
    "eg_cancel_issued e' = eg_cancel_issued e"
    using run False ok(2) by (auto simp: submit_slot_def ask_def Let_def)
  have sl: "slot_ok e' j" if "j < 96" for j
  proof (cases "j = i")
    case True
    then show ?thesis using fl by (simp add: slot_ok_def Let_def e' flow_ok_def)
  next
    case False
    have "slot_ok e j" using fl that by (simp add: flow_ok_def Let_def)
    then show ?thesis by (rule slot_ok_submit [where i = i]) (use False in \<open>simp_all add: e'\<close>)
  qed
  have "submitted_slots e' = insert i (submitted_slots e)"
    using i by (auto simp: submitted_slots_def e')
  moreover have "i \<notin> submitted_slots e" "finite (submitted_slots e)" using i by (simp_all add: submitted_slots_def)
  ultimately have card: "card (submitted_slots e') = Suc (card (submitted_slots e))" by simp
  have "flow_ok e'"
    using fl sl card unfolding flow_ok_def Let_def by (simp add: e')
  moreover have "blocks_ok e'"
    using ok(1) data_stays [of "eg_trace e" _ _ "Tr_submit i"] by (simp add: queue_ok_def blocks_ok_def e')
  ultimately show ?thesis using res e'(8) by (simp add: queue_ok_def)
qed

text \<open>Counting the submissions never goes back.\<close>

lemma small_id:
  assumes "k < 2 ^ 64" "j < 2 ^ 64" "(of_nat k :: u64) = of_nat j"
  shows "k = j"
proof -
  have "unat (of_nat k :: u64) = k" "unat (of_nat j :: u64) = j"
    by (rule unat_of_nat_lt, use assms(1,2) in simp)+
  then show ?thesis using assms(3) by metis
qed

lemma retire_ok:
  assumes ok: "queue_ok e" "\<not> eg_failed e" and small: "submissions e < 2 ^ 64"
    and pk: "order_policy_peek (eg_order e) (eg_policy e) = NEXT_READY i"
    and e1: "e1 = e\<lparr>eg_trace := eg_trace e @ [Tr_consume (take (as_actual_length (eg_slots e i)) (as_buffer (eg_slots e i)))],
      eg_tick := t\<rparr>"
  shows "queue_ok (retire i e1) \<and> \<not> eg_failed (retire i e1) \<and> i < 96 \<and>
    ps_state (eg_policy (retire i e1) i) = SLOT_RETIRED \<and> blocks_ok e1"
proof -
  let ?c = "length (delivered (eg_trace e))" and ?s = "eg_slots e i" and ?r = "retire i e1"
  let ?b = "take (as_actual_length ?s) (as_buffer ?s)"
  have fl: "flow_ok e" using ok by (simp add: queue_ok_def)
  then have ord: "eg_order e = \<lparr>op_next_consume_id = of_nat ?c, op_slot_count = 96\<rparr>" "?c \<le> submissions e"
    by (simp_all add: flow_ok_def Let_def)
  have i: "i < 96" "ps_state (eg_policy e i) = SLOT_COMPLETE" "ps_submission_id (eg_policy e i) = of_nat ?c"
    using peek_ready [OF pk] by (simp_all add: ord)
  have "slot_ok e i" using fl i(1) by (simp add: flow_ok_def Let_def)
  then obtain k where "k < submissions e" "ps_submission_id (eg_policy e i) = of_nat k"
    "uv_data (usb_view (eg_trace e)) k = Some ?b" "length ?b = GUI_DDD_ASYNC_TRANSFER_BYTES"
    using i(2) by (auto simp: slot_ok_def Let_def known_def)
  moreover from this have "k = ?c" using i(3) small ord(2) by (intro small_id) simp_all
  ultimately have k: "?c < submissions e" "uv_data (usb_view (eg_trace e)) ?c = Some ?b"
    "length ?b = GUI_DDD_ASYNC_TRANSFER_BYTES" by simp_all
  have b1: "blocks_ok e1"
    using ok(1) k(2,3) by (auto simp: queue_ok_def blocks_ok_def e1 nth_append less_Suc_eq)
  have r: "eg_trace ?r = eg_trace e @ [Tr_consume ?b]" "eg_slots ?r = eg_slots e"
    "eg_policy ?r = (eg_policy e)(i := (eg_policy e i)\<lparr>ps_state := SLOT_RETIRED\<rparr>)"
    "eg_in_flight ?r = eg_in_flight e" "eg_next_submit_id ?r = eg_next_submit_id e" "\<not> eg_failed ?r"
    "eg_order ?r = \<lparr>op_next_consume_id = of_nat ?c + 1, op_slot_count = 96\<rparr>"
    "aq_code (eg_result ?r) = aq_code (eg_result e)" "eg_cancel_issued ?r = eg_cancel_issued e"
    "aq_consumed_transfers (eg_result ?r) = aq_consumed_transfers (eg_result e) + 1"
    "aq_completed_transfers (eg_result ?r) = aq_completed_transfers (eg_result e)"
    using ok(2) by (simp_all add: retire_def Let_def e1 order_policy_advance_def ord)
  have sl: "slot_ok ?r j" if "j < 96" for j
  proof (cases "j = i")
    case True
    have "slot_ok e i" using fl i(1) by (simp add: flow_ok_def Let_def)
    then show ?thesis using True i(3) by (auto simp: slot_ok_def Let_def r passed_def)
  next
    case False
    have "slot_ok e j" using fl that by (simp add: flow_ok_def Let_def)
    then show ?thesis using False known_step passed_step
      unfolding slot_ok_def Let_def r by (auto split: slot_state.splits)
  qed
  have "submitted_slots ?r = submitted_slots e"
    using i(2) by (auto simp: submitted_slots_def r)
  then have "flow_ok ?r"
    using fl sl k(1) unfolding flow_ok_def Let_def by (simp add: r)
  moreover have "blocks_ok ?r"
    using b1 blocks_ok_cong [of ?r e1] r(1) by (simp add: e1)
  ultimately show ?thesis using r i(1) b1 by (simp add: queue_ok_def)
qed

lemma retire_trace [simp]: "eg_trace (retire i e) = eg_trace e"
  by (simp add: retire_def Let_def)

lemma submit_count: "submit_slot w i e = (ok, e') \<Longrightarrow> submissions e \<le> submissions e'"
  by (auto simp: submit_slot_def ask_def Let_def split: if_splits)

lemma consume_block_ok:
  assumes ok: "queue_ok e" "\<not> eg_failed e"
    and pk: "order_policy_peek (eg_order e) (eg_policy e) = NEXT_READY i"
    and run: "consume_block w i e = (res, e')" and small: "submissions e' < 2 ^ 64"
  shows "submissions e \<le> submissions e' \<and> queue_ok e' \<and> res \<noteq> Some True \<and> eg_failed e' = (res = Some False)"
proof -
  define e1 where "e1 = e\<lparr>eg_trace := eg_trace e @ [Tr_consume (take (as_actual_length (eg_slots e i)) (as_buffer (eg_slots e i)))],
      eg_tick := Suc (eg_tick e)\<rparr>"
  have sm: "submissions e \<le> submissions e'"
    using run unfolding consume_block_def resubmit_def ask_def Let_def
    by (auto dest!: submit_count split: if_splits prod.splits)
  note R = retire_ok [OF ok order.strict_trans1 [OF sm small] pk e1_def]
  show ?thesis
  proof (cases "aa_consume (w (eg_tick e))")
    case False
    then show ?thesis
      using run R ok sm unfolding consume_block_def ask_def Let_def
      by (auto simp: e1_def queue_ok_def latch_failure_def signal_failure_def blocks_ok_def)
  next
    case True
    let ?r = "retire i e1"
    let ?q = "?r\<lparr>eg_tick := Suc (eg_tick ?r)\<rparr>"
    have rs: "resubmit w i ?r = (res, e')"
      using run True by (simp add: consume_block_def ask_def Let_def e1_def)
    have q: "queue_ok ?q" using R same_flow_queue [of ?r ?q] by (simp add: same_flow_def)
    show ?thesis
    proof (cases "policy_should_resubmit (eg_accepting ?q) (aa_running (w (eg_tick ?r))) (eg_failed ?q)")
      case False
      then show ?thesis using rs R q sm by (auto simp: resubmit_def ask_def)
    next
      case True
      obtain sok e2 where s: "submit_slot w i ?q = (sok, e2)" by fastforce
      have "queue_ok e2 \<and> eg_failed e2 = (\<not> sok)"
        using submit_ok [OF q _ _ _ s] R by simp
      then show ?thesis using rs True s sm by (auto simp: resubmit_def ask_def)
    qed
  qed
qed

lemma consume_turn_ok:
  assumes "queue_ok e" "\<not> eg_failed e" "consume_turn w e = (res, e')" "submissions e' < 2 ^ 64"
  shows "submissions e \<le> submissions e' \<and> queue_ok e' \<and> eg_failed e' = (res = Some False)"
proof -
  let ?e1 = "e\<lparr>eg_tick := Suc (eg_tick e)\<rparr>"
  have "queue_ok ?e1" using assms(1) same_flow_queue [of e ?e1] by (simp add: same_flow_def)
  then show ?thesis
    using assms consume_block_ok [of ?e1 _ w res e']
    by (auto simp: consume_turn_def ask_def split: if_splits next_state.splits)
qed

lemma consume_count:
  "consume_ready w e = (r, e') \<Longrightarrow> submissions e \<le> submissions e'"
proof (induction w e rule: consume_ready.induct)
  case (1 w e)
  have turn: "submissions e \<le> submissions e1" if "consume_turn w e = (res, e1)" for res e1
    using that unfolding consume_turn_def consume_block_def resubmit_def ask_def Let_def
    by (auto dest!: submit_count split: if_splits prod.splits next_state.splits)
  show ?case
    using 1 turn by (subst (asm) (2) consume_ready.simps) (auto split: prod.splits option.splits; fastforce)
qed

lemma consume_ready_ok:
  "queue_ok e \<Longrightarrow> \<not> eg_failed e \<Longrightarrow> consume_ready w e = (r, e') \<Longrightarrow> submissions e' < 2 ^ 64 \<Longrightarrow>
   queue_ok e' \<and> eg_failed e' = (\<not> r)"
proof (induction w e rule: consume_ready.induct)
  case (1 w e)
  obtain res e1 where t: "consume_turn w e = (res, e1)" by fastforce
  show ?case
  proof (cases res)
    case None
    then have c: "consume_ready w e1 = (r, e')" using 1(4) t by (simp add: consume_ready.simps [of w e])
    then have "submissions e1 < 2 ^ 64" using consume_count 1(5) by fastforce
    then show ?thesis using 1 t c consume_turn_ok [OF 1(2,3) t] None by simp
  next
    case (Some b)
    then show ?thesis using 1 t consume_turn_ok [OF 1(2,3) t] by (simp add: consume_ready.simps [of w e])
  qed
qed

section \<open>Whole runs\<close>

lemma turn_consume_ok:
  assumes "queue_ok e" "submissions (turn_consume w e) < 2 ^ 64"
  shows "queue_ok (turn_consume w e)"
proof (cases "eg_failed e")
  case False
  obtain r e1 where c: "consume_ready w e = (r, e1)" by fastforce
  have "submissions e1 < 2 ^ 64"
    using assms(2) False c by (cases r) (simp_all add: turn_consume_def)
  then show ?thesis
    using consume_ready_ok [OF assms(1) False c] False c cancel_queue by (simp add: turn_consume_def)
qed (use assms in \<open>simp add: turn_consume_def\<close>)

lemma turn_timeout_ok: "queue_ok e \<Longrightarrow> queue_ok (turn_timeout w now e)"
  by (simp add: turn_timeout_def cancel_queue)

lemma turn_pump_ok: "queue_ok e \<Longrightarrow> queue_ok (turn_pump w running e)"
  using pump_ok [of e w] by (auto simp: turn_pump_def cancel_queue split: prod.split)

text \<open>The steps of a turn before the test that ends the loop.\<close>

definition turn_body :: "async_world \<Rightarrow> async_engine \<Rightarrow> async_engine" where
  "turn_body w e =
     (let running = aa_running (w (eg_tick e)); now = aa_now (w (Suc (eg_tick e)));
          e3 = turn_stop w running now (e\<lparr>eg_tick := Suc (Suc (eg_tick e))\<rparr>);
          e4 = (if running then maybe_submit_telemetry w now e3 else e3)
      in turn_timeout w now (turn_consume w e4))"

lemma async_turn_body:
  "async_turn w e =
     (if turn_ends (aa_running (w (eg_tick e))) (aa_now (w (Suc (eg_tick e)))) (turn_body w e)
      then (True, turn_body w e)
      else (False, turn_pump w (aa_running (w (eg_tick e))) (turn_body w e)))"
  by (simp add: async_turn_def turn_body_def ask_def Let_def)

definition turn_begin :: "async_world \<Rightarrow> async_engine \<Rightarrow> async_engine" where
  "turn_begin w e =
     (let running = aa_running (w (eg_tick e)); now = aa_now (w (Suc (eg_tick e)));
          e3 = turn_stop w running now (e\<lparr>eg_tick := Suc (Suc (eg_tick e))\<rparr>)
      in if running then maybe_submit_telemetry w now e3 else e3)"

lemma turn_body_begin:
  "turn_body w e = turn_timeout w (aa_now (w (Suc (eg_tick e)))) (turn_consume w (turn_begin w e))"
  by (simp add: turn_body_def turn_begin_def Let_def)

lemma turn_begin_same: "same_flow e (turn_begin w e)"
proof -
  let ?e2 = "e\<lparr>eg_tick := Suc (Suc (eg_tick e))\<rparr>"
  let ?e3 = "turn_stop w (aa_running (w (eg_tick e))) (aa_now (w (Suc (eg_tick e)))) ?e2"
  have "same_flow e ?e2" by (simp add: same_flow_def)
  then have "same_flow e ?e3" using turn_stop_same by (rule same_flow_trans)
  then show ?thesis
    using same_flow_trans [OF _ telemetry_submit_same]
    by (cases "aa_running (w (eg_tick e))") (simp_all add: turn_begin_def Let_def)
qed

lemma turn_timeout_trace [simp]: "eg_trace (turn_timeout w now e) = eg_trace e"
  by (simp add: turn_timeout_def)

lemma turn_consume_count: "submissions e \<le> submissions (turn_consume w e)"
  using consume_count [of w e] by (auto simp: turn_consume_def split: prod.split)

lemma deliver_count: "submissions e \<le> submissions (deliver ev e)"
proof (cases ev)
  case (Ev_transfer i status data)
  let ?e1 = "e\<lparr>eg_slots := (eg_slots e)(i := (eg_slots e i)\<lparr>as_buffer := data @ drop (length data) (as_buffer (eg_slots e i))\<rparr>),
     eg_trace := eg_trace e @ [Tr_done i status data]\<rparr>"
  have "eg_trace (transfer_callback i status (length data) ?e1) = eg_trace ?e1"
    unfolding transfer_callback_def Let_def leave_flight_def by simp
  then show ?thesis using Ev_transfer count_grows [of "eg_trace e" "Tr_done i status data"]
    by (simp add: deliver_def)
next
  case (Ev_telemetry status data)
  then show ?thesis using telemetry_callback_same [of e status data]
    by (simp add: deliver_def same_flow_def)
qed

lemma pump_count:
  assumes "pump_events w e = (ok, e')"
  shows "submissions e \<le> submissions e'"
proof -
  have "submissions q \<le> submissions (fold deliver evs q)" for evs q
  proof (induction evs arbitrary: q)
    case (Cons ev evs)
    then show ?case using deliver_count [of q ev] order_trans by fastforce
  qed simp
  from this [of "e\<lparr>eg_tick := Suc (eg_tick e)\<rparr>" "aa_events (w (eg_tick e))"] show ?thesis
    using assms by (auto simp: pump_events_def ask_def Let_def split: if_splits)
qed

lemma turn_body_count: "submissions e \<le> submissions (turn_body w e)"
  using turn_consume_count [of "turn_begin w e" w] turn_begin_same [of e w]
  by (simp add: turn_body_begin same_flow_def)

lemma turn_pump_count: "submissions e \<le> submissions (turn_pump w running e)"
  using pump_count [of w e] by (auto simp: turn_pump_def split: prod.split)

lemma turn_body_ok:
  assumes "queue_ok e" "submissions (turn_body w e) < 2 ^ 64"
  shows "queue_ok (turn_body w e)"
proof -
  have "queue_ok (turn_begin w e)" using assms(1) same_flow_queue [OF turn_begin_same] by blast
  moreover have "submissions (turn_consume w (turn_begin w e)) < 2 ^ 64"
    using assms(2) by (simp add: turn_body_begin)
  ultimately show ?thesis unfolding turn_body_begin by (intro turn_timeout_ok turn_consume_ok)
qed

lemma async_turn_ok:
  assumes "queue_ok e" "async_turn w e = (ended, e')" "submissions e' < 2 ^ 64"
  shows "queue_ok e' \<and> submissions e \<le> submissions e'"
proof -
  let ?b = "turn_body w e" and ?r = "aa_running (w (eg_tick e))"
  have e': "e' = ?b \<or> e' = turn_pump w ?r ?b" using assms(2) by (auto simp: async_turn_body split: if_splits)
  then have le: "submissions ?b \<le> submissions e'" using turn_pump_count by auto
  then have "queue_ok ?b" using turn_body_ok [OF assms(1), of w] assms(3) by simp
  then show ?thesis using e' le turn_pump_ok turn_body_count [of e w] by auto
qed

lemma async_turn_count:
  assumes "async_turn w e = (ended, e')"
  shows "submissions e \<le> submissions e'"
proof -
  have "e' = turn_body w e \<or> e' = turn_pump w (aa_running (w (eg_tick e))) (turn_body w e)"
    using assms by (auto simp: async_turn_body split: if_splits)
  then show ?thesis using turn_body_count [of e w] turn_pump_count [of "turn_body w e" w] order_trans by auto
qed

lemma async_turns_count: "async_turns w n e = (ended, e') \<Longrightarrow> submissions e \<le> submissions e'"
proof (induction n arbitrary: e)
  case (Suc n)
  obtain d e1 where t: "async_turn w e = (d, e1)" by fastforce
  have "submissions e1 \<le> submissions e'" using Suc t by (cases d) auto
  then show ?case using async_turn_count [OF t] by simp
qed simp

lemma async_turns_ok:
  "queue_ok e \<Longrightarrow> async_turns w n e = (ended, e') \<Longrightarrow> submissions e' < 2 ^ 64 \<Longrightarrow>
   queue_ok e' \<and> submissions e \<le> submissions e'"
proof (induction n arbitrary: e)
  case (Suc n)
  obtain d e1 where t: "async_turn w e = (d, e1)" by fastforce
  have "submissions e1 \<le> submissions e'"
    using Suc.prems(2) t async_turns_count [of w n e1 ended e'] by (cases d) auto
  then have "queue_ok e1 \<and> submissions e \<le> submissions e1"
    using async_turn_ok [OF Suc.prems(1) t] Suc.prems(3) by simp
  then show ?case using Suc.IH [of e1] Suc.prems t \<open>submissions e1 \<le> submissions e'\<close>
    by (cases d) auto
qed simp

lemma async_turns_end: "async_turns w n e = (True, e') \<Longrightarrow> \<exists>running now. turn_ends running now e'"
proof (induction n arbitrary: e)
  case (Suc n)
  obtain d e1 where t: "async_turn w e = (d, e1)" by fastforce
  then show ?case using Suc by (cases d) (auto simp: async_turn_body split: if_splits)
qed simp

subsection \<open>The start\<close>

lemma new_engine_ok: "queue_ok (new_engine t)"
  by (simp add: queue_ok_def blocks_ok_def flow_ok_def new_engine_def submitted_slots_def slot_ok_def
      order_policy_init_def Let_def)

lemma allocate_ok: "async_allocate m e = (r, e') \<Longrightarrow> queue_ok e \<Longrightarrow> queue_ok e' \<and> (r \<longrightarrow> same_flow e e')"
  using same_flow_queue [of e e']
  by (auto simp: async_allocate_def same_flow_def split: if_splits)

lemma submit_slots_ok:
  assumes "queue_ok e" "\<not> eg_failed e" "distinct is" "\<forall>i\<in>set is. i < 96 \<and> ps_state (eg_policy e i) = SLOT_UNUSED"
  shows "queue_ok (submit_slots w is e) \<and>
    (\<not> eg_failed (submit_slots w is e) \<longrightarrow>
       (\<forall>j. ps_state (eg_policy (submit_slots w is e) j) \<noteq> SLOT_UNUSED \<longleftrightarrow>
          j \<in> set is \<or> ps_state (eg_policy e j) \<noteq> SLOT_UNUSED))"
  using assms
proof (induction "is" arbitrary: e)
  case (Cons i "is")
  obtain ok e1 where s: "submit_slot w i e = (ok, e1)" by fastforce
  have r: "queue_ok e1 \<and> eg_failed e1 = (\<not> ok)"
    using submit_ok [OF Cons.prems(1,2) _ _ s] Cons.prems(4) by simp
  show ?case
  proof (cases ok)
    case True
    have p: "eg_policy e1 = (eg_policy e)(i := \<lparr>ps_submission_id = eg_next_submit_id e, ps_state = SLOT_SUBMITTED\<rparr>)"
      using s True by (auto simp: submit_slot_def ask_def Let_def split: if_splits)
    have "\<forall>j\<in>set is. j < 96 \<and> ps_state (eg_policy e1 j) = SLOT_UNUSED"
      using Cons.prems(3,4) by (auto simp: p)
    then show ?thesis
      using Cons.IH [of e1] r True Cons.prems(3) s p by auto
  qed (use r s in simp)
qed simp

lemma async_start_ok:
  assumes "queue_ok e" "\<not> eg_failed e" "\<forall>i. ps_state (eg_policy e i) = SLOT_UNUSED"
  shows "queue_ok (async_start w e) \<and>
    (eg_failed (async_start w e) \<or> (\<forall>i<96. ps_state (eg_policy (async_start w e) i) \<noteq> SLOT_UNUSED))"
proof -
  let ?e1 = "submit_slots w [0..<96] e"
  have s: "queue_ok ?e1" "\<not> eg_failed ?e1 \<Longrightarrow> i < 96 \<Longrightarrow> ps_state (eg_policy ?e1 i) \<noteq> SLOT_UNUSED" for i
    using submit_slots_ok [OF assms(1,2), of "[0..<96]" w] assms(3) by auto
  let ?e2 = "?e1\<lparr>eg_result := (eg_result ?e1)\<lparr>aq_ready_signalled := True\<rparr>, eg_transfer_ready := True\<rparr>"
  have "queue_ok ?e2" using s(1) same_flow_queue [of ?e1 ?e2] by (simp add: same_flow_def)
  then show ?thesis
    using s cancel_queue [of ?e1 w] cancel_failed
    by (auto simp: async_start_def Let_def policy_initial_queue_ready_def cancel_queue)
qed

section \<open>Properties\<close>

text \<open>C31: At every turn of a run, the blocks handed to the consumer so far are the data of the
  first submissions in the order of submission, each one once and each of exactly 128 KiB,
  whatever order and status the callbacks come with; and a run that returns 0 has handed over
  the data of every transfer that was submitted.\<close>

theorem blocks_in_order:
  "case async_allocate m (new_engine telemetry) of (allocated, e0) \<Rightarrow>
   case async_turns w n (async_start w e0) of (ended, e) \<Rightarrow>
     let v = usb_view (eg_trace e); blocks = delivered (eg_trace e) in
     if allocated \<and> uv_count v < 2 ^ 64
     then map (uv_data v) [0..<length blocks] = map Some blocks \<and>
       list_all (\<lambda>b. length b = 128 * 1024) blocks \<and>
       (if ended \<and> fst (async_finish e) = 0 then length blocks = uv_count v else True)
     else True"
proof -
  obtain allocated e0 where a: "async_allocate m (new_engine telemetry) = (allocated, e0)" by fastforce
  obtain ended e where r: "async_turns w n (async_start w e0) = (ended, e)" by fastforce
  let ?bs = "delivered (eg_trace e)"
  have main: "map (uv_data (usb_view (eg_trace e))) [0..<length ?bs] = map Some ?bs \<and>
      list_all (\<lambda>b. length b = 128 * 1024) ?bs \<and>
      (ended \<and> fst (async_finish e) = 0 \<longrightarrow> length ?bs = submissions e)"
    if al: allocated and small: "submissions e < 2 ^ 64"
  proof -
    have e0: "queue_ok e0" "same_flow (new_engine telemetry) e0"
      using allocate_ok [OF a new_engine_ok] al by auto
    then have "queue_ok (async_start w e0)"
      using async_start_ok [OF e0(1)] by (simp add: same_flow_def new_engine_def)
    then have q: "queue_ok e" using async_turns_ok [OF _ r small] by simp
    then have b: "blocks_ok e" by (simp add: queue_ok_def)
    have "length ?bs = submissions e" if fin: "ended" "fst (async_finish e) = 0"
    proof -
      have s: "aq_code (eg_result e) = ASYNC_SUCCESS" "\<not> engine_has_pending e"
        using fin(2) by (auto simp: async_finish_def Let_def engine_has_pending_def split: if_splits)
      then have "\<not> eg_failed e" using q by (auto simp: queue_ok_def)
      then have fl: "flow_ok e" using q by (simp add: queue_ok_def)
      obtain run now where "turn_ends run now e"
        using async_turns_end [of w n "async_start w e0" e] r fin(1) by auto
      then have "drained run e"
        using \<open>\<not> eg_failed e\<close> fl by (auto simp: turn_ends_def policy_reap_action_def flow_ok_def Let_def split: if_splits)
      then have "eg_in_flight e = 0" "aq_completed_transfers (eg_result e) = aq_consumed_transfers (eg_result e)"
        by (simp_all add: drained_def policy_stop_drain_complete_def)
      moreover have "aq_completed_transfers (eg_result e) = of_nat (submissions e - eg_in_flight e)"
        "aq_consumed_transfers (eg_result e) = of_nat (length ?bs)"
        using fl by (simp_all only: flow_ok_def Let_def)
      ultimately have "(of_nat (submissions e) :: u64) = of_nat (length ?bs)" by simp
      then show ?thesis using small_id [of "submissions e" "length ?bs"] small fl
        by (simp add: flow_ok_def Let_def)
    qed
    then show ?thesis
      using b by (auto simp: blocks_ok_def list_all_length GUI_DDD_ASYNC_TRANSFER_BYTES_def intro: nth_equalityI)
  qed
  then show ?thesis unfolding a r prod.case Let_def by simp
qed

end
