(* ===== verification/Ddd_Async_Stop.thy ===== *)
theory Ddd_Async_Stop
  imports Ddd_Async_Order
begin

text \<open>
  A run ends once capturing has stopped: the drain phase and the cancel phase are bounded by
  their deadlines, whatever libusb and the consumer answer.
\<close>

section \<open>What no step takes back\<close>

definition later :: "async_engine \<Rightarrow> async_engine \<Rightarrow> bool" where
  "later e e' =
     (eg_tick e \<le> eg_tick e' \<and> (eg_failed e \<longrightarrow> eg_failed e') \<and>
      (eg_stopping e \<longrightarrow> eg_stopping e' \<and> eg_stop_deadline_ms e' = eg_stop_deadline_ms e) \<and>
      (eg_cancel_issued e \<longrightarrow> eg_cancel_issued e' \<and> eg_cancel_deadline_ms e' = eg_cancel_deadline_ms e) \<and>
      (\<forall>i. ps_state (eg_policy e i) \<noteq> SLOT_UNUSED \<longrightarrow> ps_state (eg_policy e' i) \<noteq> SLOT_UNUSED))"

lemma later_refl [simp]: "later e e"
  by (simp add: later_def)

lemma later_trans: "later e e1 \<Longrightarrow> later e1 e2 \<Longrightarrow> later e e2"
  by (auto simp: later_def)

lemma later_tick: "later e (e\<lparr>eg_tick := Suc (eg_tick e)\<rparr>)"
  by (simp add: later_def)

lemma latch_later: "later e (latch_failure c x y z v e)"
  by (simp add: later_def)

lemma set_state_later: "st \<noteq> SLOT_UNUSED \<Longrightarrow> later e (set_state i st e)"
  by (simp add: later_def)

lemma submit_later: "submit_slot w i e = (ok, e') \<Longrightarrow> later e e'"
  by (auto simp: submit_slot_def ask_def Let_def later_def split: if_splits)

lemma callback_later: "later e (transfer_callback i status n e)"
  unfolding transfer_callback_def Let_def leave_flight_def
  by (simp add: later_def)

lemma note_failure_later: "later e (note_telemetry_failure e)"
  by (simp add: note_telemetry_failure_def Let_def later_def)

lemma telemetry_callback_later: "later e (telemetry_callback status data e)"
proof -
  let ?e = "e\<lparr>eg_callbacks_active := eg_callbacks_active e + 1, eg_telemetry_in_flight := False\<rparr>"
  have "later ?e (note_telemetry_failure ?e)" by (rule note_failure_later)
  then show ?thesis unfolding telemetry_callback_def Let_def
    by (auto simp: later_def split: prod.split)
qed

lemma deliver_later: "later e (deliver ev e)"
proof (cases ev)
  case (Ev_transfer i status data)
  let ?e1 = "e\<lparr>eg_slots := (eg_slots e)(i := (eg_slots e i)\<lparr>as_buffer := data @ drop (length data) (as_buffer (eg_slots e i))\<rparr>),
     eg_trace := eg_trace e @ [Tr_done i status data]\<rparr>"
  have "later e ?e1" by (simp add: later_def)
  then show ?thesis using Ev_transfer later_trans callback_later by (auto simp: deliver_def)
qed (simp add: deliver_def telemetry_callback_later)

lemma fold_deliver_later: "later e (fold deliver evs e)"
proof (induction evs arbitrary: e)
  case (Cons ev evs)
  then show ?case using later_trans [OF deliver_later Cons] by simp
qed simp

lemma pump_later:
  assumes "pump_events w e = (ok, e')"
  shows "later e e'"
proof -
  let ?e1 = "fold deliver (aa_events (w (eg_tick e))) (e\<lparr>eg_tick := Suc (eg_tick e)\<rparr>)"
  have "later e ?e1" using later_tick fold_deliver_later by (rule later_trans)
  then show ?thesis
    using assms later_trans latch_later by (auto simp: pump_events_def ask_def Let_def split: if_splits)
qed

lemma cancel_slot_later: "later e (cancel_slot w i e)"
  by (simp add: cancel_slot_def ask_def later_def)

lemma cancel_slots_later: "later e (fold (cancel_slot w) is e)"
proof (induction "is" arbitrary: e)
  case (Cons i "is")
  then show ?case using later_trans [OF cancel_slot_later Cons] by simp
qed simp

lemma cancel_later: "later e (cancel_in_flight w e)"
proof (cases "eg_cancel_issued e")
  case False
  let ?e1 = "cancel_telemetry w (e\<lparr>eg_cancel_issued := True, eg_tick := Suc (eg_tick e),
    eg_cancel_deadline_ms := aa_now (w (eg_tick e)) + CANCEL_REAP_TIMEOUT_MS, eg_accepting := False\<rparr>)"
  have "later e ?e1" using False by (simp add: later_def cancel_telemetry_def ask_def)
  then have "later e (fold (cancel_slot w) [0..<96] ?e1)" using cancel_slots_later by (rule later_trans)
  then show ?thesis using False by (simp add: cancel_in_flight_def ask_def)
qed (simp add: cancel_in_flight_def)

lemma resubmit_later:
  assumes "resubmit w i e = (res, e')"
  shows "later e e'"
proof -
  let ?e1 = "e\<lparr>eg_tick := Suc (eg_tick e)\<rparr>"
  obtain ok e2 where s: "submit_slot w i ?e1 = (ok, e2)" by fastforce
  have "later e e2" using later_tick submit_later [OF s] by (rule later_trans)
  then show ?thesis using assms s later_tick by (auto simp: resubmit_def ask_def split: if_splits)
qed

lemma retire_later: "later e (retire i e)"
  by (simp add: retire_def Let_def later_def)

lemma consume_block_later:
  assumes "consume_block w i e = (res, e')"
  shows "later e e'"
proof -
  let ?e1 = "e\<lparr>eg_trace := eg_trace e @ [Tr_consume (take (as_actual_length (eg_slots e i)) (as_buffer (eg_slots e i)))],
      eg_tick := Suc (eg_tick e)\<rparr>"
  have l: "later e ?e1" by (simp add: later_def)
  show ?thesis
  proof (cases "aa_consume (w (eg_tick e))")
    case True
    then have "resubmit w i (retire i ?e1) = (res, e')"
      using assms by (simp add: consume_block_def ask_def Let_def)
    then show ?thesis using l retire_later resubmit_later later_trans by meson
  next
    case False
    then have "e' = latch_failure ASYNC_CONSUMER_FAILURE 0 0 (int (as_actual_length (eg_slots e i)))
        (ps_submission_id (eg_policy ?e1 i)) (set_state i SLOT_FAILED ?e1)"
      using assms by (simp add: consume_block_def ask_def Let_def)
    then show ?thesis by (simp add: later_def)
  qed
qed

lemma consume_turn_later:
  assumes "consume_turn w e = (res, e')"
  shows "later e e'"
  using assms later_trans [OF later_tick latch_later] later_trans [OF later_tick consume_block_later] later_tick
  by (auto simp: consume_turn_def ask_def split: if_splits next_state.splits)

lemma consume_ready_later: "consume_ready w e = (r, e') \<Longrightarrow> later e e'"
proof (induction w e rule: consume_ready.induct)
  case (1 w e)
  obtain res e1 where t: "consume_turn w e = (res, e1)" by fastforce
  then show ?case using 1 consume_turn_later [OF t] later_trans
    by (cases res) (auto simp: consume_ready.simps [of w e])
qed

lemma turn_consume_later: "later e (turn_consume w e)"
  using consume_ready_later [of w e] later_trans [OF _ cancel_later]
  by (auto simp: turn_consume_def split: prod.split)

lemma turn_timeout_later: "later e (turn_timeout w now e)"
  using cancel_later [of e w] later_trans [OF latch_later cancel_later] by (auto simp: turn_timeout_def)

lemma turn_pump_later: "later e (turn_pump w running e)"
  using pump_later [of w e] later_trans [OF _ cancel_later] later_trans [OF latch_later cancel_later]
  by (auto simp: turn_pump_def split: prod.split)

lemma cancel_telemetry_later: "later e (cancel_telemetry w e)"
  by (simp add: cancel_telemetry_def ask_def later_def)

lemma turn_stop_later:
  "later e (turn_stop w running now e) \<and> (\<not> running \<longrightarrow> eg_stopping (turn_stop w running now e))"
proof (cases "\<not> running \<and> \<not> eg_stopping e")
  case True
  let ?e1 = "e\<lparr>eg_stopping := True, eg_accepting := False, eg_stop_deadline_ms := now + STOP_DRAIN_TIMEOUT_MS\<rparr>"
  have "later e ?e1" using True by (simp add: later_def)
  moreover note cancel_telemetry_later [of ?e1 w]
  ultimately show ?thesis using True later_trans [of e ?e1] by (simp add: turn_stop_def) (simp add: later_def)
qed (auto simp: turn_stop_def)

lemma maybe_submit_later: "later e (maybe_submit_telemetry w now e)"
proof -
  let ?e1 = "e\<lparr>eg_telemetry_due_ms := now + TELEMETRY_INTERVAL_MS, eg_telemetry_cancel_requested := False,
    eg_tick := Suc (eg_tick e)\<rparr>"
  have "later e ?e1" "later e (?e1\<lparr>eg_telemetry_in_flight := True\<rparr>)" by (simp_all add: later_def)
  then show ?thesis
    using later_trans [of e ?e1] note_failure_later [of ?e1]
    by (simp add: maybe_submit_telemetry_def ask_def Let_def)
qed

lemma turn_begin_later:
  "later (e\<lparr>eg_tick := Suc (Suc (eg_tick e))\<rparr>) (turn_begin w e) \<and>
   (\<not> aa_running (w (eg_tick e)) \<longrightarrow> eg_stopping (turn_begin w e))"
proof -
  let ?e2 = "e\<lparr>eg_tick := Suc (Suc (eg_tick e))\<rparr>"
  let ?e3 = "turn_stop w (aa_running (w (eg_tick e))) (aa_now (w (Suc (eg_tick e)))) ?e2"
  note s = turn_stop_later [of ?e2 w "aa_running (w (eg_tick e))" "aa_now (w (Suc (eg_tick e)))"]
  show ?thesis
  proof (cases "aa_running (w (eg_tick e))")
    case True
    then show ?thesis
      using later_trans [OF conjunct1 [OF s] maybe_submit_later] by (simp add: turn_begin_def Let_def)
  next
    case False
    then show ?thesis using s by (simp add: turn_begin_def Let_def)
  qed
qed

lemma turn_body_later: "later (turn_begin w e) (turn_body w e)"
  unfolding turn_body_begin using turn_consume_later turn_timeout_later by (rule later_trans)

section \<open>A drained queue ends the loop\<close>

definition used_ok :: "async_engine \<Rightarrow> bool" where
  "used_ok e = (eg_failed e \<or> (\<forall>i<96. ps_state (eg_policy e i) \<noteq> SLOT_UNUSED))"

lemma used_later: "used_ok e \<Longrightarrow> later e e' \<Longrightarrow> used_ok e'"
  by (auto simp: used_ok_def later_def)

lemma waits_in_flight:
  assumes q: "queue_ok e" "\<not> eg_failed e" "used_ok e" "submissions e < 2 ^ 64"
    and pk: "order_policy_peek (eg_order e) (eg_policy e) = NEXT_WAIT"
  shows "eg_in_flight e \<noteq> 0"
proof
  assume none: "eg_in_flight e = 0"
  let ?c = "length (delivered (eg_trace e))"
  let ?i = "unat (of_nat ?c mod 96 :: u64)"
  have fl: "flow_ok e" using q(1,2) by (simp add: queue_ok_def)
  then have ord: "eg_order e = \<lparr>op_next_consume_id = of_nat ?c, op_slot_count = 96\<rparr>" "?c \<le> submissions e"
    by (simp_all add: flow_ok_def Let_def)
  have i: "?i < 96" by (simp add: unat_mod)
  have st: "ps_submission_id (eg_policy e ?i) = of_nat ?c" "ps_state (eg_policy e ?i) \<noteq> SLOT_COMPLETE"
    using pk by (auto simp: order_policy_peek_def ord Let_def split: if_splits)
  have "slot_ok e ?i" using fl i by (simp add: flow_ok_def Let_def)
  moreover have "?i \<notin> submitted_slots e"
    using fl none by (simp add: flow_ok_def Let_def submitted_slots_def)
  moreover have "ps_state (eg_policy e ?i) \<noteq> SLOT_UNUSED" using q(2,3) i by (simp add: used_ok_def)
  ultimately have "passed (eg_trace e) (of_nat ?c)"
    using i st by (auto simp: slot_ok_def Let_def submitted_slots_def split: slot_state.splits)
  then obtain k where k: "k < ?c" "(of_nat ?c :: u64) = of_nat k" by (auto simp: passed_def)
  have "?c = k" using k ord(2) q(4) by (intro small_id) simp_all
  then show False using k(1) by simp
qed

lemma consume_ready_drains:
  "queue_ok e \<Longrightarrow> \<not> eg_failed e \<Longrightarrow> used_ok e \<Longrightarrow> consume_ready w e = (True, e') \<Longrightarrow>
   submissions e' < 2 ^ 64 \<Longrightarrow> (\<And>t. eg_tick e \<le> t \<Longrightarrow> \<not> aa_running (w t)) \<Longrightarrow> eg_in_flight e' = 0 \<Longrightarrow>
   drained False e'"
proof (induction w e rule: consume_ready.induct)
  case (1 w e)
  obtain res e1 where t: "consume_turn w e = (res, e1)" by fastforce
  show ?case
  proof (cases res)
    case None
    then have c: "consume_ready w e1 = (True, e')" using 1(5) t by (simp add: consume_ready.simps [of w e])
    then have sm: "submissions e1 < 2 ^ 64" using consume_count 1(6) by fastforce
    have l: "later e e1" using consume_turn_later [OF t] .
    have q: "queue_ok e1" "\<not> eg_failed e1" using consume_turn_ok [OF 1(2,3) t sm] None by auto
    have "\<And>t. eg_tick e1 \<le> t \<Longrightarrow> \<not> aa_running (w t)" using 1(7) l by (simp add: later_def)
    then show ?thesis
      using 1(1) [OF t [symmetric] None] q used_later [OF 1(4) l] c 1(6,8) t None by simp
  next
    case (Some b)
    then have e1: "b" "e1 = e'" using 1(5) t by (simp_all add: consume_ready.simps [of w e])
    have run: "\<not> aa_running (w (eg_tick e))" using 1(7) by simp
    let ?e1 = "e\<lparr>eg_tick := Suc (eg_tick e)\<rparr>"
    have blk: "fst (consume_block w i q) \<noteq> Some True" for i q
      unfolding consume_block_def resubmit_def ask_def Let_def by (auto split: prod.split)
    have e': "e' = ?e1" and d: "drained False ?e1 \<or> order_policy_peek (eg_order e) (eg_policy e) = NEXT_WAIT"
      using t Some e1 run blk by (auto simp: consume_turn_def ask_def split: if_splits next_state.splits)
         (metis fst_conv)+
    show ?thesis
    proof (cases "drained False ?e1")
      case False
      then have "order_policy_peek (eg_order e) (eg_policy e) = NEXT_WAIT" using d by blast
      then have "eg_in_flight e \<noteq> 0" using waits_in_flight 1(2-4) 1(6) e' by simp
      then show ?thesis using 1(8) e' by simp
    qed (simp add: e')
  qed
qed

section \<open>Every turn makes progress\<close>

lemma turn_body_failed:
  assumes "eg_failed (turn_body w e)"
  shows "eg_cancel_issued (turn_body w e)"
proof (rule ccontr)
  let ?q = "turn_consume w (turn_begin w e)"
  assume n: "\<not> eg_cancel_issued (turn_body w e)"
  then have "\<not> eg_failed ?q" using cancel_failed [of ?q w] by (auto simp: turn_body_begin turn_timeout_def)
  then show False
    using assms n cancel_failed by (auto simp: turn_body_begin turn_timeout_def split: if_splits)
qed

lemma turn_tick:
  assumes "async_turn w e = (False, e')"
  shows "eg_tick e < eg_tick e' \<and> later e e'"
proof -
  let ?b = "turn_body w e"
  have e': "e' = turn_pump w (aa_running (w (eg_tick e))) ?b"
    using assms by (auto simp: async_turn_body split: if_splits)
  have "later (e\<lparr>eg_tick := Suc (Suc (eg_tick e))\<rparr>) e'"
    unfolding e' using turn_begin_later [of e w] turn_body_later [of w e] turn_pump_later later_trans by meson
  then show ?thesis by (simp add: later_def)
qed

text \<open>Past the drain deadline a turn leaves the loop or makes the engine fail.\<close>

lemma stop_turn:
  assumes q: "queue_ok e" "used_ok e" and t: "async_turn w e = (False, e')" "submissions e' < 2 ^ 64"
    and stop: "eg_stopping e" "eg_stop_deadline_ms e \<le> aa_now (w (Suc (eg_tick e)))"
    and off: "\<And>t. eg_tick e \<le> t \<Longrightarrow> \<not> aa_running (w t)"
  shows "eg_failed e' \<and> eg_cancel_issued e'"
proof -
  let ?b = "turn_body w e" and ?g = "turn_begin w e" and ?now = "aa_now (w (Suc (eg_tick e)))"
  let ?c = "turn_consume w ?g"
  have run: "\<not> aa_running (w (eg_tick e))" using off by simp
  have ends: "\<not> turn_ends False ?now ?b" and e': "e' = turn_pump w False ?b"
    using t(1) run by (auto simp: async_turn_body split: if_splits)
  have l: "later (e\<lparr>eg_tick := Suc (Suc (eg_tick e))\<rparr>) ?g" using turn_begin_later by blast
  have g: "eg_stopping ?g" "eg_stop_deadline_ms ?g = eg_stop_deadline_ms e"
    using l stop(1) by (simp_all add: later_def)
  have c: "eg_stopping ?c" "eg_stop_deadline_ms ?c = eg_stop_deadline_ms e"
    using turn_consume_later [of ?g w] g by (simp_all add: later_def)
  have sb: "submissions ?b < 2 ^ 64" using turn_pump_count [of ?b w False] t(2) e' by simp
  have "eg_failed ?b"
  proof (rule ccontr)
    assume nf: "\<not> eg_failed ?b"
    then have nc: "\<not> eg_failed ?c" and tot: "total_in_flight ?c = 0" and bc: "?b = ?c"
      using cancel_failed c stop(2) by (auto simp: turn_body_begin turn_timeout_def split: if_splits)
    have ng: "\<not> eg_failed ?g" using nc turn_consume_later [of ?g w] by (auto simp: later_def)
    have qg: "queue_ok ?g" using q(1) same_flow_queue [OF turn_begin_same] by blast
    have "later e (e\<lparr>eg_tick := Suc (Suc (eg_tick e))\<rparr>)" by (simp add: later_def)
    then have ug: "used_ok ?g" using used_later [OF q(2)] later_trans [OF _ l] by blast
    obtain r e1 where cr: "consume_ready w ?g = (r, e1)" by fastforce
    have r: r and e1: "?c = e1"
      using cr nc ng consume_ready_ok [OF qg ng cr] sb bc cancel_failed [of e1 w]
      by (auto simp: turn_consume_def split: if_splits)
    have "\<not> aa_running (w t)" if "eg_tick ?g \<le> t" for t
      using off that l by (simp add: later_def)
    then have "drained False e1"
      using consume_ready_drains [OF qg ng ug, of w e1] cr r e1 sb bc tot by (simp add: total_in_flight_def)
    then have "turn_ends False ?now ?b"
      using nf bc e1 tot by (simp add: turn_ends_def total_in_flight_def split: if_splits)
    then show False using ends by contradiction
  qed
  moreover from this have "eg_cancel_issued ?b" by (rule turn_body_failed)
  ultimately show ?thesis
    using turn_pump_later [of ?b w False] unfolding e' by (simp add: later_def)
qed

text \<open>Past the reap deadline a turn of a failed engine leaves the loop.\<close>

lemma reap_turn:
  assumes "eg_failed e" "eg_cancel_issued e" "eg_cancel_deadline_ms e \<le> aa_now (w (Suc (eg_tick e)))"
  shows "fst (async_turn w e)"
proof -
  let ?b = "turn_body w e"
  have "later e (e\<lparr>eg_tick := Suc (Suc (eg_tick e))\<rparr>)" by (simp add: later_def)
  then have "later e ?b"
    using turn_begin_later [of e w] turn_body_later [of w e] later_trans by meson
  then have "eg_failed ?b" "eg_cancel_issued ?b" "eg_cancel_deadline_ms ?b = eg_cancel_deadline_ms e"
    using assms by (simp_all add: later_def)
  then show ?thesis
    using assms(3) by (simp add: async_turn_body turn_ends_def policy_reap_action_def)
qed

lemma async_turns_Suc:
  "async_turns w (Suc n) e =
     (case async_turns w n e of (ended, e1) \<Rightarrow> if ended then (True, e1) else async_turn w e1)"
proof (induction n arbitrary: e)
  case 0
  then show ?case by (simp split: prod.split)
next
  case (Suc n)
  obtain d e1 where t: "async_turn w e = (d, e1)" by fastforce
  have "async_turns w (Suc (Suc n)) e = (if d then (True, e1) else async_turns w (Suc n) e1)"
    by (simp only: async_turns.simps(2) [of w "Suc n"] t prod.case)
  moreover have "async_turns w (Suc n) e = (if d then (True, e1) else async_turns w n e1)"
    by (simp add: t)
  ultimately show ?case using Suc [of e1] by simp
qed

lemma turns_end:
  assumes q: "queue_ok e" "used_ok e"
    and off: "\<And>t. T \<le> t \<Longrightarrow> \<not> aa_running (w t)"
    and clock: "\<And>s t. s \<le> t \<Longrightarrow> aa_now (w s) \<le> aa_now (w t)" "\<And>x. \<exists>t. x \<le> aa_now (w t)"
  shows "\<exists>n. fst (async_turns w n e) \<or> 2 ^ 64 \<le> submissions (snd (async_turns w n e))"
proof (rule ccontr)
  assume never: "\<nexists>n. fst (async_turns w n e) \<or> 2 ^ 64 \<le> submissions (snd (async_turns w n e))"
  define s where "s n = snd (async_turns w n e)" for n
  have turns: "async_turns w n e = (False, s n)" and small: "submissions (s n) < 2 ^ 64" for n
    using never by (auto simp: s_def prod_eq_iff not_le)
  have step: "async_turn w (s n) = (False, s (Suc n))" for n
    using async_turns_Suc [of w n e] turns [of n] turns [of "Suc n"] by simp
  have ok: "queue_ok (s n)" for n
    using async_turns_ok [OF q(1) turns small] by blast
  have later: "later (s m) (s (m + k))" for m k
  proof (induction k)
    case (Suc k)
    then show ?case using turn_tick [OF step] later_trans by (metis add_Suc_right)
  qed simp
  then have later': "later (s m) (s n)" if "m \<le> n" for m n using le_Suc_ex [OF that] by blast
  have s0: "s 0 = e" by (simp add: s_def)
  have used: "used_ok (s n)" for n using used_later [OF q(2)] later' [of 0 n] by (simp add: s0)
  have tick: "n \<le> eg_tick (s n)" for n
  proof (induction n)
    case (Suc n)
    then show ?case using turn_tick [OF step, of n] by simp
  qed simp
  have now: "aa_now (w t) \<le> aa_now (w (Suc (eg_tick (s n))))" if "t \<le> n" for t n
    using clock(1) tick [of n] that by simp
  have quiet: "\<not> aa_running (w t)" if "T \<le> n" "eg_tick (s n) \<le> t" for n t
    using off tick [of n] that by simp
  have "eg_stopping (turn_begin w (s T))" using turn_begin_later quiet [of T "eg_tick (s T)"] by blast
  then have stopping: "eg_stopping (s (Suc T))"
    using turn_body_later [of w "s T"] turn_pump_later [of "turn_body w (s T)" w "aa_running (w (eg_tick (s T)))"]
      step [of T] by (auto simp: async_turn_body later_def split: if_splits)
  obtain t1 where t1: "eg_stop_deadline_ms (s (Suc T)) \<le> aa_now (w t1)" using clock(2) by blast
  define n1 where "n1 = max (Suc T) t1"
  have "eg_stopping (s n1)" "eg_stop_deadline_ms (s n1) = eg_stop_deadline_ms (s (Suc T))"
    using stopping later' [of "Suc T" n1] by (simp_all add: n1_def later_def)
  then have failed: "eg_failed (s (Suc n1)) \<and> eg_cancel_issued (s (Suc n1))"
    using stop_turn [OF ok used step small, of n1] t1 now [of t1 n1] quiet [of n1] by (simp add: n1_def)
  obtain t2 where t2: "eg_cancel_deadline_ms (s (Suc n1)) \<le> aa_now (w t2)" using clock(2) by blast
  define n2 where "n2 = max (Suc n1) t2"
  have "eg_failed (s n2)" "eg_cancel_issued (s n2)" "eg_cancel_deadline_ms (s n2) = eg_cancel_deadline_ms (s (Suc n1))"
    using failed later' [of "Suc n1" n2] by (simp_all add: n2_def later_def)
  then have "fst (async_turn w (s n2))"
    using reap_turn t2 now [of t2 n2] by (simp add: n2_def)
  then show False by (simp add: step)
qed

text \<open>When every transfer has completed at the start of a turn that still sees the running flag
  on, and the flag goes off before the blocks are resubmitted, all blocks are delivered but the
  turn reports an order failure: the flag was read again for the resubmission, not for the
  test of an empty queue.\<close>

lemma stop_race:
  assumes "aa_running (w (eg_tick e))" "queue_ok (turn_body w e)" "\<not> eg_failed (turn_body w e)"
    and "eg_in_flight (turn_body w e) = 0"
  shows "\<exists>e'. async_turn w e = (False, e') \<and> eg_failed e' \<and>
    aq_code (eg_result e') = ASYNC_ORDER_FAILURE"
proof -
  let ?b = "turn_body w e"
  let ?l = "latch_failure ASYNC_ORDER_FAILURE 0 0 0 (op_next_consume_id (eg_order ?b)) ?b"
  have "\<not> turn_ends True (aa_now (w (Suc (eg_tick e)))) ?b"
    using assms(2,3) by (auto simp: turn_ends_def drained_def policy_stop_drain_complete_def
        policy_reap_action_def queue_ok_def flow_ok_def Let_def)
  then have "async_turn w e = (False, cancel_in_flight w ?l)"
    using assms by (simp add: async_turn_body turn_pump_def)
  moreover have "aq_code (eg_result ?l) = ASYNC_ORDER_FAILURE"
    using assms(3) by (simp add: latch_failure_def signal_failure_def)
  ultimately show ?thesis using cancel_failed [of ?l w] by simp
qed

section \<open>Properties\<close>

text \<open>C32: Once the running flag is off for good and as long as the clock goes on, a run ends,
  whatever libusb and the consumer answer (unless it has made 2 to the 64 submissions): the
  transfers are drained, or cancelled and reaped, or handed to the caller as an orphan.\<close>

theorem stop_is_bounded:
  assumes "\<And>t. T \<le> t \<Longrightarrow> \<not> aa_running (w t)"
    and "\<And>s t. s \<le> t \<Longrightarrow> aa_now (w s) \<le> aa_now (w t)"
    and "\<And>x. \<exists>t. x \<le> aa_now (w t)"
  shows "\<exists>n. (case gui_ddd_async_run w telemetry m n of
      Some (rc, orphan, e) \<Rightarrow> orphan = engine_has_pending e
    | None \<Rightarrow> 2 ^ 64 \<le> uv_count (usb_view (eg_trace (snd (async_turns w n
        (async_start w (snd (async_allocate m (new_engine telemetry)))))))))"
proof -
  obtain allocated e0 where a: "async_allocate m (new_engine telemetry) = (allocated, e0)" by fastforce
  let ?s = "async_start w e0"
  have fin: "case async_finish e of (rc, orphan, e') \<Rightarrow> orphan = engine_has_pending e'" for e
    by (simp add: async_finish_def Let_def engine_has_pending_def)
  show ?thesis
  proof (cases allocated)
    case False
    then show ?thesis using fin [of e0] a by (simp add: gui_ddd_async_run_def)
  next
    case True
    have e0: "queue_ok e0" "same_flow (new_engine telemetry) e0"
      using allocate_ok [OF a new_engine_ok] True by auto
    then have "queue_ok ?s \<and> used_ok ?s"
      using async_start_ok [OF e0(1), of w] by (auto simp: same_flow_def new_engine_def used_ok_def)
    then obtain n where "fst (async_turns w n ?s) \<or> 2 ^ 64 \<le> submissions (snd (async_turns w n ?s))"
      using turns_end [of ?s T w] assms by blast
    then show ?thesis
      using a True fin by (intro exI [of _ n]) (auto simp: gui_ddd_async_run_def split: prod.split)
  qed
qed

lemma stop_is_bounded_witness:
  "\<exists>n. (case gui_ddd_async_run (\<lambda>t. \<lparr>aa_running = t < 1000, aa_now = t, aa_rc = 0, aa_consume = True,
      aa_events = []\<rparr>) True \<lparr>am_pool = True, am_transfers = 96, am_telemetry = True\<rparr> n of
      Some (rc, orphan, e) \<Rightarrow> orphan = engine_has_pending e
    | None \<Rightarrow> 2 ^ 64 \<le> uv_count (usb_view (eg_trace (snd (async_turns (\<lambda>t. \<lparr>aa_running = t < 1000,
        aa_now = t, aa_rc = 0, aa_consume = True, aa_events = []\<rparr>) n
        (async_start (\<lambda>t. \<lparr>aa_running = t < 1000, aa_now = t, aa_rc = 0, aa_consume = True,
          aa_events = []\<rparr>) (snd (async_allocate \<lparr>am_pool = True, am_transfers = 96, am_telemetry = True\<rparr>
            (new_engine True)))))))))"
  by (rule stop_is_bounded [where T = 1000]) auto

end
