(* ===== verification/Monitor_Framebox.thy ===== *)
theory Monitor_Framebox
  imports Prelude
begin

text \<open>
  The latest-frame slot between the preview workers and the video server
  (misrc\_gui/net/gui\_monitor\_video\_framebox.c): one producer publishes images, one consumer
  takes snapshots, and an atomic flag that neither ever waits for guards the pixels.  The calls
  are first modelled as they are written, then as atomic steps of two threads.  The acquire
  and release accesses to the flag make the guarded accesses sequential.
\<close>

section \<open>The box\<close>

definition MVD_MAX_WIDTH :: u32 where "MVD_MAX_WIDTH = 1920"
definition MVD_MAX_HEIGHT :: u32 where "MVD_MAX_HEIGHT = 1080"

record frame_info =
  fi_width :: u32
  fi_height :: u32
  fi_channels :: u32
  fi_generation :: u64
  fi_timestamp_us :: u64

record framebox =
  fb_busy :: bool
  fb_published :: u64
  fb_dropped :: u64
  fb_pixels :: bytes
  fb_capacity :: u64
  fb_max_width :: u32
  fb_max_height :: u32
  fb_latest :: frame_info

definition image_bytes :: "u32 \<Rightarrow> u32 \<Rightarrow> u32 \<Rightarrow> u64 option" where
  "image_bytes width height channels =
     (if width = 0 \<or> height = 0 \<or> MVD_MAX_WIDTH < width \<or> MVD_MAX_HEIGHT < height \<or>
         channels \<noteq> 3 \<and> channels \<noteq> 4 then None
      else if - 1 div ucast channels < (ucast width :: u64) then None
      else let row = ucast width * ucast channels :: u64 in
        if - 1 div row < ucast height then None else Some (row * ucast height))"

text \<open>The memory a malloc returns is arbitrary.\<close>

definition gui_monitor_video_framebox_create :: "(nat \<Rightarrow> u8) option \<Rightarrow> u32 \<Rightarrow> u32 \<Rightarrow> framebox option" where
  "gui_monitor_video_framebox_create memory width height =
     (case image_bytes width height 4 of
        None \<Rightarrow> None
      | Some needed \<Rightarrow>
          (case memory of
             None \<Rightarrow> None
           | Some garbage \<Rightarrow>
               Some \<lparr>fb_busy = False, fb_published = 0, fb_dropped = 0,
                     fb_pixels = map garbage [0..<unat needed], fb_capacity = needed,
                     fb_max_width = width, fb_max_height = height,
                     fb_latest = \<lparr>fi_width = 0, fi_height = 0, fi_channels = 0, fi_generation = 0,
                                  fi_timestamp_us = 0\<rparr>\<rparr>))"

text \<open>The arguments of a call of publish; the buffer of the caller is as long as it says.\<close>

record publish_request =
  rq_pixels :: bytes
  rq_stride :: u64
  rq_width :: u32
  rq_height :: u32
  rq_channels :: u32
  rq_timestamp_us :: u64

definition rq_row :: "publish_request \<Rightarrow> u64" where
  "rq_row q = ucast (rq_width q) * ucast (rq_channels q)"

definition publish_allowed :: "framebox \<Rightarrow> publish_request \<Rightarrow> bool" where
  "publish_allowed box q =
     (case image_bytes (rq_width q) (rq_height q) (rq_channels q) of
        None \<Rightarrow> False
      | Some n \<Rightarrow>
          \<not> (fb_max_width box < rq_width q \<or> fb_max_height box < rq_height q) \<and>
          (let row = rq_row q; last_row = ucast (rq_height q - 1) :: u64 in
           \<not> (rq_stride q < row \<or> (- 1 - row) div rq_stride q < last_row \<or>
               of_nat (length (rq_pixels q)) < last_row * rq_stride q + row \<or>
               fb_capacity box < n)))"

text \<open>memcpy into the box, of the part of row y of the source.\<close>

definition store_at :: "nat \<Rightarrow> bytes \<Rightarrow> bytes \<Rightarrow> bytes" where
  "store_at off bs mem = take off mem @ bs @ drop (off + length bs) mem"

definition rq_line :: "publish_request \<Rightarrow> nat \<Rightarrow> bytes" where
  "rq_line q y = take (unat (rq_row q)) (drop (y * unat (rq_stride q)) (rq_pixels q))"

definition copy_row :: "publish_request \<Rightarrow> nat \<Rightarrow> framebox \<Rightarrow> framebox" where
  "copy_row q y box = box\<lparr>fb_pixels := store_at (y * unat (rq_row q)) (rq_line q y) (fb_pixels box)\<rparr>"

definition set_latest :: "publish_request \<Rightarrow> framebox \<Rightarrow> framebox" where
  "set_latest q box =
     box\<lparr>fb_latest := \<lparr>fi_width = rq_width q, fi_height = rq_height q, fi_channels = rq_channels q,
            fi_generation = fi_generation (fb_latest box) + 1, fi_timestamp_us = rq_timestamp_us q\<rparr>,
         fb_published := fb_published box + 1\<rparr>"

definition gui_monitor_video_framebox_publish :: "publish_request \<Rightarrow> framebox \<Rightarrow> bool \<times> framebox" where
  "gui_monitor_video_framebox_publish q box =
     (if \<not> publish_allowed box q then (False, box)
      else if fb_busy box then (False, box\<lparr>fb_dropped := fb_dropped box + 1\<rparr>)
      else (True, (set_latest q (fold (copy_row q) [0..<unat (rq_height q)]
                     (box\<lparr>fb_busy := True\<rparr>)))\<lparr>fb_busy := False\<rparr>))"

definition latest_bytes :: "frame_info \<Rightarrow> u64" where
  "latest_bytes l = ucast (fi_width l) * ucast (fi_height l) * ucast (fi_channels l)"

definition take_allowed :: "u64 \<Rightarrow> u64 \<Rightarrow> frame_info \<Rightarrow> bool" where
  "take_allowed capacity generation l =
     (fi_generation l \<noteq> 0 \<and> fi_generation l \<noteq> generation \<and> latest_bytes l \<le> capacity)"

definition gui_monitor_video_framebox_take ::
  "u64 \<Rightarrow> u64 \<Rightarrow> framebox \<Rightarrow> (frame_info \<times> bytes) option" where
  "gui_monitor_video_framebox_take capacity generation box =
     (if fb_busy box then None
      else let l = fb_latest box in
        if take_allowed capacity generation l
        then Some (l, take (unat (latest_bytes l)) (fb_pixels box)) else None)"

text \<open>The sinks of the preview workers: tightly packed images of 3 or 4 channels.\<close>

definition framebox_sink :: "bytes \<Rightarrow> u32 \<Rightarrow> u32 \<Rightarrow> u32 \<Rightarrow> u64 \<Rightarrow> framebox \<Rightarrow> framebox" where
  "framebox_sink pixels width height channels timestamp box =
     (case image_bytes width height channels of
        None \<Rightarrow> box
      | Some n \<Rightarrow>
          snd (gui_monitor_video_framebox_publish
            \<lparr>rq_pixels = take (unat n) pixels, rq_stride = ucast width * ucast channels,
             rq_width = width, rq_height = height, rq_channels = channels,
             rq_timestamp_us = timestamp\<rparr> box))"

definition gui_monitor_video_framebox_cvbs_sink :: "bytes \<Rightarrow> u32 \<Rightarrow> u32 \<Rightarrow> u64 \<Rightarrow> framebox \<Rightarrow> framebox" where
  "gui_monitor_video_framebox_cvbs_sink rgb width height timestamp box =
     framebox_sink rgb width height 3 timestamp box"

definition gui_monitor_video_framebox_rf_sink :: "bytes \<Rightarrow> u32 \<Rightarrow> u32 \<Rightarrow> u64 \<Rightarrow> framebox \<Rightarrow> framebox" where
  "gui_monitor_video_framebox_rf_sink rgba width height timestamp box =
     framebox_sink rgba width height 4 timestamp box"

section \<open>Two threads\<close>

datatype producer = P_idle | P_copy publish_request nat | P_latest publish_request | P_clear

datatype consumer = C_idle | C_copy frame_info bytes | C_clear

text \<open>The system, with the generation of the consumer and, for the statement, the frames that
  were published and taken.\<close>

record box_system =
  bx_box :: framebox
  bx_producer :: producer
  bx_consumer :: consumer
  bx_generation :: u64
  bx_published :: "(frame_info \<times> bytes) list"
  bx_taken :: "(frame_info \<times> bytes) list"

definition frame_image :: "publish_request \<Rightarrow> bytes" where
  "frame_image q = concat (map (rq_line q) [0..<unat (rq_height q)])"

datatype thread_act = Act_publish publish_request | Act_produce | Act_take u64 | Act_consume

text \<open>A call begins with its tests and the access to the flag; then each memcpy of a row, the
  update of the frame information, every byte of the memcpy of a snapshot, and the release
  of the flag are steps of their own.\<close>

fun box_act :: "thread_act \<Rightarrow> box_system \<Rightarrow> box_system" where
  "box_act (Act_publish q) s =
     (if bx_producer s \<noteq> P_idle \<or> 2 ^ 64 \<le> length (rq_pixels q) \<or> \<not> publish_allowed (bx_box s) q then s
      else if fb_busy (bx_box s)
      then s\<lparr>bx_box := (bx_box s)\<lparr>fb_dropped := fb_dropped (bx_box s) + 1\<rparr>\<rparr>
      else s\<lparr>bx_box := (bx_box s)\<lparr>fb_busy := True\<rparr>, bx_producer := P_copy q 0\<rparr>)"
| "box_act Act_produce s =
     (case bx_producer s of
        P_idle \<Rightarrow> s
      | P_copy q y \<Rightarrow>
          if y < unat (rq_height q)
          then s\<lparr>bx_box := copy_row q y (bx_box s), bx_producer := P_copy q (Suc y)\<rparr>
          else s\<lparr>bx_producer := P_latest q\<rparr>
      | P_latest q \<Rightarrow>
          let b = set_latest q (bx_box s) in
          s\<lparr>bx_box := b, bx_producer := P_clear, bx_published := bx_published s @ [(fb_latest b, frame_image q)]\<rparr>
      | P_clear \<Rightarrow> s\<lparr>bx_box := (bx_box s)\<lparr>fb_busy := False\<rparr>, bx_producer := P_idle\<rparr>)"
| "box_act (Act_take capacity) s =
     (if bx_consumer s \<noteq> C_idle \<or> fb_busy (bx_box s) then s
      else let l = fb_latest (bx_box s); s1 = s\<lparr>bx_box := (bx_box s)\<lparr>fb_busy := True\<rparr>\<rparr> in
        if take_allowed capacity (bx_generation s) l then s1\<lparr>bx_consumer := C_copy l []\<rparr>
        else s1\<lparr>bx_consumer := C_clear\<rparr>)"
| "box_act Act_consume s =
     (case bx_consumer s of
        C_idle \<Rightarrow> s
      | C_copy l out \<Rightarrow>
          if length out < unat (latest_bytes l)
          then s\<lparr>bx_consumer := C_copy l (out @ [fb_pixels (bx_box s) ! length out])\<rparr>
          else s\<lparr>bx_consumer := C_clear, bx_generation := fi_generation l, bx_taken := bx_taken s @ [(l, out)]\<rparr>
      | C_clear \<Rightarrow> s\<lparr>bx_box := (bx_box s)\<lparr>fb_busy := False\<rparr>, bx_consumer := C_idle\<rparr>)"

definition box_start :: "framebox \<Rightarrow> box_system" where
  "box_start box = \<lparr>bx_box = box, bx_producer = P_idle, bx_consumer = C_idle, bx_generation = 0,
     bx_published = [], bx_taken = []\<rparr>"

section \<open>Sizes\<close>

lemma unat_up [simp]: "unat (ucast (w :: u32) :: u64) = unat w"
proof -
  have "unat w < 2 ^ 32" using unsigned_less [where 'a = nat, of w] by simp
  then show ?thesis by (simp add: unsigned_ucast_eq take_bit_nat_eq_self)
qed

lemma image_bytes_nat:
  assumes "image_bytes w h c = Some n"
  shows "unat n = unat w * unat c * unat h \<and> unat (ucast w * ucast c :: u64) = unat w * unat c \<and>
    0 < unat w \<and> 0 < unat h \<and> unat w \<le> 1920 \<and> unat h \<le> 1080 \<and> unat c \<in> {3, 4} \<and>
    latest_bytes \<lparr>fi_width = w, fi_height = h, fi_channels = c, fi_generation = g, fi_timestamp_us = t\<rparr> = n"
proof -
  have d: "0 < unat w" "0 < unat h" "unat w \<le> 1920" "unat h \<le> 1080" "unat c = 3 \<or> unat c = 4"
    and n: "n = ucast w * ucast c * ucast h"
    using assms by (auto simp: image_bytes_def MVD_MAX_WIDTH_def MVD_MAX_HEIGHT_def Let_def not_less word_le_nat_alt
        unat_gt_0 split: if_splits)
  have "unat w * unat c \<le> 1920 * 4" using d by (intro mult_le_mono) auto
  then have row: "unat (ucast w * ucast c :: u64) = unat w * unat c"
    by (subst unat_mult_lem [THEN iffD1]) simp_all
  have "unat w * unat c * unat h \<le> 1920 * 4 * 1080"
    using \<open>unat w * unat c \<le> 1920 * 4\<close> d(4) by (rule mult_le_mono)
  then have "unat n = unat w * unat c * unat h"
    unfolding n by (subst unat_mult_lem [THEN iffD1]) (simp_all add: row)
  moreover have "n = ucast w * ucast h * ucast c" unfolding n by (simp add: ac_simps)
  ultimately show ?thesis using d row by (simp add: latest_bytes_def)
qed

text \<open>What the tests of a publish call ensure: every row lies in the source and the image fits.\<close>

lemma publish_allowed_nat:
  assumes "publish_allowed box q" "length (rq_pixels q) < 2 ^ 64"
  shows "unat (rq_row q) = unat (rq_width q) * unat (rq_channels q)"
    "unat (rq_height q) * unat (rq_row q) \<le> unat (fb_capacity box)"
    "y < unat (rq_height q) \<Longrightarrow> length (rq_line q y) = unat (rq_row q)"
proof -
  obtain n where n: "image_bytes (rq_width q) (rq_height q) (rq_channels q) = Some n"
    and t: "rq_row q \<le> rq_stride q" "ucast (rq_height q - 1) \<le> (- 1 - rq_row q) div rq_stride q"
      "ucast (rq_height q - 1) * rq_stride q + rq_row q \<le> of_nat (length (rq_pixels q))" "n \<le> fb_capacity box"
    using assms(1) by (auto simp: publish_allowed_def Let_def not_less split: option.splits)
  note i = image_bytes_nat [OF n]
  show row: "unat (rq_row q) = unat (rq_width q) * unat (rq_channels q)" using i by (simp add: rq_row_def)
  show "unat (rq_height q) * unat (rq_row q) \<le> unat (fb_capacity box)"
    using i t(4) by (simp add: row word_le_nat_alt ac_simps)
  let ?h1 = "unat (rq_height q) - 1" and ?s = "unat (rq_stride q)" and ?r = "unat (rq_row q)"
  have h1: "unat (rq_height q - 1) = ?h1"
    using i by (subst unat_minus_one) (auto simp: unat_gt_0)
  have "?h1 \<le> (2 ^ 64 - 1 - ?r) div ?s"
  proof -
    have "unat (- 1 - rq_row q) = 2 ^ 64 - 1 - ?r"
      by (subst unat_sub) (simp_all add: unsigned_minus_1_eq_mask mask_eq_exp_minus_1)
    then show ?thesis using t(2) h1 by (simp add: word_le_nat_alt unat_div)
  qed
  then have le: "?h1 * ?s \<le> 2 ^ 64 - 1 - ?r"
    by (meson div_times_less_eq_dividend mult_le_mono1 order_trans)
  have "?r < 2 ^ 64" using unsigned_less [of "rq_row q"] by simp
  have m: "unat (ucast (rq_height q - 1) * rq_stride q) = ?h1 * ?s"
    using le h1 by (subst unat_mult_lem [THEN iffD1]) auto
  have "unat (ucast (rq_height q - 1) * rq_stride q + rq_row q) = ?h1 * ?s + ?r"
    using le m \<open>?r < 2 ^ 64\<close> by (subst unat_add_lem [THEN iffD1]) auto
  then have src: "?h1 * ?s + ?r \<le> length (rq_pixels q)"
    using t(3) assms(2) by (simp add: word_le_nat_alt unat_of_nat_lt)
  assume "y < unat (rq_height q)"
  then have "y * ?s \<le> ?h1 * ?s" by (intro mult_le_mono1) simp
  then have "y * ?s + ?r \<le> length (rq_pixels q)" using src by linarith
  then show "length (rq_line q y) = ?r" by (simp add: rq_line_def)
qed

section \<open>The invariant\<close>

definition latest_ok :: "framebox \<Rightarrow> bool" where
  "latest_ok box =
     (let l = fb_latest box in
      fi_width l \<le> fb_max_width box \<and> fi_height l \<le> fb_max_height box \<and>
      fi_channels l \<le> 4 \<and> latest_bytes l \<le> fb_capacity box)"

definition box_ok :: "framebox \<Rightarrow> bool" where
  "box_ok box = (length (fb_pixels box) = unat (fb_capacity box) \<and> latest_ok box)"

text \<open>The pixels hold the frame that was published last.\<close>

definition settled :: "box_system \<Rightarrow> bool" where
  "settled s = (bx_published s \<noteq> [] \<longrightarrow> last (bx_published s) =
     (fb_latest (bx_box s), take (unat (latest_bytes (fb_latest (bx_box s)))) (fb_pixels (bx_box s))))"

definition threads_ok :: "box_system \<Rightarrow> bool" where
  "threads_ok s =
     (let b = bx_box s; allowed = (\<lambda>q. publish_allowed b q \<and> length (rq_pixels q) < 2 ^ 64) in
      (case bx_producer s of
         P_idle \<Rightarrow> settled s \<and>
           (case bx_consumer s of
              C_idle \<Rightarrow> \<not> fb_busy b
            | C_copy l out \<Rightarrow> fb_busy b \<and> l = fb_latest b \<and> bx_published s \<noteq> [] \<and>
                length out \<le> unat (latest_bytes l) \<and> out = take (length out) (fb_pixels b)
            | C_clear \<Rightarrow> fb_busy b)
       | P_copy q y \<Rightarrow> fb_busy b \<and> bx_consumer s = C_idle \<and> allowed q \<and> y \<le> unat (rq_height q) \<and>
           take (y * unat (rq_row q)) (fb_pixels b) = concat (map (rq_line q) [0..<y])
       | P_latest q \<Rightarrow> fb_busy b \<and> bx_consumer s = C_idle \<and> allowed q \<and>
           take (unat (rq_height q) * unat (rq_row q)) (fb_pixels b) = frame_image q
       | P_clear \<Rightarrow> fb_busy b \<and> bx_consumer s = C_idle \<and> settled s))"

definition frames_ok :: "box_system \<Rightarrow> bool" where
  "frames_ok s =
     (fb_published (bx_box s) = of_nat (length (bx_published s)) \<and>
      fi_generation (fb_latest (bx_box s)) = of_nat (length (bx_published s)) \<and>
      map (\<lambda>f. fi_generation (fst f)) (bx_published s) = map (\<lambda>k. of_nat (Suc k)) [0..<length (bx_published s)] \<and>
      list_all (\<lambda>f. length (snd f) = unat (latest_bytes (fst f))) (bx_published s) \<and>
      set (bx_taken s) \<subseteq> set (bx_published s))"

definition system_ok :: "box_system \<Rightarrow> bool" where
  "system_ok s = (box_ok (bx_box s) \<and> threads_ok s \<and> frames_ok s)"

lemma length_store_at: "off + length bs \<le> length mem \<Longrightarrow> length (store_at off bs mem) = length mem"
  by (simp add: store_at_def)

lemma take_store_at: "off + length bs \<le> length mem \<Longrightarrow> take (off + length bs) (store_at off bs mem) = take off mem @ bs"
  by (simp add: store_at_def)

lemma publish_allowed_cong:
  "fb_max_width b' = fb_max_width b \<Longrightarrow> fb_max_height b' = fb_max_height b \<Longrightarrow> fb_capacity b' = fb_capacity b \<Longrightarrow>
   publish_allowed b' q = publish_allowed b q"
  by (simp only: publish_allowed_def)

lemma created_ok:
  assumes "gui_monitor_video_framebox_create memory w h = Some box"
  shows "system_ok (box_start box)"
proof -
  obtain n g where "image_bytes w h 4 = Some n" "box = \<lparr>fb_busy = False, fb_published = 0, fb_dropped = 0,
      fb_pixels = map g [0..<unat n], fb_capacity = n, fb_max_width = w, fb_max_height = h,
      fb_latest = \<lparr>fi_width = 0, fi_height = 0, fi_channels = 0, fi_generation = 0, fi_timestamp_us = 0\<rparr>\<rparr>"
    using assms by (auto simp: gui_monitor_video_framebox_create_def split: option.splits)
  then show ?thesis
    by (simp add: system_ok_def box_start_def box_ok_def latest_ok_def threads_ok_def settled_def frames_ok_def
        latest_bytes_def Let_def)
qed

subsection \<open>Steps of the producer\<close>

lemma begin_publish_ok:
  assumes "system_ok s"
  shows "system_ok (box_act (Act_publish q) s)"
  using assms
  by (auto simp: system_ok_def box_ok_def latest_ok_def threads_ok_def frames_ok_def settled_def Let_def
      not_le publish_allowed_def split: producer.splits consumer.splits option.splits)

lemma copy_row_ok:
  assumes ok: "system_ok s" and p: "bx_producer s = P_copy q y"
  shows "system_ok (box_act Act_produce s)"
proof (cases "y < unat (rq_height q)")
  case True
  let ?b = "bx_box s" and ?r = "unat (rq_row q)"
  have t: "publish_allowed ?b q" "length (rq_pixels q) < 2 ^ 64" "fb_busy ?b" "bx_consumer s = C_idle"
    "take (y * ?r) (fb_pixels ?b) = concat (map (rq_line q) [0..<y])"
    using ok p by (auto simp: system_ok_def threads_ok_def Let_def)
  have len: "length (rq_line q y) = ?r" using publish_allowed_nat(3) [OF t(1,2) True] .
  have "Suc y * ?r \<le> unat (rq_height q) * ?r" using True by (intro mult_le_mono1) simp
  then have fits: "y * ?r + length (rq_line q y) \<le> length (fb_pixels ?b)"
    using publish_allowed_nat(2) [OF t(1,2)] ok len by (simp add: system_ok_def box_ok_def)
  have pix: "take (Suc y * ?r) (fb_pixels (copy_row q y ?b)) = concat (map (rq_line q) [0..<Suc y])"
    using take_store_at [OF fits] t(5) len by (simp add: copy_row_def add.commute)
  have "length (fb_pixels (copy_row q y ?b)) = length (fb_pixels ?b)"
    using length_store_at [OF fits] by (simp add: copy_row_def)
  then show ?thesis
    using ok p True t pix publish_allowed_cong [of "copy_row q y ?b" ?b q]
    by (simp add: system_ok_def box_ok_def latest_ok_def threads_ok_def frames_ok_def Let_def copy_row_def)
next
  case False
  then show ?thesis
    using ok p by (auto simp: system_ok_def threads_ok_def frames_ok_def frame_image_def Let_def)
qed

lemma set_latest_ok:
  assumes ok: "system_ok s" and p: "bx_producer s = P_latest q"
  shows "system_ok (box_act Act_produce s)"
proof -
  let ?b = "bx_box s" and ?b' = "set_latest q (bx_box s)"
  have t: "publish_allowed ?b q" "length (rq_pixels q) < 2 ^ 64" "fb_busy ?b" "bx_consumer s = C_idle"
    "take (unat (rq_height q) * unat (rq_row q)) (fb_pixels ?b) = frame_image q"
    using ok p by (auto simp: system_ok_def threads_ok_def Let_def)
  obtain n where n: "image_bytes (rq_width q) (rq_height q) (rq_channels q) = Some n" "n \<le> fb_capacity ?b"
    "rq_width q \<le> fb_max_width ?b" "rq_height q \<le> fb_max_height ?b"
    using t(1) by (auto simp: publish_allowed_def Let_def not_less split: option.splits)
  note i = image_bytes_nat [OF n(1)]
  have lb: "latest_bytes (fb_latest ?b') = n" using i by (simp add: set_latest_def)
  have un: "unat n = unat (rq_height q) * unat (rq_row q)"
    using i by (simp add: rq_row_def ac_simps)
  have "unat n \<le> length (fb_pixels ?b)" using n(2) ok by (simp add: system_ok_def box_ok_def word_le_nat_alt)
  then have im: "length (frame_image q) = unat n" using t(5) un by (metis length_take min.absorb2)
  have "unat (rq_channels q) \<in> {3, 4}" using i by blast
  then have "unat (rq_channels q) \<le> 4" by auto
  then have ch: "rq_channels q \<le> 4" by (simp add: word_le_nat_alt)
  have lat: "fb_latest ?b' = \<lparr>fi_width = rq_width q, fi_height = rq_height q, fi_channels = rq_channels q,
      fi_generation = fi_generation (fb_latest ?b) + 1, fi_timestamp_us = rq_timestamp_us q\<rparr>"
    by (simp add: set_latest_def)
  have "box_ok ?b'"
    using ok n ch lb lat by (simp add: system_ok_def box_ok_def latest_ok_def) (simp add: set_latest_def)
  moreover have "take (unat n) (fb_pixels ?b') = frame_image q" using t(5) un by (simp add: set_latest_def)
  ultimately show ?thesis
    using ok p t lb im lat
    by (auto simp: system_ok_def threads_ok_def frames_ok_def settled_def Let_def) (auto simp: set_latest_def)
qed

lemma produce_ok:
  assumes "system_ok s"
  shows "system_ok (box_act Act_produce s)"
proof (cases "bx_producer s")
  case P_idle
  then show ?thesis using assms by simp
next
  case (P_copy q y)
  then show ?thesis by (rule copy_row_ok [OF assms])
next
  case (P_latest q)
  then show ?thesis by (rule set_latest_ok [OF assms])
next
  case P_clear
  then show ?thesis using assms
    by (auto simp: system_ok_def box_ok_def latest_ok_def threads_ok_def frames_ok_def settled_def Let_def)
qed

subsection \<open>Steps of the consumer\<close>

lemma begin_take_ok:
  assumes "system_ok s"
  shows "system_ok (box_act (Act_take capacity) s)"
  using assms
  by (auto simp: system_ok_def box_ok_def latest_ok_def threads_ok_def frames_ok_def settled_def take_allowed_def
      Let_def split: producer.splits consumer.splits)

lemma consume_ok:
  assumes ok: "system_ok s"
  shows "system_ok (box_act Act_consume s)"
proof (cases "bx_consumer s")
  case (C_copy l out)
  let ?b = "bx_box s"
  have pr: "bx_producer s = P_idle" using ok C_copy by (auto simp: system_ok_def threads_ok_def Let_def split: producer.splits)
  have t: "settled s" "fb_busy ?b" "l = fb_latest ?b" "bx_published s \<noteq> []"
    "length out \<le> unat (latest_bytes l)" "out = take (length out) (fb_pixels ?b)"
    using ok C_copy pr by (auto simp: system_ok_def threads_ok_def Let_def)
  have fits: "unat (latest_bytes l) \<le> length (fb_pixels ?b)"
    using ok t(3) by (simp add: system_ok_def box_ok_def latest_ok_def Let_def word_le_nat_alt)
  show ?thesis
  proof (cases "length out < unat (latest_bytes l)")
    case True
    then have "out @ [fb_pixels ?b ! length out] = take (Suc (length out)) (fb_pixels ?b)"
      using fits t(6) by (simp add: take_Suc_conv_app_nth)
    moreover have "Suc (length out) \<le> unat (fb_capacity ?b)"
      using fits True ok by (simp add: system_ok_def box_ok_def)
    ultimately show ?thesis
      using ok C_copy pr t True
      by (simp add: system_ok_def box_ok_def latest_ok_def threads_ok_def frames_ok_def settled_def Let_def)
  next
    case False
    then have "out = take (unat (latest_bytes l)) (fb_pixels ?b)" using t(5,6) by simp
    then have "(l, out) \<in> set (bx_published s)"
      using t(1,3,4) last_in_set [OF t(4)] by (simp add: settled_def)
    then show ?thesis
      using ok C_copy pr t False
      by (simp add: system_ok_def box_ok_def latest_ok_def threads_ok_def frames_ok_def settled_def Let_def)
  qed
next
  case C_clear
  then show ?thesis
    using ok by (auto simp: system_ok_def box_ok_def latest_ok_def threads_ok_def frames_ok_def settled_def Let_def
        split: producer.splits)
qed (use ok in simp)

lemma box_act_ok: "system_ok s \<Longrightarrow> system_ok (box_act a s)"
  by (cases a) (simp_all only: begin_publish_ok produce_ok begin_take_ok consume_ok)

interpretation fbx: inv_machine box_act system_ok
  by unfold_locales (rule box_act_ok)

section \<open>The calls are their steps\<close>

lemma produce_rows:
  assumes "bx_producer s = P_copy q y" "y + n = unat (rq_height q)"
  shows "(box_act Act_produce ^^ n) s =
    s\<lparr>bx_box := fold (copy_row q) [y..<unat (rq_height q)] (bx_box s), bx_producer := P_copy q (unat (rq_height q))\<rparr>"
  using assms
proof (induction n arbitrary: s y)
  case 0
  then show ?case by simp
next
  case (Suc n)
  have "box_act Act_produce s = s\<lparr>bx_box := copy_row q y (bx_box s), bx_producer := P_copy q (Suc y)\<rparr>"
    using Suc.prems by simp
  moreover have "[y..<unat (rq_height q)] = y # [Suc y..<unat (rq_height q)]"
    using Suc.prems(2) by (simp add: upt_conv_Cons)
  ultimately show ?case
    using Suc.IH [of "box_act Act_produce s" "Suc y"] Suc.prems
    by (simp add: funpow_Suc_right del: funpow.simps box_act.simps)
qed

text \<open>An undisturbed publish is the call as it is written.\<close>

lemma publish_steps:
  assumes "bx_producer s = P_idle" "\<not> fb_busy (bx_box s)" "publish_allowed (bx_box s) q"
    "length (rq_pixels q) < 2 ^ 64"
  shows "bx_box ((box_act Act_produce ^^ (unat (rq_height q) + 3)) (box_act (Act_publish q) s)) =
    snd (gui_monitor_video_framebox_publish q (bx_box s))"
proof -
  let ?h = "unat (rq_height q)"
  let ?s1 = "s\<lparr>bx_box := (bx_box s)\<lparr>fb_busy := True\<rparr>, bx_producer := P_copy q 0\<rparr>"
  let ?b = "fold (copy_row q) [0..<?h] ((bx_box s)\<lparr>fb_busy := True\<rparr>)"
  have "box_act (Act_publish q) s = ?s1" using assms by simp
  moreover have "(box_act Act_produce ^^ ?h) ?s1 = ?s1\<lparr>bx_box := ?b, bx_producer := P_copy q ?h\<rparr>"
    using produce_rows [of ?s1 q 0 ?h] by simp
  ultimately have "(box_act Act_produce ^^ (?h + 3)) (box_act (Act_publish q) s) =
      box_act Act_produce (box_act Act_produce (box_act Act_produce (?s1\<lparr>bx_box := ?b, bx_producer := P_copy q ?h\<rparr>)))"
    by (simp add: add.commute [of ?h] numeral_3_eq_3 del: box_act.simps)
  then show ?thesis using assms by (simp add: gui_monitor_video_framebox_publish_def Let_def)
qed

lemma consume_bytes:
  assumes "bx_consumer s = C_copy l out" "length out + n = unat (latest_bytes l)"
    "out = take (length out) (fb_pixels (bx_box s))" "unat (latest_bytes l) \<le> length (fb_pixels (bx_box s))"
  shows "(box_act Act_consume ^^ n) s =
    s\<lparr>bx_consumer := C_copy l (take (unat (latest_bytes l)) (fb_pixels (bx_box s)))\<rparr>"
  using assms
proof (induction n arbitrary: s out)
  case (Suc n)
  let ?out = "out @ [fb_pixels (bx_box s) ! length out]"
  have step: "box_act Act_consume s = s\<lparr>bx_consumer := C_copy l ?out\<rparr>" using Suc.prems by simp
  have "?out = take (Suc (length out)) (fb_pixels (bx_box s))"
    using Suc.prems by (simp add: take_Suc_conv_app_nth)
  then show ?case
    using Suc.IH [of "box_act Act_consume s" ?out] Suc.prems step
    by (simp add: funpow_Suc_right del: funpow.simps box_act.simps)
qed simp

text \<open>An undisturbed take is the call as it is written.\<close>

lemma take_steps:
  assumes "bx_consumer s = C_idle" "box_ok (bx_box s)"
    and "gui_monitor_video_framebox_take capacity (bx_generation s) (bx_box s) = Some (l, out)"
  shows "bx_taken ((box_act Act_consume ^^ Suc (unat (latest_bytes l))) (box_act (Act_take capacity) s)) =
    bx_taken s @ [(l, out)]"
proof -
  let ?s1 = "s\<lparr>bx_box := (bx_box s)\<lparr>fb_busy := True\<rparr>, bx_consumer := C_copy l []\<rparr>"
  have f: "\<not> fb_busy (bx_box s)" "l = fb_latest (bx_box s)" "take_allowed capacity (bx_generation s) l"
    "out = take (unat (latest_bytes l)) (fb_pixels (bx_box s))"
    using assms(3) by (auto simp: gui_monitor_video_framebox_take_def Let_def split: if_splits)
  have le: "unat (latest_bytes l) \<le> length (fb_pixels (bx_box s))"
    using assms(2) f(2) by (simp add: box_ok_def latest_ok_def Let_def word_le_nat_alt)
  have "box_act (Act_take capacity) s = ?s1" using assms(1) f by simp
  moreover have "(box_act Act_consume ^^ unat (latest_bytes l)) ?s1 = ?s1\<lparr>bx_consumer := C_copy l out\<rparr>"
    using consume_bytes [of ?s1 l "[]" "unat (latest_bytes l)"] le f(4) by simp
  moreover have "length out = unat (latest_bytes l)" using le f(4) by simp
  ultimately show ?thesis by simp
qed

section \<open>Properties\<close>

text \<open>C33: In every interleaving of the steps of a producer and a consumer the box stays well
  formed: the pixels keep the size that was allocated, the latest frame lies within the limits
  and fits.  Every snapshot the consumer takes is one of the published frames, information and
  all bytes, never a mixture of two; the published frames carry the generations 1, 2, 3 and
  so on (modulo 2 to the 64) and as many bytes as their dimensions say.\<close>

theorem framebox_well_formed:
  "case gui_monitor_video_framebox_create memory w h of None \<Rightarrow> True
   | Some box \<Rightarrow>
       (let s = fold box_act acts (box_start box); b = bx_box s; l = fb_latest b in
        length (fb_pixels b) = unat (fb_capacity b) \<and>
        fi_width l \<le> fb_max_width b \<and> fi_height l \<le> fb_max_height b \<and> fi_channels l \<le> 4 \<and>
        latest_bytes l \<le> fb_capacity b \<and>
        set (bx_taken s) \<subseteq> set (bx_published s) \<and>
        map (\<lambda>f. fi_generation (fst f)) (bx_published s) =
          map (\<lambda>k. of_nat (Suc k)) [0..<length (bx_published s)] \<and>
        list_all (\<lambda>f. length (snd f) = unat (latest_bytes (fst f))) (bx_published s))"
proof (cases "gui_monitor_video_framebox_create memory w h")
  case (Some box)
  have "system_ok (fold box_act acts (box_start box))" by (rule fbx.run_good [OF created_ok [OF Some]])
  then show ?thesis
    using Some by (simp add: system_ok_def box_ok_def latest_ok_def frames_ok_def Let_def)
qed simp

end
