(* ===== verification/Rf_Stream_Marks.thy ===== *)
theory Rf_Stream_Marks
  imports Prelude
begin

text \<open>
  The sparse boundaries of the raw RF stream (misrc\_gui/processing/gui\_rf\_stream\_marks.c):
  the producer of the capture FIFO marks where the rates or epochs of the stream change or its
  position is doubtful; the consumer asks for every block it takes out whether it may be shown.
  Here the calls as they are written; their interleavings are the subject of
  Rf\_Stream\_Marks\_Steps.  Positions and indices are 64-bit words.
\<close>

section \<open>The marks\<close>

definition RF_MARK_CAPACITY :: u64 where "RF_MARK_CAPACITY = 4096"
definition RF_PAIR_BYTES :: u64 where "RF_PAIR_BYTES = 4"

record rf_mark =
  mark_position :: u64
  mark_rates :: "u32 \<times> u32"
  mark_epochs :: "u64 \<times> u64"
  mark_unsafe :: bool

record block_info =
  sample_rate_hz :: u32
  start_sample :: u64
  epoch :: u64
  discontinuity :: bool

record stream_marks =
  queue :: "nat \<Rightarrow> rf_mark"
  write_index :: u64
  read_index :: u64
  recovery_sequence :: u64
  recovery_position :: u64
  recovery_rates :: "u32 \<times> u32"
  recovery_epochs :: "u64 \<times> u64"
  recovery_unsafe :: bool
  producer :: rf_mark
  producer_end :: u64
  producer_valid :: bool
  consumer :: rf_mark
  consumed_end :: u64
  minimum_safe_position :: u64
  seen_recovery_sequence :: u64
  consumer_valid :: bool
  consumed_any :: bool
  gap_pending :: bool

definition zero_mark :: rf_mark where
  "zero_mark = \<lparr>mark_position = 0, mark_rates = (0, 0), mark_epochs = (0, 0), mark_unsafe = False\<rparr>"

definition gui_rf_stream_marks_reset :: "stream_marks \<Rightarrow> stream_marks" where
  "gui_rf_stream_marks_reset marks =
     marks\<lparr>queue := \<lambda>_. zero_mark, producer := zero_mark, consumer := zero_mark,
           write_index := 0, read_index := 0, recovery_sequence := 0, recovery_position := 0,
           recovery_unsafe := False, recovery_rates := (0, 0), recovery_epochs := (0, 0),
           producer_end := 0, consumed_end := 0, minimum_safe_position := 0,
           seen_recovery_sequence := 0, producer_valid := False, consumer_valid := False,
           consumed_any := False, gap_pending := True\<rparr>"

text \<open>The memory calloc returned, or nothing.\<close>

definition gui_rf_stream_marks_create :: "stream_marks option \<Rightarrow> stream_marks option" where
  "gui_rf_stream_marks_create memory =
     (case memory of None \<Rightarrow> None | Some marks \<Rightarrow> Some (gui_rf_stream_marks_reset marks))"

section \<open>The producer\<close>

definition rf_mark_changed :: "rf_mark \<Rightarrow> rf_mark \<Rightarrow> bool" where
  "rf_mark_changed a b =
     (mark_unsafe a \<noteq> mark_unsafe b \<or> fst (mark_rates a) \<noteq> fst (mark_rates b) \<or>
      snd (mark_rates a) \<noteq> snd (mark_rates b) \<or> fst (mark_epochs a) \<noteq> fst (mark_epochs b) \<or>
      snd (mark_epochs a) \<noteq> snd (mark_epochs b))"

definition rf_publish_recovery :: "rf_mark \<Rightarrow> stream_marks \<Rightarrow> stream_marks" where
  "rf_publish_recovery mark marks =
     marks\<lparr>recovery_sequence := recovery_sequence marks + 1 + 1,
           recovery_position := mark_position mark, recovery_rates := mark_rates mark,
           recovery_epochs := mark_epochs mark, recovery_unsafe := mark_unsafe mark\<rparr>"

text \<open>The first half of an observation: the mark of the write and whether it starts a range.\<close>

definition observe_invalid :: "u64 \<Rightarrow> u64 \<Rightarrow> bool" where
  "observe_invalid byte_position n =
     (byte_position mod RF_PAIR_BYTES \<noteq> 0 \<or> n mod RF_PAIR_BYTES \<noteq> 0 \<or> - 1 - byte_position < n)"

definition observe_mark ::
  "u64 \<Rightarrow> u64 \<Rightarrow> block_info \<times> block_info \<Rightarrow> bool \<Rightarrow> stream_marks \<Rightarrow> rf_mark \<times> bool" where
  "observe_mark byte_position n info ambiguous_gap marks =
     (let invalid = observe_invalid byte_position n;
          unexpected = producer_valid marks \<and> byte_position \<noteq> producer_end marks;
          mark = \<lparr>mark_position = byte_position,
                  mark_rates = (sample_rate_hz (fst info), sample_rate_hz (snd info)),
                  mark_epochs = (epoch (fst info), epoch (snd info)),
                  mark_unsafe = ambiguous_gap \<or> invalid \<or> unexpected\<rparr>
      in (mark, \<not> producer_valid marks \<or> rf_mark_changed (producer marks) mark \<or> unexpected))"

definition observe_producer :: "u64 \<Rightarrow> rf_mark \<Rightarrow> stream_marks \<Rightarrow> stream_marks" where
  "observe_producer n mark marks =
     marks\<lparr>producer := mark, producer_valid := True,
           producer_end := if observe_invalid (mark_position mark) n then - 1 else mark_position mark + n\<rparr>"

definition slot :: "u64 \<Rightarrow> nat" where
  "slot i = unat (i mod RF_MARK_CAPACITY)"

definition queue_mark :: "rf_mark \<Rightarrow> stream_marks \<Rightarrow> stream_marks" where
  "queue_mark mark marks =
     (let i = write_index marks in
      if RF_MARK_CAPACITY \<le> i - read_index marks then rf_publish_recovery mark marks
      else marks\<lparr>queue := (queue marks)(slot i := mark), write_index := i + 1\<rparr>)"

definition gui_rf_stream_marks_observe ::
  "u64 \<Rightarrow> u64 \<Rightarrow> block_info \<times> block_info \<Rightarrow> bool \<Rightarrow> stream_marks \<Rightarrow> stream_marks" where
  "gui_rf_stream_marks_observe byte_position n info ambiguous_gap marks =
     (if n = 0 then marks
      else case observe_mark byte_position n info ambiguous_gap marks of (mark, changed) \<Rightarrow>
        let marks1 = observe_producer n mark marks in
        if changed then queue_mark mark marks1 else marks1)"

section \<open>The consumer\<close>

definition recovery_mark :: "stream_marks \<Rightarrow> rf_mark" where
  "recovery_mark marks =
     \<lparr>mark_position = recovery_position marks, mark_rates = recovery_rates marks,
      mark_epochs = recovery_epochs marks, mark_unsafe = recovery_unsafe marks\<rparr>"

lemma index_step:
  fixes i j :: u64
  assumes "i \<noteq> j"
  shows "unat (j - (i + 1)) = unat (j - i) - 1" "0 < unat (j - i)"
proof -
  have d: "j - i \<noteq> 0" using assms by simp
  then show "0 < unat (j - i)" by (simp add: unat_gt_0)
  have "j - (i + 1) = j - i - 1" by simp
  then show "unat (j - (i + 1)) = unat (j - i) - 1" using unat_minus_one [OF d] by metis
qed

function drop_marks :: "u64 \<Rightarrow> u64 \<Rightarrow> stream_marks \<Rightarrow> stream_marks" where
  "drop_marks limit stop marks =
     (let i = read_index marks in
      if i \<noteq> stop \<and> mark_position (queue marks (slot i)) \<le> limit
      then drop_marks limit stop (marks\<lparr>read_index := i + 1\<rparr>) else marks)"
  by pat_completeness auto
termination
  by (relation "measure (\<lambda>(limit, stop, marks). unat (stop - read_index marks))")
    (auto simp: index_step)

definition recover_to :: "rf_mark \<Rightarrow> u64 \<Rightarrow> stream_marks \<Rightarrow> stream_marks" where
  "recover_to mark s marks =
     marks\<lparr>consumer := mark, consumer_valid := True, minimum_safe_position := mark_position mark,
           seen_recovery_sequence := s, gap_pending := True\<rparr>"

definition rf_recover :: "stream_marks \<Rightarrow> bool \<times> stream_marks" where
  "rf_recover marks =
     (let s = recovery_sequence marks in
      if s = seen_recovery_sequence marks then (True, marks)
      else if odd s then (False, marks)
      else let mark = recovery_mark marks in
        if s \<noteq> recovery_sequence marks then (False, marks)
        else let marks1 = recover_to mark s (drop_marks (mark_position mark) (write_index marks) marks) in
          (s = recovery_sequence marks1, marks1))"

function pop_marks :: "u64 \<Rightarrow> u64 \<Rightarrow> u64 \<Rightarrow> bool \<Rightarrow> stream_marks \<Rightarrow> bool \<times> stream_marks" where
  "pop_marks byte_position end_position stop safe marks =
     (let i = read_index marks; mark = queue marks (slot i) in
      if i = stop \<or> end_position \<le> mark_position mark then (safe, marks)
      else pop_marks byte_position end_position stop
             (if byte_position < mark_position mark then False else safe)
             (marks\<lparr>consumer := mark, consumer_valid := True, gap_pending := True, read_index := i + 1\<rparr>))"
  by pat_completeness auto
termination
  by (relation "measure (\<lambda>(byte_position, end_position, stop, safe, marks). unat (stop - read_index marks))")
    (auto simp: index_step)

declare drop_marks.simps [simp del] pop_marks.simps [simp del]

definition read_refused :: "u64 \<Rightarrow> u64 \<Rightarrow> bool" where
  "read_refused byte_position n =
     (n = 0 \<or> byte_position mod RF_PAIR_BYTES \<noteq> 0 \<or> n mod RF_PAIR_BYTES \<noteq> 0 \<or> - 1 - byte_position < n)"

definition read_guards :: "u64 \<Rightarrow> bool \<Rightarrow> stream_marks \<Rightarrow> bool \<times> stream_marks" where
  "read_guards byte_position recovered marks =
     (let safe = recovered \<and> minimum_safe_position marks \<le> byte_position;
          marks1 = (if consumed_any marks \<and> consumed_end marks \<noteq> byte_position
                    then marks\<lparr>gap_pending := True\<rparr> else marks)
      in (if consumed_any marks1 \<and> byte_position < consumed_end marks1 then False else safe, marks1))"

definition read_info :: "u64 \<Rightarrow> bool \<Rightarrow> stream_marks \<Rightarrow> block_info \<times> block_info" where
  "read_info byte_position safe marks =
     (let channel = \<lambda>rate e. \<lparr>sample_rate_hz = rate, start_sample = byte_position div RF_PAIR_BYTES,
                              epoch = e, discontinuity = gap_pending marks \<or> \<not> safe\<rparr>
      in (channel (fst (mark_rates (consumer marks))) (fst (mark_epochs (consumer marks))),
          channel (snd (mark_rates (consumer marks))) (snd (mark_epochs (consumer marks)))))"

definition read_final ::
  "u64 \<Rightarrow> u64 \<Rightarrow> bool \<Rightarrow> stream_marks \<Rightarrow> bool \<times> (block_info \<times> block_info) \<times> stream_marks" where
  "read_final byte_position n safe marks =
     (let safe1 = (safe \<and> consumer_valid marks \<and> \<not> mark_unsafe (consumer marks));
          safe2 = (if seen_recovery_sequence marks \<noteq> recovery_sequence marks then False else safe1)
      in (safe2, read_info byte_position safe2 marks,
          marks\<lparr>consumed_end := byte_position + n, consumed_any := True, gap_pending := \<not> safe2\<rparr>))"

definition gui_rf_stream_marks_read ::
  "u64 \<Rightarrow> u64 \<Rightarrow> block_info \<times> block_info \<Rightarrow> stream_marks \<Rightarrow> bool \<times> (block_info \<times> block_info) \<times> stream_marks" where
  "gui_rf_stream_marks_read byte_position n info marks =
     (if read_refused byte_position n then (False, info, marks)
      else case rf_recover marks of (recovered, marks1) \<Rightarrow>
        case read_guards byte_position recovered marks1 of (safe, marks2) \<Rightarrow>
          case pop_marks byte_position (byte_position + n) (write_index marks2) safe marks2 of (safe3, marks3) \<Rightarrow>
            read_final byte_position n safe3 marks3)"

section \<open>Sessions\<close>

text \<open>
  A session of a FIFO whose writes are contiguous and observed before they are published:
  for the statements it keeps the writes and the answers of the reads.
\<close>

record rf_write =
  wr_start :: u64
  wr_end :: u64
  wr_rates :: "u32 \<times> u32"
  wr_epochs :: "u64 \<times> u64"
  wr_gap :: bool

record rf_block =
  bl_start :: u64
  bl_end :: u64
  bl_safe :: bool
  bl_info :: "block_info \<times> block_info"

record rf_session =
  rs_marks :: stream_marks
  rs_writes :: "rf_write list"
  rs_blocks :: "rf_block list"
  rs_end :: u64

definition rf_session_start :: "stream_marks \<Rightarrow> rf_session" where
  "rf_session_start marks =
     \<lparr>rs_marks = gui_rf_stream_marks_reset marks, rs_writes = [], rs_blocks = [], rs_end = 0\<rparr>"

definition the_write :: "u64 \<Rightarrow> u64 \<Rightarrow> block_info \<times> block_info \<Rightarrow> bool \<Rightarrow> rf_write" where
  "the_write start n info gap =
     \<lparr>wr_start = start, wr_end = start + n,
      wr_rates = (sample_rate_hz (fst info), sample_rate_hz (snd info)),
      wr_epochs = (epoch (fst info), epoch (snd info)), wr_gap = gap\<rparr>"

text \<open>The zeroed stamp the extraction thread hands to a read.\<close>

definition zero_stamp :: "block_info \<times> block_info" where
  "zero_stamp =
     (\<lparr>sample_rate_hz = 0, start_sample = 0, epoch = 0, discontinuity = False\<rparr>,
      \<lparr>sample_rate_hz = 0, start_sample = 0, epoch = 0, discontinuity = False\<rparr>)"

definition block_rates :: "rf_block \<Rightarrow> u32 \<times> u32" where
  "block_rates b = (sample_rate_hz (fst (bl_info b)), sample_rate_hz (snd (bl_info b)))"

definition block_epochs :: "rf_block \<Rightarrow> u64 \<times> u64" where
  "block_epochs b = (epoch (fst (bl_info b)), epoch (snd (bl_info b)))"

definition overlaps :: "rf_block \<Rightarrow> rf_write \<Rightarrow> bool" where
  "overlaps b w = (wr_start w < bl_end b \<and> bl_start b < wr_end w)"

definition described :: "rf_block \<Rightarrow> rf_write \<Rightarrow> bool" where
  "described b w = (\<not> wr_gap w \<and> wr_rates w = block_rates b \<and> wr_epochs w = block_epochs b)"

section \<open>Ranges\<close>

text \<open>The writes follow each other without a gap from position 0 to the end.\<close>

definition writes_ok :: "rf_write list \<Rightarrow> u64 \<Rightarrow> bool" where
  "writes_ok ws e =
     ((\<forall>w\<in>set ws. wr_start w < wr_end w \<and> wr_end w \<le> e) \<and>
      (\<forall>w\<in>set ws. \<forall>w'\<in>set ws. wr_start w < wr_start w' \<longrightarrow> wr_end w \<le> wr_start w') \<and>
      (\<forall>x<e. \<exists>w\<in>set ws. wr_start w \<le> x \<and> x < wr_end w) \<and>
      (\<forall>w\<in>set ws. wr_start w = 0 \<or> (\<exists>v\<in>set ws. wr_end v = wr_start w)))"

lemma writes_ok_D:
  assumes "writes_ok ws e"
  shows "w \<in> set ws \<Longrightarrow> wr_start w < wr_end w" "w \<in> set ws \<Longrightarrow> wr_end w \<le> e"
    "w \<in> set ws \<Longrightarrow> wr_start w < e"
    "w \<in> set ws \<Longrightarrow> w' \<in> set ws \<Longrightarrow> wr_start w < wr_start w' \<Longrightarrow> wr_end w \<le> wr_start w'"
    "x < e \<Longrightarrow> \<exists>w\<in>set ws. wr_start w \<le> x \<and> x < wr_end w"
    "w \<in> set ws \<Longrightarrow> wr_start w = 0 \<or> (\<exists>v\<in>set ws. wr_end v = wr_start w)"
  using assms unfolding writes_ok_def by (blast intro: less_le_trans)+

lemma end_word:
  fixes a n :: u64
  assumes "n \<noteq> 0" "\<not> - 1 - a < n"
  shows "a < a + n"
proof -
  have "unat n \<le> unat (- 1 - a)" using assms(2) by (simp add: not_less word_le_nat_alt)
  moreover have "unat (- 1 - a) = 2 ^ 64 - 1 - unat a"
    by (subst unat_sub) (simp_all add: unsigned_minus_1_eq_mask mask_eq_exp_minus_1)
  moreover have "0 < unat n" using assms(1) by (simp add: unat_gt_0)
  moreover have "unat a < 2 ^ 64" using unsigned_less [where 'a = nat, of a] by simp
  ultimately have "unat a + unat n < 2 ^ 64" by linarith
  then have "unat (a + n) = unat a + unat n" by (simp add: unat_sum_lt)
  then show ?thesis using \<open>0 < unat n\<close> by (simp add: word_less_nat_alt)
qed

lemma writes_ok_snoc:
  assumes ok: "writes_ok ws e" and w: "wr_start w = e" "e < wr_end w" and first: "ws = [] \<longrightarrow> e = 0"
  shows "writes_ok (ws @ [w]) (wr_end w)"
proof -
  note d = writes_ok_D [OF ok]
  have prev: "e = 0 \<or> (\<exists>v\<in>set ws. wr_end v = e)"
  proof (cases "e = 0")
    case False
    then have u: "unat (e - 1) = unat e - 1" "0 < unat e" by (rule unat_minus_one) (use False in \<open>simp add: unat_gt_0\<close>)
    then have "e - 1 < e" by (simp add: word_less_nat_alt)
    from d(5) [OF this] obtain v where v: "v \<in> set ws" "e - 1 < wr_end v" by blast
    have "e \<le> wr_end v" using v(2) u by (simp add: word_less_nat_alt word_le_nat_alt)
    then show ?thesis using d(2) [OF v(1)] v(1) by (metis antisym)
  qed simp
  show ?thesis
    unfolding writes_ok_def
  proof (intro conjI ballI allI impI)
    fix v assume "v \<in> set (ws @ [w])"
    then show "wr_start v < wr_end v" "wr_end v \<le> wr_end w"
      using d(1,2) w by (auto intro: order_trans [OF _ less_imp_le [OF w(2)]])
    show "wr_start v = 0 \<or> (\<exists>u\<in>set (ws @ [w]). wr_end u = wr_start v)"
      using \<open>v \<in> set (ws @ [w])\<close> d(6) prev w(1) by auto
  next
    fix v v' assume "v \<in> set (ws @ [w])" "v' \<in> set (ws @ [w])" "wr_start v < wr_start v'"
    then show "wr_end v \<le> wr_start v'"
      using d(2,3,4) w(1) by (auto dest: less_asym)
  next
    fix x assume "x < wr_end w"
    then show "\<exists>v\<in>set (ws @ [w]). wr_start v \<le> x \<and> x < wr_end v"
      using d(5) [of x] w(1) by (cases "x < e") auto
  qed
qed

text \<open>The mark whose range holds a position.\<close>

definition governs :: "rf_mark list \<Rightarrow> rf_mark \<Rightarrow> u64 \<Rightarrow> bool" where
  "governs ms m x =
     (m \<in> set ms \<and> mark_position m \<le> x \<and>
      (\<forall>m'\<in>set ms. mark_position m' \<le> x \<longrightarrow> mark_position m' \<le> mark_position m))"

definition matches :: "rf_mark \<Rightarrow> rf_write \<Rightarrow> bool" where
  "matches m w =
     (mark_rates m = wr_rates w \<and> mark_epochs m = wr_epochs w \<and> (wr_gap w \<longrightarrow> mark_unsafe m))"

definition before :: "rf_mark \<Rightarrow> rf_mark \<Rightarrow> bool" where
  "before m m' = (mark_position m < mark_position m')"

definition ranges_ok :: "rf_write list \<Rightarrow> rf_mark list \<Rightarrow> bool" where
  "ranges_ok ws ms =
     (sorted_wrt before ms \<and>
      (\<forall>m\<in>set ms. \<exists>w\<in>set ws. wr_start w = mark_position m) \<and>
      (\<forall>w\<in>set ws. \<exists>m. governs ms m (wr_start w) \<and> matches m w))"

lemma sorted_before_inj:
  assumes "sorted_wrt before ms" "m \<in> set ms" "m' \<in> set ms" "mark_position m = mark_position m'"
  shows "m = m'"
  using assms by (induction ms) (auto simp: before_def)

lemma governs_unique:
  assumes "sorted_wrt before ms" "governs ms m x" "governs ms m' x"
  shows "m = m'"
  using assms sorted_before_inj [OF assms(1), of m m'] unfolding governs_def by (metis antisym)

lemma last_is_max:
  assumes "sorted_wrt before ms" "m \<in> set ms"
  shows "mark_position m \<le> mark_position (last ms)"
  using assms by (induction ms) (auto simp: before_def intro: less_imp_le)

lemma governs_last:
  assumes "sorted_wrt before ms" "ms \<noteq> []" "mark_position (last ms) \<le> x"
  shows "governs ms (last ms) x"
  using assms last_is_max [OF assms(1)] by (auto simp: governs_def)

text \<open>The range of the write that holds a position is the range of the position.\<close>

lemma governs_write:
  assumes "writes_ok ws e" "ranges_ok ws ms" "w \<in> set ws" "governs ms c x" "x < wr_end w" "wr_start w < y"
    and "\<And>m. m \<in> set ms \<Longrightarrow> mark_position m < y \<Longrightarrow> mark_position m \<le> mark_position c"
  shows "governs ms c (wr_start w)" "matches c w"
proof -
  have c: "c \<in> set ms" "mark_position c \<le> x" using assms(4) by (simp_all add: governs_def)
  obtain v where v: "v \<in> set ws" "wr_start v = mark_position c"
    using assms(2) c(1) by (auto simp: ranges_ok_def)
  have "\<not> wr_start w < wr_start v"
    using writes_ok_D(4) [OF assms(1,3) v(1)] assms(5) c(2) v(2) by (metis leD le_less_trans order_trans)
  then have le: "mark_position c \<le> wr_start w" using v(2) by simp
  show g: "governs ms c (wr_start w)"
    using c(1) le assms(6,7) by (auto simp: governs_def intro: le_less_trans)
  obtain m where "governs ms m (wr_start w)" "matches m w"
    using assms(2,3) by (auto simp: ranges_ok_def)
  then show "matches c w"
    using governs_unique [OF _ g] assms(2) by (auto simp: ranges_ok_def)
qed

section \<open>What the producer marks\<close>

definition same_range :: "rf_mark \<Rightarrow> rf_mark \<Rightarrow> bool" where
  "same_range a b =
     (mark_rates a = mark_rates b \<and> mark_epochs a = mark_epochs b \<and> mark_unsafe a = mark_unsafe b)"

lemma changed_iff: "rf_mark_changed a b \<longleftrightarrow> \<not> same_range a b"
  by (auto simp: rf_mark_changed_def same_range_def prod_eq_iff)

definition producer_ok :: "stream_marks \<Rightarrow> rf_write list \<Rightarrow> rf_mark list \<Rightarrow> bool" where
  "producer_ok marks ws ms =
     (producer_valid marks = (ws \<noteq> []) \<and> (ws \<noteq> [] \<longrightarrow> ms \<noteq> [] \<and> same_range (producer marks) (last ms)))"

lemma observe_mark_matches:
  assumes "observe_mark a n info gap marks = (mark, changed)"
  shows "mark_position mark = a" "matches mark (the_write a n info gap)"
  using assms by (auto simp: observe_mark_def matches_def the_write_def Let_def)

lemma observe_ranges:
  assumes wo: "writes_ok ws a" and ro: "ranges_ok ws ms" and po: "producer_ok marks ws ms"
    and o: "observe_mark a n info gap marks = (mark, changed)"
    and w: "w = the_write a n info gap" and ms': "ms' = (if changed then ms @ [mark] else ms)"
  shows "ranges_ok (ws @ [w]) ms'" "producer_ok (observe_producer n mark marks) (ws @ [w]) ms'"
proof -
  note mk = observe_mark_matches [OF o]
  have ws: "wr_start w = a" using w by (simp add: the_write_def)
  have below: "mark_position m < a" if "m \<in> set ms" for m
    using ro that writes_ok_D(3) [OF wo] unfolding ranges_ok_def by metis
  have sorted: "sorted_wrt before ms" using ro by (simp add: ranges_ok_def)
  have keep: "governs ms' m (wr_start v)" if "v \<in> set ws" "governs ms m (wr_start v)" for m v
    using that writes_ok_D(3) [OF wo that(1)] mk(1) unfolding ms' governs_def
    by (auto dest: leD)
  have new: "\<exists>m. governs ms' m a \<and> matches m w \<and> ms' \<noteq> [] \<and> m = last ms' \<and> same_range mark m"
  proof (cases changed)
    case True
    then have "governs ms' mark a" using below mk(1) by (auto simp: ms' governs_def intro: less_imp_le)
    then show ?thesis using True mk(2) w by (simp add: ms' same_range_def)
  next
    case False
    then have "producer_valid marks" and same: "same_range (producer marks) mark"
      using o by (auto simp: observe_mark_def Let_def changed_iff)
    then have ne: "ms \<noteq> []" and l: "same_range (producer marks) (last ms)"
      using po by (auto simp: producer_ok_def)
    have "governs ms (last ms) a" using governs_last [OF sorted ne] below [OF last_in_set [OF ne]] by simp
    moreover have sl: "same_range mark (last ms)" using same l by (simp add: same_range_def)
    moreover have "matches (last ms) w" using mk(2) sl w by (simp add: matches_def same_range_def)
    ultimately show ?thesis using False ne by (simp add: ms')
  qed
  have "sorted_wrt before ms'"
    using sorted below mk(1) by (auto simp: ms' sorted_wrt_append before_def)
  moreover have "\<exists>v\<in>set (ws @ [w]). wr_start v = mark_position m" if "m \<in> set ms'" for m
    using that ro ws mk(1) by (auto simp: ms' ranges_ok_def split: if_splits)
  moreover have "\<exists>m. governs ms' m (wr_start v) \<and> matches m v" if "v \<in> set (ws @ [w])" for v
  proof (cases "v \<in> set ws")
    case True
    then obtain m where "governs ms m (wr_start v)" "matches m v" using ro by (auto simp: ranges_ok_def)
    then show ?thesis using keep [OF True] by blast
  next
    case False
    then show ?thesis using that new ws by auto
  qed
  ultimately show "ranges_ok (ws @ [w]) ms'" by (simp add: ranges_ok_def)
  show "producer_ok (observe_producer n mark marks) (ws @ [w]) ms'"
    using new by (auto simp: producer_ok_def observe_producer_def)
qed

section \<open>The queue\<close>

definition queued :: "stream_marks \<Rightarrow> nat" where
  "queued marks = unat (write_index marks - read_index marks)"

definition queued_marks :: "stream_marks \<Rightarrow> rf_mark list" where
  "queued_marks marks = map (\<lambda>i. queue marks (slot (read_index marks + of_nat i))) [0..<queued marks]"

lemma length_queued_marks [simp]: "length (queued_marks marks) = queued marks"
  by (simp add: queued_marks_def)

lemma slot_offset: "slot (i + of_nat k) = (unat i + k) mod 4096"
proof -
  have "unat (i + of_nat k) = (unat i + k mod 2 ^ LENGTH(64)) mod 2 ^ LENGTH(64)"
    by (simp only: unat_word_ariths unat_of_nat)
  then have "unat (i + of_nat k) = (unat i + k) mod 2 ^ LENGTH(64)" by (simp only: mod_add_right_eq)
  moreover have "(4096 :: nat) dvd 2 ^ LENGTH(64)" by (rule dvdI [of _ _ "2 ^ 52"]) simp
  ultimately have "unat (i + of_nat k) mod 4096 = (unat i + k) mod 4096" by (simp only: mod_mod_cancel)
  then show ?thesis by (simp add: slot_def RF_MARK_CAPACITY_def unat_mod)
qed

lemma slot_other:
  assumes "k < n" "n < 4096"
  shows "slot (i + of_nat k) \<noteq> slot (i + of_nat n)"
proof
  assume "slot (i + of_nat k) = slot (i + of_nat n)"
  then have "(unat i + n) mod 4096 = (unat i + k) mod 4096" by (simp add: slot_offset)
  then have "4096 dvd (unat i + n) - (unat i + k)" by (rule mod_eq_dvd_iff_nat [THEN iffD1, rotated]) (use assms in simp)
  then show False using assms by (auto dest: dvd_imp_le)
qed

lemma queued_empty: "read_index marks = write_index marks \<longleftrightarrow> queued_marks marks = []"
  by (simp add: queued_marks_def queued_def unat_eq_0 eq_commute [of "read_index marks"])

lemma queued_room: "RF_MARK_CAPACITY \<le> write_index marks - read_index marks \<longleftrightarrow> 4096 \<le> queued marks"
  by (simp add: queued_def RF_MARK_CAPACITY_def word_le_nat_alt)

lemma queued_pop:
  assumes "read_index marks \<noteq> write_index marks" "read_index marks' = read_index marks + 1"
    "write_index marks' = write_index marks" "queue marks' = queue marks"
  shows "queued_marks marks = queue marks (slot (read_index marks)) # queued_marks marks'"
proof -
  have q: "queued marks = Suc (queued marks')"
    using index_step [OF assms(1)] by (simp add: queued_def assms)
  have "read_index marks + of_nat (Suc i) = read_index marks' + of_nat i" for i
    by (simp add: assms(2))
  then show ?thesis
    by (simp only: queued_marks_def q map_upt_Suc assms(4)) simp
qed

lemma queued_push:
  assumes "queued marks < 4096" "read_index marks' = read_index marks" "write_index marks' = write_index marks + 1"
    "queue marks' = (queue marks)(slot (write_index marks) := mark)"
  shows "queued_marks marks' = queued_marks marks @ [mark]"
proof -
  have w: "write_index marks = read_index marks + of_nat (queued marks)" by (simp add: queued_def)
  have "write_index marks' - read_index marks' = (write_index marks - read_index marks) + 1"
    by (simp add: assms)
  then have q: "queued marks' = Suc (queued marks)"
    using assms(1) unat_sum_lt [of "write_index marks - read_index marks" 1] by (simp add: queued_def)
  have same: "queue marks' (slot (read_index marks + of_nat i)) = queue marks (slot (read_index marks + of_nat i))"
    if "i < queued marks" for i
    using slot_other [OF that assms(1)] by (simp add: assms(4) w)
  have "queue marks' (slot (read_index marks + of_nat (queued marks))) = mark"
    by (simp add: assms(4) w [symmetric])
  then show ?thesis
    using same by (simp add: queued_marks_def q assms(2))
qed

lemma queued_same:
  assumes "read_index marks' = read_index marks" "write_index marks' = write_index marks"
    "queue marks' = queue marks"
  shows "queued_marks marks' = queued_marks marks" "queued marks' = queued marks"
  by (simp_all add: queued_marks_def queued_def assms)

end
