(* ===== verification/Rf_Stream_Marks_Calls.thy ===== *)
theory Rf_Stream_Marks_Calls
  imports Rf_Stream_Marks
begin

text \<open>
  Sessions of whole calls on the stream marks.  While the queue never overflows, the answer of
  a read is exact: a block is safe if and only if one unambiguous range of the stream holds it.
\<close>

section \<open>Sessions of calls\<close>

datatype rf_call = Call_Write u64 "block_info \<times> block_info" bool | Call_Read u64 u64

text \<open>A write appends to the FIFO, a read takes a block that was written and not yet passed.\<close>

fun run_call :: "rf_call \<Rightarrow> rf_session \<Rightarrow> rf_session" where
  "run_call (Call_Write n info gap) s =
     (if n = 0 \<or> - 1 - rs_end s < n then s
      else s\<lparr>rs_marks := gui_rf_stream_marks_observe (rs_end s) n info gap (rs_marks s),
             rs_writes := rs_writes s @ [the_write (rs_end s) n info gap], rs_end := rs_end s + n\<rparr>)"
| "run_call (Call_Read a n) s =
     (if read_refused a n \<or> rs_end s < a + n \<or> a < consumed_end (rs_marks s) then s
      else case gui_rf_stream_marks_read a n zero_stamp (rs_marks s) of (safe, info, marks) \<Rightarrow>
        s\<lparr>rs_marks := marks,
          rs_blocks := rs_blocks s @ [\<lparr>bl_start = a, bl_end = a + n, bl_safe = safe, bl_info = info\<rparr>]\<rparr>)"

fun aligned_call :: "rf_call \<Rightarrow> bool" where
  "aligned_call (Call_Write n info gap) = (n mod RF_PAIR_BYTES = 0)"
| "aligned_call (Call_Read a n) = True"

fun is_write_call :: "rf_call \<Rightarrow> bool" where
  "is_write_call (Call_Write n info gap) = True"
| "is_write_call (Call_Read a n) = False"

definition uniform :: "rf_write list \<Rightarrow> rf_block \<Rightarrow> bool" where
  "uniform ws b =
     (\<forall>w\<in>set ws. overlaps b w \<longrightarrow> \<not> wr_gap w \<and>
        (\<forall>v\<in>set ws. overlaps b v \<longrightarrow> wr_rates v = wr_rates w \<and> wr_epochs v = wr_epochs w))"

section \<open>Taking marks out\<close>

definition after_pop :: "rf_mark list \<Rightarrow> stream_marks \<Rightarrow> stream_marks" where
  "after_pop P marks =
     (if P = [] then marks
      else marks\<lparr>consumer := last P, consumer_valid := True, gap_pending := True,
                 read_index := read_index marks + of_nat (length P)\<rparr>)"

lemma pop_marks_queue:
  assumes "stop = write_index marks" "P = takeWhile (\<lambda>m. mark_position m < e) (queued_marks marks)"
  shows "pop_marks a e stop safe marks = (safe \<and> list_all (\<lambda>m. mark_position m \<le> a) P, after_pop P marks) \<and>
    queued_marks marks = P @ queued_marks (after_pop P marks) \<and>
    list_all (\<lambda>m. \<not> mark_position m < e) (take 1 (queued_marks (after_pop P marks)))"
  using assms
proof (induction a e stop safe marks arbitrary: P rule: pop_marks.induct)
  case (1 a e stop safe marks)
  let ?m = "queue marks (slot (read_index marks))"
  let ?marks = "marks\<lparr>consumer := ?m, consumer_valid := True, gap_pending := True, read_index := read_index marks + 1\<rparr>"
  show ?case
  proof (cases "read_index marks = stop")
    case True
    then have "queued_marks marks = []" using 1(2) queued_empty by simp
    then show ?thesis using True 1(3) by (simp add: pop_marks.simps [of a e] Let_def after_pop_def)
  next
    case False
    then have ne: "read_index marks \<noteq> write_index marks" using 1(2) by simp
    have q: "queued_marks marks = ?m # queued_marks ?marks" by (rule queued_pop [OF ne]) simp_all
    show ?thesis
    proof (cases "e \<le> mark_position ?m")
      case True
      then have "P = []" using 1(3) q by simp
      then show ?thesis using True q by (simp add: pop_marks.simps [of a e] Let_def after_pop_def)
    next
      case lt: False
      define Q where "Q = takeWhile (\<lambda>m. mark_position m < e) (queued_marks ?marks)"
      have P: "P = ?m # Q" using 1(3) q lt by (simp add: Q_def)
      have st: "stop = write_index ?marks" using 1(2) by simp
      have c: "\<not> (read_index marks = stop \<or> e \<le> mark_position ?m)" using False lt by simp
      note IH = 1(1) [OF refl refl c st Q_def]
      have ap: "after_pop Q ?marks = after_pop P marks"
        by (simp add: after_pop_def P)
      have "pop_marks a e stop safe marks =
          pop_marks a e stop (if a < mark_position ?m then False else safe) ?marks"
        using c by (subst pop_marks.simps) (simp add: Let_def)
      then show ?thesis using IH q ap P by (auto simp: not_less)
    qed
  qed
qed

lemma after_pop_fields [simp]:
  "queue (after_pop P m) = queue m" "write_index (after_pop P m) = write_index m"
  "recovery_sequence (after_pop P m) = recovery_sequence m"
  "seen_recovery_sequence (after_pop P m) = seen_recovery_sequence m"
  "minimum_safe_position (after_pop P m) = minimum_safe_position m"
  "producer (after_pop P m) = producer m" "producer_end (after_pop P m) = producer_end m"
  "producer_valid (after_pop P m) = producer_valid m"
  "consumer_valid (after_pop P m) = (P \<noteq> [] \<or> consumer_valid m)"
  "consumer (after_pop P m) = (if P = [] then consumer m else last P)"
  by (simp_all add: after_pop_def)

section \<open>The producer in a session of whole pairs\<close>

text \<open>A mark is unsafe exactly on an ambiguous write, and no boundary separates equal writes.\<close>

definition exact_marks :: "rf_write list \<Rightarrow> rf_mark list \<Rightarrow> bool" where
  "exact_marks ws ms =
     ((\<forall>w\<in>set ws. \<forall>m. governs ms m (wr_start w) \<longrightarrow> mark_unsafe m = wr_gap w) \<and>
      (\<forall>v\<in>set ws. \<forall>w\<in>set ws. wr_end v = wr_start w \<longrightarrow> wr_start w \<in> mark_position ` set ms \<longrightarrow>
         \<not> (wr_rates v = wr_rates w \<and> wr_epochs v = wr_epochs w \<and> wr_gap v = wr_gap w)))"

definition aligned :: "u64 \<Rightarrow> bool" where
  "aligned a = (a mod RF_PAIR_BYTES = 0)"

lemma aligned_nat: "aligned a \<longleftrightarrow> unat a mod 4 = 0"
proof -
  have "aligned a \<longleftrightarrow> unat (a mod 4) = 0" unfolding aligned_def RF_PAIR_BYTES_def by (simp only: unat_eq_0)
  then show ?thesis by (simp add: unat_mod)
qed

lemma aligned_add:
  assumes "aligned a" "aligned b"
  shows "aligned (a + b)"
proof -
  have "(4 :: nat) dvd 2 ^ LENGTH(64)" by (rule dvdI [of _ _ "2 ^ 62"]) simp
  then have "unat (a + b) mod 4 = (unat a + unat b) mod 4" by (simp only: unat_word_ariths mod_mod_cancel)
  also have "\<dots> = 0" using assms unfolding aligned_nat by presburger
  finally show ?thesis unfolding aligned_nat .
qed

text \<open>The write before a position governs with the last mark.\<close>

lemma last_governs_previous:
  assumes "writes_ok ws e" "ranges_ok ws ms" "ms \<noteq> []" "v \<in> set ws" "wr_end v = e"
  shows "governs ms (last ms) (wr_start v)" "matches (last ms) v"
proof -
  have s: "sorted_wrt before ms" using assms(2) by (simp add: ranges_ok_def)
  obtain u where u: "u \<in> set ws" "wr_start u = mark_position (last ms)"
    using assms(2,3) by (force simp: ranges_ok_def)
  have "\<not> wr_start v < wr_start u"
    using writes_ok_D(3,4) [OF assms(1)] assms(4,5) u(1) by (metis leD)
  then show g: "governs ms (last ms) (wr_start v)" using governs_last [OF s assms(3)] u(2) by simp
  obtain m where m: "governs ms m (wr_start v)" "matches m v" using assms(2,4) by (auto simp: ranges_ok_def)
  then show "matches (last ms) v" using governs_unique [OF s g m(1)] by simp
qed

lemma observe_exact:
  assumes wo: "writes_ok ws a" and ro: "ranges_ok ws ms" and po: "producer_ok marks ws ms" and ex: "exact_marks ws ms"
    and al: "aligned a" "aligned n" "\<not> - 1 - a < n" "ws \<noteq> [] \<longrightarrow> producer_end marks = a" and n: "n \<noteq> 0"
    and o: "observe_mark a n info gap marks = (mark, changed)"
    and w: "w = the_write a n info gap" and ms': "ms' = (if changed then ms @ [mark] else ms)"
  shows "exact_marks (ws @ [w]) ms'" "producer_end (observe_producer n mark marks) = a + n"
proof -
  have inv: "observe_invalid a n = False" using al by (simp add: observe_invalid_def aligned_def)
  have mk: "mark_position mark = a" "mark_unsafe mark = gap" "mark_rates mark = wr_rates w"
      "mark_epochs mark = wr_epochs w" "wr_gap w = gap" "wr_start w = a" "wr_end w = a + n"
      "changed = (ws = [] \<or> \<not> same_range (producer marks) mark)"
    using o al po w unfolding observe_mark_def Let_def inv
    by (auto simp: producer_ok_def the_write_def changed_iff)
  show "producer_end (observe_producer n mark marks) = a + n" by (simp add: observe_producer_def mk(1) inv)
  note R = observe_ranges [OF wo ro po o w ms']
  have sorted: "sorted_wrt before ms'" using R(1) by (simp add: ranges_ok_def)
  have old: "governs ms m (wr_start v)" if "v \<in> set ws" "governs ms' m (wr_start v)" for m v
    using that writes_ok_D(3) [OF wo that(1)] mk(1) unfolding ms' governs_def
    by (auto dest: leD split: if_splits)
  have "mark_unsafe m = gap" if g: "governs ms' m a" for m
  proof -
    have "ms' \<noteq> []" "same_range mark (last ms')"
      using R(2) by (auto simp: producer_ok_def observe_producer_def)
    moreover have "mark_position (last ms') \<le> a"
      using writes_ok_D(3) [OF wo] ro mk(1) calculation(1)
      by (auto simp: ms' ranges_ok_def split: if_splits) (metis last_in_set less_imp_le)
    ultimately show ?thesis
      using governs_unique [OF sorted g governs_last [OF sorted]] mk(2) by (simp add: same_range_def)
  qed
  then have one: "\<forall>v\<in>set (ws @ [w]). \<forall>m. governs ms' m (wr_start v) \<longrightarrow> mark_unsafe m = wr_gap v"
    using ex old mk by (auto simp: exact_marks_def)
  have lt: "a < a + n" by (rule end_word [OF n al(3)])
  have two: "\<not> (wr_rates v = wr_rates u \<and> wr_epochs v = wr_epochs u \<and> wr_gap v = wr_gap u)"
    if v: "v \<in> set (ws @ [w])" and u: "u \<in> set (ws @ [w])" and e: "wr_end v = wr_start u"
      and b: "wr_start u \<in> mark_position ` set ms'" for u v
  proof (cases "u \<in> set ws")
    case True
    have su: "wr_start u < a" using writes_ok_D(3) [OF wo True] .
    then have "wr_end v \<noteq> a + n" using e less_trans [OF su lt] by (metis less_irrefl)
    then have "v \<in> set ws" using v mk(7) by auto
    moreover have "wr_start u \<in> mark_position ` set ms" using b su mk(1) by (auto simp: ms' split: if_splits)
    ultimately show ?thesis using ex True e unfolding exact_marks_def by blast
  next
    case False
    then have uw: "u = w" using u by simp
    then have v': "v \<in> set ws" "wr_end v = a" using v e mk(6,7) lt by auto
    then have ne: "ms \<noteq> []" and l: "same_range (producer marks) (last ms)" using po by (auto simp: producer_ok_def)
    have changed
    proof (rule ccontr)
      assume "\<not> changed"
      then obtain m where "m \<in> set ms" "mark_position m = a" using b uw mk(6) by (auto simp: ms')
      then show False using ro writes_ok_D(3) [OF wo] unfolding ranges_ok_def by (metis less_irrefl)
    qed
    then have "\<not> same_range (last ms) mark" using mk(8) v'(1) l by (auto simp: same_range_def)
    moreover note last_governs_previous [OF wo ro ne v']
    moreover have "mark_unsafe (last ms) = wr_gap v"
      using ex v'(1) \<open>governs ms (last ms) (wr_start v)\<close> by (simp add: exact_marks_def)
    ultimately show ?thesis using uw mk by (auto simp: same_range_def matches_def)
  qed
  show "exact_marks (ws @ [w]) ms'" unfolding exact_marks_def using one two by blast
qed

section \<open>The invariant of a session\<close>

definition exact_block :: "rf_write list \<Rightarrow> rf_block \<Rightarrow> bool" where
  "exact_block ws b =
     (bl_safe b = uniform ws b \<and> (bl_safe b \<longrightarrow> (\<forall>w\<in>set ws. overlaps b w \<longrightarrow> described b w)))"

definition written_ok :: "rf_session \<Rightarrow> rf_mark list \<Rightarrow> bool" where
  "written_ok s ms =
     (writes_ok (rs_writes s) (rs_end s) \<and> ranges_ok (rs_writes s) ms \<and>
      producer_ok (rs_marks s) (rs_writes s) ms \<and> exact_marks (rs_writes s) ms \<and>
      aligned (rs_end s) \<and> (rs_writes s = [] \<longrightarrow> rs_end s = 0) \<and>
      (rs_writes s \<noteq> [] \<longrightarrow> producer_end (rs_marks s) = rs_end s) \<and> length ms \<le> length (rs_writes s))"

definition no_recovery :: "stream_marks \<Rightarrow> bool" where
  "no_recovery m = (recovery_sequence m = 0 \<and> seen_recovery_sequence m = 0 \<and> minimum_safe_position m = 0)"

definition popped_ok :: "stream_marks \<Rightarrow> rf_mark list \<Rightarrow> bool" where
  "popped_ok m popped =
     (consumer_valid m = (popped \<noteq> []) \<and> (popped \<noteq> [] \<longrightarrow> consumer m = last popped) \<and>
      (\<forall>k\<in>set popped. mark_position k < consumed_end m) \<and> (\<not> consumed_any m \<longrightarrow> consumed_end m = 0))"

definition session_ok :: "rf_session \<Rightarrow> bool" where
  "session_ok s =
     (\<exists>popped. written_ok s (popped @ queued_marks (rs_marks s)) \<and> no_recovery (rs_marks s) \<and>
        popped_ok (rs_marks s) popped \<and> consumed_end (rs_marks s) \<le> rs_end s \<and>
        (\<forall>b\<in>set (rs_blocks s). exact_block (rs_writes s) b \<and> bl_end b \<le> rs_end s))"

lemma session_start_ok: "session_ok (rf_session_start m)"
  by (simp add: session_ok_def rf_session_start_def gui_rf_stream_marks_reset_def written_ok_def
      writes_ok_def ranges_ok_def producer_ok_def exact_marks_def queued_marks_def queued_def aligned_def
      no_recovery_def popped_ok_def)

lemma later_write_is_apart:
  assumes "exact_block ws b" "bl_end b \<le> wr_start w"
  shows "exact_block (ws @ [w]) b"
proof -
  have n: "\<not> overlaps b w" using assms(2) by (simp add: overlaps_def not_less)
  then have "uniform (ws @ [w]) b = uniform ws b" by (simp add: uniform_def)
  then show ?thesis using assms(1) n by (simp add: exact_block_def)
qed

lemma queue_mark_room:
  assumes "queued m < 4096" "m1 = observe_producer n mark m"
    "m' = (if changed then queue_mark mark m1 else m1)"
  shows "queued_marks m' = (if changed then queued_marks m @ [mark] else queued_marks m)"
    "producer_valid m' = producer_valid m1" "producer m' = producer m1" "producer_end m' = producer_end m1"
    "no_recovery m' = no_recovery m" "popped_ok m' popped = popped_ok m popped" "consumed_end m' = consumed_end m"
proof -
  have q: "queued_marks m1 = queued_marks m" "queued m1 = queued m"
    using queued_same [of m1 m] by (simp_all add: assms(2) observe_producer_def)
  then have q': "\<not> RF_MARK_CAPACITY \<le> write_index m1 - read_index m1" using assms(1) queued_room by simp
  have "queued_marks (queue_mark mark m1) = queued_marks m1 @ [mark]"
    by (rule queued_push) (use q(2) q' assms(1) in \<open>simp_all add: queue_mark_def Let_def\<close>)
  then show "queued_marks m' = (if changed then queued_marks m @ [mark] else queued_marks m)"
    using q(1) by (simp add: assms(3))
  show "producer_valid m' = producer_valid m1" "producer m' = producer m1" "producer_end m' = producer_end m1"
    "no_recovery m' = no_recovery m" "popped_ok m' popped = popped_ok m popped" "consumed_end m' = consumed_end m"
    using q' unfolding assms(3) by (simp_all add: assms(2) queue_mark_def Let_def)
      (simp_all add: observe_producer_def no_recovery_def popped_ok_def)
qed

lemma write_call_ok:
  assumes ok: "session_ok s" and room: "length (rs_writes s) < 4096" and al: "n mod RF_PAIR_BYTES = 0"
  shows "session_ok (run_call (Call_Write n info gap) s)"
proof (cases "n = 0 \<or> - 1 - rs_end s < n")
  case False
  let ?m = "rs_marks s" and ?a = "rs_end s" and ?ws = "rs_writes s"
  define w where "w = the_write ?a n info gap"
  obtain mark changed where o: "observe_mark ?a n info gap ?m = (mark, changed)" by fastforce
  define m1 where "m1 = observe_producer n mark ?m"
  define m' where "m' = (if changed then queue_mark mark m1 else m1)"
  obtain popped where p: "written_ok s (popped @ queued_marks ?m)" "no_recovery ?m" "popped_ok ?m popped"
      "consumed_end ?m \<le> ?a" "\<forall>b\<in>set (rs_blocks s). exact_block ?ws b \<and> bl_end b \<le> ?a"
    using ok by (auto simp: session_ok_def)
  let ?ms = "popped @ queued_marks ?m"
  define ms' where "ms' = (if changed then ?ms @ [mark] else ?ms)"
  have q: "queued ?m < 4096" using p(1) room by (simp add: written_ok_def)
  note f = queue_mark_room [OF q m1_def m'_def]
  have wo: "writes_ok ?ws ?a" and ro: "ranges_ok ?ws ?ms" and po: "producer_ok ?m ?ws ?ms"
    and ex: "exact_marks ?ws ?ms" and a: "aligned ?a" and first: "?ws = [] \<longrightarrow> ?a = 0"
    and pe: "?ws \<noteq> [] \<longrightarrow> producer_end ?m = ?a" and len: "length ?ms \<le> length ?ws"
    using p(1) by (simp_all add: written_ok_def)
  have n: "n \<noteq> 0" "\<not> - 1 - ?a < n" "aligned n" using False al by (simp_all add: aligned_def)
  have lt: "?a < ?a + n" by (rule end_word [OF n(1,2)])
  note R = observe_ranges [OF wo ro po o w_def ms'_def]
  note E = observe_exact [OF wo ro po ex a n(3,2) pe n(1) o w_def ms'_def]
  let ?s = "s\<lparr>rs_marks := m', rs_writes := ?ws @ [w], rs_end := ?a + n\<rparr>"
  have s: "run_call (Call_Write n info gap) s = ?s"
    using False by (simp add: gui_rf_stream_marks_observe_def o m1_def m'_def w_def Let_def)
  have w: "wr_start w = ?a" "wr_end w = ?a + n" by (simp_all add: w_def the_write_def)
  have "written_ok ?s ms'"
    using R E writes_ok_snoc [OF wo w(1) _ first] w lt len aligned_add [OF a n(3)]
    by (simp add: written_ok_def f producer_ok_def flip: m1_def) (simp add: ms'_def)
  moreover have "ms' = popped @ queued_marks m'" by (simp add: ms'_def f(1))
  moreover have "\<forall>b\<in>set (rs_blocks ?s). exact_block (rs_writes ?s) b \<and> bl_end b \<le> rs_end ?s"
    using p(5) later_write_is_apart [of ?ws _ w] w(1) lt by (auto intro: order_trans less_imp_le)
  moreover have "consumed_end m' \<le> ?a + n" using p(4) lt by (simp add: f(7))
  ultimately have "session_ok ?s" unfolding session_ok_def using p(2,3) by (intro exI [of _ popped]) (simp add: f)
  then show ?thesis by (simp only: s)
qed (use ok in simp)

section \<open>A read without recovery\<close>

lemma read_without_recovery:
  assumes nr: "no_recovery m" and nref: "\<not> read_refused a n" and c: "consumed_end m \<le> a" and po: "popped_ok m popped"
    and P: "P = takeWhile (\<lambda>k. mark_position k < a + n) (queued_marks m)" and all: "popped' = popped @ P"
    and r: "gui_rf_stream_marks_read a n info m = (ok, out, m')"
  shows "ok = (list_all (\<lambda>k. mark_position k \<le> a) P \<and> popped' \<noteq> [] \<and> \<not> mark_unsafe (last popped'))"
    "popped' \<noteq> [] \<Longrightarrow> (sample_rate_hz (fst out), sample_rate_hz (snd out)) = mark_rates (last popped') \<and>
       (epoch (fst out), epoch (snd out)) = mark_epochs (last popped')"
    "queued_marks m = P @ queued_marks m'" "no_recovery m'" "popped_ok m' popped'" "consumed_end m' = a + n"
    "producer m' = producer m" "producer_valid m' = producer_valid m" "producer_end m' = producer_end m"
proof -
  define m2 where "m2 = (if consumed_any m \<and> consumed_end m \<noteq> a then m\<lparr>gap_pending := True\<rparr> else m)"
  have g: "read_guards a True m = (True, m2)"
    using nr c by (auto simp: read_guards_def m2_def no_recovery_def Let_def not_less)
  have rec: "rf_recover m = (True, m)" using nr by (simp add: rf_recover_def no_recovery_def)
  have q2: "queued_marks m2 = queued_marks m" by (rule queued_same) (simp_all add: m2_def)
  have f2: "write_index m2 = write_index m" "no_recovery m2" "popped_ok m2 popped" "producer m2 = producer m"
      "producer_valid m2 = producer_valid m" "producer_end m2 = producer_end m"
      "consumer m2 = consumer m" "consumer_valid m2 = consumer_valid m"
    using nr po by (simp_all add: m2_def no_recovery_def popped_ok_def)
  define m3 where "m3 = after_pop P m2"
  note pm = pop_marks_queue [where marks = m2 and a = a and e = "a + n" and safe = True, OF refl]
  have pop: "pop_marks a (a + n) (write_index m2) True m2 = (list_all (\<lambda>k. mark_position k \<le> a) P, m3)"
    and qs: "queued_marks m = P @ queued_marks m3"
    using pm [of P] P q2 by (simp_all add: m3_def)
  have f3: "no_recovery m3" "producer m3 = producer m" "producer_valid m3 = producer_valid m"
      "producer_end m3 = producer_end m" "consumer_valid m3 = (popped' \<noteq> [])"
      "popped' \<noteq> [] \<longrightarrow> consumer m3 = last popped'"
    using f2 by (auto simp: m3_def no_recovery_def all popped_ok_def)
  have fin: "(ok, out, m') = read_final a n (list_all (\<lambda>k. mark_position k \<le> a) P) m3"
    using r nref by (simp add: gui_rf_stream_marks_read_def rec g pop)
  then show "ok = (list_all (\<lambda>k. mark_position k \<le> a) P \<and> popped' \<noteq> [] \<and> \<not> mark_unsafe (last popped'))"
    using f3 by (auto simp: read_final_def Let_def no_recovery_def)
  show "popped' \<noteq> [] \<Longrightarrow> (sample_rate_hz (fst out), sample_rate_hz (snd out)) = mark_rates (last popped') \<and>
       (epoch (fst out), epoch (snd out)) = mark_epochs (last popped')"
    using fin f3(6) by (simp add: read_final_def read_info_def Let_def)
  have m': "m' = m3\<lparr>consumed_end := a + n, consumed_any := True, gap_pending := \<not> ok\<rparr>"
    using fin by (simp add: read_final_def Let_def)
  show "queued_marks m = P @ queued_marks m'" using qs queued_same [of m' m3] by (simp add: m')
  show "no_recovery m'" using f3(1) by (simp add: m' no_recovery_def)
  show "consumed_end m' = a + n" "producer m' = producer m" "producer_valid m' = producer_valid m"
    "producer_end m' = producer_end m" by (simp_all add: m' f3)
  have n: "n \<noteq> 0" "\<not> - 1 - a < n" using nref by (simp_all add: read_refused_def)
  have "mark_position k < a + n" if "k \<in> set popped'" for k
    using that po c end_word [OF n] set_takeWhileD [of k]
    by (auto simp: all P popped_ok_def intro: less_trans less_le_trans)
  then show "popped_ok m' popped'" using f3 by (simp add: m' popped_ok_def)
qed

text \<open>The marks below a position are the ones taken out of a sorted queue.\<close>

lemma below_taken:
  assumes "sorted_wrt before ms" "k \<in> set ms" "mark_position k < e"
  shows "k \<in> set (takeWhile (\<lambda>k. mark_position k < e) ms)"
  using assms by (induction ms) (auto simp: before_def intro: less_trans)

lemma read_block_exact:
  assumes wo: "writes_ok ws e" and ro: "ranges_ok ws ms" and ex: "exact_marks ws ms"
    and c: "c \<in> set ms" "mark_position c < bl_end b"
      "\<And>k. k \<in> set ms \<Longrightarrow> mark_position k < bl_end b \<Longrightarrow> mark_position k \<le> mark_position c"
    and b: "bl_start b < bl_end b" "bl_end b \<le> e" and first: "\<exists>k\<in>set ms. mark_position k = 0"
    and out: "block_rates b = mark_rates c" "block_epochs b = mark_epochs c"
    and ok: "bl_safe b = (mark_position c \<le> bl_start b \<and> \<not> mark_unsafe c)"
  shows "exact_block ws b"
proof -
  have sound: "described b w" "matches c w"
    if "w \<in> set ws" "overlaps b w" "mark_position c \<le> bl_start b" "mark_unsafe c = False" for w
  proof -
    have g: "governs ms c (bl_start b)" using c b(1) that(3) by (auto simp: governs_def intro: le_less_trans)
    show "matches c w"
      by (rule governs_write(2) [where y = "bl_end b", OF wo ro that(1) g])
        (use that(2) c(3) in \<open>simp_all add: overlaps_def\<close>)
    then show "described b w" using that(4) out by (auto simp: matches_def described_def)
  qed
  have complete: "bl_safe b" if u: "uniform ws b"
  proof -
    obtain w0 where w0: "w0 \<in> set ws" "wr_start w0 \<le> bl_start b" "bl_start b < wr_end w0"
      using writes_ok_D(5) [OF wo less_le_trans [OF b]] by blast
    have o0: "overlaps b w0" using w0 b(1) by (auto simp: overlaps_def)
    have le: "mark_position c \<le> bl_start b"
    proof (rule ccontr)
      assume "\<not> mark_position c \<le> bl_start b"
      then have gt: "bl_start b < mark_position c" by simp
      obtain w where w: "w \<in> set ws" "wr_start w = mark_position c" using ro c(1) by (auto simp: ranges_ok_def)
      then obtain v where v: "v \<in> set ws" "wr_end v = wr_start w"
        using writes_ok_D(6) [OF wo w(1)] gt by (auto simp: word_neq_0_conv)
      have "overlaps b w" using w c(2) writes_ok_D(1) [OF wo w(1)] gt by (auto simp: overlaps_def intro: less_trans)
      moreover have "overlaps b v" using v w c(2) writes_ok_D(1) [OF wo v(1)] gt by (auto simp: overlaps_def intro: less_trans)
      ultimately have "wr_rates v = wr_rates w \<and> wr_epochs v = wr_epochs w \<and> wr_gap v = wr_gap w"
        using u w(1) v(1) unfolding uniform_def by blast
      moreover have "wr_start w \<in> mark_position ` set ms" using c(1) w(2) by simp
      ultimately show False using ex w(1) v unfolding exact_marks_def by blast
    qed
    then have "governs ms c (bl_start b)" using c b(1) by (auto simp: governs_def intro: le_less_trans)
    then have "governs ms c (wr_start w0)"
      by (rule governs_write(1) [OF wo ro w0(1) _ w0(3) le_less_trans [OF w0(2) b(1)] c(3)])
    then have "mark_unsafe c = wr_gap w0" using ex w0(1) by (simp add: exact_marks_def)
    moreover have "\<not> wr_gap w0" using u w0(1) o0 by (auto simp: uniform_def)
    ultimately show ?thesis using ok le by simp
  qed
  have "uniform ws b" if "bl_safe b"
  proof -
    have "described b w" if "w \<in> set ws" "overlaps b w" for w using sound(1) [OF that] \<open>bl_safe b\<close> ok by simp
    then show ?thesis by (simp add: uniform_def described_def)
  qed
  then have "bl_safe b = uniform ws b" using complete by blast
  moreover have "described b w" if "bl_safe b" "w \<in> set ws" "overlaps b w" for w
    using sound(1) [OF that(2,3)] that(1) ok by simp
  ultimately show ?thesis by (simp add: exact_block_def)
qed

lemma read_call_ok:
  assumes ok: "session_ok s"
  shows "session_ok (run_call (Call_Read a n) s)"
proof (cases "read_refused a n \<or> rs_end s < a + n \<or> a < consumed_end (rs_marks s)")
  case False
  let ?m = "rs_marks s" and ?ws = "rs_writes s"
  obtain safe out m' where r: "gui_rf_stream_marks_read a n zero_stamp ?m = (safe, out, m')"
    by (metis prod_cases3)
  obtain popped where p: "written_ok s (popped @ queued_marks ?m)" "no_recovery ?m" "popped_ok ?m popped"
      "\<forall>b\<in>set (rs_blocks s). exact_block ?ws b \<and> bl_end b \<le> rs_end s"
    using ok by (auto simp: session_ok_def)
  let ?ms = "popped @ queued_marks ?m"
  define P where "P = takeWhile (\<lambda>k. mark_position k < a + n) (queued_marks ?m)"
  define popped' where "popped' = popped @ P"
  have nref: "\<not> read_refused a n" and ce: "consumed_end ?m \<le> a" using False by auto
  note R = read_without_recovery [OF p(2) nref ce p(3) P_def popped'_def r]
  define b where "b = \<lparr>bl_start = a, bl_end = a + n, bl_safe = safe, bl_info = out\<rparr>"
  have wo: "writes_ok ?ws (rs_end s)" and ro: "ranges_ok ?ws ?ms" and ex: "exact_marks ?ws ?ms"
    using p(1) by (simp_all add: written_ok_def)
  have sorted: "sorted_wrt before ?ms" using ro by (simp add: ranges_ok_def)
  have ms: "?ms = popped' @ queued_marks m'" using R(3) by (simp add: popped'_def)
  have lt: "a < a + n" using nref by (intro end_word) (simp_all add: read_refused_def)
  have le: "a + n \<le> rs_end s" using False by (simp add: not_less)
  have taken: "k \<in> set popped'" if "k \<in> set ?ms" "mark_position k < a + n" for k
  proof (cases "k \<in> set popped")
    case False
    then have "k \<in> set P" unfolding P_def
      using that sorted by (intro below_taken) (auto simp: sorted_wrt_append)
    then show ?thesis by (simp add: popped'_def)
  qed (simp add: popped'_def)
  have low: "mark_position k < a + n" if "k \<in> set popped'" for k
    using R(5,6) that by (simp add: popped_ok_def)
  have "0 < rs_end s" using lt le by (metis word_gt_0 word_not_simps(1) le_less_trans less_le_trans)
  then obtain w where w: "w \<in> set ?ws" "wr_start w = 0" using writes_ok_D(5) [OF wo, of 0] by auto
  then obtain k0 where k0: "k0 \<in> set ?ms" "mark_position k0 = 0"
    using ro unfolding ranges_ok_def governs_def by fastforce
  have "(0 :: u64) < a + n" using lt by (metis word_gt_0 word_not_simps(1))
  then have ne: "popped' \<noteq> []" using taken [OF k0(1)] k0(2) by auto
  define c where "c = last popped'"
  have sp: "sorted_wrt before popped'" using sorted unfolding ms by (simp add: sorted_wrt_append)
  have cm: "c \<in> set ?ms" "mark_position c < bl_end b" unfolding ms using ne low by (simp_all add: c_def b_def)
  have cmax: "mark_position k \<le> mark_position c" if "k \<in> set ?ms" "mark_position k < bl_end b" for k
    using last_is_max [OF sp taken] that by (simp add: c_def b_def)
  have at: "list_all (\<lambda>k. mark_position k \<le> a) P \<longleftrightarrow> mark_position c \<le> a"
  proof
    assume l: "list_all (\<lambda>k. mark_position k \<le> a) P"
    show "mark_position c \<le> a"
    proof (cases "c \<in> set P")
      case True
      then show ?thesis using l by (simp add: list_all_iff)
    next
      case False
      then have "c \<in> set popped" using ne last_in_set [OF ne] by (auto simp: c_def popped'_def)
      then show ?thesis using p(3) ce by (auto simp: popped_ok_def intro: less_imp_le order_trans)
    qed
  next
    assume "mark_position c \<le> a"
    then show "list_all (\<lambda>k. mark_position k \<le> a) P"
      using last_is_max [OF sp] by (auto simp: list_all_iff c_def popped'_def intro: order_trans)
  qed
  have "exact_block ?ws b"
    by (rule read_block_exact [OF wo ro ex cm cmax])
      (use lt le k0 R(1,2) ne at in \<open>auto simp: b_def block_rates_def block_epochs_def c_def\<close>)
  moreover have "written_ok (s\<lparr>rs_marks := m'\<rparr>) (popped' @ queued_marks m')"
    using p(1) unfolding ms by (simp add: written_ok_def producer_ok_def R(7-9))
  ultimately have "session_ok (s\<lparr>rs_marks := m', rs_blocks := rs_blocks s @ [b]\<rparr>)"
    unfolding session_ok_def using R(4-6) p(4) le
    by (intro exI [of _ popped']) (auto simp: written_ok_def b_def)
  moreover have "run_call (Call_Read a n) s = s\<lparr>rs_marks := m', rs_blocks := rs_blocks s @ [b]\<rparr>"
    using False by (simp add: r b_def)
  ultimately show ?thesis by simp
qed (use ok in auto)

section \<open>Properties\<close>

lemma run_calls_ok:
  assumes "length (rs_writes s) + length (filter is_write_call calls) \<le> 4096" "list_all aligned_call calls" "session_ok s"
  shows "session_ok (fold run_call calls s)"
  using assms
proof (induction calls arbitrary: s)
  case (Cons c calls)
  show ?case
  proof (cases c)
    case (Call_Write n info gap)
    have "length (rs_writes (run_call c s)) \<le> Suc (length (rs_writes s))" using Call_Write by simp
    moreover have "session_ok (run_call c s)"
      using Cons.prems Call_Write by (simp add: write_call_ok del: run_call.simps)
    ultimately show ?thesis using Cons.IH [of "run_call c s"] Cons.prems Call_Write by simp
  next
    case (Call_Read a n)
    have "rs_writes (run_call c s) = rs_writes s" using Call_Read by (simp split: prod.split)
    moreover have "session_ok (run_call c s)"
      using Cons.prems Call_Read by (simp add: read_call_ok del: run_call.simps)
    ultimately show ?thesis using Cons.IH [of "run_call c s"] Cons.prems Call_Read by simp
  qed
qed simp

text \<open>C34: In a session of at most 4096 writes of whole sample pairs, with any number of reads in
  between, the answer of every read is exact: the block is safe if and only if all writes it
  overlaps are unambiguous and have the same rates and epochs, and then these are the rates and
  epochs it is given.\<close>

theorem rf_marks_exact:
  assumes "length (filter is_write_call calls) \<le> 4096" "list_all aligned_call calls"
  shows "let s = fold run_call calls (rf_session_start marks) in
    list_all (\<lambda>b. bl_safe b = uniform (rs_writes s) b \<and>
                  (bl_safe b \<longrightarrow> list_all (\<lambda>w. overlaps b w \<longrightarrow> described b w) (rs_writes s))) (rs_blocks s)"
proof -
  have "session_ok (fold run_call calls (rf_session_start marks))"
    using assms by (intro run_calls_ok session_start_ok) (simp_all add: rf_session_start_def)
  then show ?thesis by (auto simp: session_ok_def exact_block_def list_all_iff Let_def)
qed

definition stamp_of :: "u32 \<Rightarrow> u64 \<Rightarrow> block_info \<times> block_info" where
  "stamp_of rate e = (fst zero_stamp\<lparr>sample_rate_hz := rate, epoch := e\<rparr>, snd zero_stamp\<lparr>sample_rate_hz := rate, epoch := e\<rparr>)"

definition sample_calls :: "rf_call list" where
  "sample_calls = [Call_Write 8 (stamp_of 40 1) False, Call_Write 4 (stamp_of 40 1) True,
     Call_Write 8 (stamp_of 20 2) False, Call_Read 0 8, Call_Read 8 8, Call_Read 16 4]"

lemma few_marks: "\<not> (4096 :: u64) \<le> 1" by (simp add: word_le_nat_alt)

lemma sample_answers:
  "map (\<lambda>b. (bl_safe b, discontinuity (fst (bl_info b)), block_epochs b))
     (rs_blocks (fold run_call sample_calls (rf_session_start marks))) =
   [(True, True, (1, 1)), (False, True, (2, 2)), (True, True, (2, 2))]"
  by (simp add: sample_calls_def rf_session_start_def gui_rf_stream_marks_reset_def
      gui_rf_stream_marks_observe_def observe_mark_def observe_producer_def observe_invalid_def queue_mark_def
      gui_rf_stream_marks_read_def read_refused_def rf_recover_def read_guards_def pop_marks.simps read_final_def
      read_info_def block_epochs_def the_write_def stamp_of_def zero_stamp_def zero_mark_def rf_mark_changed_def
      slot_def RF_MARK_CAPACITY_def RF_PAIR_BYTES_def Let_def few_marks)

theorem rf_marks_exact_witness:
  "let s = fold run_call sample_calls (rf_session_start (gui_rf_stream_marks_reset undefined)) in
    list_all (\<lambda>b. bl_safe b = uniform (rs_writes s) b \<and>
                  (bl_safe b \<longrightarrow> list_all (\<lambda>w. overlaps b w \<longrightarrow> described b w) (rs_writes s))) (rs_blocks s) \<and>
    map bl_safe (rs_blocks s) = [True, False, True]"
proof -
  have "length (filter is_write_call sample_calls) \<le> 4096" "list_all aligned_call sample_calls"
    by (simp_all add: sample_calls_def RF_PAIR_BYTES_def)
  note e = rf_marks_exact [OF this, of "gui_rf_stream_marks_reset undefined"]
  have "map fst (map (\<lambda>b. (bl_safe b, discontinuity (fst (bl_info b)), block_epochs b))
     (rs_blocks (fold run_call sample_calls (rf_session_start (gui_rf_stream_marks_reset undefined))))) = [True, False, True]"
    by (simp only: sample_answers) simp
  then show ?thesis using e by (simp add: Let_def comp_def)
qed

end
