(* ===== verification/Rf_Stream_Marks_Steps.thy ===== *)
theory Rf_Stream_Marks_Steps
  imports Rf_Stream_Marks
begin

text \<open>
  The producer and the consumer of the stream marks as two threads: every access to an atomic
  of misrc\_gui/processing/gui\_rf\_stream\_marks.c and every access to a slot of the queue is a
  step of its own, the steps of the threads interleave in any order, and the snapshot of the
  overflow recovery may be torn.  The atomics are sequentially consistent here.
\<close>

section \<open>Two threads\<close>

datatype rf_producer =
    P_idle
  | P_load rf_mark
  | P_slot rf_mark u64
  | P_index u64
  | P_recover rf_mark nat
  | P_publish

datatype rf_consumer =
    C_idle
  | C_sequence
  | C_load u64 nat rf_mark
  | C_check u64 rf_mark
  | C_bound u64 rf_mark
  | C_drop u64 rf_mark u64
  | C_dropped u64 rf_mark u64
  | C_last u64
  | C_guards bool
  | C_pop u64 bool
  | C_popped u64 bool
  | C_final bool

text \<open>For the statement: the marks the producer has handed over, and the steps taken.\<close>

record rf_system = rf_session +
  sy_producer :: rf_producer
  sy_consumer :: rf_consumer
  sy_block :: "u64 \<times> u64"
  sy_marks :: "rf_mark list"
  sy_steps :: nat

text \<open>The stores of a recovery snapshot and the loads of its members, in the order of the code.\<close>

definition store_recovery :: "nat \<Rightarrow> rf_mark \<Rightarrow> stream_marks \<Rightarrow> stream_marks" where
  "store_recovery k mark m =
     (if k = 0 then m\<lparr>recovery_sequence := recovery_sequence m + 1\<rparr>
      else if k = 1 then m\<lparr>recovery_position := mark_position mark\<rparr>
      else if k = 2 then m\<lparr>recovery_rates := (fst (mark_rates mark), snd (recovery_rates m))\<rparr>
      else if k = 3 then m\<lparr>recovery_epochs := (fst (mark_epochs mark), snd (recovery_epochs m))\<rparr>
      else if k = 4 then m\<lparr>recovery_rates := (fst (recovery_rates m), snd (mark_rates mark))\<rparr>
      else if k = 5 then m\<lparr>recovery_epochs := (fst (recovery_epochs m), snd (mark_epochs mark))\<rparr>
      else if k = 6 then m\<lparr>recovery_unsafe := mark_unsafe mark\<rparr>
      else m\<lparr>recovery_sequence := recovery_sequence m + 1\<rparr>)"

definition load_recovery :: "nat \<Rightarrow> stream_marks \<Rightarrow> rf_mark \<Rightarrow> rf_mark" where
  "load_recovery k m mark =
     (if k = 0 then mark\<lparr>mark_position := recovery_position m\<rparr>
      else if k = 1 then mark\<lparr>mark_unsafe := recovery_unsafe m\<rparr>
      else if k = 2 then mark\<lparr>mark_rates := (fst (recovery_rates m), snd (mark_rates mark))\<rparr>
      else if k = 3 then mark\<lparr>mark_epochs := (fst (recovery_epochs m), snd (mark_epochs mark))\<rparr>
      else if k = 4 then mark\<lparr>mark_rates := (fst (mark_rates mark), snd (recovery_rates m))\<rparr>
      else mark\<lparr>mark_epochs := (fst (mark_epochs mark), snd (recovery_epochs m))\<rparr>)"

definition observed_end :: "rf_write list \<Rightarrow> u64" where
  "observed_end ws = (if ws = [] then 0 else wr_end (last ws))"

subsection \<open>Steps of the producer\<close>

definition begin_write :: "u64 \<Rightarrow> block_info \<times> block_info \<Rightarrow> bool \<Rightarrow> rf_system \<Rightarrow> rf_system" where
  "begin_write n info gap s =
     (if sy_producer s \<noteq> P_idle \<or> n = 0 \<or> - 1 - rs_end s < n then s
      else case observe_mark (rs_end s) n info gap (rs_marks s) of (mark, changed) \<Rightarrow>
        s\<lparr>rs_marks := observe_producer n mark (rs_marks s),
          rs_writes := rs_writes s @ [the_write (rs_end s) n info gap],
          sy_producer := if changed then P_load mark else P_publish\<rparr>)"

definition produce :: "rf_system \<Rightarrow> rf_system" where
  "produce s =
     (let m = rs_marks s in
      case sy_producer s of
        P_idle \<Rightarrow> s
      | P_load mark \<Rightarrow>
          s\<lparr>sy_producer := if RF_MARK_CAPACITY \<le> write_index m - read_index m
                          then P_recover mark 0 else P_slot mark (write_index m)\<rparr>
      | P_slot mark i \<Rightarrow> s\<lparr>rs_marks := m\<lparr>queue := (queue m)(slot i := mark)\<rparr>, sy_producer := P_index i\<rparr>
      | P_index i \<Rightarrow>
          s\<lparr>rs_marks := m\<lparr>write_index := i + 1\<rparr>, sy_marks := sy_marks s @ [queue m (slot i)],
            sy_producer := P_publish\<rparr>
      | P_recover mark k \<Rightarrow>
          (let s1 = s\<lparr>rs_marks := store_recovery k mark m\<rparr> in
           if k < 7 then s1\<lparr>sy_producer := P_recover mark (Suc k)\<rparr>
           else s1\<lparr>sy_marks := sy_marks s @ [mark], sy_producer := P_publish\<rparr>)
      | P_publish \<Rightarrow> s\<lparr>rs_end := observed_end (rs_writes s), sy_producer := P_idle\<rparr>)"

subsection \<open>Steps of the consumer\<close>

definition begin_read :: "u64 \<Rightarrow> u64 \<Rightarrow> rf_system \<Rightarrow> rf_system" where
  "begin_read a n s =
     (if sy_consumer s \<noteq> C_idle \<or> read_refused a n \<or> rs_end s < a + n \<or> a + n < consumed_end (rs_marks s) then s
      else s\<lparr>sy_block := (a, n), sy_consumer := C_sequence\<rparr>)"

definition consume :: "rf_system \<Rightarrow> rf_system" where
  "consume s =
     (let m = rs_marks s; a = fst (sy_block s); n = snd (sy_block s) in
      case sy_consumer s of
        C_idle \<Rightarrow> s
      | C_sequence \<Rightarrow>
          s\<lparr>sy_consumer := if recovery_sequence m = seen_recovery_sequence m then C_guards True
                          else if odd (recovery_sequence m) then C_guards False
                          else C_load (recovery_sequence m) 0 zero_mark\<rparr>
      | C_load q k mark \<Rightarrow>
          s\<lparr>sy_consumer := if k < 5 then C_load q (Suc k) (load_recovery k m mark)
                          else C_check q (load_recovery k m mark)\<rparr>
      | C_check q mark \<Rightarrow>
          s\<lparr>sy_consumer := if q \<noteq> recovery_sequence m then C_guards False else C_bound q mark\<rparr>
      | C_bound q mark \<Rightarrow> s\<lparr>sy_consumer := C_drop q mark (write_index m)\<rparr>
      | C_drop q mark stop \<Rightarrow>
          if read_index m \<noteq> stop \<and> mark_position (queue m (slot (read_index m))) \<le> mark_position mark
          then s\<lparr>sy_consumer := C_dropped q mark stop\<rparr>
          else s\<lparr>rs_marks := recover_to mark q m, sy_consumer := C_last q\<rparr>
      | C_dropped q mark stop \<Rightarrow>
          s\<lparr>rs_marks := m\<lparr>read_index := read_index m + 1\<rparr>, sy_consumer := C_drop q mark stop\<rparr>
      | C_last q \<Rightarrow> s\<lparr>sy_consumer := C_guards (q = recovery_sequence m)\<rparr>
      | C_guards recovered \<Rightarrow>
          (case read_guards a recovered m of (safe, m1) \<Rightarrow>
             s\<lparr>rs_marks := m1, sy_consumer := C_pop (write_index m) safe\<rparr>)
      | C_pop stop safe \<Rightarrow>
          (let mark = queue m (slot (read_index m)) in
           if read_index m = stop \<or> a + n \<le> mark_position mark then s\<lparr>sy_consumer := C_final safe\<rparr>
           else s\<lparr>rs_marks := m\<lparr>consumer := mark, consumer_valid := True, gap_pending := True\<rparr>,
                  sy_consumer := C_popped stop (if a < mark_position mark then False else safe)\<rparr>)
      | C_popped stop safe \<Rightarrow>
          s\<lparr>rs_marks := m\<lparr>read_index := read_index m + 1\<rparr>, sy_consumer := C_pop stop safe\<rparr>
      | C_final safe \<Rightarrow>
          (case read_final a n safe m of (ok, out, m1) \<Rightarrow>
             s\<lparr>rs_marks := m1, sy_consumer := C_idle,
               rs_blocks := rs_blocks s @ [\<lparr>bl_start = a, bl_end = a + n, bl_safe = ok, bl_info = out\<rparr>]\<rparr>))"

datatype rf_act = Act_Write u64 "block_info \<times> block_info" bool | Act_Produce | Act_Read u64 u64 | Act_Consume

definition rf_act :: "rf_act \<Rightarrow> rf_system \<Rightarrow> rf_system" where
  "rf_act act s =
     (let s1 = s\<lparr>sy_steps := Suc (sy_steps s)\<rparr> in
      case act of
        Act_Write n info gap \<Rightarrow> begin_write n info gap s1
      | Act_Produce \<Rightarrow> produce s1
      | Act_Read a n \<Rightarrow> begin_read a n s1
      | Act_Consume \<Rightarrow> consume s1)"

definition rf_system_start :: "stream_marks \<Rightarrow> rf_system" where
  "rf_system_start marks =
     rf_session.extend (rf_session_start marks)
       \<lparr>sy_producer = P_idle, sy_consumer = C_idle, sy_block = (0, 0), sy_marks = [], sy_steps = 0\<rparr>"

section \<open>The invariant\<close>

text \<open>The mark the producer is handing over, and the newest snapshot, complete or not.\<close>

definition flying :: "rf_system \<Rightarrow> rf_mark list" where
  "flying s =
     (case sy_producer s of
        P_load mark \<Rightarrow> [mark] | P_slot mark i \<Rightarrow> [mark] | P_index i \<Rightarrow> [queue (rs_marks s) (slot i)]
      | P_recover mark k \<Rightarrow> [mark] | _ \<Rightarrow> [])"

definition snapshot :: "rf_system \<Rightarrow> rf_mark" where
  "snapshot s =
     (case sy_producer s of P_recover mark (Suc k) \<Rightarrow> mark | _ \<Rightarrow> recovery_mark (rs_marks s))"

abbreviation seq_of :: "rf_system \<Rightarrow> u64" where "seq_of s \<equiv> recovery_sequence (rs_marks s)"
abbreviation seen_of :: "rf_system \<Rightarrow> u64" where "seen_of s \<equiv> seen_recovery_sequence (rs_marks s)"
abbreviation Q_of :: "rf_system \<Rightarrow> rf_mark list" where "Q_of s \<equiv> queued_marks (rs_marks s)"

definition stored :: "nat \<Rightarrow> rf_mark \<Rightarrow> stream_marks \<Rightarrow> bool" where
  "stored k mark m =
     ((1 < k \<longrightarrow> recovery_position m = mark_position mark) \<and>
      (2 < k \<longrightarrow> fst (recovery_rates m) = fst (mark_rates mark)) \<and>
      (3 < k \<longrightarrow> fst (recovery_epochs m) = fst (mark_epochs mark)) \<and>
      (4 < k \<longrightarrow> snd (recovery_rates m) = snd (mark_rates mark)) \<and>
      (5 < k \<longrightarrow> snd (recovery_epochs m) = snd (mark_epochs mark)) \<and>
      (6 < k \<longrightarrow> recovery_unsafe m = mark_unsafe mark))"

definition loaded :: "nat \<Rightarrow> rf_mark \<Rightarrow> stream_marks \<Rightarrow> bool" where
  "loaded k mark m =
     ((0 < k \<longrightarrow> mark_position mark = recovery_position m) \<and>
      (1 < k \<longrightarrow> mark_unsafe mark = recovery_unsafe m) \<and>
      (2 < k \<longrightarrow> fst (mark_rates mark) = fst (recovery_rates m)) \<and>
      (3 < k \<longrightarrow> fst (mark_epochs mark) = fst (recovery_epochs m)) \<and>
      (4 < k \<longrightarrow> snd (mark_rates mark) = snd (recovery_rates m)) \<and>
      (5 < k \<longrightarrow> snd (mark_epochs mark) = snd (recovery_epochs m)))"

definition producer_inv :: "rf_system \<Rightarrow> bool" where
  "producer_inv s =
     (let m = rs_marks s; ws = rs_writes s; ms = sy_marks s @ flying s in
      writes_ok ws (observed_end ws) \<and> ranges_ok ws ms \<and> producer_ok m ws ms \<and>
      rs_end s \<le> observed_end ws \<and> (\<forall>k\<in>set (flying s). mark_position k = rs_end s) \<and>
      unat (seq_of s) \<le> sy_steps s \<and> (seq_of s \<noteq> 0 \<and> even (seq_of s) \<longrightarrow> snapshot s \<in> set (sy_marks s)) \<and>
      (odd (seq_of s) \<longleftrightarrow> (\<exists>mark k. sy_producer s = P_recover mark (Suc k))) \<and>
      (case sy_producer s of
         P_idle \<Rightarrow> rs_end s = observed_end ws
       | P_slot mark i \<Rightarrow> i = write_index m \<and> queued m < 4096
       | P_index i \<Rightarrow> i = write_index m \<and> queued m < 4096
       | P_recover mark k \<Rightarrow> k \<le> 7 \<and> stored k mark m
       | _ \<Rightarrow> True))"

text \<open>What the consumer knows: a mark handed over is passed, queued, or behind a snapshot it
  has not seen.\<close>

definition waiting :: "rf_system \<Rightarrow> rf_mark list" where
  "waiting s = (case sy_consumer s of C_popped stop safe \<Rightarrow> tl (Q_of s) | _ \<Rightarrow> Q_of s)"

definition known_inv :: "rf_system \<Rightarrow> bool" where
  "known_inv s =
     (let m = rs_marks s; c = consumer m; valid = consumer_valid m; unseen = (seq_of s \<noteq> seen_of s) in
      sorted_wrt before (Q_of s) \<and> set (Q_of s) \<subseteq> set (sy_marks s) \<and>
      (valid \<longrightarrow> c \<in> set (sy_marks s)) \<and> (valid \<longrightarrow> (\<forall>k\<in>set (waiting s). before c k)) \<and>
      even (seen_of s) \<and> unat (seen_of s) \<le> unat (seq_of s) \<and> (unseen \<and> valid \<longrightarrow> before c (snapshot s)) \<and>
      (\<forall>k\<in>set (sy_marks s). valid \<and> mark_position k \<le> mark_position c \<or> k \<in> set (Q_of s) \<or>
         unseen \<and> mark_position k \<le> mark_position (snapshot s)))"

definition block_end :: "rf_system \<Rightarrow> u64" where
  "block_end s = fst (sy_block s) + snd (sy_block s)"

text \<open>A snapshot other than the one with the number q lies behind the block.\<close>

definition fresh :: "rf_system \<Rightarrow> u64 \<Rightarrow> bool" where
  "fresh s q = (seq_of s \<noteq> q \<longrightarrow> block_end s \<le> mark_position (snapshot s))"

definition placed :: "rf_system \<Rightarrow> bool" where
  "placed s = (consumer_valid (rs_marks s) \<longrightarrow> mark_position (consumer (rs_marks s)) < consumed_end (rs_marks s) \<or>
     mark_position (consumer (rs_marks s)) \<le> minimum_safe_position (rs_marks s))"

definition placed_in :: "rf_system \<Rightarrow> bool \<Rightarrow> bool" where
  "placed_in s safe =
     (let m = rs_marks s; c = mark_position (consumer m) in
      fresh s (seen_of s) \<and> (consumer_valid m \<longrightarrow> c < block_end s \<or> c \<le> minimum_safe_position m) \<and>
      (safe \<and> consumer_valid m \<longrightarrow> c \<le> fst (sy_block s)) \<and>
      (\<not> gap_pending m \<longrightarrow> consumed_end m = fst (sy_block s)))"

text \<open>Marks that came after the index was loaded.\<close>

definition beyond :: "rf_system \<Rightarrow> u64 \<Rightarrow> rf_mark list" where
  "beyond s stop = drop (unat (stop - read_index (rs_marks s))) (Q_of s)"

definition stop_ok :: "rf_system \<Rightarrow> u64 \<Rightarrow> bool" where
  "stop_ok s stop = (unat (stop - read_index (rs_marks s)) \<le> queued (rs_marks s))"

definition recovering :: "rf_system \<Rightarrow> u64 \<Rightarrow> bool" where
  "recovering s q =
     (placed s \<and> fresh s q \<and> even q \<and> unat (seen_of s) < unat q \<and> unat q \<le> unat (seq_of s))"

definition recovering_to :: "rf_system \<Rightarrow> u64 \<Rightarrow> rf_mark \<Rightarrow> bool" where
  "recovering_to s q mark =
     (recovering s q \<and> mark \<in> set (sy_marks s) \<and> (consumer_valid (rs_marks s) \<longrightarrow> before (consumer (rs_marks s)) mark) \<and>
      (if seq_of s = q then snapshot s = mark else before mark (snapshot s)))"

definition reader_inv :: "rf_system \<Rightarrow> bool" where
  "reader_inv s =
     (let m = rs_marks s in
      (sy_consumer s \<noteq> C_idle \<longrightarrow> fst (sy_block s) < block_end s \<and> block_end s \<le> rs_end s \<and> consumed_end m \<le> block_end s) \<and>
      (\<not> consumed_any m \<longrightarrow> consumed_end m = 0) \<and>
      (case sy_consumer s of
         C_idle \<Rightarrow> placed s
       | C_sequence \<Rightarrow> placed s
       | C_load q k mark \<Rightarrow> recovering s q \<and> k \<le> 5 \<and> (seq_of s = q \<longrightarrow> loaded k mark m)
       | C_check q mark \<Rightarrow> recovering s q \<and> (seq_of s = q \<longrightarrow> mark = recovery_mark m)
       | C_bound q mark \<Rightarrow> recovering_to s q mark
       | C_drop q mark stop \<Rightarrow> recovering_to s q mark \<and> stop_ok s stop \<and> (\<forall>k\<in>set (beyond s stop). before mark k)
       | C_dropped q mark stop \<Rightarrow>
           recovering_to s q mark \<and> stop_ok s stop \<and> (\<forall>k\<in>set (beyond s stop). before mark k) \<and>
           read_index m \<noteq> stop \<and> mark_position (hd (Q_of s)) \<le> mark_position mark
       | C_last q \<Rightarrow> placed s \<and> seen_of s = q \<and> fresh s q
       | C_guards recovered \<Rightarrow> placed s \<and> fresh s (seen_of s)
       | C_pop stop safe \<Rightarrow> placed_in s safe \<and> stop_ok s stop \<and> (\<forall>k\<in>set (beyond s stop). block_end s \<le> mark_position k)
       | C_popped stop safe \<Rightarrow>
           placed_in s safe \<and> stop_ok s stop \<and> (\<forall>k\<in>set (beyond s stop). block_end s \<le> mark_position k) \<and>
           read_index m \<noteq> stop \<and> consumer_valid m \<and> consumer m = hd (Q_of s)
       | C_final safe \<Rightarrow> placed_in s safe \<and> (\<forall>k\<in>set (Q_of s). block_end s \<le> mark_position k)))"

text \<open>The answers given so far.\<close>

definition linked :: "rf_block \<Rightarrow> rf_block \<Rightarrow> bool" where
  "linked b b' =
     (\<not> discontinuity (fst (bl_info b')) \<or> \<not> discontinuity (snd (bl_info b')) \<longrightarrow>
      bl_safe b \<and> bl_safe b' \<and> bl_end b = bl_start b' \<and> block_rates b = block_rates b' \<and>
      block_epochs b = block_epochs b')"

definition sound_block :: "rf_write list \<Rightarrow> rf_block \<Rightarrow> bool" where
  "sound_block ws b = (bl_safe b \<longrightarrow> list_all (\<lambda>w. overlaps b w \<longrightarrow> described b w) ws)"

definition answers_inv :: "rf_system \<Rightarrow> bool" where
  "answers_inv s =
     (let m = rs_marks s; bs = rs_blocks s in
      (\<forall>b\<in>set bs. sound_block (rs_writes s) b \<and> bl_end b \<le> rs_end s) \<and>
      successively linked bs \<and>
      (bs \<noteq> [] \<longrightarrow> discontinuity (fst (bl_info (hd bs))) \<and> discontinuity (snd (bl_info (hd bs)))) \<and>
      (\<not> gap_pending m \<longrightarrow> bs \<noteq> [] \<and> bl_safe (last bs) \<and> bl_end (last bs) = consumed_end m \<and> consumed_any m \<and>
         block_rates (last bs) = mark_rates (consumer m) \<and> block_epochs (last bs) = mark_epochs (consumer m)))"

definition rf_good :: "rf_system \<Rightarrow> bool" where
  "rf_good s = (producer_inv s \<and> known_inv s \<and> reader_inv s \<and> answers_inv s)"

section \<open>What the consumer relies on\<close>

definition same_consumer :: "rf_system \<Rightarrow> rf_system \<Rightarrow> bool" where
  "same_consumer s s' =
     (let m = rs_marks s; m' = rs_marks s' in
      sy_consumer s' = sy_consumer s \<and> sy_block s' = sy_block s \<and> rs_blocks s' = rs_blocks s \<and>
      consumer m' = consumer m \<and> consumer_valid m' = consumer_valid m \<and> consumed_end m' = consumed_end m \<and>
      minimum_safe_position m' = minimum_safe_position m \<and>
      seen_recovery_sequence m' = seen_recovery_sequence m \<and> consumed_any m' = consumed_any m \<and>
      gap_pending m' = gap_pending m \<and> read_index m' = read_index m)"

definition env_step :: "rf_system \<Rightarrow> rf_system \<Rightarrow> rf_mark list \<Rightarrow> bool" where
  "env_step s s' new =
     (same_consumer s s' \<and> rs_end s \<le> rs_end s' \<and>
      sy_marks s' = sy_marks s @ new \<and> (\<forall>k\<in>set new. rs_end s \<le> mark_position k) \<and>
      sorted_wrt before (sy_marks s @ new) \<and> (Q_of s' = Q_of s \<or> Q_of s' = Q_of s @ new) \<and>
      (\<forall>k\<in>set new. k \<in> set (Q_of s') \<or> unat (seq_of s) < unat (seq_of s') \<and> snapshot s' = k) \<and>
      unat (seq_of s) \<le> unat (seq_of s') \<and>
      (seq_of s' = seq_of s \<longrightarrow> snapshot s' = snapshot s \<and>
         (even (seq_of s) \<longrightarrow> recovery_mark (rs_marks s') = recovery_mark (rs_marks s))) \<and>
      (seq_of s' \<noteq> seq_of s \<longrightarrow> odd (seq_of s) \<and> snapshot s' = snapshot s \<or>
         rs_end s \<le> mark_position (snapshot s') \<and> (\<forall>k\<in>set (sy_marks s). before k (snapshot s'))))"

lemma env_same:
  assumes "env_step s s' new"
  shows "sy_consumer s' = sy_consumer s" "sy_block s' = sy_block s" "rs_blocks s' = rs_blocks s"
    "consumer (rs_marks s') = consumer (rs_marks s)" "consumer_valid (rs_marks s') = consumer_valid (rs_marks s)"
    "consumed_end (rs_marks s') = consumed_end (rs_marks s)"
    "minimum_safe_position (rs_marks s') = minimum_safe_position (rs_marks s)"
    "seen_of s' = seen_of s" "consumed_any (rs_marks s') = consumed_any (rs_marks s)"
    "gap_pending (rs_marks s') = gap_pending (rs_marks s)" "read_index (rs_marks s') = read_index (rs_marks s)"
    "block_end s' = block_end s" "placed s' = placed s"
  using assms by (simp_all add: env_step_def same_consumer_def Let_def block_end_def placed_def)

lemma env_queue:
  assumes "env_step s s' new"
  shows "sy_marks s' = sy_marks s @ new" "\<exists>more. Q_of s' = Q_of s @ more \<and> set more \<subseteq> set new"
    "rs_end s \<le> rs_end s'" "\<And>k. k \<in> set new \<Longrightarrow> rs_end s \<le> mark_position k"
    "\<And>k j. k \<in> set (sy_marks s) \<Longrightarrow> j \<in> set new \<Longrightarrow> before k j" "sorted_wrt before (sy_marks s')"
    "unat (seq_of s) \<le> unat (seq_of s')"
  using assms by (auto simp: env_step_def sorted_wrt_append)

lemma env_snapshot:
  assumes "env_step s s' new"
  shows "seq_of s' = seq_of s \<Longrightarrow> snapshot s' = snapshot s"
    "seq_of s' = seq_of s \<Longrightarrow> even (seq_of s) \<Longrightarrow> recovery_mark (rs_marks s') = recovery_mark (rs_marks s)"
    "even (seq_of s) \<Longrightarrow> seq_of s' \<noteq> seq_of s \<Longrightarrow> rs_end s \<le> mark_position (snapshot s')"
    "even (seq_of s) \<Longrightarrow> seq_of s' \<noteq> seq_of s \<Longrightarrow> k \<in> set (sy_marks s) \<Longrightarrow> before k (snapshot s')"
    "snapshot s' = snapshot s \<or> rs_end s \<le> mark_position (snapshot s') \<and> (\<forall>k\<in>set (sy_marks s). before k (snapshot s'))"
  using assms unfolding env_step_def by blast+

lemma env_fresh:
  assumes "env_step s s' new" "fresh s q" "even q" "block_end s \<le> rs_end s"
  shows "fresh s' q"
proof (cases "seq_of s = q")
  case True
  then show ?thesis
    using env_snapshot(3) [OF assms(1)] assms(3,4) by (auto simp: fresh_def env_same(12) [OF assms(1)])
next
  case False
  then show ?thesis
    using env_snapshot(5) [OF assms(1)] assms(2,4) by (auto simp: fresh_def env_same(12) [OF assms(1)])
qed

lemma env_recovering:
  assumes e: "env_step s s' new" and r: "recovering s q" and b: "block_end s \<le> rs_end s"
  shows "recovering s' q" "seq_of s' = q \<Longrightarrow> seq_of s = q"
proof -
  have r': "fresh s q" "even q" "unat (seen_of s) < unat q" "unat q \<le> unat (seq_of s)"
    using r by (simp_all add: recovering_def)
  show "recovering s' q"
    using r env_fresh [OF e r'(1,2) b] env_same(8,13) [OF e] env_queue(7) [OF e] by (simp add: recovering_def)
  show "seq_of s' = q \<Longrightarrow> seq_of s = q" using r'(4) env_queue(7) [OF e] by (metis antisym word_unat_eq_iff)
qed

lemma env_recovering_to:
  assumes e: "env_step s s' new" and r: "recovering_to s q mark" and b: "block_end s \<le> rs_end s"
  shows "recovering_to s' q mark"
proof -
  have r': "recovering s q" "mark \<in> set (sy_marks s)" "if seq_of s = q then snapshot s = mark else before mark (snapshot s)"
    using r by (simp_all add: recovering_to_def)
  note R = env_recovering [OF e r'(1) b]
  have "even q" using r'(1) by (simp add: recovering_def)
  then have "if seq_of s' = q then snapshot s' = mark else before mark (snapshot s')"
    using R(2) r'(2,3) env_snapshot [OF e] by (auto split: if_splits)
  then show ?thesis
    using R(1) r r'(2) env_same [OF e] env_queue(1) [OF e] by (simp add: recovering_to_def)
qed

lemma env_stop:
  assumes e: "env_step s s' new" and st: "stop_ok s stop"
  shows "stop_ok s' stop" "k \<in> set (beyond s' stop) \<Longrightarrow> k \<in> set (beyond s stop) \<or> k \<in> set new"
    "Q_of s \<noteq> [] \<Longrightarrow> hd (Q_of s') = hd (Q_of s)"
proof -
  obtain more where q: "Q_of s' = Q_of s @ more" "set more \<subseteq> set new" using env_queue(2) [OF e] by blast
  have l: "queued (rs_marks s') = queued (rs_marks s) + length more"
    using arg_cong [OF q(1), of length] by simp
  then show "stop_ok s' stop" using st env_same(11) [OF e] by (simp add: stop_ok_def)
  have "unat (stop - read_index (rs_marks s)) \<le> length (Q_of s)" using st by (simp add: stop_ok_def)
  then show "k \<in> set (beyond s' stop) \<Longrightarrow> k \<in> set (beyond s stop) \<or> k \<in> set new"
    using q by (auto simp: beyond_def env_same(11) [OF e])
  show "Q_of s \<noteq> [] \<Longrightarrow> hd (Q_of s') = hd (Q_of s)" using q(1) by simp
qed

lemma stop_ahead:
  assumes "stop_ok s stop" "read_index (rs_marks s) \<noteq> stop"
  shows "Q_of s \<noteq> []" "read_index (rs_marks s) \<noteq> write_index (rs_marks s)"
    "hd (Q_of s) = queue (rs_marks s) (slot (read_index (rs_marks s)))"
proof -
  have "0 < queued (rs_marks s)" using assms index_step(2) [OF assms(2)] by (simp add: stop_ok_def)
  then show "Q_of s \<noteq> []" by (metis length_queued_marks list.size(3) less_irrefl)
  then show "read_index (rs_marks s) \<noteq> write_index (rs_marks s)" using queued_empty by blast
  then show "hd (Q_of s) = queue (rs_marks s) (slot (read_index (rs_marks s)))"
    using queued_pop [of "rs_marks s" "(rs_marks s)\<lparr>read_index := read_index (rs_marks s) + 1\<rparr>"] by simp
qed

lemma env_known:
  assumes e: "env_step s s' new" and kn: "known_inv s"
    and w: "\<And>stop safe. sy_consumer s = C_popped stop safe \<Longrightarrow> Q_of s \<noteq> []"
  shows "known_inv s'"
proof -
  let ?c = "consumer (rs_marks s)" and ?valid = "consumer_valid (rs_marks s)"
  obtain more where q: "Q_of s' = Q_of s @ more" "set more \<subseteq> set new" using env_queue(2) [OF e] by blast
  have D: "sy_marks s' = sy_marks s @ new" by (rule env_queue(1) [OF e])
  note same = env_same [OF e]
  have k: "sorted_wrt before (Q_of s)" "set (Q_of s) \<subseteq> set (sy_marks s)" "?valid \<longrightarrow> ?c \<in> set (sy_marks s)"
    "?valid \<longrightarrow> (\<forall>k\<in>set (waiting s). before ?c k)" "even (seen_of s)" "unat (seen_of s) \<le> unat (seq_of s)"
    "seq_of s \<noteq> seen_of s \<and> ?valid \<longrightarrow> before ?c (snapshot s)"
    using kn by (simp_all add: known_inv_def Let_def)
  have rest: "?valid \<and> mark_position k \<le> mark_position ?c \<or> k \<in> set (Q_of s) \<or>
      seq_of s \<noteq> seen_of s \<and> mark_position k \<le> mark_position (snapshot s)" if "k \<in> set (sy_marks s)" for k
    using kn that by (simp add: known_inv_def Let_def)
  have wait: "waiting s' = waiting s @ more"
    using w q by (simp add: waiting_def same split: rf_consumer.split)
  have "sorted_wrt before more"
    using e q unfolding env_step_def by (metis append_self_conv sorted_wrt.simps(1) sorted_wrt_append same_append_eq)
  then have 1: "sorted_wrt before (Q_of s')" using k(1,2) env_queue(5) [OF e] q by (auto simp: sorted_wrt_append)
  have 2: "set (Q_of s') \<subseteq> set (sy_marks s')" using q k(2) D by auto
  have 4: "?valid \<longrightarrow> (\<forall>k\<in>set (waiting s'). before ?c k)" using k(3,4) env_queue(5) [OF e] wait q(2) by auto
  have unseen: "seq_of s' \<noteq> seen_of s" if "seq_of s \<noteq> seen_of s"
    using that k(6) env_queue(7) [OF e] by (metis antisym word_unat_eq_iff)
  have 7: "seq_of s' \<noteq> seen_of s \<and> ?valid \<longrightarrow> before ?c (snapshot s')"
    using k(3,5,7) env_snapshot(4,5) [OF e] by metis
  have 8: "?valid \<and> mark_position k \<le> mark_position ?c \<or> k \<in> set (Q_of s') \<or>
      seq_of s' \<noteq> seen_of s \<and> mark_position k \<le> mark_position (snapshot s')" if "k \<in> set (sy_marks s')" for k
  proof (cases "k \<in> set (sy_marks s)")
    case True
    then have "mark_position k \<le> mark_position (snapshot s')" if "mark_position k \<le> mark_position (snapshot s)"
      using that env_snapshot(5) [OF e] by (metis before_def less_imp_le)
    then show ?thesis using rest [OF True] unseen q(1) by auto
  next
    case False
    then have "k \<in> set new" using that D by simp
    then have "k \<in> set (Q_of s') \<or> unat (seq_of s) < unat (seq_of s') \<and> snapshot s' = k"
      using e by (simp add: env_step_def)
    then show ?thesis using k(6) by fastforce
  qed
  show ?thesis
    unfolding known_inv_def Let_def same
    using 1 2 4 7 8 k(3,5,6) env_queue(7) [OF e] D by (intro conjI) auto
qed

lemma env_placed_in:
  assumes e: "env_step s s' new" and p: "placed_in s safe" and b: "block_end s \<le> rs_end s" and ev: "even (seen_of s)"
  shows "placed_in s' safe"
  using p env_fresh [OF e _ ev b] unfolding placed_in_def Let_def env_same [OF e] by blast

lemma loaded_same: "recovery_mark m' = recovery_mark m \<Longrightarrow> loaded k mark m' = loaded k mark m"
  by (simp add: recovery_mark_def loaded_def)

lemma env_reader:
  assumes e: "env_step s s' new" and r: "reader_inv s" and ev: "even (seen_of s)"
  shows "reader_inv s'"
proof (cases "sy_consumer s = C_idle")
  case True
  then show ?thesis using r env_same [OF e] by (simp add: reader_inv_def Let_def)
next
  case False
  note same = env_same [OF e]
  have b: "fst (sy_block s) < block_end s" "block_end s \<le> rs_end s" "consumed_end (rs_marks s) \<le> block_end s"
    using r False by (simp_all add: reader_inv_def Let_def)
  have b': "block_end s \<le> rs_end s'" using b(2) env_queue(3) [OF e] by simp
  have new: "block_end s \<le> mark_position k" if "k \<in> set new" for k
    using env_queue(4) [OF e that] b(2) by simp
  have more: "\<exists>more. Q_of s' = Q_of s @ more \<and> set more \<subseteq> set new" by (rule env_queue(2) [OF e])
  have behind: "before mark k" if "recovering_to s q mark" "k \<in> set new" for q mark k
    using env_queue(5) [OF e _ that(2)] that(1) by (simp add: recovering_to_def)
  note R = env_recovering [OF e _ b(2)] env_recovering_to [OF e _ b(2)] env_placed_in [OF e _ b(2) ev]
    env_fresh [OF e _ _ b(2)] env_stop [OF e]
  have rec: "seq_of s = q \<and> recovery_mark (rs_marks s') = recovery_mark (rs_marks s)"
    if "recovering s q" "seq_of s' = q" for q
    using R(2) [OF that] that env_snapshot(2) [OF e] by (simp add: recovering_def)
  have "fst (sy_block s') < block_end s' \<and> block_end s' \<le> rs_end s' \<and> consumed_end (rs_marks s') \<le> block_end s'"
    using b b' by (simp add: same)
  moreover have "let m = rs_marks s' in \<not> consumed_any m \<longrightarrow> consumed_end m = 0"
    using r by (simp add: reader_inv_def Let_def same)
  ultimately have base: "fst (sy_block s') < block_end s' \<and> block_end s' \<le> rs_end s' \<and>
      consumed_end (rs_marks s') \<le> block_end s'"
    "let m = rs_marks s' in \<not> consumed_any m \<longrightarrow> consumed_end m = 0" by blast+
  show ?thesis
  proof (cases "sy_consumer s")
    case (C_load q k mark)
    then have c: "recovering s q" "k \<le> 5" "seq_of s = q \<longrightarrow> loaded k mark (rs_marks s)"
      using r by (simp_all add: reader_inv_def Let_def)
    have "loaded k mark (rs_marks s')" if "seq_of s' = q"
      using c(3) rec [OF c(1) that] loaded_same [OF rec [OF c(1) that, THEN conjunct2]] by blast
    then show ?thesis using C_load base R(1) [OF c(1)] c(2) by (simp add: reader_inv_def same(1))
  next
    case (C_check q mark)
    then have c: "recovering s q" "seq_of s = q \<longrightarrow> mark = recovery_mark (rs_marks s)"
      using r by (simp_all add: reader_inv_def Let_def)
    have "mark = recovery_mark (rs_marks s')" if "seq_of s' = q"
      using c(2) rec [OF c(1) that] by metis
    then show ?thesis using C_check base R(1) [OF c(1)] by (simp add: reader_inv_def same(1))
  next
    case (C_drop q mark stop)
    then have c: "recovering_to s q mark" "stop_ok s stop" "\<forall>k\<in>set (beyond s stop). before mark k"
      using r by (simp_all add: reader_inv_def Let_def)
    then have "\<forall>k\<in>set (beyond s' stop). before mark k" using R(7) [OF c(2)] behind [OF c(1)] by blast
    then show ?thesis using C_drop base R(3) [OF c(1)] R(6) [OF c(2)] by (simp add: reader_inv_def same(1))
  next
    case (C_dropped q mark stop)
    then have c: "recovering_to s q mark" "stop_ok s stop" "\<forall>k\<in>set (beyond s stop). before mark k"
        "read_index (rs_marks s) \<noteq> stop" "mark_position (hd (Q_of s)) \<le> mark_position mark"
      using r by (simp_all add: reader_inv_def Let_def)
    then have "\<forall>k\<in>set (beyond s' stop). before mark k" using R(7) [OF c(2)] behind [OF c(1)] by blast
    then show ?thesis
      using C_dropped base c(4,5) R(3) [OF c(1)] R(6) [OF c(2)] R(8) [OF c(2) stop_ahead(1) [OF c(2,4)]]
      by (simp add: reader_inv_def same(1,11))
  next
    case (C_pop stop safe)
    then have c: "placed_in s safe" "stop_ok s stop" "\<forall>k\<in>set (beyond s stop). block_end s \<le> mark_position k"
      using r by (simp_all add: reader_inv_def Let_def)
    then have "\<forall>k\<in>set (beyond s' stop). block_end s \<le> mark_position k" using R(7) [OF c(2)] new by blast
    then show ?thesis using C_pop base R(4) [OF c(1)] R(6) [OF c(2)] by (simp add: reader_inv_def same(1,12))
  next
    case (C_popped stop safe)
    then have c: "placed_in s safe" "stop_ok s stop" "\<forall>k\<in>set (beyond s stop). block_end s \<le> mark_position k"
        "read_index (rs_marks s) \<noteq> stop" "consumer_valid (rs_marks s)" "consumer (rs_marks s) = hd (Q_of s)"
      using r by (simp_all add: reader_inv_def Let_def)
    then have "\<forall>k\<in>set (beyond s' stop). block_end s \<le> mark_position k" using R(7) [OF c(2)] new by blast
    then show ?thesis
      using C_popped base c(4-6) R(4) [OF c(1)] R(6) [OF c(2)] R(8) [OF c(2) stop_ahead(1) [OF c(2,4)]]
      by (simp add: reader_inv_def same(1,4,5,11,12))
  next
    case (C_final safe)
    then have c: "placed_in s safe" "\<forall>k\<in>set (Q_of s). block_end s \<le> mark_position k"
      using r by (simp_all add: reader_inv_def Let_def)
    moreover have "set (Q_of s') \<subseteq> set (Q_of s) \<union> set new" using more by auto
    ultimately have "\<forall>k\<in>set (Q_of s'). block_end s \<le> mark_position k" using new by blast
    then show ?thesis using C_final base R(4) [OF c(1)] by (simp add: reader_inv_def same(1,12))
  next
    case (C_last q)
    then show ?thesis using r base R(5) ev by (simp add: reader_inv_def Let_def same(1,8,13))
  next
    case (C_guards r')
    then show ?thesis using r base R(5) ev by (simp add: reader_inv_def Let_def same(1,8,13))
  next
    case (C_bound q mark)
    then show ?thesis using r base R(3) by (simp add: reader_inv_def Let_def same(1))
  next
    case C_sequence
    then show ?thesis using r base by (simp add: reader_inv_def Let_def same(1,13))
  qed (use False in simp)
qed

section \<open>The steps of the producer\<close>

lemmas same_consumer_defs = same_consumer_def Let_def

lemma producer_invD:
  assumes "producer_inv s"
  shows "writes_ok (rs_writes s) (observed_end (rs_writes s))" "ranges_ok (rs_writes s) (sy_marks s @ flying s)"
    "producer_ok (rs_marks s) (rs_writes s) (sy_marks s @ flying s)" "rs_end s \<le> observed_end (rs_writes s)"
    "\<And>k. k \<in> set (flying s) \<Longrightarrow> mark_position k = rs_end s" "unat (seq_of s) \<le> sy_steps s"
    "seq_of s \<noteq> 0 \<Longrightarrow> even (seq_of s) \<Longrightarrow> snapshot s \<in> set (sy_marks s)"
    "odd (seq_of s) \<longleftrightarrow> (\<exists>mark k. sy_producer s = P_recover mark (Suc k))"
    "sorted_wrt before (sy_marks s @ flying s)"
  using assms by (auto simp: producer_inv_def Let_def ranges_ok_def)

lemma begin_write_ok:
  assumes p: "producer_inv s"
  shows "producer_inv (begin_write n info gap s) \<and> env_step s (begin_write n info gap s) []"
proof (cases "sy_producer s \<noteq> P_idle \<or> n = 0 \<or> - 1 - rs_end s < n")
  case True
  then have "begin_write n info gap s = s" by (simp add: begin_write_def)
  then show ?thesis using p producer_invD(9) [OF p] by (simp add: env_step_def same_consumer_defs sorted_wrt_append)
next
  case False
  then have idle: "sy_producer s = P_idle" and n: "n \<noteq> 0" "\<not> - 1 - rs_end s < n" by auto
  obtain mark changed where o: "observe_mark (rs_end s) n info gap (rs_marks s) = (mark, changed)" by fastforce
  define w where "w = the_write (rs_end s) n info gap"
  define ms' where "ms' = (if changed then sy_marks s @ [mark] else sy_marks s)"
  define s' where "s' = s\<lparr>rs_marks := observe_producer n mark (rs_marks s), rs_writes := rs_writes s @ [w],
      sy_producer := if changed then P_load mark else P_publish\<rparr>"
  have s': "begin_write n info gap s = s'" using False by (simp add: begin_write_def o s'_def w_def)
  have fl: "flying s = []" using idle by (simp add: flying_def)
  have e: "observed_end (rs_writes s) = rs_end s" using p idle by (simp add: producer_inv_def Let_def)
  note P = producer_invD [OF p]
  have wo: "writes_ok (rs_writes s) (rs_end s)" and ro: "ranges_ok (rs_writes s) (sy_marks s)"
    and po: "producer_ok (rs_marks s) (rs_writes s) (sy_marks s)" using P(1-3) by (simp_all add: e fl)
  note R = observe_ranges [OF wo ro po o w_def ms'_def]
  have lt: "rs_end s < rs_end s + n" by (rule end_word [OF n])
  have w: "wr_start w = rs_end s" "wr_end w = rs_end s + n" by (simp_all add: w_def the_write_def)
  have first: "rs_writes s = [] \<longrightarrow> rs_end s = 0" using e by (auto simp: observed_end_def)
  have wo': "writes_ok (rs_writes s @ [w]) (rs_end s + n)"
    using writes_ok_snoc [OF wo w(1) _ first] lt by (simp add: w(2))
  have ms: "sy_marks s' @ flying s' = ms'" by (simp add: s'_def flying_def ms'_def)
  have q: "Q_of s' = Q_of s" by (rule queued_same) (simp_all add: s'_def observe_producer_def)
  have sn: "snapshot s' = snapshot s" "seq_of s' = seq_of s" "recovery_mark (rs_marks s') = recovery_mark (rs_marks s)"
    using idle by (simp_all add: s'_def snapshot_def observe_producer_def recovery_mark_def)
  have "seq_of s \<noteq> 0 \<longrightarrow> snapshot s \<in> set (sy_marks s)" using P(7,8) idle by simp
  moreover have "even (seq_of s)" using P(8) idle by simp
  moreover have "\<forall>k\<in>set (flying s'). mark_position k = rs_end s'"
    using observe_mark_matches(1) [OF o] by (simp add: s'_def flying_def)
  moreover have "observed_end (rs_writes s') = rs_end s + n" by (simp add: s'_def observed_end_def w)
  ultimately have "producer_inv s'"
    unfolding producer_inv_def Let_def ms sn using R wo' less_imp_le [OF lt] P(6)
    by (simp add: s'_def)
  moreover have "env_step s s' []"
    unfolding env_step_def same_consumer_defs q sn using P(9) fl
    by (simp add: s'_def observe_producer_def)
  ultimately show ?thesis by (simp add: s')
qed

text \<open>The steps that hand over a mark, one by one.\<close>

lemma step_load_ok:
  assumes p: "producer_inv s" and pc: "sy_producer s = P_load mark"
  shows "producer_inv (produce s) \<and> env_step s (produce s) []"
proof -
  let ?pc = "if RF_MARK_CAPACITY \<le> write_index (rs_marks s) - read_index (rs_marks s)
      then P_recover mark 0 else P_slot mark (write_index (rs_marks s))"
  have s': "produce s = s\<lparr>sy_producer := ?pc\<rparr>" using pc by (simp add: produce_def Let_def)
  have same: "flying (s\<lparr>sy_producer := ?pc\<rparr>) = flying s" "snapshot (s\<lparr>sy_producer := ?pc\<rparr>) = snapshot s"
    using pc by (simp_all add: flying_def snapshot_def)
  have "even (seq_of s)" using producer_invD(8) [OF p] pc by simp
  then have "producer_inv (s\<lparr>sy_producer := ?pc\<rparr>)"
    using p pc queued_room [of "rs_marks s"] unfolding producer_inv_def Let_def same by (simp add: stored_def)
  moreover have "env_step s (s\<lparr>sy_producer := ?pc\<rparr>) []"
    using producer_invD(9) [OF p] unfolding env_step_def same same_consumer_defs by (simp add: sorted_wrt_append)
  ultimately show ?thesis by (simp only: s')
qed

lemma queued_slot:
  assumes "queued m < 4096"
  shows "queued_marks (m\<lparr>queue := (queue m)(slot (write_index m) := mark)\<rparr>) = queued_marks m"
proof -
  have w: "write_index m = read_index m + of_nat (queued m)" by (simp add: queued_def)
  have "slot (read_index m + of_nat i) \<noteq> slot (write_index m)" if "i < queued m" for i
    using slot_other [OF that assms, of "read_index m"] by (simp only: w [symmetric] not_False_eq_True)
  then show ?thesis by (simp add: queued_marks_def queued_def)
qed

lemma step_slot_ok:
  assumes p: "producer_inv s" and pc: "sy_producer s = P_slot mark i"
  shows "producer_inv (produce s) \<and> env_step s (produce s) []"
proof -
  let ?m = "rs_marks s"
  let ?s = "s\<lparr>rs_marks := ?m\<lparr>queue := (queue ?m)(slot i := mark)\<rparr>, sy_producer := P_index i\<rparr>"
  have s': "produce s = ?s" using pc by (simp add: produce_def Let_def)
  have i: "i = write_index ?m" "queued ?m < 4096" using p pc by (simp_all add: producer_inv_def Let_def)
  have same: "flying ?s = flying s" "snapshot ?s = snapshot s" "Q_of ?s = Q_of s"
    using pc queued_slot [OF i(2)] by (simp_all add: flying_def snapshot_def recovery_mark_def i(1))
  have "even (seq_of s)" using producer_invD(8) [OF p] pc by simp
  then have "producer_inv ?s"
    using p pc i unfolding producer_inv_def Let_def same by (simp add: producer_ok_def queued_def)
  moreover have "env_step s ?s []"
    using producer_invD(9) [OF p] unfolding env_step_def same same_consumer_defs
    by (simp add: sorted_wrt_append recovery_mark_def)
  ultimately show ?thesis by (simp only: s')
qed

lemma step_index_ok:
  assumes p: "producer_inv s" and pc: "sy_producer s = P_index i"
  shows "\<exists>new. producer_inv (produce s) \<and> env_step s (produce s) new"
proof -
  let ?m = "rs_marks s"
  define mark where "mark = queue ?m (slot i)"
  define s' where "s' = s\<lparr>rs_marks := ?m\<lparr>write_index := i + 1\<rparr>, sy_marks := sy_marks s @ [mark], sy_producer := P_publish\<rparr>"
  have s': "produce s = s'" using pc by (simp add: produce_def Let_def s'_def mark_def)
  have i: "i = write_index ?m" "queued ?m < 4096" using p pc by (simp_all add: producer_inv_def Let_def)
  have q: "Q_of s' = Q_of s @ [mark]"
    by (rule queued_push) (use i in \<open>simp_all add: s'_def mark_def\<close>)
  have fl: "flying s = [mark]" "flying s' = []" using pc by (simp_all add: flying_def s'_def mark_def)
  have sn: "snapshot s' = snapshot s" "recovery_mark (rs_marks s') = recovery_mark ?m" "seq_of s' = seq_of s"
    using pc by (simp_all add: snapshot_def s'_def recovery_mark_def)
  have D: "sy_marks s' = sy_marks s @ [mark]" by (simp add: s'_def)
  have "even (seq_of s)" using producer_invD(8) [OF p] pc by simp
  then have "producer_inv s'"
    using p unfolding producer_inv_def Let_def fl sn D by (simp add: s'_def producer_ok_def)
  moreover have "env_step s s' [mark]"
    using producer_invD(5,9) [OF p] fl(1) unfolding env_step_def q sn D same_consumer_defs
    by (simp add: s'_def)
  ultimately show ?thesis using s' by metis
qed

lemma step_recover_ok:
  assumes p: "producer_inv s" and pc: "sy_producer s = P_recover mark k"
    and room: "unat (seq_of s) < sy_steps s" "sy_steps s < 2 ^ LENGTH(64)"
  shows "\<exists>new. producer_inv (produce s) \<and> env_step s (produce s) new"
proof -
  let ?m = "rs_marks s"
  have k: "k \<le> 7" "stored k mark ?m" using p pc by (simp_all add: producer_inv_def Let_def)
  have fl: "flying s = [mark]" using pc by (simp add: flying_def)
  have D: "\<forall>j\<in>set (sy_marks s). before j mark" "sorted_wrt before (sy_marks s @ [mark])" "mark_position mark = rs_end s"
    using producer_invD(5,9) [OF p] fl by (auto simp: sorted_wrt_append)
  have par: "odd (seq_of s) = (k \<noteq> 0)" using producer_invD(8) [OF p] pc by (cases k) auto
  have add: "unat (seq_of s + 1) = Suc (unat (seq_of s))"
    using room unat_sum_lt [of "seq_of s" 1] by simp
  define m' where "m' = store_recovery k mark ?m"
  have own: "queued_marks m' = queued_marks ?m" "producer m' = producer ?m" "producer_valid m' = producer_valid ?m"
    "queue m' = queue ?m" "read_index m' = read_index ?m" "write_index m' = write_index ?m"
    "consumer m' = consumer ?m" "consumer_valid m' = consumer_valid ?m" "consumed_end m' = consumed_end ?m"
    "minimum_safe_position m' = minimum_safe_position ?m" "seen_recovery_sequence m' = seen_recovery_sequence ?m"
    "consumed_any m' = consumed_any ?m" "gap_pending m' = gap_pending ?m"
    by (rule queued_same; simp add: m'_def store_recovery_def) (simp_all add: m'_def store_recovery_def)
  have sq: "recovery_sequence m' = (if k = 0 \<or> k = 7 then seq_of s + 1 else seq_of s)"
    using k(1) by (simp add: m'_def store_recovery_def)
  show ?thesis
  proof (cases "k < 7")
    case True
    define s' where "s' = s\<lparr>rs_marks := m', sy_producer := P_recover mark (Suc k)\<rparr>"
    have s': "produce s = s'" using pc True by (simp add: produce_def Let_def s'_def m'_def)
    have fl': "flying s' = [mark]" "snapshot s' = mark" by (simp_all add: s'_def flying_def snapshot_def)
    have st: "stored (Suc k) mark m'"
      using k(2) True by (auto simp: stored_def m'_def store_recovery_def less_Suc_eq)
    have "odd (seq_of s')" using par True sq by (simp add: s'_def)
    then have "producer_inv s'"
      using p fl' fl st True room(1) unfolding producer_inv_def Let_def
      by (simp add: s'_def producer_ok_def own sq add)
    moreover have "snapshot s = mark" if "k \<noteq> 0" using pc that by (cases k) (simp_all add: snapshot_def)
    then have "env_step s s' []"
      using D par True add unfolding env_step_def same_consumer_defs fl'(2)
      by (cases "k = 0") (simp_all add: s'_def own sq sorted_wrt_append)
    ultimately show ?thesis using s' by metis
  next
    case False
    then have k7: "k = 7" using k(1) by simp
    define s' where "s' = s\<lparr>rs_marks := m', sy_marks := sy_marks s @ [mark], sy_producer := P_publish\<rparr>"
    have s': "produce s = s'" using pc k7 by (simp add: produce_def Let_def s'_def m'_def)
    have "recovery_mark m' = mark"
      using k(2) by (auto simp: k7 stored_def m'_def store_recovery_def recovery_mark_def prod_eq_iff)
    then have fl': "flying s' = []" "snapshot s' = mark" by (simp_all add: s'_def flying_def snapshot_def)
    have "snapshot s = mark" using pc k7 by (simp add: snapshot_def numeral_eq_Suc)
    have ev: "even (seq_of s')" using par k7 sq by (simp add: s'_def)
    then have "producer_inv s'"
      using p fl' fl room(1) unfolding producer_inv_def Let_def
      by (simp add: s'_def producer_ok_def own sq add k7)
    moreover have "env_step s s' [mark]"
      using D par add \<open>snapshot s = mark\<close> unfolding env_step_def same_consumer_defs fl'(2)
      by (simp add: s'_def own sq k7)
    ultimately show ?thesis using s' by metis
  qed
qed

lemma step_publish_ok:
  assumes p: "producer_inv s" and pc: "sy_producer s = P_publish"
  shows "producer_inv (produce s) \<and> env_step s (produce s) []"
proof -
  let ?s = "s\<lparr>rs_end := observed_end (rs_writes s), sy_producer := P_idle\<rparr>"
  have s': "produce s = ?s" using pc by (simp add: produce_def Let_def)
  have same: "flying s = []" "flying ?s = []" "snapshot ?s = snapshot s"
    using pc by (simp_all add: flying_def snapshot_def)
  have "even (seq_of s)" using producer_invD(8) [OF p] pc by simp
  then have "producer_inv ?s" using p unfolding producer_inv_def Let_def same by simp
  moreover have "env_step s ?s []"
    using producer_invD(4,9) [OF p] unfolding env_step_def same same_consumer_defs by simp
  ultimately show ?thesis by (simp only: s')
qed

lemma rf_produce_ok:
  assumes "producer_inv s" "unat (seq_of s) < sy_steps s" "sy_steps s < 2 ^ LENGTH(64)"
  shows "\<exists>new. producer_inv (produce s) \<and> env_step s (produce s) new"
proof (cases "sy_producer s")
  case P_idle
  then have "produce s = s" by (simp add: produce_def)
  then have "env_step s (produce s) []"
    using producer_invD(9) [OF assms(1)] by (simp add: env_step_def same_consumer_defs sorted_wrt_append)
  then show ?thesis using assms(1) \<open>produce s = s\<close> by metis
qed (use assms step_load_ok step_slot_ok step_index_ok step_recover_ok step_publish_ok in blast)+

end
