(* ===== verification/Rf_Stream_Marks_Safety.thy ===== *)
theory Rf_Stream_Marks_Safety
  imports Rf_Stream_Marks_Steps
begin

text \<open>
  The steps of the consumer of the stream marks keep the invariant of Rf\_Stream\_Marks\_Steps;
  with the steps of the producer this gives what a read may say in every interleaving.
\<close>

section \<open>What the producer relies on\<close>

definition same_producer :: "rf_system \<Rightarrow> rf_system \<Rightarrow> bool" where
  "same_producer s s' =
     (let m = rs_marks s; m' = rs_marks s' in
      rs_writes s' = rs_writes s \<and> rs_end s' = rs_end s \<and> sy_marks s' = sy_marks s \<and>
      sy_producer s' = sy_producer s \<and> sy_steps s' = sy_steps s \<and>
      producer m' = producer m \<and> producer_valid m' = producer_valid m \<and> queue m' = queue m \<and>
      write_index m' = write_index m \<and> recovery_sequence m' = recovery_sequence m \<and>
      recovery_mark m' = recovery_mark m \<and> queued m' \<le> queued m)"

lemma same_producerD:
  assumes "same_producer s s'"
  shows "flying s' = flying s" "snapshot s' = snapshot s" "seq_of s' = seq_of s" "sy_marks s' = sy_marks s"
    "rs_end s' = rs_end s" "rs_writes s' = rs_writes s" "recovery_mark (rs_marks s') = recovery_mark (rs_marks s)"
proof -
  show "flying s' = flying s" "seq_of s' = seq_of s" "sy_marks s' = sy_marks s"
    "rs_end s' = rs_end s" "rs_writes s' = rs_writes s" "recovery_mark (rs_marks s') = recovery_mark (rs_marks s)"
    using assms by (simp_all add: same_producer_def Let_def flying_def split: rf_producer.split)
  show "snapshot s' = snapshot s"
    using assms by (simp add: same_producer_def Let_def snapshot_def split: rf_producer.split nat.split)
qed

lemma same_producer_inv:
  assumes p: "producer_inv s" and s: "same_producer s s'"
  shows "producer_inv s'"
proof -
  note same = same_producerD [OF s]
  have st: "stored k mark (rs_marks s') = stored k mark (rs_marks s)" for k mark
    using same(7) by (simp add: stored_def recovery_mark_def)
  have f: "sy_producer s' = sy_producer s" "sy_steps s' = sy_steps s" "write_index (rs_marks s') = write_index (rs_marks s)"
      "queued (rs_marks s') \<le> queued (rs_marks s)" "producer (rs_marks s') = producer (rs_marks s)"
      "producer_valid (rs_marks s') = producer_valid (rs_marks s)"
    using s by (simp_all add: same_producer_def Let_def)
  then show ?thesis
    using p unfolding producer_inv_def Let_def same st f(1-3) producer_ok_def
    by (auto split: rf_producer.splits)
qed

section \<open>Steps that move the consumer only\<close>

definition good_step :: "rf_system \<Rightarrow> rf_system \<Rightarrow> bool" where
  "good_step s s' = (same_producer s s' \<and> known_inv s' \<and> reader_inv s' \<and> answers_inv s')"

lemma good_stepI: "rf_good s \<Longrightarrow> good_step s s' \<Longrightarrow> rf_good s'"
  unfolding good_step_def rf_good_def using same_producer_inv by blast

abbreviation popping :: "rf_consumer \<Rightarrow> bool" where
  "popping pc \<equiv> (\<exists>stop safe. pc = C_popped stop safe)"

lemma moved:
  assumes "s' = s\<lparr>sy_consumer := pc\<rparr>"
  shows "same_producer s s'" "snapshot s' = snapshot s" "block_end s' = block_end s" "placed s' = placed s"
    "fresh s' q = fresh s q" "recovering s' q = recovering s q" "recovering_to s' q mark = recovering_to s q mark"
    "placed_in s' safe = placed_in s safe" "stop_ok s' stop = stop_ok s stop" "beyond s' stop = beyond s stop"
    "rs_marks s' = rs_marks s" "answers_inv s' = answers_inv s" "sy_consumer s' = pc"
proof -
  have sn: "snapshot s' = snapshot s" by (simp add: assms snapshot_def split: rf_producer.split nat.split)
  show "same_producer s s'" by (simp add: assms same_producer_def)
  show "snapshot s' = snapshot s" by (rule sn)
  show "block_end s' = block_end s" "placed s' = placed s"
    "fresh s' q = fresh s q" "recovering s' q = recovering s q" "recovering_to s' q mark = recovering_to s q mark"
    "placed_in s' safe = placed_in s safe" "stop_ok s' stop = stop_ok s stop" "beyond s' stop = beyond s stop"
    "rs_marks s' = rs_marks s" "answers_inv s' = answers_inv s" "sy_consumer s' = pc"
    using sn by (simp_all add: assms block_end_def placed_def fresh_def recovering_def recovering_to_def
        placed_in_def stop_ok_def beyond_def answers_inv_def)
qed

lemma moved_known:
  assumes "s' = s\<lparr>sy_consumer := pc\<rparr>" "known_inv s" "\<not> popping pc" "\<not> popping (sy_consumer s)"
  shows "known_inv s'"
proof -
  have "waiting s' = waiting s" using assms(1,3,4) by (auto simp: waiting_def split: rf_consumer.split)
  then show ?thesis using assms(2) moved [OF assms(1)] by (simp add: known_inv_def assms(1))
qed

lemma moved_good:
  assumes "rf_good s" "s' = s\<lparr>sy_consumer := pc\<rparr>" "\<not> popping pc" "\<not> popping (sy_consumer s)" "reader_inv s'"
  shows "good_step s s'"
  using assms moved [OF assms(2)] moved_known [OF assms(2)] by (simp add: good_step_def rf_good_def)

lemma reader_base:
  assumes "reader_inv s" "sy_consumer s \<noteq> C_idle"
  shows "fst (sy_block s) < block_end s" "block_end s \<le> rs_end s" "consumed_end (rs_marks s) \<le> block_end s"
    "\<not> consumed_any (rs_marks s) \<longrightarrow> consumed_end (rs_marks s) = 0"
  using assms by (simp_all add: reader_inv_def Let_def)

text \<open>A snapshot in progress lies behind every block that can be read.\<close>

lemma odd_fresh:
  assumes "producer_inv s" "block_end s \<le> rs_end s" "odd (seq_of s)"
  shows "fresh s q"
proof -
  obtain mark k where pc: "sy_producer s = P_recover mark (Suc k)" using assms(1,3) producer_invD(8) by blast
  then have "mark_position mark = rs_end s" using producer_invD(5) [OF assms(1), of mark] by (simp add: flying_def)
  then show ?thesis using pc assms(2) by (simp add: fresh_def snapshot_def)
qed

lemma step_sequence:
  assumes g: "rf_good s" and pc: "sy_consumer s = C_sequence"
  shows "good_step s (consume s)"
proof -
  let ?pc = "if seq_of s = seen_of s then C_guards True else if odd (seq_of s) then C_guards False
      else C_load (seq_of s) 0 zero_mark"
  have i: "producer_inv s" "known_inv s" "reader_inv s" using g by (simp_all add: rf_good_def)
  have b: "sy_consumer s \<noteq> C_idle" using pc by simp
  note base = reader_base [OF i(3) b]
  have pl: "placed s" using i(3) pc by (simp add: reader_inv_def Let_def)
  have s': "consume s = s\<lparr>sy_consumer := ?pc\<rparr>" using pc by (simp add: consume_def Let_def)
  have k: "even (seen_of s)" "unat (seen_of s) \<le> unat (seq_of s)" using i(2) by (simp_all add: known_inv_def Let_def)
  then have lt: "seq_of s \<noteq> seen_of s \<Longrightarrow> unat (seen_of s) < unat (seq_of s)"
    by (metis le_neq_implies_less word_unat_eq_iff)
  have fr: "odd (seq_of s) \<Longrightarrow> fresh s (seen_of s)" using odd_fresh [OF i(1) base(2)] .
  have "reader_inv (s\<lparr>sy_consumer := ?pc\<rparr>)"
    using base pl fr lt unfolding reader_inv_def Let_def moved [OF refl]
    by (auto simp: fresh_def recovering_def loaded_def split: if_splits)
  then show ?thesis unfolding s' by (intro moved_good [OF g refl]) (use pc in auto)
qed

lemma step_load:
  assumes g: "rf_good s" and pc: "sy_consumer s = C_load q k mark"
  shows "good_step s (consume s)"
proof -
  let ?m = "rs_marks s"
  let ?pc = "if k < 5 then C_load q (Suc k) (load_recovery k ?m mark) else C_check q (load_recovery k ?m mark)"
  have i: "reader_inv s" using g by (simp add: rf_good_def)
  have b: "sy_consumer s \<noteq> C_idle" using pc by simp
  note base = reader_base [OF i b]
  have r: "recovering s q" "k \<le> 5" "seq_of s = q \<longrightarrow> loaded k mark ?m"
    using i pc by (simp_all add: reader_inv_def Let_def)
  have s': "consume s = s\<lparr>sy_consumer := ?pc\<rparr>" using pc by (simp add: consume_def Let_def)
  have l: "loaded (Suc k) (load_recovery k ?m mark) ?m" if "seq_of s = q"
    using r(2,3) that by (auto simp: loaded_def load_recovery_def less_Suc_eq)
  have six: "load_recovery k ?m mark = recovery_mark ?m" if "seq_of s = q" "k = 5"
    using l [OF that(1)] that(2) by (auto simp: loaded_def recovery_mark_def prod_eq_iff intro: rf_mark.equality)
  have "reader_inv (s\<lparr>sy_consumer := ?pc\<rparr>)"
    using base r(1,2) l six unfolding reader_inv_def Let_def moved [OF refl] by auto
  then show ?thesis unfolding s' by (intro moved_good [OF g refl]) (use pc in auto)
qed

lemma step_check:
  assumes g: "rf_good s" and pc: "sy_consumer s = C_check q mark"
  shows "good_step s (consume s)"
proof -
  let ?m = "rs_marks s"
  let ?pc = "if q \<noteq> seq_of s then C_guards False else C_bound q mark"
  have i: "producer_inv s" "known_inv s" "reader_inv s" using g by (simp_all add: rf_good_def)
  have b: "sy_consumer s \<noteq> C_idle" using pc by simp
  note base = reader_base [OF i(3) b]
  have r: "recovering s q" "seq_of s = q \<longrightarrow> mark = recovery_mark ?m"
    using i pc by (simp_all add: reader_inv_def Let_def)
  have s': "consume s = s\<lparr>sy_consumer := ?pc\<rparr>" using pc by (simp add: consume_def Let_def)
  have "recovering_to s q mark" if q: "seq_of s = q"
  proof -
    have e: "even (seq_of s)" "unat (seen_of s) < unat (seq_of s)" using r(1) q by (simp_all add: recovering_def)
    then have n: "seq_of s \<noteq> 0" "seq_of s \<noteq> seen_of s" by auto
    have sn: "snapshot s = mark"
      using producer_invD(8) [OF i(1)] e(1) r(2) q by (auto simp: snapshot_def split: rf_producer.split nat.split)
    then have "mark \<in> set (sy_marks s)" using producer_invD(7) [OF i(1) n(1) e(1)] by simp
    moreover have "consumer_valid ?m \<longrightarrow> before (consumer ?m) mark"
      using i(2) n(2) sn by (simp add: known_inv_def Let_def)
    ultimately show ?thesis using r(1) sn q by (simp add: recovering_to_def)
  qed
  moreover have "placed s" "q \<noteq> seq_of s \<longrightarrow> fresh s (seen_of s)"
    using r(1) by (auto simp: recovering_def fresh_def)
  ultimately have "reader_inv (s\<lparr>sy_consumer := ?pc\<rparr>)"
    using base unfolding reader_inv_def Let_def moved [OF refl] by auto
  then show ?thesis unfolding s' by (intro moved_good [OF g refl]) (use pc in auto)
qed

lemma step_bound:
  assumes g: "rf_good s" and pc: "sy_consumer s = C_bound q mark"
  shows "good_step s (consume s)"
proof -
  let ?pc = "C_drop q mark (write_index (rs_marks s))"
  have i: "reader_inv s" using g by (simp add: rf_good_def)
  have b: "sy_consumer s \<noteq> C_idle" using pc by simp
  have "reader_inv (s\<lparr>sy_consumer := ?pc\<rparr>)"
    using reader_base [OF i b] i pc unfolding reader_inv_def Let_def moved [OF refl]
    by (simp add: stop_ok_def beyond_def queued_def)
  moreover have "consume s = s\<lparr>sy_consumer := ?pc\<rparr>" using pc by (simp add: consume_def Let_def)
  ultimately show ?thesis using moved_good [OF g refl, of ?pc] pc by simp
qed

lemma step_last:
  assumes g: "rf_good s" and pc: "sy_consumer s = C_last q"
  shows "good_step s (consume s)"
proof -
  let ?pc = "C_guards (q = seq_of s)"
  have i: "reader_inv s" using g by (simp add: rf_good_def)
  have b: "sy_consumer s \<noteq> C_idle" using pc by simp
  have "reader_inv (s\<lparr>sy_consumer := ?pc\<rparr>)"
    using reader_base [OF i b] i pc unfolding reader_inv_def Let_def moved [OF refl] by simp
  moreover have "consume s = s\<lparr>sy_consumer := ?pc\<rparr>" using pc by (simp add: consume_def Let_def)
  ultimately show ?thesis using moved_good [OF g refl, of ?pc] pc by simp
qed

section \<open>Steps that take marks out\<close>

text \<open>Releasing the slot of the oldest mark.\<close>

lemma release_facts:
  assumes "stop_ok s stop" "read_index (rs_marks s) \<noteq> stop"
    "s' = s\<lparr>rs_marks := (rs_marks s)\<lparr>read_index := read_index (rs_marks s) + 1\<rparr>, sy_consumer := pc\<rparr>"
  shows "Q_of s = hd (Q_of s) # Q_of s'" "stop_ok s' stop" "beyond s' stop = beyond s stop" "same_producer s s'"
    "snapshot s' = snapshot s"
proof -
  let ?m = "rs_marks s" and ?m' = "rs_marks s'"
  note ne = stop_ahead [OF assms(1,2)]
  have q: "Q_of s = queue ?m (slot (read_index ?m)) # Q_of s'"
    by (rule queued_pop [OF ne(2)]) (simp_all add: assms(3))
  then show "Q_of s = hd (Q_of s) # Q_of s'" by simp
  then have len: "queued ?m = Suc (queued ?m')" by (metis length_Cons length_queued_marks)
  note d = index_step [OF assms(2)]
  have d': "unat (stop - read_index ?m') = unat (stop - read_index ?m) - 1"
    using d(1) by (simp only: assms(3)) simp
  show "stop_ok s' stop" using assms(1) d' len d(2) by (simp add: stop_ok_def)
  have "drop (unat (stop - read_index ?m)) (hd (Q_of s) # Q_of s') = drop (unat (stop - read_index ?m) - 1) (Q_of s')"
    using d(2) by (cases "unat (stop - read_index ?m)") simp_all
  then show "beyond s' stop = beyond s stop" unfolding beyond_def d' using q by simp
  show sp: "same_producer s s'"
    using len by (simp add: same_producer_def assms(3) recovery_mark_def)
  show "snapshot s' = snapshot s" by (rule same_producerD(2) [OF sp])
qed

lemma step_dropped:
  assumes g: "rf_good s" and pc: "sy_consumer s = C_dropped q mark stop"
  shows "good_step s (consume s)"
proof -
  define s' where "s' = s\<lparr>rs_marks := (rs_marks s)\<lparr>read_index := read_index (rs_marks s) + 1\<rparr>,
      sy_consumer := C_drop q mark stop\<rparr>"
  have s': "consume s = s'" using pc by (simp add: consume_def Let_def s'_def)
  have i: "known_inv s" "reader_inv s" "answers_inv s" using g by (simp_all add: rf_good_def)
  have b: "sy_consumer s \<noteq> C_idle" using pc by simp
  note base = reader_base [OF i(2) b]
  have r: "recovering_to s q mark" "stop_ok s stop" "\<forall>k\<in>set (beyond s stop). before mark k"
      "read_index (rs_marks s) \<noteq> stop" "mark_position (hd (Q_of s)) \<le> mark_position mark"
    using i pc by (simp_all add: reader_inv_def Let_def)
  note F = release_facts [OF r(2,4) s'_def]
  have same: "seq_of s' = seq_of s" "seen_of s' = seen_of s" "consumer (rs_marks s') = consumer (rs_marks s)"
      "consumer_valid (rs_marks s') = consumer_valid (rs_marks s)" "sy_marks s' = sy_marks s"
      "block_end s' = block_end s" "sy_consumer s' = C_drop q mark stop"
    by (simp_all add: s'_def block_end_def)
  have w: "waiting s = Q_of s" "waiting s' = Q_of s'" using pc by (simp_all add: waiting_def s'_def)
  have sub: "set (Q_of s') \<subseteq> set (Q_of s)" "sorted_wrt before (Q_of s) \<longrightarrow> sorted_wrt before (Q_of s')"
    using F(1) by (metis set_subset_Cons, metis sorted_wrt.simps(2))
  have unseen: "seq_of s \<noteq> seen_of s" using r(1) by (auto simp: recovering_to_def recovering_def)
  have "mark_position mark \<le> mark_position (snapshot s)"
    using r(1) by (auto simp: recovering_to_def before_def split: if_splits)
  then have "k \<in> set (Q_of s') \<or> mark_position k \<le> mark_position (snapshot s)" if "k \<in> set (Q_of s)" for k
    using that F(1) r(5) by (metis order_trans set_ConsD)
  then have "known_inv s'"
    using i(1) sub unseen unfolding known_inv_def Let_def same F(5) w by blast
  moreover have "recovering_to s' q mark"
    using r(1) unfolding recovering_to_def recovering_def fresh_def placed_def same F(5) by (simp add: s'_def)
  then have "reader_inv s'"
    using base r(3) F(2,3) unfolding reader_inv_def Let_def same by (simp add: s'_def)
  moreover have "answers_inv s'" using i(3) by (simp add: answers_inv_def s'_def Let_def)
  ultimately show ?thesis using F(4) by (simp add: good_step_def s')
qed

lemma step_drop:
  assumes g: "rf_good s" and pc: "sy_consumer s = C_drop q mark stop"
  shows "good_step s (consume s)"
proof -
  let ?m = "rs_marks s"
  have i: "known_inv s" "reader_inv s" "answers_inv s" using g by (simp_all add: rf_good_def)
  have b: "sy_consumer s \<noteq> C_idle" using pc by simp
  note base = reader_base [OF i(2) b]
  have r: "recovering_to s q mark" "stop_ok s stop" "\<forall>k\<in>set (beyond s stop). before mark k"
    using i pc by (simp_all add: reader_inv_def Let_def)
  show ?thesis
  proof (cases "read_index ?m \<noteq> stop \<and> mark_position (queue ?m (slot (read_index ?m))) \<le> mark_position mark")
    case True
    let ?pc = "C_dropped q mark stop"
    have "mark_position (hd (Q_of s)) \<le> mark_position mark" using stop_ahead(3) [OF r(2)] True by simp
    then have "reader_inv (s\<lparr>sy_consumer := ?pc\<rparr>)"
      using base r True unfolding reader_inv_def Let_def moved [OF refl] by simp
    moreover have "consume s = s\<lparr>sy_consumer := ?pc\<rparr>" using pc True by (simp add: consume_def Let_def)
    ultimately show ?thesis using moved_good [OF g refl, of ?pc] pc by simp
  next
    case False
    define s' where "s' = s\<lparr>rs_marks := recover_to mark q ?m, sy_consumer := C_last q\<rparr>"
    have s': "consume s = s'" using pc False by (auto simp: consume_def Let_def s'_def)
    have k: "sorted_wrt before (Q_of s)" "consumer_valid ?m \<longrightarrow> before (consumer ?m) mark" "mark \<in> set (sy_marks s)"
        "even q" "unat q \<le> unat (seq_of s)" "fresh s q"
        "if seq_of s = q then snapshot s = mark else before mark (snapshot s)"
      using i(1) r(1) by (simp_all add: known_inv_def Let_def recovering_to_def recovering_def)
    have ahead: "before mark k" if "k \<in> set (Q_of s)" for k
    proof (cases "read_index ?m = stop")
      case True
      then show ?thesis using r(3) that by (simp add: beyond_def)
    next
      case ne: False
      note h = stop_ahead [OF r(2) ne]
      have "before mark (hd (Q_of s))" using False ne h(3) by (simp add: before_def not_le)
      moreover have "k = hd (Q_of s) \<or> before (hd (Q_of s)) k"
        using k(1) that h(1) by (cases "Q_of s") auto
      ultimately show ?thesis by (auto simp: before_def)
    qed
    have q: "Q_of s' = Q_of s" "waiting s' = Q_of s"
      by (simp_all add: s'_def waiting_def recover_to_def queued_marks_def queued_def)
    have sp: "same_producer s s'"
      by (simp add: same_producer_def s'_def recover_to_def recovery_mark_def queued_def)
    have f: "seen_of s' = q" "consumer (rs_marks s') = mark" "consumer_valid (rs_marks s')"
      "minimum_safe_position (rs_marks s') = mark_position mark" "gap_pending (rs_marks s')"
      "sy_consumer s' = C_last q" "block_end s' = block_end s" "sy_block s' = sy_block s"
      "consumed_end (rs_marks s') = consumed_end ?m" "consumed_any (rs_marks s') = consumed_any ?m"
      "rs_blocks s' = rs_blocks s"
      by (simp_all add: s'_def recover_to_def block_end_def)
    note sm = same_producerD [OF sp]
    have last: "mark_position j \<le> mark_position mark \<or> j \<in> set (Q_of s) \<or>
        seq_of s \<noteq> q \<and> mark_position j \<le> mark_position (snapshot s)" if "j \<in> set (sy_marks s)" for j
    proof -
      have "consumer_valid ?m \<and> mark_position j \<le> mark_position (consumer ?m) \<or> j \<in> set (Q_of s) \<or>
          mark_position j \<le> mark_position (snapshot s)"
        using i(1) that by (auto simp: known_inv_def Let_def)
      then show ?thesis using k(2,7) by (auto simp: before_def split: if_splits)
    qed
    have "set (Q_of s) \<subseteq> set (sy_marks s)" using i(1) by (simp add: known_inv_def Let_def)
    moreover have "seq_of s \<noteq> q \<longrightarrow> before mark (snapshot s)" using k(7) by simp
    ultimately have "known_inv s'"
      unfolding known_inv_def Let_def sm f q using k(1,3-5) ahead last f(3) by blast
    moreover have "reader_inv s'"
      unfolding reader_inv_def Let_def f sm
      using base k(6) f sm by (simp add: placed_def fresh_def)
    moreover have "answers_inv s'"
      using i(3) f(5) unfolding answers_inv_def Let_def f(2,9-11) sm by simp
    ultimately show ?thesis using sp by (simp add: good_step_def s')
  qed
qed

section \<open>Steps of a block\<close>

lemma step_guards:
  assumes g: "rf_good s" and pc: "sy_consumer s = C_guards recovered"
  shows "good_step s (consume s)"
proof -
  let ?m = "rs_marks s" and ?a = "fst (sy_block s)"
  have i: "known_inv s" "reader_inv s" "answers_inv s" using g by (simp_all add: rf_good_def)
  have b: "sy_consumer s \<noteq> C_idle" using pc by simp
  note base = reader_base [OF i(2) b]
  have r: "placed s" "fresh s (seen_of s)" using i pc by (simp_all add: reader_inv_def Let_def)
  obtain safe m1 where gd: "read_guards ?a recovered ?m = (safe, m1)" by fastforce
  have m1: "m1 = (if consumed_any ?m \<and> consumed_end ?m \<noteq> ?a then ?m\<lparr>gap_pending := True\<rparr> else ?m)"
    using gd by (auto simp: read_guards_def Let_def)
  have safe: "safe \<Longrightarrow> minimum_safe_position ?m \<le> ?a \<and> (consumed_any ?m \<longrightarrow> consumed_end ?m \<le> ?a)"
    using gd by (auto simp: read_guards_def Let_def split: if_splits)
  define s' where "s' = s\<lparr>rs_marks := m1, sy_consumer := C_pop (write_index ?m) safe\<rparr>"
  have wi: "write_index m1 = write_index ?m" by (simp add: m1)
  have s': "consume s = s'" using pc gd by (simp add: consume_def Let_def s'_def)
  have qs: "queued_marks m1 = queued_marks ?m" "queued m1 = queued ?m"
    using queued_same [of m1 ?m] by (simp_all add: m1)
  have sp: "same_producer s s'" using qs by (simp add: same_producer_def s'_def m1 recovery_mark_def)
  note sm = same_producerD [OF sp]
  have f: "seen_of s' = seen_of s" "consumer (rs_marks s') = consumer ?m" "consumer_valid (rs_marks s') = consumer_valid ?m"
    "minimum_safe_position (rs_marks s') = minimum_safe_position ?m" "sy_consumer s' = C_pop (write_index ?m) safe"
    "block_end s' = block_end s" "sy_block s' = sy_block s" "consumed_end (rs_marks s') = consumed_end ?m"
    "consumed_any (rs_marks s') = consumed_any ?m" "rs_blocks s' = rs_blocks s" "Q_of s' = Q_of s"
    "gap_pending (rs_marks s') = (gap_pending ?m \<or> consumed_any ?m \<and> consumed_end ?m \<noteq> ?a)"
    "queued (rs_marks s') = queued ?m" "read_index (rs_marks s') = read_index ?m"
    using qs by (auto simp add: s'_def m1 block_end_def)
  have w: "waiting s' = waiting s" using f(5,11) pc by (simp add: waiting_def)
  have "known_inv s'" using i(1) unfolding known_inv_def Let_def sm f w .
  moreover have "placed_in s' safe"
  proof -
    have "consumer_valid ?m \<longrightarrow> mark_position (consumer ?m) < block_end s \<or>
        mark_position (consumer ?m) \<le> minimum_safe_position ?m"
      using r(1) base(3) by (auto simp: placed_def intro: less_le_trans)
    moreover have "mark_position (consumer ?m) \<le> ?a" if "safe" "consumer_valid ?m"
    proof (cases "mark_position (consumer ?m) < consumed_end ?m")
      case True
      then have "consumed_any ?m" using base(4) by (cases "consumed_any ?m") auto
      then show ?thesis using True safe [OF that(1)] by (auto intro: less_imp_le less_le_trans)
    next
      case False
      then show ?thesis using r(1) that safe by (auto simp: placed_def intro: order_trans)
    qed
    moreover have "consumed_end ?m = ?a" if "\<not> gap_pending (rs_marks s')"
      using that f(12) i(3) by (auto simp: answers_inv_def Let_def)
    ultimately show ?thesis using r(2) unfolding placed_in_def Let_def fresh_def sm f by blast
  qed
  moreover have "stop_ok s' (write_index ?m)" "beyond s' (write_index ?m) = []"
    by (simp_all add: stop_ok_def beyond_def f queued_def [of ?m, symmetric])
  ultimately have "known_inv s'" "reader_inv s'"
    using base unfolding reader_inv_def Let_def f sm by simp_all
  moreover have "answers_inv s'" using i(3) unfolding answers_inv_def Let_def f sm by auto
  ultimately show ?thesis using sp by (simp add: good_step_def s')
qed

lemma step_popped:
  assumes g: "rf_good s" and pc: "sy_consumer s = C_popped stop safe"
  shows "good_step s (consume s)"
proof -
  define s' where "s' = s\<lparr>rs_marks := (rs_marks s)\<lparr>read_index := read_index (rs_marks s) + 1\<rparr>,
      sy_consumer := C_pop stop safe\<rparr>"
  have s': "consume s = s'" using pc by (simp add: consume_def Let_def s'_def)
  have i: "known_inv s" "reader_inv s" "answers_inv s" using g by (simp_all add: rf_good_def)
  have b: "sy_consumer s \<noteq> C_idle" using pc by simp
  note base = reader_base [OF i(2) b]
  have r: "placed_in s safe" "stop_ok s stop" "\<forall>k\<in>set (beyond s stop). block_end s \<le> mark_position k"
      "read_index (rs_marks s) \<noteq> stop" "consumer_valid (rs_marks s)" "consumer (rs_marks s) = hd (Q_of s)"
    using i pc by (simp_all add: reader_inv_def Let_def)
  note F = release_facts [OF r(2,4) s'_def]
  have same: "seq_of s' = seq_of s" "seen_of s' = seen_of s" "consumer (rs_marks s') = consumer (rs_marks s)"
      "consumer_valid (rs_marks s') = consumer_valid (rs_marks s)" "sy_marks s' = sy_marks s"
      "block_end s' = block_end s" "sy_consumer s' = C_pop stop safe"
    by (simp_all add: s'_def block_end_def)
  have "tl (Q_of s) = Q_of s'" using F(1) by (metis list.sel(3))
  then have w: "waiting s = Q_of s'" "waiting s' = Q_of s'" using pc by (simp_all add: waiting_def s'_def)
  have sub: "set (Q_of s') \<subseteq> set (Q_of s)" "sorted_wrt before (Q_of s) \<longrightarrow> sorted_wrt before (Q_of s')"
    using F(1) by (metis set_subset_Cons, metis sorted_wrt.simps(2))
  have "k \<in> set (Q_of s') \<or> mark_position k \<le> mark_position (consumer (rs_marks s))" if "k \<in> set (Q_of s)" for k
    using that F(1) r(6) by (metis order_refl set_ConsD)
  then have "known_inv s'"
    using i(1) sub r(5) unfolding known_inv_def Let_def same F(5) w by blast
  moreover have "placed_in s' safe"
    using r(1) unfolding placed_in_def Let_def fresh_def same F(5) by (simp add: s'_def)
  then have "reader_inv s'"
    using base r(3) F(2,3) unfolding reader_inv_def Let_def same by (simp add: s'_def)
  moreover have "answers_inv s'" using i(3) by (simp add: answers_inv_def s'_def Let_def)
  ultimately show ?thesis using F(4) by (simp add: good_step_def s')
qed

lemma step_pop:
  assumes g: "rf_good s" and pc: "sy_consumer s = C_pop stop safe"
  shows "good_step s (consume s)"
proof -
  let ?m = "rs_marks s" and ?a = "fst (sy_block s)"
  let ?h = "queue ?m (slot (read_index ?m))"
  have i: "known_inv s" "reader_inv s" "answers_inv s" using g by (simp_all add: rf_good_def)
  have b: "sy_consumer s \<noteq> C_idle" using pc by simp
  note base = reader_base [OF i(2) b]
  have r: "placed_in s safe" "stop_ok s stop" "\<forall>k\<in>set (beyond s stop). block_end s \<le> mark_position k"
    using i pc by (simp_all add: reader_inv_def Let_def)
  have sorted: "sorted_wrt before (Q_of s)" using i(1) by (simp add: known_inv_def Let_def)
  have be: "fst (sy_block s) + snd (sy_block s) = block_end s" by (simp add: block_end_def)
  show ?thesis
  proof (cases "read_index ?m = stop \<or> block_end s \<le> mark_position ?h")
    case True
    have "block_end s \<le> mark_position k" if "k \<in> set (Q_of s)" for k
    proof (cases "read_index ?m = stop")
      case True
      then show ?thesis using r(3) that by (simp add: beyond_def)
    next
      case ne: False
      note h = stop_ahead [OF r(2) ne]
      have "k = hd (Q_of s) \<or> before (hd (Q_of s)) k" using sorted that h(1) by (cases "Q_of s") auto
      then show ?thesis using True ne h(3) by (auto simp: before_def intro: order_trans less_imp_le)
    qed
    then have "reader_inv (s\<lparr>sy_consumer := C_final safe\<rparr>)"
      using base r(1) unfolding reader_inv_def Let_def moved [OF refl] by simp
    moreover have "consume s = s\<lparr>sy_consumer := C_final safe\<rparr>"
      using pc True by (simp add: consume_def Let_def be)
    ultimately show ?thesis using moved_good [OF g refl, of "C_final safe"] pc by simp
  next
    case False
    then have ne: "read_index ?m \<noteq> stop" and low: "mark_position ?h < block_end s" by auto
    note h = stop_ahead [OF r(2) ne]
    define safe' where "safe' = (if ?a < mark_position ?h then False else safe)"
    define s' where "s' = s\<lparr>rs_marks := ?m\<lparr>consumer := ?h, consumer_valid := True, gap_pending := True\<rparr>,
        sy_consumer := C_popped stop safe'\<rparr>"
    have s': "consume s = s'" using pc False by (simp add: consume_def Let_def be s'_def safe'_def)
    have sp: "same_producer s s'" by (simp add: same_producer_def s'_def recovery_mark_def queued_def)
    note sm = same_producerD [OF sp]
    have f: "seen_of s' = seen_of s" "consumer (rs_marks s') = ?h" "consumer_valid (rs_marks s') = True"
      "minimum_safe_position (rs_marks s') = minimum_safe_position ?m" "sy_consumer s' = C_popped stop safe'"
      "block_end s' = block_end s" "sy_block s' = sy_block s" "consumed_end (rs_marks s') = consumed_end ?m"
      "consumed_any (rs_marks s') = consumed_any ?m" "rs_blocks s' = rs_blocks s" "Q_of s' = Q_of s"
      "gap_pending (rs_marks s') = True" "queued (rs_marks s') = queued ?m" "read_index (rs_marks s') = read_index ?m"
      by (simp_all add: s'_def block_end_def queued_def queued_marks_def)
    have w: "waiting s' = tl (Q_of s)" "waiting s = Q_of s" using f(5,11) pc by (simp_all add: waiting_def)
    have hq: "?h \<in> set (Q_of s)" using h(1,3) by (metis hd_in_set)
    have tl: "\<forall>k\<in>set (tl (Q_of s)). before ?h k" using sorted h(1,3) by (cases "Q_of s") auto
    have up: "mark_position k \<le> mark_position ?h"
      if "consumer_valid ?m" "mark_position k \<le> mark_position (consumer ?m)" for k
    proof -
      have "before (consumer ?m) ?h" using i(1) that(1) hq w(2) by (simp add: known_inv_def Let_def)
      then show ?thesis using that(2) by (simp add: before_def)
    qed
    have fr: "fresh s (seen_of s)" using r(1) by (simp add: placed_in_def Let_def)
    then have uc: "seq_of s \<noteq> seen_of s \<longrightarrow> before ?h (snapshot s)"
      using low by (auto simp: fresh_def before_def intro: less_le_trans)
    have "known_inv s'"
      using i(1) hq tl up uc unfolding known_inv_def Let_def sm f w by blast
    moreover have "placed_in s' safe'"
      using fr low unfolding placed_in_def Let_def fresh_def sm f by (simp add: safe'_def not_less)
    then have "reader_inv s'"
      using base r(2,3) ne h(3) unfolding reader_inv_def Let_def f sm
      by (simp add: stop_ok_def beyond_def f)
    moreover have "answers_inv s'" using i(3) unfolding answers_inv_def Let_def f sm by simp
    ultimately show ?thesis using sp by (simp add: good_step_def s')
  qed
qed

text \<open>Where the snapshot is the one seen and the queue is behind the block, the mark held is the
  range of the block.\<close>

lemma held_mark_governs:
  assumes p: "producer_inv s" and k: "known_inv s" and b: "fst (sy_block s) < block_end s" "block_end s \<le> rs_end s"
    and c: "consumer_valid (rs_marks s)" "mark_position (consumer (rs_marks s)) \<le> fst (sy_block s)" "seq_of s = seen_of s"
    and q: "\<forall>k\<in>set (Q_of s). block_end s \<le> mark_position k"
    and w: "w \<in> set (rs_writes s)" "wr_start w < block_end s" "fst (sy_block s) < wr_end w"
  shows "matches (consumer (rs_marks s)) w"
proof -
  let ?c = "consumer (rs_marks s)" and ?ms = "sy_marks s @ flying s"
  have low: "mark_position j \<le> mark_position ?c" if j: "j \<in> set ?ms" "mark_position j < block_end s" for j
  proof -
    have "j \<notin> set (flying s)" using producer_invD(5) [OF p, of j] j(2) b(2) by auto
    then have "j \<in> set (sy_marks s)" using j(1) by simp
    moreover have "j \<notin> set (Q_of s)" using q j(2) by auto
    ultimately show ?thesis using k c(3) by (auto simp: known_inv_def Let_def)
  qed
  have "?c \<in> set ?ms" using k c(1) by (simp add: known_inv_def Let_def)
  then have "governs ?ms ?c (fst (sy_block s))"
    using c(2) low b(1) by (auto simp: governs_def intro: le_less_trans)
  then show ?thesis
    by (rule governs_write(2) [where y = "block_end s", OF producer_invD(1,2) [OF p] w(1) _ w(3,2)]) (rule low)
qed

lemma step_final:
  assumes g: "rf_good s" and pc: "sy_consumer s = C_final safe"
  shows "good_step s (consume s)"
proof -
  let ?m = "rs_marks s" and ?a = "fst (sy_block s)" and ?n = "snd (sy_block s)"
  let ?c = "consumer ?m"
  have i: "producer_inv s" "known_inv s" "reader_inv s" "answers_inv s" using g by (simp_all add: rf_good_def)
  have b: "sy_consumer s \<noteq> C_idle" using pc by simp
  note base = reader_base [OF i(3) b]
  have r: "placed_in s safe" "\<forall>k\<in>set (Q_of s). block_end s \<le> mark_position k"
    using i pc by (simp_all add: reader_inv_def Let_def)
  obtain ok out m1 where fin: "read_final ?a ?n safe ?m = (ok, out, m1)" by (metis prod_cases3)
  have ok: "ok = (safe \<and> consumer_valid ?m \<and> \<not> mark_unsafe ?c \<and> seen_of s = seq_of s)"
    and m1: "m1 = ?m\<lparr>consumed_end := block_end s, consumed_any := True, gap_pending := \<not> ok\<rparr>"
    and out: "out = read_info ?a ok ?m"
    using fin by (auto simp: read_final_def Let_def block_end_def split: if_splits)
  define bl where "bl = \<lparr>bl_start = ?a, bl_end = block_end s, bl_safe = ok, bl_info = out\<rparr>"
  define s' where "s' = s\<lparr>rs_marks := m1, sy_consumer := C_idle, rs_blocks := rs_blocks s @ [bl]\<rparr>"
  have s': "consume s = s'" using pc fin by (simp add: consume_def Let_def s'_def bl_def block_end_def)
  have sp: "same_producer s s'" by (simp add: same_producer_def s'_def m1 recovery_mark_def queued_def)
  note sm = same_producerD [OF sp]
  have f: "seen_of s' = seen_of s" "consumer (rs_marks s') = ?c" "consumer_valid (rs_marks s') = consumer_valid ?m"
    "minimum_safe_position (rs_marks s') = minimum_safe_position ?m" "sy_consumer s' = C_idle"
    "consumed_end (rs_marks s') = block_end s" "consumed_any (rs_marks s') = True"
    "rs_blocks s' = rs_blocks s @ [bl]" "Q_of s' = Q_of s" "gap_pending (rs_marks s') = (\<not> ok)" "waiting s' = waiting s"
    using pc by (simp_all add: s'_def m1 queued_def queued_marks_def waiting_def)
  have "known_inv s'" using i(2) unfolding known_inv_def Let_def sm f .
  moreover have "reader_inv s'"
    using r(1) unfolding reader_inv_def Let_def f placed_def by (simp add: placed_in_def Let_def)
  moreover have "answers_inv s'"
  proof -
    have info: "block_rates bl = mark_rates ?c" "block_epochs bl = mark_epochs ?c"
        "discontinuity (fst (bl_info bl)) = (gap_pending ?m \<or> \<not> ok)"
        "discontinuity (snd (bl_info bl)) = (gap_pending ?m \<or> \<not> ok)"
      by (simp_all add: bl_def out read_info_def Let_def block_rates_def block_epochs_def)
    have "described bl w" if "ok" "w \<in> set (rs_writes s)" "overlaps bl w" for w
    proof -
      have "matches ?c w"
        by (rule held_mark_governs [OF i(1,2) base(1,2) _ _ _ r(2) that(2)])
          (use ok that(1,3) r(1) in \<open>auto simp: placed_in_def Let_def overlaps_def bl_def\<close>)
      then show ?thesis using ok that(1) info by (auto simp: matches_def described_def)
    qed
    then have sound: "sound_block (rs_writes s) bl" by (simp add: sound_block_def bl_def list_all_iff)
    have ends: "bl_end bl = block_end s" "bl_safe bl = ok" "bl_start bl = ?a" by (simp_all add: bl_def)
    have old: "\<not> gap_pending ?m \<Longrightarrow> rs_blocks s \<noteq> [] \<and> bl_safe (last (rs_blocks s)) \<and>
        bl_end (last (rs_blocks s)) = ?a \<and> block_rates (last (rs_blocks s)) = mark_rates ?c \<and>
        block_epochs (last (rs_blocks s)) = mark_epochs ?c"
      using i(4) r(1) by (simp add: answers_inv_def placed_in_def Let_def)
    have link: "rs_blocks s \<noteq> [] \<Longrightarrow> linked (last (rs_blocks s)) bl"
      using old info ends by (auto simp: linked_def)
    have "successively linked (rs_blocks s @ [bl])"
      using i(4) link by (auto simp: answers_inv_def Let_def successively_append_iff)
    moreover have "discontinuity (fst (bl_info (hd (rs_blocks s @ [bl])))) \<and>
        discontinuity (snd (bl_info (hd (rs_blocks s @ [bl]))))"
    proof (cases "rs_blocks s = []")
      case True
      then show ?thesis using old info(3,4) by auto
    next
      case False
      then show ?thesis using i(4) by (simp add: answers_inv_def Let_def)
    qed
    ultimately show ?thesis
      using i(4) sound base(2) info(1,2) ends unfolding answers_inv_def Let_def f sm by auto
  qed
  ultimately show ?thesis using sp by (simp add: good_step_def s')
qed

section \<open>All steps\<close>

lemma begin_read_good:
  assumes g: "rf_good s"
  shows "rf_good (begin_read a n s)"
proof (cases "sy_consumer s \<noteq> C_idle \<or> read_refused a n \<or> rs_end s < a + n \<or> a + n < consumed_end (rs_marks s)")
  case False
  define s' where "s' = s\<lparr>sy_block := (a, n), sy_consumer := C_sequence\<rparr>"
  have idle: "sy_consumer s = C_idle" using False by simp
  have s': "begin_read a n s = s'" using False by (simp add: begin_read_def s'_def)
  have i: "known_inv s" "reader_inv s" "answers_inv s" using g by (simp_all add: rf_good_def)
  have lt: "a < a + n" using False by (intro end_word) (auto simp: read_refused_def)
  have sp: "same_producer s s'" by (simp add: same_producer_def s'_def)
  note sm = same_producerD [OF sp]
  have w: "waiting s' = waiting s" using idle by (simp add: waiting_def s'_def)
  have m: "rs_marks s' = rs_marks s" by (simp add: s'_def)
  have "known_inv s'" using i(1) unfolding known_inv_def Let_def sm w m .
  moreover have "reader_inv s'"
    using i(2) idle False lt unfolding reader_inv_def Let_def m sm
    by (auto simp: s'_def block_end_def placed_def)
  moreover have "answers_inv s'" using i(3) by (simp add: answers_inv_def s'_def Let_def)
  ultimately show ?thesis using good_stepI [OF g] sp by (simp add: good_step_def s')
qed (use g in \<open>auto simp: begin_read_def\<close>)

lemma env_good:
  assumes g: "rf_good s" and e: "env_step s s' new" and p: "producer_inv s'"
    and w: "rs_writes s' = rs_writes s \<or> (\<exists>w. rs_writes s' = rs_writes s @ [w] \<and> wr_start w = rs_end s)"
  shows "rf_good s'"
proof -
  have i: "known_inv s" "reader_inv s" "answers_inv s" using g by (simp_all add: rf_good_def)
  have "Q_of s \<noteq> []" if "sy_consumer s = C_popped stop safe" for stop safe
    using i(2) that stop_ahead(1) by (auto simp: reader_inv_def Let_def)
  then have "known_inv s'" by (rule env_known [OF e i(1)])
  moreover have "reader_inv s'" using i(1) by (intro env_reader [OF e i(2)]) (simp add: known_inv_def Let_def)
  moreover have "answers_inv s'"
  proof -
    note same = env_same [OF e]
    have "sound_block (rs_writes s') b \<and> bl_end b \<le> rs_end s'" if "b \<in> set (rs_blocks s)" for b
    proof -
      have b: "sound_block (rs_writes s) b" "bl_end b \<le> rs_end s"
        using i(3) that by (auto simp: answers_inv_def Let_def)
      have "\<not> overlaps b w" if "wr_start w = rs_end s" for w
        using b(2) that by (simp add: overlaps_def not_less)
      then have "sound_block (rs_writes s') b" using b(1) w by (auto simp: sound_block_def)
      then show ?thesis using b(2) env_queue(3) [OF e] by (blast intro: order_trans)
    qed
    then show ?thesis using i(3) unfolding answers_inv_def Let_def same by blast
  qed
  ultimately show ?thesis using p by (simp add: rf_good_def)
qed

lemma consume_good:
  assumes g: "rf_good s"
  shows "rf_good (consume s)"
proof (cases "sy_consumer s")
  case C_idle
  then show ?thesis using g by (simp add: consume_def)
next
  case C_sequence
  show ?thesis by (rule good_stepI [OF g step_sequence [OF g C_sequence]])
next
  case (C_load q k mark)
  show ?thesis by (rule good_stepI [OF g step_load [OF g C_load]])
next
  case (C_check q mark)
  show ?thesis by (rule good_stepI [OF g step_check [OF g C_check]])
next
  case (C_bound q mark)
  show ?thesis by (rule good_stepI [OF g step_bound [OF g C_bound]])
next
  case (C_drop q mark stop)
  show ?thesis by (rule good_stepI [OF g step_drop [OF g C_drop]])
next
  case (C_dropped q mark stop)
  show ?thesis by (rule good_stepI [OF g step_dropped [OF g C_dropped]])
next
  case (C_last q)
  show ?thesis by (rule good_stepI [OF g step_last [OF g C_last]])
next
  case (C_guards recovered)
  show ?thesis by (rule good_stepI [OF g step_guards [OF g C_guards]])
next
  case (C_pop stop safe)
  show ?thesis by (rule good_stepI [OF g step_pop [OF g C_pop]])
next
  case (C_popped stop safe)
  show ?thesis by (rule good_stepI [OF g step_popped [OF g C_popped]])
next
  case (C_final safe)
  show ?thesis by (rule good_stepI [OF g step_final [OF g C_final]])
qed

lemma ticked:
  assumes "rf_good s"
  shows "rf_good (s\<lparr>sy_steps := Suc (sy_steps s)\<rparr>)"
proof -
  let ?s = "s\<lparr>sy_steps := Suc (sy_steps s)\<rparr>"
  have f: "flying ?s = flying s" "snapshot ?s = snapshot s" "waiting ?s = waiting s"
    by (simp_all add: flying_def snapshot_def waiting_def split: rf_producer.split nat.split rf_consumer.split)
  have "block_end ?s = block_end s" "placed ?s = placed s"
    "fresh ?s q = fresh s q" "recovering ?s q = recovering s q" "recovering_to ?s q mark = recovering_to s q mark"
    "placed_in ?s safe = placed_in s safe" "stop_ok ?s stop = stop_ok s stop" "beyond ?s stop = beyond s stop"
    for q mark safe stop
    using f by (simp_all add: block_end_def placed_def fresh_def recovering_def recovering_to_def
        placed_in_def stop_ok_def beyond_def)
  then have "reader_inv ?s = reader_inv s" by (simp add: reader_inv_def Let_def split: rf_consumer.split)
  moreover have "producer_inv s \<Longrightarrow> producer_inv ?s" unfolding producer_inv_def Let_def f by (simp split: rf_producer.splits)
  moreover have "known_inv ?s = known_inv s" by (simp add: known_inv_def f)
  moreover have "answers_inv ?s = answers_inv s" by (simp add: answers_inv_def)
  ultimately show ?thesis using assms by (simp only: rf_good_def)
qed

lemma rf_act_good:
  assumes g: "rf_good s" and n: "Suc (sy_steps s) < 2 ^ LENGTH(64)"
  shows "rf_good (rf_act act s)"
proof -
  define s1 where "s1 = s\<lparr>sy_steps := Suc (sy_steps s)\<rparr>"
  have g1: "rf_good s1" unfolding s1_def by (rule ticked [OF g])
  have p1: "producer_inv s1" using g1 by (simp add: rf_good_def)
  have room: "unat (seq_of s1) < sy_steps s1" "sy_steps s1 < 2 ^ LENGTH(64)"
    using g n producer_invD(6) [of s] by (simp_all add: s1_def rf_good_def)
  show ?thesis
  proof (cases act)
    case (Act_Write k info gap)
    have "rs_writes (begin_write k info gap s1) = rs_writes s1 \<or>
        (\<exists>w. rs_writes (begin_write k info gap s1) = rs_writes s1 @ [w] \<and> wr_start w = rs_end s1)"
      by (simp add: begin_write_def the_write_def split: prod.split)
    then have "rf_good (begin_write k info gap s1)" using begin_write_ok [OF p1] env_good [OF g1] by blast
    then show ?thesis using Act_Write by (simp add: rf_act_def s1_def)
  next
    case Act_Produce
    have "rs_writes (produce s1) = rs_writes s1"
      by (simp add: produce_def Let_def split: rf_producer.split)
    then have "rf_good (produce s1)" using rf_produce_ok [OF p1 room] env_good [OF g1] by blast
    then show ?thesis using Act_Produce by (simp add: rf_act_def s1_def)
  next
    case (Act_Read a k)
    then show ?thesis using begin_read_good [OF g1] by (simp add: rf_act_def s1_def)
  next
    case Act_Consume
    then show ?thesis using consume_good [OF g1] by (simp add: rf_act_def s1_def)
  qed
qed

lemma rf_system_start_good: "rf_good (rf_system_start marks)"
  by (simp add: rf_good_def rf_system_start_def rf_session_start_def rf_session.extend_def
      gui_rf_stream_marks_reset_def producer_inv_def known_inv_def reader_inv_def answers_inv_def Let_def
      observed_end_def writes_ok_def ranges_ok_def producer_ok_def flying_def queued_marks_def queued_def placed_def)

text \<open>The number of steps stays below the range of the 64-bit counters.\<close>

definition counted :: "rf_system \<Rightarrow> bool" where
  "counted s = (sy_steps s < 2 ^ LENGTH(64) \<longrightarrow> rf_good s)"

lemma steps_counted: "sy_steps (rf_act act s) = Suc (sy_steps s)"
  by (cases act) (simp_all add: rf_act_def begin_write_def begin_read_def produce_def consume_def Let_def
      split: prod.split rf_producer.split rf_consumer.split)

interpretation rf_marks: inv_machine rf_act counted
  by unfold_locales (auto simp: counted_def steps_counted intro: rf_act_good)

lemma run_steps: "sy_steps (fold rf_act acts s) = sy_steps s + length acts"
  by (induction acts arbitrary: s) (simp_all add: steps_counted)

lemma rf_run_good:
  assumes "length acts < 2 ^ 64"
  shows "rf_good (fold rf_act acts (rf_system_start marks))"
proof -
  have "counted (rf_system_start marks)" by (simp add: counted_def rf_system_start_good)
  then have "counted (fold rf_act acts (rf_system_start marks))" by (rule rf_marks.run_good)
  moreover have "sy_steps (rf_system_start marks) = 0" by (simp add: rf_system_start_def rf_session.extend_def)
  ultimately show ?thesis using assms by (simp add: counted_def run_steps)
qed

section \<open>The calls are their steps\<close>

definition leads_to :: "(rf_system \<Rightarrow> rf_system) \<Rightarrow> rf_system \<Rightarrow> rf_system \<Rightarrow> bool" where
  "leads_to step s s' = (\<exists>k. (step ^^ k) s = s')"

lemma leads_refl: "leads_to step s s"
  unfolding leads_to_def by (intro exI [of _ 0]) simp

lemma leads_step: "leads_to step (step s) s' \<Longrightarrow> leads_to step s s'"
  unfolding leads_to_def by (metis funpow_swap1 funpow.simps(2) o_apply)

lemma leads_trans: "leads_to step s s' \<Longrightarrow> leads_to step s' s'' \<Longrightarrow> leads_to step s s''"
  unfolding leads_to_def by (metis funpow_add o_apply)

text \<open>An undisturbed observation is the call as it is written.\<close>

lemma recover_steps:
  assumes "sy_producer s = P_recover mark 0"
  shows "\<exists>s'. leads_to produce s s' \<and> sy_producer s' = P_publish \<and>
    rs_marks s' = rf_publish_recovery mark (rs_marks s)"
proof -
  define st where "st = (\<lambda>k. s\<lparr>rs_marks := fold (\<lambda>i. store_recovery i mark) [0..<k] (rs_marks s),
      sy_producer := P_recover mark k\<rparr>)"
  have "(produce ^^ k) s = st k" if "k \<le> 7" for k
    using that
  proof (induction k)
    case 0
    then show ?case using assms by (simp add: st_def)
  next
    case (Suc k)
    then show ?case by (simp add: st_def produce_def Let_def)
  qed
  then have seven: "(produce ^^ 7) s = st 7" by simp
  have "fold (\<lambda>i. store_recovery i mark) [0..<7] m =
      m\<lparr>recovery_sequence := recovery_sequence m + 1, recovery_position := mark_position mark,
        recovery_rates := mark_rates mark, recovery_epochs := mark_epochs mark, recovery_unsafe := mark_unsafe mark\<rparr>" for m
    by (simp add: upt_rec store_recovery_def)
  then have "store_recovery 7 mark (fold (\<lambda>i. store_recovery i mark) [0..<7] m) = rf_publish_recovery mark m" for m
    by (simp add: store_recovery_def rf_publish_recovery_def)
  then have "rs_marks (produce (st 7)) = rf_publish_recovery mark (rs_marks s)"
    by (simp add: st_def produce_def Let_def)
  moreover have "sy_producer (produce (st 7)) = P_publish" by (simp add: st_def produce_def Let_def)
  moreover have "leads_to produce s (produce (st 7))"
    using seven leads_trans [of produce s "st 7"] leads_step [OF leads_refl, of produce "st 7"]
    unfolding leads_to_def by blast
  ultimately show ?thesis by blast
qed

lemma observe_steps:
  assumes idle: "sy_producer s = P_idle" and n: "n \<noteq> 0" "\<not> - 1 - rs_end s < n"
  shows "\<exists>s'. leads_to produce (begin_write n info gap s) s' \<and> sy_producer s' = P_publish \<and>
    rs_marks s' = gui_rf_stream_marks_observe (rs_end s) n info gap (rs_marks s)"
proof -
  obtain mark changed where o: "observe_mark (rs_end s) n info gap (rs_marks s) = (mark, changed)" by fastforce
  define s1 where "s1 = begin_write n info gap s"
  let ?m1 = "observe_producer n mark (rs_marks s)"
  have s1: "rs_marks s1 = ?m1" "sy_producer s1 = (if changed then P_load mark else P_publish)"
    using idle n o by (simp_all add: s1_def begin_write_def)
  have call: "gui_rf_stream_marks_observe (rs_end s) n info gap (rs_marks s) = (if changed then queue_mark mark ?m1 else ?m1)"
    using n o by (simp add: gui_rf_stream_marks_observe_def Let_def)
  show ?thesis
  proof (cases changed)
    case False
    then show ?thesis using s1 call leads_refl [of produce s1] by (auto simp: s1_def)
  next
    case ch: True
    show ?thesis
    proof (cases "RF_MARK_CAPACITY \<le> write_index ?m1 - read_index ?m1")
      case True
      define s2 where "s2 = produce s1"
      have s2: "rs_marks s2 = ?m1" "sy_producer s2 = P_recover mark 0"
        using True s1 ch by (simp_all add: s2_def produce_def Let_def)
      obtain s' where "leads_to produce s2 s'" "sy_producer s' = P_publish" "rs_marks s' = rf_publish_recovery mark ?m1"
        using recover_steps [OF s2(2)] s2(1) by auto
      then show ?thesis
        using call ch True leads_step [of produce s1 s'] by (auto simp: queue_mark_def Let_def s1_def s2_def)
    next
      case False
      define s2 where "s2 = produce s1"
      define s3 where "s3 = produce s2"
      define s4 where "s4 = produce s3"
      have s2: "rs_marks s2 = ?m1" "sy_producer s2 = P_slot mark (write_index ?m1)"
        using False s1 ch by (simp_all add: s2_def produce_def Let_def)
      have s3: "rs_marks s3 = ?m1\<lparr>queue := (queue ?m1)(slot (write_index ?m1) := mark)\<rparr>"
          "sy_producer s3 = P_index (write_index ?m1)"
        using s2 by (simp_all add: s3_def produce_def Let_def)
      have qm: "queue_mark mark ?m1 =
          ?m1\<lparr>queue := (queue ?m1)(slot (write_index ?m1) := mark), write_index := write_index ?m1 + 1\<rparr>"
        unfolding queue_mark_def Let_def using False by (rule if_not_P)
      have "rs_marks s4 = queue_mark mark ?m1" "sy_producer s4 = P_publish"
        unfolding qm using s3 by (simp_all add: s4_def produce_def Let_def)
      moreover have "leads_to produce s1 s4" unfolding s4_def s3_def s2_def by (rule leads_step [OF leads_step [OF leads_step [OF leads_refl]]])
      moreover have "gui_rf_stream_marks_observe (rs_end s) n info gap (rs_marks s) = queue_mark mark ?m1"
        using call ch by (simp only: if_True)
      ultimately show ?thesis unfolding s1_def by metis
    qed
  qed
qed

text \<open>An undisturbed read is the call as it is written.\<close>

lemma drop_steps:
  assumes "sy_consumer s = C_drop q mark stop" "marks = rs_marks s" "limit = mark_position mark"
  shows "leads_to consume s (s\<lparr>rs_marks := recover_to mark q (drop_marks limit stop marks), sy_consumer := C_last q\<rparr>)"
  using assms
proof (induction limit stop marks arbitrary: s rule: drop_marks.induct)
  case (1 limit stop marks)
  show ?case
  proof (cases "read_index marks \<noteq> stop \<and> mark_position (queue marks (slot (read_index marks))) \<le> limit")
    case True
    define s1 where "s1 = consume s"
    define s2 where "s2 = consume s1"
    have s1: "s1 = s\<lparr>sy_consumer := C_dropped q mark stop\<rparr>" using 1(2-4) True by (simp add: s1_def consume_def Let_def)
    have s2: "s2 = s\<lparr>rs_marks := marks\<lparr>read_index := read_index marks + 1\<rparr>, sy_consumer := C_drop q mark stop\<rparr>"
      using 1(3) by (simp add: s2_def s1 consume_def Let_def)
    have "leads_to consume s2 (s2\<lparr>rs_marks := recover_to mark q
        (drop_marks limit stop (marks\<lparr>read_index := read_index marks + 1\<rparr>)), sy_consumer := C_last q\<rparr>)"
      by (rule 1(1) [OF refl True]) (simp_all add: s2 1(4))
    moreover have "drop_marks limit stop marks = drop_marks limit stop (marks\<lparr>read_index := read_index marks + 1\<rparr>)"
      using True by (subst drop_marks.simps) (simp add: Let_def)
    ultimately have "leads_to consume s2 (s\<lparr>rs_marks := recover_to mark q (drop_marks limit stop marks), sy_consumer := C_last q\<rparr>)"
      by (simp add: s2)
    then show ?thesis unfolding s2_def s1_def by (rule leads_step [OF leads_step])
  next
    case False
    then have "drop_marks limit stop marks = marks" by (subst drop_marks.simps) (auto simp: Let_def)
    moreover have "consume s = s\<lparr>rs_marks := recover_to mark q marks, sy_consumer := C_last q\<rparr>"
      using 1(2-4) False by (auto simp: consume_def Let_def)
    ultimately show ?thesis using leads_step [OF leads_refl, of consume s] by simp
  qed
qed

lemma pop_steps:
  assumes "sy_consumer s = C_pop stop safe" "marks = rs_marks s" "a = fst (sy_block s)" "e = block_end s"
  shows "leads_to consume s (s\<lparr>rs_marks := snd (pop_marks a e stop safe marks),
    sy_consumer := C_final (fst (pop_marks a e stop safe marks))\<rparr>)"
  using assms
proof (induction a e stop safe marks arbitrary: s rule: pop_marks.induct)
  case (1 a e stop safe marks)
  let ?h = "queue marks (slot (read_index marks))"
  note st = 1(2-5)
  have e: "fst (sy_block s) + snd (sy_block s) = e" using st(4) by (simp add: block_end_def)
  show ?case
  proof (cases "read_index marks = stop \<or> e \<le> mark_position ?h")
    case True
    then have "pop_marks a e stop safe marks = (safe, marks)" by (subst pop_marks.simps) (simp add: Let_def)
    moreover have "consume s = s\<lparr>sy_consumer := C_final safe\<rparr>"
      using st True by (simp add: consume_def Let_def e)
    moreover have "s\<lparr>rs_marks := marks, sy_consumer := C_final safe\<rparr> = s\<lparr>sy_consumer := C_final safe\<rparr>"
      by (simp add: st(2))
    ultimately show ?thesis using leads_step [OF leads_refl, of consume s] by simp
  next
    case False
    define safe' where "safe' = (if a < mark_position ?h then False else safe)"
    define m2 where "m2 = marks\<lparr>consumer := ?h, consumer_valid := True, gap_pending := True, read_index := read_index marks + 1\<rparr>"
    define s1 where "s1 = consume s"
    define s2 where "s2 = consume s1"
    have s1: "s1 = s\<lparr>rs_marks := marks\<lparr>consumer := ?h, consumer_valid := True, gap_pending := True\<rparr>,
        sy_consumer := C_popped stop safe'\<rparr>"
      using st False by (simp add: s1_def consume_def Let_def e safe'_def)
    have s2: "s2 = s\<lparr>rs_marks := m2, sy_consumer := C_pop stop safe'\<rparr>"
      by (simp add: s2_def s1 m2_def consume_def Let_def)
    have "leads_to consume s2 (s2\<lparr>rs_marks := snd (pop_marks a e stop safe' m2),
        sy_consumer := C_final (fst (pop_marks a e stop safe' m2))\<rparr>)"
      unfolding safe'_def m2_def
      by (rule 1(1) [OF refl refl False]) (simp_all add: s2 st block_end_def safe'_def m2_def)
    moreover have "pop_marks a e stop safe marks = pop_marks a e stop safe' m2"
      using False by (subst pop_marks.simps) (simp add: Let_def safe'_def m2_def)
    ultimately have "leads_to consume s2 (s\<lparr>rs_marks := snd (pop_marks a e stop safe marks),
        sy_consumer := C_final (fst (pop_marks a e stop safe marks))\<rparr>)"
      by (simp add: s2)
    then show ?thesis unfolding s2_def s1_def by (rule leads_step [OF leads_step])
  qed
qed

lemma load_steps:
  assumes "sy_consumer s = C_load q 0 zero_mark"
  shows "leads_to consume s (s\<lparr>sy_consumer := C_check q (recovery_mark (rs_marks s))\<rparr>)"
proof -
  let ?m = "rs_marks s"
  let ?mark = "\<lambda>k. fold (\<lambda>i. load_recovery i ?m) [0..<k] zero_mark"
  have "(consume ^^ k) s = s\<lparr>sy_consumer := C_load q k (?mark k)\<rparr>" if "k \<le> 5" for k
    using that
  proof (induction k)
    case 0
    then show ?case using assms by simp
  next
    case (Suc k)
    then show ?case by (simp add: consume_def Let_def)
  qed
  from this [of 5] have "leads_to consume s (s\<lparr>sy_consumer := C_load q 5 (?mark 5)\<rparr>)"
    unfolding leads_to_def by blast
  moreover have "load_recovery 5 ?m (?mark 5) = recovery_mark ?m"
    by (simp add: upt_rec load_recovery_def recovery_mark_def zero_mark_def)
  then have "consume (s\<lparr>sy_consumer := C_load q 5 (?mark 5)\<rparr>) = s\<lparr>sy_consumer := C_check q (recovery_mark ?m)\<rparr>"
    by (simp add: consume_def Let_def)
  then have "leads_to consume (s\<lparr>sy_consumer := C_load q 5 (?mark 5)\<rparr>) (s\<lparr>sy_consumer := C_check q (recovery_mark ?m)\<rparr>)"
    using leads_step [OF leads_refl, of consume "s\<lparr>sy_consumer := C_load q 5 (?mark 5)\<rparr>"] by simp
  ultimately show ?thesis by (rule leads_trans)
qed

lemma rf_recover_steps:
  assumes "sy_consumer s = C_sequence"
  shows "leads_to consume s (s\<lparr>rs_marks := snd (rf_recover (rs_marks s)),
    sy_consumer := C_guards (fst (rf_recover (rs_marks s)))\<rparr>)"
proof -
  let ?m = "rs_marks s" and ?q = "seq_of s"
  define s1 where "s1 = consume s"
  have one: "leads_to consume s s1" unfolding s1_def by (rule leads_step [OF leads_refl])
  show ?thesis
  proof (cases "?q = seen_of s \<or> odd ?q")
    case True
    then have "s1 = s\<lparr>rs_marks := snd (rf_recover ?m), sy_consumer := C_guards (fst (rf_recover ?m))\<rparr>"
      using assms by (auto simp: s1_def consume_def rf_recover_def Let_def)
    then show ?thesis using one by simp
  next
    case False
    define mark where "mark = recovery_mark ?m"
    define m1 where "m1 = recover_to mark ?q (drop_marks (mark_position mark) (write_index ?m) ?m)"
    have s1: "s1 = s\<lparr>sy_consumer := C_load ?q 0 zero_mark\<rparr>" using assms False by (simp add: s1_def consume_def Let_def)
    then have two: "leads_to consume s1 (s\<lparr>sy_consumer := C_check ?q mark\<rparr>)"
      using load_steps [of s1 ?q] by (simp add: mark_def)
    have three: "leads_to consume (s\<lparr>sy_consumer := C_check ?q mark\<rparr>) (s\<lparr>sy_consumer := C_bound ?q mark\<rparr>)"
      using leads_step [OF leads_refl, of consume "s\<lparr>sy_consumer := C_check ?q mark\<rparr>"]
      by (simp add: consume_def Let_def)
    have four: "leads_to consume (s\<lparr>sy_consumer := C_bound ?q mark\<rparr>)
        (s\<lparr>sy_consumer := C_drop ?q mark (write_index ?m)\<rparr>)"
      using leads_step [OF leads_refl, of consume "s\<lparr>sy_consumer := C_bound ?q mark\<rparr>"]
      by (simp add: consume_def Let_def)
    have five: "leads_to consume (s\<lparr>sy_consumer := C_drop ?q mark (write_index ?m)\<rparr>)
        (s\<lparr>rs_marks := m1, sy_consumer := C_last ?q\<rparr>)"
      using drop_steps [of "s\<lparr>sy_consumer := C_drop ?q mark (write_index ?m)\<rparr>" ?q mark "write_index ?m" ?m]
      by (simp add: m1_def)
    have six: "leads_to consume (s\<lparr>rs_marks := m1, sy_consumer := C_last ?q\<rparr>)
        (s\<lparr>rs_marks := m1, sy_consumer := C_guards (?q = recovery_sequence m1)\<rparr>)"
      using leads_step [OF leads_refl, of consume "s\<lparr>rs_marks := m1, sy_consumer := C_last ?q\<rparr>"]
      by (simp add: consume_def Let_def)
    have "rf_recover ?m = (?q = recovery_sequence m1, m1)"
      using False by (simp add: rf_recover_def Let_def m1_def mark_def)
    then show ?thesis
      using leads_trans [OF one leads_trans [OF two leads_trans [OF three leads_trans [OF four leads_trans [OF five six]]]]]
      by simp
  qed
qed

lemma read_steps:
  assumes idle: "sy_consumer s = C_idle" and r: "\<not> read_refused a n" "a + n \<le> rs_end s" "consumed_end (rs_marks s) \<le> a + n"
    and res: "gui_rf_stream_marks_read a n info (rs_marks s) = (ok, out, m)"
  shows "leads_to consume (begin_read a n s)
    (s\<lparr>sy_block := (a, n), rs_marks := m,
       rs_blocks := rs_blocks s @ [\<lparr>bl_start = a, bl_end = a + n, bl_safe = ok, bl_info = out\<rparr>]\<rparr>)"
proof -
  define t where "t = (\<lambda>m pc. s\<lparr>sy_block := (a, n), rs_marks := m, sy_consumer := pc\<rparr>)"
  have s0: "begin_read a n s = t (rs_marks s) C_sequence"
    using idle r by (simp add: begin_read_def t_def not_less)
  obtain recovered m1 where rec: "rf_recover (rs_marks s) = (recovered, m1)" by fastforce
  obtain safe m2 where gd: "read_guards a recovered m1 = (safe, m2)" by fastforce
  obtain safe3 m3 where pop: "pop_marks a (a + n) (write_index m2) safe m2 = (safe3, m3)" by fastforce
  have fin: "read_final a n safe3 m3 = (ok, out, m)"
    using res r(1) by (simp add: gui_rf_stream_marks_read_def rec gd pop)
  have wi: "write_index m2 = write_index m1" using gd by (auto simp: read_guards_def Let_def)
  have one: "leads_to consume (t (rs_marks s) C_sequence) (t m1 (C_guards recovered))"
    using rf_recover_steps [of "t (rs_marks s) C_sequence"] by (simp add: t_def rec)
  have "consume (t m1 (C_guards recovered)) = t m2 (C_pop (write_index m2) safe)"
    by (simp add: consume_def Let_def t_def gd wi)
  then have two: "leads_to consume (t m1 (C_guards recovered)) (t m2 (C_pop (write_index m2) safe))"
    using leads_step [OF leads_refl, of consume "t m1 (C_guards recovered)"] by simp
  have three: "leads_to consume (t m2 (C_pop (write_index m2) safe)) (t m3 (C_final safe3))"
  proof -
    let ?t = "t m2 (C_pop (write_index m2) safe)"
    have "leads_to consume ?t (?t\<lparr>rs_marks := snd (pop_marks a (a + n) (write_index m2) safe m2),
        sy_consumer := C_final (fst (pop_marks a (a + n) (write_index m2) safe m2))\<rparr>)"
      by (rule pop_steps) (simp_all add: t_def block_end_def)
    then show ?thesis unfolding pop fst_conv snd_conv by (simp add: t_def)
  qed
  have "consume (t m3 (C_final safe3)) = (t m C_idle)\<lparr>rs_blocks := rs_blocks s @
      [\<lparr>bl_start = a, bl_end = a + n, bl_safe = ok, bl_info = out\<rparr>]\<rparr>"
    by (simp add: consume_def Let_def t_def fin)
  then have four: "leads_to consume (t m3 (C_final safe3)) ((t m C_idle)\<lparr>rs_blocks := rs_blocks s @
      [\<lparr>bl_start = a, bl_end = a + n, bl_safe = ok, bl_info = out\<rparr>]\<rparr>)"
    using leads_step [OF leads_refl, of consume "t m3 (C_final safe3)"] by simp
  have "t m C_idle = s\<lparr>sy_block := (a, n), rs_marks := m\<rparr>" using idle by (simp add: t_def)
  then show ?thesis
    using leads_trans [OF one leads_trans [OF two leads_trans [OF three four]]] by (simp add: s0)
qed

section \<open>Properties\<close>

text \<open>C35: In every interleaving of fewer than 2 to the 64 atomic steps of the producer and the
  consumer, with any overflow of the queue and any tearing of the recovery snapshot: all writes
  a safe block overlaps are unambiguous and have exactly the rates and epochs the block is
  given; and a block that is not announced as a discontinuity is safe and continues the block
  read before it, which is safe, ends where it begins and has the same rates and epochs.\<close>

theorem rf_marks_sound:
  assumes "length acts < 2 ^ 64"
  shows "let s = fold rf_act acts (rf_system_start marks) in
    list_all (sound_block (rs_writes s)) (rs_blocks s) \<and> successively linked (rs_blocks s) \<and>
    list_all (\<lambda>b. bl_end b \<le> rs_end s) (rs_blocks s)"
  using rf_run_good [OF assms, of marks] by (simp add: rf_good_def answers_inv_def Let_def list_all_iff)

definition sample_acts :: "rf_act list" where
  "sample_acts = [Act_Write 8 zero_stamp False, Act_Produce, Act_Produce, Act_Produce, Act_Produce,
     Act_Read 0 8, Act_Consume, Act_Consume, Act_Consume, Act_Consume, Act_Consume, Act_Consume]"

lemma sample_run:
  "map bl_safe (rs_blocks (fold rf_act sample_acts (rf_system_start marks))) = [True]"
  by (simp add: sample_acts_def rf_system_start_def rf_session_start_def rf_session.extend_def
      gui_rf_stream_marks_reset_def rf_act_def begin_write_def produce_def begin_read_def consume_def
      observe_mark_def observe_producer_def observe_invalid_def the_write_def observed_end_def read_refused_def
      read_guards_def read_final_def zero_stamp_def slot_def RF_MARK_CAPACITY_def RF_PAIR_BYTES_def Let_def)

theorem rf_marks_sound_witness:
  "let s = fold rf_act sample_acts (rf_system_start (gui_rf_stream_marks_reset undefined)) in
    list_all (sound_block (rs_writes s)) (rs_blocks s) \<and> map bl_safe (rs_blocks s) = [True]"
proof -
  have "length sample_acts < 2 ^ 64" by (simp add: sample_acts_def)
  note e = rf_marks_sound [OF this, of "gui_rf_stream_marks_reset undefined"]
  show ?thesis using e sample_run [of "gui_rf_stream_marks_reset undefined"] unfolding Let_def by blast
qed

end
