(* ===== verification/Remote_Fs.thy ===== *)
theory Remote_Fs
  imports Prelude "HOL-Library.Char_ord" "HOL-Library.List_Lexorder"
begin

text \<open>
  Browsing the directories of the capture machine from a client
  (misrc\_gui/net/gui\_remote\_fs.c, the branch for POSIX systems).  A C string is the list of
  its characters.  What lstat, opendir and readdir answer during a call is its first argument.
\<close>

section \<open>The directories\<close>

definition GUI_REMOTE_FS_PAGE :: nat where "GUI_REMOTE_FS_PAGE = 12"
definition GUI_REMOTE_FS_PATH :: nat where "GUI_REMOTE_FS_PATH = 4096"
definition GUI_REMOTE_FS_NAME :: nat where "GUI_REMOTE_FS_NAME = 256"
definition FS_LIST_LIMIT :: nat where "FS_LIST_LIMIT = 8192"

text \<open>lstat succeeds and names a directory, no symbolic link; the entries readdir returns,
  or nothing where opendir fails; and whether calloc succeeds.\<close>

record fs_answers =
  lstat_dir :: "string \<Rightarrow> bool"
  dir_entries :: "string \<Rightarrow> string list option"
  fs_memory :: bool

record fs_result =
  fr_path :: string
  fr_parent :: string
  fr_names :: "string list"
  fr_page :: nat
  fr_has_more :: bool
  fr_computer :: bool
  fr_recovered :: bool

section \<open>Paths\<close>

text \<open>snprintf into a buffer of a size.\<close>

definition fitted :: "nat \<Rightarrow> string \<Rightarrow> string" where
  "fitted cap s = take (cap - 1) s"

definition fs_segment_ok :: "string \<Rightarrow> bool" where
  "fs_segment_ok s =
     (if s = [] \<or> s = ''.'' \<or> s = ''..'' then False
      else list_all (\<lambda>c. \<not> (of_char c < (32 :: nat) \<or> of_char c = (127 :: nat)) \<and> of_char c \<noteq> (92 :: nat)) s)"

definition slash :: char where "slash = CHR ''/''"

function fs_walk :: "fs_answers \<Rightarrow> string \<Rightarrow> string \<Rightarrow> bool" where
  "fs_walk fs partial rest =
     (if rest = [] then True
      else let segment = takeWhile (\<lambda>c. c \<noteq> slash) rest; after = dropWhile (\<lambda>c. c \<noteq> slash) rest in
        if \<not> fs_segment_ok segment then False
        else if GUI_REMOTE_FS_PATH - length partial \<le> length (slash # segment) then False
        else if \<not> lstat_dir fs (partial @ slash # segment) then False
        else fs_walk fs (partial @ slash # segment) (tl after))"
  by pat_completeness auto
termination
proof (relation "measure (\<lambda>(fs, partial, rest). length rest)", simp_all)
  fix rest :: string
  assume "rest \<noteq> []"
  then have "0 < length rest" by simp
  then show "length (dropWhile (\<lambda>c. c \<noteq> slash) rest) - Suc 0 < length rest"
    using length_dropWhile_le [of "\<lambda>c. c \<noteq> slash" rest] by linarith
qed

declare fs_walk.simps [simp del]

definition fs_valid_path :: "fs_answers \<Rightarrow> string \<Rightarrow> bool" where
  "fs_valid_path fs path =
     (if path = [] \<or> hd path \<noteq> slash \<or> GUI_REMOTE_FS_PATH \<le> length path then False
      else if tl path = [] then True
      else fs_walk fs [] (tl path))"

fun strip_slashes :: "string \<Rightarrow> string" where
  "strip_slashes out = (if 1 < length out \<and> last out = slash then strip_slashes (butlast out) else out)"

declare strip_slashes.simps [simp del]

definition fs_parent :: "nat \<Rightarrow> string \<Rightarrow> string" where
  "fs_parent cap path =
     (let out = strip_slashes (fitted cap path);
          before = rev (tl (dropWhile (\<lambda>c. c \<noteq> slash) (rev out))) in
      if slash \<notin> set out \<or> before = [] then [slash] else before)"

section \<open>Browsing\<close>

definition fs_child :: "string \<Rightarrow> string \<Rightarrow> string" where
  "fs_child path name = path @ (if path = [slash] then [] else [slash]) @ name"

definition fs_entry_ok :: "fs_answers \<Rightarrow> string \<Rightarrow> string \<Rightarrow> bool" where
  "fs_entry_ok fs path name =
     (if name = ''.'' \<or> name = ''..'' then False
      else if GUI_REMOTE_FS_NAME \<le> length name then False
      else if GUI_REMOTE_FS_PATH \<le> length (fs_child path name) then False
      else lstat_dir fs (fs_child path name))"

fun fs_collect_entries :: "fs_answers \<Rightarrow> string \<Rightarrow> string list \<Rightarrow> string list \<Rightarrow> string list" where
  "fs_collect_entries fs path [] names = names"
| "fs_collect_entries fs path (name # entries) names =
     fs_collect_entries fs path entries
       (if fs_entry_ok fs path name \<and> length names < FS_LIST_LIMIT then names @ [name] else names)"

definition fs_collect :: "fs_answers \<Rightarrow> string \<Rightarrow> string list option" where
  "fs_collect fs path = map_option (\<lambda>entries. fs_collect_entries fs path entries []) (dir_entries fs path)"

definition fs_page :: "nat \<Rightarrow> string list \<Rightarrow> string list \<times> bool" where
  "fs_page page all =
     (let from = page * GUI_REMOTE_FS_PAGE; n = length all in
      if from < n
      then let count = min (n - from) GUI_REMOTE_FS_PAGE in (take count (drop from all), from + count < n)
      else ([], False))"

text \<open>The variable HOME may be unset.  The result is None where the call returns false.\<close>

definition gui_remote_fs_browse ::
  "fs_answers \<Rightarrow> string option \<Rightarrow> string option \<Rightarrow> nat \<Rightarrow> fs_result option" where
  "gui_remote_fs_browse fs home requested page =
     (if 100000 < page then None
      else
        let input0 = (case requested of None \<Rightarrow> [] | Some r \<Rightarrow> r);
            input1 = (if input0 = ''~'' then (case home of None \<Rightarrow> [] | Some h \<Rightarrow> h) else input0);
            input = (if input1 = [] then [slash] else input1);
            target0 = fitted GUI_REMOTE_FS_PATH input;
            recovered = (\<not> fs_valid_path fs target0);
            target = (if recovered then [slash] else target0)
        in if \<not> fs_memory fs then None
           else case fs_collect fs target of
                  None \<Rightarrow> None
                | Some all \<Rightarrow>
                    (case fs_page page (sort all) of (names, has_more) \<Rightarrow>
                       Some \<lparr>fr_path = target, fr_parent = fs_parent GUI_REMOTE_FS_PATH target,
                             fr_names = names, fr_page = page, fr_has_more = has_more,
                             fr_computer = False, fr_recovered = recovered\<rparr>))"

section \<open>What a valid path is\<close>

text \<open>A path given by its segments.\<close>

definition abs_path :: "string list \<Rightarrow> string" where
  "abs_path segs = concat (map (\<lambda>s. slash # s) segs)"

definition segment :: "string \<Rightarrow> bool" where
  "segment s = (fs_segment_ok s \<and> slash \<notin> set s)"

text \<open>Every directory on the way down is one, no symbolic link.\<close>

definition real_dirs :: "fs_answers \<Rightarrow> string \<Rightarrow> string list \<Rightarrow> bool" where
  "real_dirs fs base segs =
     list_all (\<lambda>k. lstat_dir fs (base @ abs_path (take (Suc k) segs))) [0..<length segs]"

definition walk_spec :: "fs_answers \<Rightarrow> string \<Rightarrow> string \<Rightarrow> bool" where
  "walk_spec fs base rest =
     (\<exists>segs. segs \<noteq> [] \<and> list_all segment segs \<and> real_dirs fs base segs \<and>
        (slash # rest = abs_path segs \<or> slash # rest = abs_path segs @ [slash]))"

lemma abs_path_simps [simp]: "abs_path [] = []" "abs_path (s # segs) = slash # s @ abs_path segs"
  by (simp_all add: abs_path_def)

lemma abs_path_append: "abs_path (xs @ ys) = abs_path xs @ abs_path ys"
  by (simp add: abs_path_def)

lemma abs_path_starts: "segs \<noteq> [] \<Longrightarrow> \<exists>t. abs_path segs = slash # t"
  by (cases segs) auto

lemma real_dirs_Nil [simp]: "real_dirs fs base []"
  by (simp add: real_dirs_def)

lemma real_dirs_Cons: "real_dirs fs base (s # segs) \<longleftrightarrow>
    lstat_dir fs (base @ slash # s) \<and> real_dirs fs (base @ slash # s) segs"
proof -
  have "[0..<length (s # segs)] = 0 # map Suc [0..<length segs]"
    by (simp add: upt_conv_Cons map_Suc_upt del: upt_Suc)
  then show ?thesis by (simp add: real_dirs_def list.pred_map comp_def)
qed

lemma split_segment:
  assumes "slash \<notin> set s" "t = [] \<or> hd t = slash"
  shows "takeWhile (\<lambda>c. c \<noteq> slash) (s @ t) = s" "dropWhile (\<lambda>c. c \<noteq> slash) (s @ t) = t"
proof -
  have a: "c \<noteq> slash" if "c \<in> set s" for c using assms(1) that by blast
  have t: "takeWhile (\<lambda>c. c \<noteq> slash) t = []" "dropWhile (\<lambda>c. c \<noteq> slash) t = t"
    using assms(2) by (cases t; simp)+
  show "takeWhile (\<lambda>c. c \<noteq> slash) (s @ t) = s" using takeWhile_append2 [of s "\<lambda>c. c \<noteq> slash" t] a t by simp
  show "dropWhile (\<lambda>c. c \<noteq> slash) (s @ t) = t" using dropWhile_append2 [of s "\<lambda>c. c \<noteq> slash" t] a t by simp
qed

text \<open>The check of the buffer for the partial path never fails.\<close>

lemma fs_walk_spec:
  assumes "rest \<noteq> []" "length partial + length (slash # rest) < GUI_REMOTE_FS_PATH"
  shows "fs_walk fs partial rest = walk_spec fs partial rest"
  using assms
proof (induction fs partial rest rule: fs_walk.induct)
  case (1 fs partial rest)
  define s where "s = takeWhile (\<lambda>c. c \<noteq> slash) rest"
  define after where "after = dropWhile (\<lambda>c. c \<noteq> slash) rest"
  have rest: "rest = s @ after" by (simp add: s_def after_def)
  have free: "slash \<notin> set s" by (auto simp: s_def dest: set_takeWhileD)
  have hd: "after = [] \<or> hd after = slash"
    unfolding after_def using hd_dropWhile [of "\<lambda>c. c \<noteq> slash" rest] by blast
  have room: "\<not> GUI_REMOTE_FS_PATH - length partial \<le> length (slash # s)" using 1(3) rest by auto
  have first: "(slash # rest = abs_path (t # segs) \<or> slash # rest = abs_path (t # segs) @ [slash]) \<longleftrightarrow>
      t = s \<and> (after = abs_path segs \<or> after = abs_path segs @ [slash])" if "segment t" for t segs
  proof -
    have t: "slash \<notin> set t" using that by (simp add: segment_def)
    have h: "u = [] \<or> hd u = slash" if "u = abs_path segs \<or> u = abs_path segs @ [slash]" for u
      using that by (cases segs) auto
    have "s = t \<and> after = u" if "rest = t @ u" "u = abs_path segs \<or> u = abs_path segs @ [slash]" for u
      using split_segment [OF t h [OF that(2)]] that(1) by (simp add: s_def after_def)
    then show ?thesis using rest by auto
  qed
  have walk: "fs_walk fs partial rest \<longleftrightarrow>
      fs_segment_ok s \<and> lstat_dir fs (partial @ slash # s) \<and> fs_walk fs (partial @ slash # s) (tl after)"
    using 1(2) room by (subst fs_walk.simps) (simp add: Let_def s_def [symmetric] after_def [symmetric])
  have spec: "walk_spec fs partial rest \<longleftrightarrow> fs_segment_ok s \<and> lstat_dir fs (partial @ slash # s) \<and>
      (\<exists>segs. list_all segment segs \<and> real_dirs fs (partial @ slash # s) segs \<and>
         (after = abs_path segs \<or> after = abs_path segs @ [slash]))" (is "_ \<longleftrightarrow> ?R")
  proof
    assume "walk_spec fs partial rest"
    then obtain segs where g: "segs \<noteq> []" "list_all segment segs" "real_dirs fs partial segs"
      "slash # rest = abs_path segs \<or> slash # rest = abs_path segs @ [slash]" by (auto simp: walk_spec_def)
    then obtain t ts where ts: "segs = t # ts" by (cases segs) auto
    then have "segment t" using g(2) by simp
    then show ?R using g(2-4) first [of t ts] unfolding ts by (auto simp: real_dirs_Cons segment_def)
  next
    assume ?R
    then obtain segs where g: "fs_segment_ok s" "lstat_dir fs (partial @ slash # s)" "list_all segment segs"
      "real_dirs fs (partial @ slash # s) segs" "after = abs_path segs \<or> after = abs_path segs @ [slash]" by auto
    then have "segment s" using free by (simp add: segment_def)
    then show "walk_spec fs partial rest"
      unfolding walk_spec_def using first [of s segs] g by (intro exI [of _ "s # segs"]) (simp add: real_dirs_Cons)
  qed
  have tail: "(\<exists>segs. list_all segment segs \<and> real_dirs fs base segs \<and>
      (after = abs_path segs \<or> after = abs_path segs @ [slash])) \<longleftrightarrow> tl after = [] \<or> walk_spec fs base (tl after)" for base
  proof (cases after)
    case Nil
    then show ?thesis by (auto intro!: exI [of _ "[]"])
  next
    case (Cons c u)
    then have c: "c = slash" using hd by simp
    show ?thesis
    proof (cases "u = []")
      case True
      then show ?thesis using Cons c by (auto intro!: exI [of _ "[]"])
    next
      case False
      have "segs \<noteq> []" if "slash # u = abs_path segs \<or> slash # u = abs_path segs @ [slash]" for segs
        using that False by auto
      then show ?thesis using Cons c False by (auto simp: walk_spec_def)
    qed
  qed
  show ?case
  proof (cases "tl after = []")
    case True
    then have "fs_walk fs (partial @ slash # s) (tl after)" by (subst fs_walk.simps) simp
    then show ?thesis using walk spec tail True by blast
  next
    case False
    have "length (partial @ slash # s) + length (slash # tl after) < GUI_REMOTE_FS_PATH"
      using 1(3) rest False by (cases after) auto
    then have IH: "fs_walk fs (partial @ slash # s) (tl after) = walk_spec fs (partial @ slash # s) (tl after)"
      if "fs_segment_ok s" "lstat_dir fs (partial @ slash # s)"
      using 1(1) [OF 1(2) s_def after_def] that room False by blast
    then show ?thesis using walk spec tail False by blast
  qed
qed

definition valid_spec :: "fs_answers \<Rightarrow> string \<Rightarrow> bool" where
  "valid_spec fs path =
     (path = [slash] \<or>
      (\<exists>segs. segs \<noteq> [] \<and> list_all segment segs \<and> real_dirs fs [] segs \<and>
         (path = abs_path segs \<or> path = abs_path segs @ [slash])))"

lemma valid_path_spec: "fs_valid_path fs path \<longleftrightarrow> length path < GUI_REMOTE_FS_PATH \<and> valid_spec fs path"
proof (cases "path \<noteq> [] \<and> hd path = slash")
  case True
  then obtain rest where p: "path = slash # rest" by (cases path) auto
  show ?thesis
  proof (cases "rest = []")
    case True
    then show ?thesis by (simp add: p fs_valid_path_def valid_spec_def GUI_REMOTE_FS_PATH_def)
  next
    case False
    then have "valid_spec fs path \<longleftrightarrow> walk_spec fs [] rest" by (simp add: valid_spec_def walk_spec_def p)
    moreover have "length path < GUI_REMOTE_FS_PATH \<Longrightarrow> fs_walk fs [] rest = walk_spec fs [] rest"
      using False p by (intro fs_walk_spec) simp_all
    ultimately show ?thesis using False by (auto simp: fs_valid_path_def p)
  qed
next
  case False
  then have "\<not> valid_spec fs path" using abs_path_starts by (force simp: valid_spec_def)
  then show ?thesis using False by (auto simp: fs_valid_path_def)
qed

section \<open>The parent\<close>

lemma real_dirs_append: "real_dirs fs base (xs @ ys) \<Longrightarrow> real_dirs fs base xs"
proof -
  assume r: "real_dirs fs base (xs @ ys)"
  have "lstat_dir fs (base @ abs_path (take (Suc k) xs))" if "k < length xs" for k
  proof -
    have "k \<in> set [0..<length (xs @ ys)]" using that by simp
    then have "lstat_dir fs (base @ abs_path (take (Suc k) (xs @ ys)))"
      using r unfolding real_dirs_def list_all_iff by blast
    moreover have "take (Suc k) (xs @ ys) = take (Suc k) xs" using that by simp
    ultimately show ?thesis by (simp only:)
  qed
  then show ?thesis by (simp add: real_dirs_def list_all_iff)
qed

lemma segment_nonempty: "segment s \<Longrightarrow> s \<noteq> [] \<and> slash \<notin> set s"
  by (auto simp: segment_def fs_segment_ok_def)

lemma strip_path:
  assumes "segs \<noteq> []" "list_all segment segs"
  shows "strip_slashes (abs_path segs) = abs_path segs" "strip_slashes (abs_path segs @ [slash]) = abs_path segs"
proof -
  obtain xs s where s: "segs = xs @ [s]" using assms(1) by (metis rev_exhaust)
  then have seg: "s \<noteq> []" "slash \<notin> set s" using assms(2) segment_nonempty [of s] by simp_all
  then have "last s \<noteq> slash" by (metis last_in_set)
  then have l: "last (abs_path segs) \<noteq> slash" using seg(1) by (simp add: s abs_path_append)
  then show 1: "strip_slashes (abs_path segs) = abs_path segs" by (subst strip_slashes.simps) simp
  have "0 < length (abs_path segs)" by (simp add: s abs_path_append)
  then have "strip_slashes (abs_path segs @ [slash]) = strip_slashes (abs_path segs)"
    by (subst strip_slashes.simps) simp
  then show "strip_slashes (abs_path segs @ [slash]) = abs_path segs" using 1 by simp
qed

lemma parent_of_path:
  assumes "list_all segment (segs @ [s])" "path = abs_path (segs @ [s]) \<or> path = abs_path (segs @ [s]) @ [slash]"
    "length path < cap"
  shows "fs_parent cap path = (if segs = [] then [slash] else abs_path segs)"
proof -
  have seg: "slash \<notin> set s" using assms(1) segment_nonempty [of s] by simp
  have fit: "fitted cap path = path" using assms(3) by (simp add: fitted_def)
  have strip: "strip_slashes path = abs_path segs @ slash # s"
    using assms(1,2) strip_path [of "segs @ [s]"] by (auto simp: abs_path_append)
  have "slash \<notin> set (rev s)" using seg by simp
  then have "dropWhile (\<lambda>c. c \<noteq> slash) (rev s @ slash # rev (abs_path segs)) = slash # rev (abs_path segs)"
    by (rule split_segment(2)) simp
  moreover have "abs_path segs = [] \<longleftrightarrow> segs = []" by (cases segs) simp_all
  ultimately show ?thesis by (simp add: fs_parent_def Let_def fit strip)
qed

lemma parent_valid:
  assumes "fs_valid_path fs path"
  shows "fs_valid_path fs (fs_parent GUI_REMOTE_FS_PATH path)"
proof (cases "path = [slash]")
  case True
  have "fs_parent GUI_REMOTE_FS_PATH [slash] = [slash]"
    by (simp add: fs_parent_def fitted_def strip_slashes.simps GUI_REMOTE_FS_PATH_def Let_def)
  then show ?thesis using assms True by simp
next
  case False
  have len: "length path < GUI_REMOTE_FS_PATH" and sp: "valid_spec fs path" using assms valid_path_spec by auto
  then obtain segs where g: "segs \<noteq> []" "list_all segment segs" "real_dirs fs [] segs"
    "path = abs_path segs \<or> path = abs_path segs @ [slash]" using False by (auto simp: valid_spec_def)
  obtain xs s where s: "segs = xs @ [s]" using g(1) by (metis rev_exhaust)
  have par: "fs_parent GUI_REMOTE_FS_PATH path = (if xs = [] then [slash] else abs_path xs)"
    using parent_of_path [OF _ _ len, of xs s] g(2,4) s by blast
  have "valid_spec fs (if xs = [] then [slash] else abs_path xs)"
    using g(2,3) real_dirs_append [of fs "[]" xs "[s]"] by (auto simp: valid_spec_def s)
  moreover have "length (if xs = [] then [slash] else abs_path xs) < GUI_REMOTE_FS_PATH"
    using len g(4) by (auto simp: s abs_path_append)
  ultimately show ?thesis using par valid_path_spec by simp
qed

section \<open>Pages\<close>

lemma collect_entries:
  "length names \<le> FS_LIST_LIMIT \<Longrightarrow> fs_collect_entries fs path entries names =
    names @ take (FS_LIST_LIMIT - length names) (filter (fs_entry_ok fs path) entries)"
proof (induction entries arbitrary: names)
  case (Cons e es)
  show ?case
  proof (cases "fs_entry_ok fs path e \<and> length names < FS_LIST_LIMIT")
    case True
    then have "FS_LIST_LIMIT - length names = Suc (FS_LIST_LIMIT - length (names @ [e]))"
      by (simp add: Suc_diff_Suc)
    then show ?thesis using Cons True by simp
  next
    case False
    then show ?thesis using Cons by auto
  qed
qed simp

lemma page_facts:
  "fst (fs_page page all) = take 12 (drop (page * 12) all)" "snd (fs_page page all) \<longleftrightarrow> Suc page * 12 < length all"
  by (auto simp: fs_page_def GUI_REMOTE_FS_PAGE_def Let_def min_def)

lemma pages_concat: "concat (map (\<lambda>k. take c (drop (k * c) xs)) [0..<n]) = take (n * c) xs"
proof (induction n)
  case (Suc n)
  then show ?case by (simp add: take_add add.commute [of c])
qed simp

section \<open>Going down\<close>

lemma abs_path_snoc: "abs_path (segs @ [s]) = abs_path segs @ slash # s"
  by (simp add: abs_path_append)

lemma real_dirs_snoc:
  assumes "real_dirs fs base segs" "lstat_dir fs (base @ abs_path (segs @ [s]))"
  shows "real_dirs fs base (segs @ [s])"
  using assms by (auto simp: real_dirs_def list_all_iff less_Suc_eq)

text \<open>A name that was shown leads to a valid path, if it is one the path check accepts.\<close>

lemma descend:
  assumes "fs_valid_path fs path" "path = [slash] \<or> last path \<noteq> slash" "fs_entry_ok fs path name" "segment name"
  shows "fs_valid_path fs (fs_child path name)"
proof -
  have e: "length (fs_child path name) < GUI_REMOTE_FS_PATH" "lstat_dir fs (fs_child path name)"
    using assms(3) by (auto simp: fs_entry_ok_def split: if_splits)
  have "\<exists>segs. list_all segment segs \<and> real_dirs fs [] segs \<and> fs_child path name = abs_path (segs @ [name])"
  proof (cases "path = [slash]")
    case True
    then show ?thesis by (intro exI [of _ "[]"]) (simp add: fs_child_def)
  next
    case False
    then obtain segs where g: "segs \<noteq> []" "list_all segment segs" "real_dirs fs [] segs"
      "path = abs_path segs \<or> path = abs_path segs @ [slash]"
      using assms(1) valid_path_spec by (auto simp: valid_spec_def)
    then have "path = abs_path segs" using assms(2) False by auto
    then show ?thesis using g(2,3) False by (intro exI [of _ segs]) (simp add: fs_child_def abs_path_append)
  qed
  then obtain segs where g: "list_all segment segs" "real_dirs fs [] segs" "fs_child path name = abs_path (segs @ [name])"
    by blast
  have "real_dirs fs [] (segs @ [name])" using real_dirs_snoc [OF g(2), of name] e(2) g(3) by simp
  then have "valid_spec fs (fs_child path name)"
    using g assms(4) unfolding valid_spec_def by (intro disjI2 exI [of _ "segs @ [name]"]) simp
  then show ?thesis using e(1) valid_path_spec by simp
qed

text \<open>A directory with a backslash in its name is shown, but its path is refused.\<close>

definition backslash_fs :: fs_answers where
  "backslash_fs = \<lparr>lstat_dir = (\<lambda>p. p = ''/'' \<or> p = [slash, char_of (92 :: nat)]),
     dir_entries = (\<lambda>p. Some [[char_of (92 :: nat)]]), fs_memory = True\<rparr>"

lemma shown_but_refused:
  "fs_entry_ok backslash_fs [slash] [char_of (92 :: nat)]"
  "\<not> fs_valid_path backslash_fs (fs_child [slash] [char_of (92 :: nat)])"
proof -
  have s: "char_of (92 :: nat) \<noteq> slash" by (simp add: slash_def char_of_def)
  have c: "char_of (92 :: nat) \<noteq> CHR ''.''" by (simp add: char_of_def)
  show "fs_entry_ok backslash_fs [slash] [char_of (92 :: nat)]"
    using c by (simp add: fs_entry_ok_def fs_child_def backslash_fs_def GUI_REMOTE_FS_NAME_def GUI_REMOTE_FS_PATH_def)
  show "\<not> fs_valid_path backslash_fs (fs_child [slash] [char_of (92 :: nat)])"
    using s c by (simp add: fs_valid_path_def fs_child_def fs_walk.simps fs_segment_ok_def Let_def)
qed

section \<open>Properties\<close>

text \<open>A name that is no way out of its directory and can be shown.\<close>

definition proper_name :: "string \<Rightarrow> bool" where
  "proper_name s =
     (s \<noteq> [] \<and> s \<noteq> ''.'' \<and> s \<noteq> ''..'' \<and> CHR ''/'' \<notin> set s \<and> CHR 0x5C \<notin> set s \<and>
      list_all (\<lambda>c. 32 \<le> (of_char c :: nat) \<and> (of_char c :: nat) \<noteq> 127) s)"

lemma char_code: "(of_char c :: nat) = 92 \<longleftrightarrow> c = CHR 0x5C"
proof -
  have "of_char (CHR 0x5C) = (92 :: nat)" by simp
  then show ?thesis by (metis char_of_char)
qed

lemma proper_segment: "segment = proper_name"
proof
  fix s
  show "segment s = proper_name s"
    by (auto simp: segment_def fs_segment_ok_def proper_name_def slash_def list_all_iff char_code not_less)
qed

text \<open>C36: A path is accepted exactly when it is shorter than the limit and is the root or the
  absolute path, with or without a final slash, of segments that are not empty, not the current
  or parent directory, free of control characters and backslashes, each of which leads to a
  directory that is no symbolic link.  So no accepted path leaves a directory upwards.\<close>

theorem valid_path_exact:
  "fs_valid_path fs path \<longleftrightarrow>
     length path < GUI_REMOTE_FS_PATH \<and>
     (path = ''/'' \<or>
      (\<exists>segs. segs \<noteq> [] \<and> list_all proper_name segs \<and> real_dirs fs [] segs \<and>
         (path = abs_path segs \<or> path = abs_path segs @ ''/'')))"
  unfolding valid_path_spec valid_spec_def proper_segment [symmetric] slash_def by (rule refl)

lemma root_valid: "fs_valid_path fs [slash]"
  by (simp add: fs_valid_path_def GUI_REMOTE_FS_PATH_def)

text \<open>The directory a request is about, and what is shown of it.\<close>

definition browse_target :: "fs_answers \<Rightarrow> string option \<Rightarrow> string option \<Rightarrow> string" where
  "browse_target fs home requested =
     (let r = (case requested of None \<Rightarrow> [] | Some r \<Rightarrow> r);
          i = (if r = ''~'' then (case home of None \<Rightarrow> [] | Some h \<Rightarrow> h) else r);
          t = take 4095 (if i = [] then [slash] else i)
      in if fs_valid_path fs t then t else [slash])"

definition shown :: "fs_answers \<Rightarrow> string \<Rightarrow> string list option" where
  "shown fs path = map_option (\<lambda>es. sort (take 8192 (filter (fs_entry_ok fs path) es))) (dir_entries fs path)"

lemma browse_result:
  assumes "gui_remote_fs_browse fs home requested page = Some r"
  shows "page \<le> 100000" "fs_memory fs" "fr_path r = browse_target fs home requested"
    "fr_parent r = fs_parent GUI_REMOTE_FS_PATH (fr_path r)" "fr_page r = page"
    "\<exists>all. shown fs (fr_path r) = Some all \<and> fr_names r = take 12 (drop (page * 12) all) \<and>
       fr_has_more r = (Suc page * 12 < length all)"
proof -
  let ?t = "browse_target fs home requested"
  have fit: "fitted GUI_REMOTE_FS_PATH s = take 4095 s" for s by (simp add: fitted_def GUI_REMOTE_FS_PATH_def)
  obtain es where b: "page \<le> 100000" "fs_memory fs" "dir_entries fs ?t = Some es"
    "fr_path r = ?t" "fr_parent r = fs_parent GUI_REMOTE_FS_PATH ?t" "fr_page r = page"
    "fs_page page (sort (fs_collect_entries fs ?t es [])) = (fr_names r, fr_has_more r)"
    using assms unfolding gui_remote_fs_browse_def fit browse_target_def Let_def fs_collect_def
    by (auto split: if_splits option.splits prod.splits)
  have "fs_collect_entries fs ?t es [] = take 8192 (filter (fs_entry_ok fs ?t) es)"
    by (simp add: collect_entries FS_LIST_LIMIT_def)
  then show "page \<le> 100000" "fs_memory fs" "fr_path r = ?t"
    "fr_parent r = fs_parent GUI_REMOTE_FS_PATH (fr_path r)" "fr_page r = page"
    "\<exists>all. shown fs (fr_path r) = Some all \<and> fr_names r = take 12 (drop (page * 12) all) \<and>
       fr_has_more r = (Suc page * 12 < length all)"
    using b page_facts [of page "sort (fs_collect_entries fs ?t es [])"] by (simp_all add: shown_def)
qed


definition sample_fs :: fs_answers where
  "sample_fs = \<lparr>lstat_dir = (\<lambda>p. p \<in> {''/'', ''/media'', ''/media/b'', ''/media/a''}),
     dir_entries = (\<lambda>p. if p = ''/media'' then Some [''.'', ''..'', ''b'', ''tape.flac'', ''a''] else None),
     fs_memory = True\<rparr>"

lemma sample_browse:
  "gui_remote_fs_browse sample_fs None (Some ''/media'') 0 =
     Some \<lparr>fr_path = ''/media'', fr_parent = ''/'', fr_names = [''a'', ''b''], fr_page = 0,
            fr_has_more = False, fr_computer = False, fr_recovered = False\<rparr>"
proof -
  have v: "fs_valid_path sample_fs ''/media''"
    by (simp add: fs_valid_path_def fs_walk.simps fs_segment_ok_def sample_fs_def slash_def GUI_REMOTE_FS_PATH_def Let_def)
  have c: "fs_collect sample_fs ''/media'' = Some [''b'', ''a'']"
    by (simp add: fs_collect_def fs_entry_ok_def fs_child_def sample_fs_def slash_def GUI_REMOTE_FS_PATH_def
        GUI_REMOTE_FS_NAME_def FS_LIST_LIMIT_def)
  have f: "fitted GUI_REMOTE_FS_PATH ''/media'' = ''/media''" by (simp add: fitted_def GUI_REMOTE_FS_PATH_def)
  have p: "fs_parent GUI_REMOTE_FS_PATH ''/media'' = ''/''"
    unfolding fs_parent_def Let_def f by (simp add: strip_slashes.simps slash_def)
  have s: "sort [''b'', ''a''] = [''a'', ''b'']" by (simp add: less_eq_char_def list_le_def less_char_def)
  have g: "fs_page 0 [''a'', ''b''] = ([''a'', ''b''], False)" by (simp add: fs_page_def GUI_REMOTE_FS_PAGE_def)
  show ?thesis
    unfolding gui_remote_fs_browse_def Let_def using v c f p s g by (simp add: sample_fs_def)
qed


end
