(* ===== verification/Rf_Preview_Policy.thy ===== *)
theory Rf_Preview_Policy
  imports Prelude Complex_Main
begin

text \<open>
  The processor budget of the preview decoders (misrc\_gui/processing/gui\_rf\_preview\_policy.c):
  a token bucket shared by all preview workers under a lock.  Counts, times and owners are the
  natural numbers their words stand for, the credit is the integer of an int64\_t; every
  saturation of the code is written out.  The two computations in double precision round every
  operation with a function that is an argument.
\<close>

section \<open>The policy\<close>

definition GUI_RF_POLICY_MAX_ACTIVE :: nat where "GUI_RF_POLICY_MAX_ACTIVE = 8"
definition GUI_RF_POLICY_RESERVE_CPU_US :: nat where "GUI_RF_POLICY_RESERVE_CPU_US = 1000"
definition GUI_RF_POLICY_MAX_COUNTERS :: nat where "GUI_RF_POLICY_MAX_COUNTERS = 64"
definition MAX_WAITERS :: nat where "MAX_WAITERS = 64"
definition UINT64_MAX :: nat where "UINT64_MAX = 2 ^ 64 - 1"
definition INT64_MAX :: int where "INT64_MAX = 2 ^ 63 - 1"
definition INT64_MIN :: int where "INT64_MIN = - (2 ^ 63)"

text \<open>The arrays active and active\_start\_us share one count: a list of owners and starts.\<close>

record rf_policy =
  cores_millionths :: nat
  accounting_quantum_cpu_us :: nat
  counters :: "nat list"
  updated_us :: nat
  deadline_us :: nat
  credit_cpu_us :: int
  initialized :: bool
  active :: "(nat \<times> nat) list"
  waiters :: "nat list"

definition policy_initializer :: "nat \<Rightarrow> rf_policy" where
  "policy_initializer quantum =
     \<lparr>cores_millionths = 1000000, accounting_quantum_cpu_us = quantum, counters = [], updated_us = 0,
      deadline_us = 0, credit_cpu_us = 0, initialized = False, active = [], waiters = []\<rparr>"

definition add_sat :: "nat \<Rightarrow> nat \<Rightarrow> nat" where
  "add_sat a b = (if UINT64_MAX - a < b then UINT64_MAX else a + b)"

definition policy_capacity :: "rf_policy \<Rightarrow> int" where
  "policy_capacity p =
     (let n = cores_millionths p * 4000 div 1000000;
          n1 = (if n < GUI_RF_POLICY_RESERVE_CPU_US then GUI_RF_POLICY_RESERVE_CPU_US else n)
      in int (n1 + length (counters p) * accounting_quantum_cpu_us p))"

definition policy_concurrency :: "rf_policy \<Rightarrow> nat" where
  "policy_concurrency p =
     (if cores_millionths p \<noteq> 0 then (cores_millionths p + 999999) div 1000000 else GUI_RF_POLICY_MAX_ACTIVE)"

fun unsettled_limit :: "nat \<Rightarrow> (nat \<times> nat) list \<Rightarrow> nat \<Rightarrow> nat" where
  "unsettled_limit now [] limit = limit"
| "unsettled_limit now ((owner, start) # as) limit =
     unsettled_limit now as (add_sat limit (if start \<le> now then now - start else 0))"

definition unsettled_capacity :: "rf_policy \<Rightarrow> nat \<Rightarrow> int" where
  "unsettled_capacity p now =
     (let limit = int (unsettled_limit now (active p) (nat (policy_capacity p)))
      in if INT64_MAX < limit then INT64_MAX else limit)"

section \<open>The refill\<close>

definition policy_refill :: "nat \<Rightarrow> nat \<Rightarrow> nat" where
  "policy_refill cores elapsed =
     (let whole = elapsed div 1000000;
          refill = (if UINT64_MAX div cores < whole then UINT64_MAX else whole * cores)
      in add_sat refill (elapsed mod 1000000 * cores div 1000000))"

definition policy_deadline :: "(rat \<Rightarrow> rat) \<Rightarrow> nat \<Rightarrow> nat \<Rightarrow> int \<Rightarrow> nat" where
  "policy_deadline rnd now cores credit =
     (let missing = rnd (rnd (of_nat GUI_RF_POLICY_RESERVE_CPU_US) - rnd (of_int credit));
          delay = (if 0 < missing
                   then rnd (rnd (rnd (missing * 1000000) / rnd (of_nat cores)) + rnd (999999 / 1000000)) else 0);
          wait = (if rnd (of_nat UINT64_MAX) \<le> delay then UINT64_MAX else nat \<lfloor>delay\<rfloor>)
      in add_sat now wait)"

definition policy_refresh :: "(rat \<Rightarrow> rat) \<Rightarrow> nat \<Rightarrow> rf_policy \<Rightarrow> rf_policy" where
  "policy_refresh rnd now0 p =
     (let now = (if initialized p \<and> now0 < updated_us p then updated_us p else now0);
          p1 = (if initialized p then p
                else p\<lparr>credit_cpu_us := policy_capacity p, updated_us := now, initialized := True\<rparr>);
          elapsed = (if updated_us p1 \<le> now then now - updated_us p1 else 0);
          p2 = p1\<lparr>updated_us := now\<rparr>
      in if cores_millionths p2 = 0 then p2\<lparr>credit_cpu_us := policy_capacity p2, deadline_us := now\<rparr>
         else let refill = int (policy_refill (cores_millionths p2) elapsed);
                  credit = (if INT64_MAX < refill \<or> INT64_MAX - refill < credit_cpu_us p2
                            then unsettled_capacity p2 now
                            else if unsettled_capacity p2 now < credit_cpu_us p2 + refill
                            then unsettled_capacity p2 now else credit_cpu_us p2 + refill)
              in p2\<lparr>credit_cpu_us := credit,
                    deadline_us := policy_deadline rnd now (cores_millionths p2) credit\<rparr>)"

section \<open>The calls\<close>

definition gui_rf_preview_policy_register_counter :: "nat \<Rightarrow> rf_policy \<Rightarrow> bool \<times> rf_policy" where
  "gui_rf_preview_policy_register_counter owner p =
     (if owner = 0 then (False, p)
      else if owner \<in> set (counters p) then (True, p)
      else if length (counters p) = GUI_RF_POLICY_MAX_COUNTERS then (False, p)
      else (True, p\<lparr>counters := counters p @ [owner]\<rparr>))"

definition gui_rf_preview_policy_unregister_counter :: "nat \<Rightarrow> rf_policy \<Rightarrow> rf_policy" where
  "gui_rf_preview_policy_unregister_counter owner p =
     (if owner \<notin> set (counters p) then p
      else let p1 = p\<lparr>counters := remove1 owner (counters p)\<rparr> in
        if initialized p1 \<and> unsettled_capacity p1 (updated_us p1) < credit_cpu_us p1
        then p1\<lparr>credit_cpu_us := unsettled_capacity p1 (updated_us p1)\<rparr> else p1)"

text \<open>Costs are taken from the credit down to the least number.\<close>

definition policy_charge :: "nat \<Rightarrow> int \<Rightarrow> int" where
  "policy_charge cost credit =
     (if INT64_MAX < int cost \<or> credit < INT64_MIN + int cost then INT64_MIN else credit - int cost)"

definition gui_rf_preview_policy_retire_counter :: "nat \<Rightarrow> nat \<Rightarrow> nat \<Rightarrow> rf_policy \<Rightarrow> rf_policy" where
  "gui_rf_preview_policy_retire_counter owner measured residual p =
     (if owner \<notin> set (counters p) then p
      else
        let residual1 = (if accounting_quantum_cpu_us p < residual then accounting_quantum_cpu_us p else residual);
            charge = add_sat measured residual1;
            p1 = (if initialized p \<and> cores_millionths p \<noteq> 0 \<and> charge \<noteq> 0
                  then p\<lparr>credit_cpu_us := policy_charge charge (credit_cpu_us p)\<rparr>
                  else p)
        in gui_rf_preview_policy_unregister_counter owner p1)"

text \<open>A double that is a number, or an infinity or no number.\<close>

definition gui_rf_preview_policy_set_budget :: "(rat \<Rightarrow> rat) \<Rightarrow> rat option \<Rightarrow> rf_policy \<Rightarrow> bool \<times> rf_policy" where
  "gui_rf_preview_policy_set_budget rnd cores p =
     (case cores of
        None \<Rightarrow> (False, p)
      | Some c \<Rightarrow>
          if c < 0 \<or> 8 < c \<or> 0 < c \<and> c < rnd (5 / 100) then (False, p)
          else (True, p\<lparr>cores_millionths := nat \<lfloor>rnd (rnd (c * 1000000) + 1 / 2)\<rfloor>,
                        initialized := False, deadline_us := 0\<rparr>))"

definition gui_rf_preview_policy_cancel :: "nat \<Rightarrow> rf_policy \<Rightarrow> rf_policy" where
  "gui_rf_preview_policy_cancel owner p = p\<lparr>waiters := remove1 owner (waiters p)\<rparr>"

definition policy_now :: "nat \<Rightarrow> rf_policy \<Rightarrow> nat" where
  "policy_now now p = (if initialized p \<and> now < updated_us p then updated_us p else now)"

text \<open>The results come with the time to wait.  First the part that decides on a queued owner.\<close>

definition policy_grant :: "nat \<Rightarrow> nat \<Rightarrow> rf_policy \<Rightarrow> bool \<times> nat \<times> rf_policy" where
  "policy_grant owner now q =
     (if policy_concurrency q \<le> length (active q) \<or> hd (waiters q) \<noteq> owner then (False, 1000, q)
      else if cores_millionths q \<noteq> 0 \<and> credit_cpu_us q < int GUI_RF_POLICY_RESERVE_CPU_US
      then (False, if now < deadline_us q then deadline_us q - now else 1, q)
      else
        let r = gui_rf_preview_policy_cancel owner q;
            r1 = r\<lparr>active := active r @ [(owner, now)]\<rparr>
        in (True, 0,
            if cores_millionths r1 \<noteq> 0
            then r1\<lparr>credit_cpu_us := credit_cpu_us r1 - int GUI_RF_POLICY_RESERVE_CPU_US\<rparr> else r1))"

definition gui_rf_preview_policy_acquire ::
  "(rat \<Rightarrow> rat) \<Rightarrow> nat \<Rightarrow> nat \<Rightarrow> rf_policy \<Rightarrow> bool \<times> nat \<times> rf_policy" where
  "gui_rf_preview_policy_acquire rnd owner now0 p0 =
     (case gui_rf_preview_policy_register_counter owner p0 of (registered, p1) \<Rightarrow>
      if \<not> registered then (False, 1000, p1)
      else
        let now = policy_now now0 p1;
            p = policy_refresh rnd now p1;
            queued = (owner \<in> set (waiters p))
        in if owner \<in> fst ` set (active p) then (False, 1000, p)
           else if owner = 0 \<or> \<not> queued \<and> length (waiters p) = MAX_WAITERS then (False, 1000, p)
           else policy_grant owner now (if queued then p else p\<lparr>waiters := waiters p @ [owner]\<rparr>))"

fun remove_owner :: "nat \<Rightarrow> (nat \<times> nat) list \<Rightarrow> (nat \<times> nat) list" where
  "remove_owner owner [] = []"
| "remove_owner owner ((a, start) # as) = (if a = owner then as else (a, start) # remove_owner owner as)"

definition policy_settle :: "nat \<Rightarrow> int \<Rightarrow> int" where
  "policy_settle cpu credit =
     (if GUI_RF_POLICY_RESERVE_CPU_US < cpu
      then policy_charge (cpu - GUI_RF_POLICY_RESERVE_CPU_US) credit
      else let refund = int GUI_RF_POLICY_RESERVE_CPU_US - int cpu in
        if INT64_MAX - refund < credit then INT64_MAX else credit + refund)"

definition gui_rf_preview_policy_finish :: "(rat \<Rightarrow> rat) \<Rightarrow> nat \<Rightarrow> nat \<Rightarrow> nat \<Rightarrow> rf_policy \<Rightarrow> rf_policy" where
  "gui_rf_preview_policy_finish rnd owner now0 cpu p =
     (if owner \<notin> fst ` set (active p) then p
      else
        let now = policy_now now0 p;
            p1 = policy_refresh rnd now p;
            p2 = p1\<lparr>active := remove_owner owner (active p1)\<rparr>;
            p3 = (if cores_millionths p2 \<noteq> 0
                  then p2\<lparr>credit_cpu_us := policy_settle cpu (credit_cpu_us p2)\<rparr> else p2)
        in policy_refresh rnd now p3)"

section \<open>The invariant\<close>

text \<open>The arrays hold what their counts say, within their bounds.\<close>

definition policy_shape :: "rf_policy \<Rightarrow> bool" where
  "policy_shape p =
     (cores_millionths p \<le> 8000000 \<and> accounting_quantum_cpu_us p < 4294967296 \<and>
      distinct (counters p) \<and> length (counters p) \<le> GUI_RF_POLICY_MAX_COUNTERS \<and>
      distinct (map fst (active p)) \<and> length (active p) \<le> GUI_RF_POLICY_MAX_ACTIVE \<and>
      distinct (waiters p) \<and> length (waiters p) \<le> MAX_WAITERS)"

definition credit_ok :: "rf_policy \<Rightarrow> bool" where
  "credit_ok p = (INT64_MIN \<le> credit_cpu_us p \<and> credit_cpu_us p \<le> INT64_MAX)"

text \<open>The credit of an initialised policy is within its ceiling.\<close>

definition policy_ok :: "rf_policy \<Rightarrow> bool" where
  "policy_ok p =
     (policy_shape p \<and> credit_ok p \<and>
      (initialized p \<longrightarrow> credit_cpu_us p \<le> unsettled_capacity p (updated_us p)))"

lemmas policy_limits = GUI_RF_POLICY_MAX_ACTIVE_def GUI_RF_POLICY_RESERVE_CPU_US_def
  GUI_RF_POLICY_MAX_COUNTERS_def MAX_WAITERS_def

text \<open>The capacity as a natural number.\<close>

definition capacity_nat :: "rf_policy \<Rightarrow> nat" where
  "capacity_nat p = max 1000 (cores_millionths p * 4000 div 1000000) + length (counters p) * accounting_quantum_cpu_us p"

lemma capacity_as_nat: "policy_capacity p = int (capacity_nat p)"
  by (simp only: policy_capacity_def capacity_nat_def Let_def policy_limits max_def not_le [symmetric]
      of_nat_eq_iff if_not_P if_P split: if_splits) (simp add: not_le)

lemma capacity_range:
  assumes "cores_millionths p \<le> 8000000" "accounting_quantum_cpu_us p < 4294967296" "length (counters p) \<le> 64"
  shows "1000 \<le> capacity_nat p"
    "capacity_nat p \<le> max 1000 (cores_millionths p * 4000 div 1000000) + 64 * accounting_quantum_cpu_us p"
    "capacity_nat p \<le> 274877939008"
proof -
  have n: "max 1000 (cores_millionths p * 4000 div 1000000) \<le> 32000"
    using assms(1) div_le_mono [of "cores_millionths p * 4000" 32000000000 1000000] by simp
  have m: "length (counters p) * accounting_quantum_cpu_us p \<le> 64 * accounting_quantum_cpu_us p"
    using assms(3) by (rule mult_le_mono1)
  show "1000 \<le> capacity_nat p" by (simp add: capacity_nat_def)
  show "capacity_nat p \<le> max 1000 (cores_millionths p * 4000 div 1000000) + 64 * accounting_quantum_cpu_us p"
    unfolding capacity_nat_def using m by (rule add_left_mono)
  then show "capacity_nat p \<le> 274877939008" using n assms(2) by linarith
qed

lemma add_sat_min: "a \<le> UINT64_MAX \<Longrightarrow> add_sat a c = min UINT64_MAX (a + c)"
  by (auto simp: add_sat_def min_def)

lemma add_sat_le: "a \<le> UINT64_MAX \<Longrightarrow> add_sat a c \<le> UINT64_MAX"
  by (simp add: add_sat_min)

lemma add_sat_ge: "a \<le> UINT64_MAX \<Longrightarrow> a \<le> add_sat a c"
  by (simp add: add_sat_min)

lemma add_sat_sum: "a \<le> UINT64_MAX \<Longrightarrow> add_sat a c \<le> a + c"
  by (simp add: add_sat_min)

lemma capacity_word: "c \<le> 274877939008 \<Longrightarrow> c \<le> UINT64_MAX"
  by (simp add: UINT64_MAX_def)

lemma unsettled_limit_min:
  "a \<le> UINT64_MAX \<Longrightarrow>
     unsettled_limit now as a = min UINT64_MAX (a + (\<Sum>(owner, start)\<leftarrow>as. now - start))"
proof (induction now as a rule: unsettled_limit.induct)
  case (2 now owner start as limit)
  then show ?case using add_sat_le [OF 2(2)] by (auto simp: add_sat_min [OF 2(2)] min_def)
qed simp

lemma unsettled_sum:
  assumes "policy_shape p"
  shows "unsettled_capacity p now = min INT64_MAX (int (capacity_nat p + (\<Sum>(owner, start)\<leftarrow>active p. now - start)))"
proof -
  have "capacity_nat p \<le> UINT64_MAX"
    using assms capacity_range(3) [of p] by (intro capacity_word) (simp add: policy_shape_def policy_limits)
  then show ?thesis
    by (simp add: unsettled_capacity_def Let_def capacity_as_nat unsettled_limit_min)
      (simp add: min_def UINT64_MAX_def INT64_MAX_def)
qed

lemma unsettled_range:
  assumes "policy_shape p"
  shows "1000 \<le> policy_capacity p \<and> policy_capacity p \<le> unsettled_capacity p now \<and>
    unsettled_capacity p now \<le> INT64_MAX"
proof -
  have c: "1000 \<le> capacity_nat p" "capacity_nat p \<le> 274877939008"
    using capacity_range assms by (simp_all add: policy_shape_def policy_limits)
  then show ?thesis
    by (simp_all add: capacity_as_nat unsettled_sum [OF assms] INT64_MAX_def)
qed

section \<open>Every call keeps it\<close>

lemma refresh_fields:
  "cores_millionths (policy_refresh rnd now p) = cores_millionths p"
  "accounting_quantum_cpu_us (policy_refresh rnd now p) = accounting_quantum_cpu_us p"
  "counters (policy_refresh rnd now p) = counters p" "active (policy_refresh rnd now p) = active p"
  "waiters (policy_refresh rnd now p) = waiters p" "initialized (policy_refresh rnd now p)"
  "updated_us (policy_refresh rnd now p) = policy_now now p"
  by (simp_all add: policy_refresh_def policy_now_def Let_def)

lemma capacity_updates [simp]:
  "policy_capacity (p\<lparr>credit_cpu_us := x\<rparr>) = policy_capacity p"
  "policy_capacity (p\<lparr>updated_us := t\<rparr>) = policy_capacity p"
  "policy_capacity (p\<lparr>deadline_us := t\<rparr>) = policy_capacity p"
  "policy_capacity (p\<lparr>initialized := b\<rparr>) = policy_capacity p"
  "policy_capacity (p\<lparr>active := as\<rparr>) = policy_capacity p"
  "policy_capacity (p\<lparr>waiters := ws\<rparr>) = policy_capacity p"
  by (simp_all add: capacity_as_nat capacity_nat_def)

lemma unsettled_updates [simp]:
  "unsettled_capacity (p\<lparr>credit_cpu_us := x\<rparr>) now = unsettled_capacity p now"
  "unsettled_capacity (p\<lparr>updated_us := t\<rparr>) now = unsettled_capacity p now"
  "unsettled_capacity (p\<lparr>deadline_us := t\<rparr>) now = unsettled_capacity p now"
  "unsettled_capacity (p\<lparr>initialized := b\<rparr>) now = unsettled_capacity p now"
  "unsettled_capacity (p\<lparr>waiters := ws\<rparr>) now = unsettled_capacity p now"
  by (simp_all add: unsettled_capacity_def)

text \<open>The credit after a refresh.\<close>

lemma refresh_credit:
  defines "old \<equiv> \<lambda>p. if initialized p then credit_cpu_us p else policy_capacity p"
    and "elapsed \<equiv> \<lambda>now p. if initialized p \<and> updated_us p \<le> now then now - updated_us p else 0"
  shows "cores_millionths p = 0 \<Longrightarrow> credit_cpu_us (policy_refresh rnd now p) = policy_capacity p"
    "cores_millionths p \<noteq> 0 \<Longrightarrow> credit_cpu_us (policy_refresh rnd now p) =
       (let refill = int (policy_refill (cores_millionths p) (elapsed now p)); u = unsettled_capacity p (policy_now now p) in
        if INT64_MAX < refill \<or> INT64_MAX - refill < old p then u else min u (old p + refill))"
  by (auto simp: policy_refresh_def Let_def policy_now_def old_def elapsed_def min_def)

lemma refresh_ok:
  assumes "policy_shape p" "credit_ok p"
  shows "policy_ok (policy_refresh rnd now p)"
proof -
  let ?q = "policy_refresh rnd now p"
  have shape: "policy_shape ?q" using assms(1) by (simp add: policy_shape_def refresh_fields)
  have same: "unsettled_capacity ?q t = unsettled_capacity p t" for t
    by (simp add: unsettled_capacity_def capacity_as_nat capacity_nat_def refresh_fields)
  note u = unsettled_range [OF assms(1), of "policy_now now p"]
  have "credit_cpu_us ?q \<le> unsettled_capacity p (policy_now now p) \<and> INT64_MIN \<le> credit_cpu_us ?q"
  proof (cases "cores_millionths p = 0")
    case True
    then show ?thesis using u by (simp add: refresh_credit(1) INT64_MIN_def)
  next
    case False
    then show ?thesis using u assms(2)
      by (auto simp: refresh_credit(2) Let_def INT64_MIN_def credit_ok_def)
  qed
  then show ?thesis using shape u by (simp add: policy_ok_def credit_ok_def refresh_fields same)
qed

lemma register_ok:
  assumes "policy_ok p" "gui_rf_preview_policy_register_counter owner p = (r, q)"
  shows "policy_ok q" "credit_cpu_us q = credit_cpu_us p" "active q = active p" "waiters q = waiters p"
    "initialized q = initialized p" "updated_us q = updated_us p" "cores_millionths q = cores_millionths p"
    "accounting_quantum_cpu_us q = accounting_quantum_cpu_us p"
proof -
  let ?p = "p\<lparr>counters := counters p @ [owner]\<rparr>"
  have more: "unsettled_capacity p t \<le> unsettled_capacity ?p t" if "policy_shape ?p" for t
    using assms(1) that by (simp add: policy_ok_def unsettled_sum capacity_nat_def)
  have grown: "policy_ok ?p" if "owner \<notin> set (counters p)" "length (counters p) \<noteq> GUI_RF_POLICY_MAX_COUNTERS"
  proof -
    have shape: "policy_shape ?p" using assms(1) that by (auto simp: policy_ok_def policy_shape_def)
    then show ?thesis
      using assms(1) more [OF shape, of "updated_us p"] by (auto simp: policy_ok_def credit_ok_def)
  qed
  show "policy_ok q"
    using assms grown by (auto simp: gui_rf_preview_policy_register_counter_def split: if_splits)
qed (use assms(2) in \<open>auto simp: gui_rf_preview_policy_register_counter_def split: if_splits\<close>)

lemma unregister_ok [inv_pres]:
  assumes "policy_ok p"
  shows "policy_ok (gui_rf_preview_policy_unregister_counter owner p)"
proof (cases "owner \<in> set (counters p)")
  case True
  let ?p = "p\<lparr>counters := remove1 owner (counters p)\<rparr>"
  have shape: "policy_shape ?p"
    using assms by (auto simp: policy_ok_def policy_shape_def length_remove1)
  show ?thesis
    using assms True shape unsettled_range [OF shape, of "updated_us p"]
    by (auto simp: gui_rf_preview_policy_unregister_counter_def Let_def policy_ok_def credit_ok_def INT64_MIN_def
        policy_shape_def)
qed (simp add: assms gui_rf_preview_policy_unregister_counter_def)

lemma charge_ok:
  assumes "policy_ok p"
  shows "policy_ok (p\<lparr>credit_cpu_us := policy_charge c (credit_cpu_us p)\<rparr>)"
  using assms by (auto simp: policy_charge_def policy_ok_def policy_shape_def credit_ok_def)

lemma retire_counter_ok [inv_pres]:
  assumes "policy_ok p"
  shows "policy_ok (gui_rf_preview_policy_retire_counter owner measured residual p)"
  using assms by (simp add: gui_rf_preview_policy_retire_counter_def Let_def unregister_ok charge_ok)

lemma waiters_ok:
  assumes "policy_ok p" "distinct ws" "length ws \<le> MAX_WAITERS"
  shows "policy_ok (p\<lparr>waiters := ws\<rparr>)"
  using assms by (simp add: policy_ok_def policy_shape_def credit_ok_def)

lemma cancel_ok [inv_pres]:
  assumes "policy_ok p"
  shows "policy_ok (gui_rf_preview_policy_cancel owner p)"
  unfolding gui_rf_preview_policy_cancel_def
  by (rule waiters_ok) (use assms in \<open>auto simp: policy_ok_def policy_shape_def length_remove1\<close>)

text \<open>A start at the time of the last refresh leaves the ceiling where it is.\<close>

lemma grant_ok:
  assumes "policy_ok p" "initialized p" "owner \<notin> fst ` set (active p)" "length (active p) < policy_concurrency p"
    and credit: "0 \<le> cost" "cost \<le> credit_cpu_us p \<or> cost = 0"
  shows "policy_ok (p\<lparr>active := active p @ [(owner, updated_us p)], credit_cpu_us := credit_cpu_us p - cost\<rparr>)"
    (is "policy_ok ?q")
proof -
  have "policy_concurrency p \<le> 8"
    using assms(1) div_le_mono [of "cores_millionths p + 999999" 8999999 1000000]
    by (simp add: policy_concurrency_def policy_ok_def policy_shape_def policy_limits)
  then have shape: "policy_shape ?q"
    using assms(1,3,4) by (simp add: policy_ok_def policy_shape_def policy_limits)
  moreover have "policy_shape (p\<lparr>active := active p @ [(owner, updated_us p)]\<rparr>)"
    using shape by (simp add: policy_shape_def)
  ultimately have "unsettled_capacity ?q (updated_us p) = unsettled_capacity p (updated_us p)"
    using assms(1) by (simp add: policy_ok_def unsettled_sum capacity_nat_def)
  then show ?thesis
    using assms(1,2) credit shape by (auto simp: policy_ok_def credit_ok_def INT64_MIN_def)
qed

lemma now_now [simp]: "policy_now (policy_now now p) p = policy_now now p"
  by (simp add: policy_now_def)

lemma refresh_now [simp]: "policy_refresh rnd (policy_now now p) p = policy_refresh rnd now p"
  by (simp add: policy_refresh_def policy_now_def)

text \<open>An owner that is granted was the first in the queue and the credit covered its reservation.\<close>

lemma policy_grant_effect:
  assumes "policy_ok q" "initialized q" "updated_us q = now" "owner \<notin> fst ` set (active q)"
    and "policy_grant owner now q = (granted, wait, r)"
  shows "policy_ok r" "initialized r" "updated_us r = now" "cores_millionths r = cores_millionths q"
    "accounting_quantum_cpu_us r = accounting_quantum_cpu_us q" "\<not> granted \<Longrightarrow> r = q"
    "granted \<Longrightarrow> hd (waiters q) = owner \<and> waiters r = remove1 owner (waiters q) \<and>
       active r = active q @ [(owner, now)] \<and> length (active q) < policy_concurrency q \<and>
       (cores_millionths q \<noteq> 0 \<longrightarrow> 1000 \<le> credit_cpu_us q \<and> credit_cpu_us r = credit_cpu_us q - 1000)"
proof -
  let ?c = "gui_rf_preview_policy_cancel owner q"
  have c: "policy_ok ?c" "active ?c = active q" "policy_concurrency ?c = policy_concurrency q" "initialized ?c"
      "updated_us ?c = now" "cores_millionths ?c = cores_millionths q" "credit_cpu_us ?c = credit_cpu_us q"
      "waiters ?c = remove1 owner (waiters q)" "accounting_quantum_cpu_us ?c = accounting_quantum_cpu_us q"
    using assms(1-3) by (simp_all add: cancel_ok) (simp_all add: gui_rf_preview_policy_cancel_def policy_concurrency_def)
  have credit_same: "?c\<lparr>active := as\<rparr> = ?c\<lparr>active := as, credit_cpu_us := credit_cpu_us q\<rparr>" for as
    by (simp add: gui_rf_preview_policy_cancel_def)
  note cases = assms(5)[unfolded policy_grant_def Let_def GUI_RF_POLICY_RESERVE_CPU_US_def]
  have "policy_ok r" if "granted"
  proof -
    define cost :: int where "cost = (if cores_millionths q \<noteq> 0 then 1000 else 0)"
    have "r = ?c\<lparr>active := active q @ [(owner, now)], credit_cpu_us := credit_cpu_us q - cost\<rparr>"
      and "cost \<le> credit_cpu_us q \<or> cost = 0" "length (active q) < policy_concurrency q"
      using cases that c credit_same by (auto simp: cost_def split: if_splits)
    moreover have "0 \<le> cost" by (simp add: cost_def)
    ultimately show ?thesis
      using grant_ok [OF c(1,4), of owner cost] assms(4) unfolding c(2,3,5,7) by blast
  qed
  moreover show "\<not> granted \<Longrightarrow> r = q" using cases by (auto split: if_splits)
  ultimately show "policy_ok r" using assms(1) by (cases granted) auto
  show "granted \<Longrightarrow> hd (waiters q) = owner \<and> waiters r = remove1 owner (waiters q) \<and>
       active r = active q @ [(owner, now)] \<and> length (active q) < policy_concurrency q \<and>
       (cores_millionths q \<noteq> 0 \<longrightarrow> 1000 \<le> credit_cpu_us q \<and> credit_cpu_us r = credit_cpu_us q - 1000)"
    using cases c by (auto split: if_splits)
qed (use assms(2,3,5) in \<open>auto simp: policy_grant_def gui_rf_preview_policy_cancel_def Let_def split: if_splits\<close>)

text \<open>An acquisition refreshes the policy, queues the owner and then grants it or not.\<close>

definition acquire_base :: "(rat \<Rightarrow> rat) \<Rightarrow> nat \<Rightarrow> nat \<Rightarrow> rf_policy \<Rightarrow> rf_policy" where
  "acquire_base rnd owner now p0 =
     (case gui_rf_preview_policy_register_counter owner p0 of (registered, p1) \<Rightarrow>
      if registered then policy_refresh rnd now p1 else p1)"

lemma acquire_base_ok:
  assumes "policy_ok p0"
  shows "policy_ok (acquire_base rnd owner now p0)"
  using register_ok(1) [OF assms] refresh_ok
  by (auto simp: acquire_base_def policy_ok_def split: prod.splits)

lemma acquire_effect:
  fixes p0 rnd owner now defines "p \<equiv> acquire_base rnd owner now p0"
  assumes "policy_ok p0" "gui_rf_preview_policy_acquire rnd owner now p0 = (granted, wait, r)"
  shows "policy_ok r" "initialized r = initialized p" "updated_us r = updated_us p"
    "cores_millionths r = cores_millionths p" "accounting_quantum_cpu_us r = accounting_quantum_cpu_us p"
    "\<not> granted \<Longrightarrow> credit_cpu_us r = credit_cpu_us p \<and> active r = active p"
    "granted \<Longrightarrow> initialized p \<and> active r = active p @ [(owner, updated_us p)] \<and>
       owner \<notin> fst ` set (active p) \<and> length (active p) < policy_concurrency p \<and>
       hd (waiters p @ [owner]) = owner \<and> waiters r = remove1 owner (waiters p) \<and>
       (cores_millionths p \<noteq> 0 \<longrightarrow> 1000 \<le> credit_cpu_us p \<and> credit_cpu_us r = credit_cpu_us p - 1000)"
proof -
  obtain reg p1 where reg: "gui_rf_preview_policy_register_counter owner p0 = (reg, p1)" by fastforce
  have ok: "policy_ok p" unfolding p_def using assms(2) by (rule acquire_base_ok)
  define q where "q = (if owner \<in> set (waiters p) then p else p\<lparr>waiters := waiters p @ [owner]\<rparr>)"
  have q: "active q = active p" "initialized q = initialized p" "updated_us q = updated_us p"
      "credit_cpu_us q = credit_cpu_us p" "cores_millionths q = cores_millionths p"
      "accounting_quantum_cpu_us q = accounting_quantum_cpu_us p" "policy_concurrency q = policy_concurrency p"
      "waiters q = (if owner \<in> set (waiters p) then waiters p else waiters p @ [owner])"
    by (simp_all add: q_def policy_concurrency_def)
  have ok_q: "policy_ok q" if "owner \<in> set (waiters p) \<or> length (waiters p) \<noteq> MAX_WAITERS"
    using ok that unfolding q_def by (auto intro!: waiters_ok simp: policy_ok_def policy_shape_def credit_ok_def)
  consider (same) "r = p" "\<not> granted"
    | (queued) "initialized p" "owner \<in> set (waiters p) \<or> length (waiters p) \<noteq> MAX_WAITERS"
      "owner \<notin> fst ` set (active p)" "policy_grant owner (updated_us p) q = (granted, wait, r)"
  proof (cases reg)
    case False
    then show thesis using assms(3) reg same by (simp add: p_def acquire_base_def gui_rf_preview_policy_acquire_def)
  next
    case True
    then have p: "policy_refresh rnd now p1 = p" by (simp add: p_def acquire_base_def reg)
    then have "initialized p" "policy_now now p1 = updated_us p" using refresh_fields(6,7) [of rnd now p1] by simp_all
    moreover have "policy_refresh rnd (updated_us p) p1 = p"
      using p refresh_now [of rnd now p1] unfolding calculation(2) by simp
    ultimately show thesis
      using assms(3) same queued unfolding gui_rf_preview_policy_acquire_def
      by (simp only: reg True prod.case Let_def p refl if_False not_True_eq_False q_def split: if_splits) auto
  qed
  note outcome = this
  have grant: "policy_ok r \<and> initialized r \<and> updated_us r = updated_us p \<and> cores_millionths r = cores_millionths p \<and>
      accounting_quantum_cpu_us r = accounting_quantum_cpu_us p \<and>
      (\<not> granted \<longrightarrow> r = q) \<and>
      (granted \<longrightarrow> hd (waiters q) = owner \<and> waiters r = remove1 owner (waiters q) \<and>
       active r = active p @ [(owner, updated_us p)] \<and> length (active p) < policy_concurrency p \<and>
       (cores_millionths p \<noteq> 0 \<longrightarrow> 1000 \<le> credit_cpu_us p \<and> credit_cpu_us r = credit_cpu_us p - 1000))"
    if "initialized p" "owner \<in> set (waiters p) \<or> length (waiters p) \<noteq> MAX_WAITERS"
      "owner \<notin> fst ` set (active p)" "policy_grant owner (updated_us p) q = (granted, wait, r)"
  proof -
    have "initialized q" "owner \<notin> fst ` set (active q)" using that(1,3) q by simp_all
    from policy_grant_effect [OF ok_q [OF that(2)] this(1) q(3) this(2) that(4)] show ?thesis
      unfolding q(1-7) by simp
  qed
  show "policy_ok r" "initialized r = initialized p" "updated_us r = updated_us p"
    "cores_millionths r = cores_millionths p" "accounting_quantum_cpu_us r = accounting_quantum_cpu_us p"
    "\<not> granted \<Longrightarrow> credit_cpu_us r = credit_cpu_us p \<and> active r = active p"
    using outcome by (cases; use grant ok q in auto)+
  assume granted
  with outcome show "initialized p \<and> active r = active p @ [(owner, updated_us p)] \<and>
       owner \<notin> fst ` set (active p) \<and> length (active p) < policy_concurrency p \<and>
       hd (waiters p @ [owner]) = owner \<and> waiters r = remove1 owner (waiters p) \<and>
       (cores_millionths p \<noteq> 0 \<longrightarrow> 1000 \<le> credit_cpu_us p \<and> credit_cpu_us r = credit_cpu_us p - 1000)"
  proof cases
    case queued
    from grant [OF this] \<open>granted\<close> queued show ?thesis
      by (auto simp: q(8) hd_append remove1_append split: if_splits)
  qed simp
qed

lemma remove_owner_fst [simp]: "map fst (remove_owner owner as) = remove1 owner (map fst as)"
  by (induction owner as rule: remove_owner.induct) auto

lemma remove_owner_length:
  "owner \<in> fst ` set as \<Longrightarrow> length as = Suc (length (remove_owner owner as))"
  by (induction owner as rule: remove_owner.induct) auto

lemma policy_settle_range:
  assumes "INT64_MIN \<le> c" "c \<le> INT64_MAX"
  shows "INT64_MIN \<le> policy_settle cpu c \<and> policy_settle cpu c \<le> INT64_MAX"
  using assms by (auto simp: policy_settle_def policy_charge_def Let_def policy_limits)

lemma settled_shape:
  assumes "policy_ok p" "owner \<in> fst ` set (active p)"
  shows "policy_shape (p\<lparr>active := remove_owner owner (active p)\<rparr>)"
    "policy_shape (p\<lparr>active := remove_owner owner (active p), credit_cpu_us := x\<rparr>)"
    "credit_ok (p\<lparr>active := remove_owner owner (active p)\<rparr>)"
    "credit_ok (p\<lparr>active := remove_owner owner (active p), credit_cpu_us := policy_settle cpu (credit_cpu_us p)\<rparr>)"
  using assms(1) remove_owner_length [OF assms(2)] policy_settle_range [of "credit_cpu_us p" cpu]
  by (simp_all add: policy_ok_def policy_shape_def credit_ok_def)

lemma finish_ok [inv_pres]:
  assumes "policy_ok p"
  shows "policy_ok (gui_rf_preview_policy_finish rnd owner now cpu p)"
proof (cases "owner \<in> fst ` set (active p)")
  case True
  define p1 where "p1 = policy_refresh rnd now p"
  have ok: "policy_ok p1" unfolding p1_def using assms by (intro refresh_ok) (simp_all add: policy_ok_def)
  have "owner \<in> fst ` set (active p1)" using True by (simp add: p1_def refresh_fields)
  note settled_shape [OF ok this]
  then show ?thesis
    using True by (simp add: gui_rf_preview_policy_finish_def Let_def p1_def [symmetric] refresh_ok)
qed (simp add: assms gui_rf_preview_policy_finish_def)

text \<open>Setting a budget: rounding that keeps the order and the two numbers at the upper end keeps the bound.\<close>

lemma set_budget_ok:
  assumes "policy_ok p" "gui_rf_preview_policy_set_budget rnd cores p = (r, q)"
    and mono: "\<And>x y. x \<le> y \<Longrightarrow> rnd x \<le> rnd y"
    and exact: "rnd 8000000 = 8000000" "rnd (8000000 + 1 / 2) = 8000000 + 1 / 2"
  shows "policy_ok q" "r \<Longrightarrow> \<not> initialized q" "\<not> r \<Longrightarrow> q = p" "active q = active p"
proof -
  have "nat \<lfloor>rnd (rnd (c * 1000000) + 1 / 2)\<rfloor> \<le> 8000000" if "c \<le> 8" for c
  proof -
    have "rnd (c * 1000000) \<le> 8000000" using mono [of "c * 1000000" 8000000] that exact(1) by simp
    then have "rnd (rnd (c * 1000000) + 1 / 2) \<le> 8000000 + 1 / 2"
      using mono [of "rnd (c * 1000000) + 1 / 2" "8000000 + 1 / 2"] exact(2) by simp
    then have "\<lfloor>rnd (rnd (c * 1000000) + 1 / 2)\<rfloor> \<le> 8000000" unfolding floor_le_iff by linarith
    then show ?thesis by linarith
  qed
  then have cores: "nat \<lfloor>rnd (rnd (c * 1000000) + 1 / 2)\<rfloor> \<le> 8000000" if "\<not> 8 < c" for c using that by simp
  show "policy_ok q"
    using assms(1,2) cores [of 0] cores
    by (auto simp: gui_rf_preview_policy_set_budget_def policy_ok_def policy_shape_def credit_ok_def
        split: option.splits if_splits)
qed (use assms(2) in \<open>auto simp: gui_rf_preview_policy_set_budget_def split: option.splits if_splits\<close>)

end
