(* ===== verification/Rf_Preview_Budget.thy ===== *)
theory Rf_Preview_Budget
  imports Rf_Preview_Policy
begin

text \<open>
  Runs of calls on a preview policy between two settings of the budget, with the processor time
  they charge: whatever the order of the calls and the times they carry, the time granted and
  spent stays below the capacity plus the configured share of the time that has passed.
\<close>

section \<open>Runs of calls\<close>

datatype policy_call =
    Call_Register nat
  | Call_Unregister nat
  | Call_Retire nat nat nat
  | Call_Cancel nat
  | Call_Acquire nat nat
  | Call_Finish nat nat nat

fun policy_act :: "(rat \<Rightarrow> rat) \<Rightarrow> policy_call \<Rightarrow> rf_policy \<Rightarrow> rf_policy" where
  "policy_act rnd (Call_Register owner) p = snd (gui_rf_preview_policy_register_counter owner p)"
| "policy_act rnd (Call_Unregister owner) p = gui_rf_preview_policy_unregister_counter owner p"
| "policy_act rnd (Call_Retire owner measured residual) p = gui_rf_preview_policy_retire_counter owner measured residual p"
| "policy_act rnd (Call_Cancel owner) p = gui_rf_preview_policy_cancel owner p"
| "policy_act rnd (Call_Acquire owner now) p = snd (snd (gui_rf_preview_policy_acquire rnd owner now p))"
| "policy_act rnd (Call_Finish owner now cpu) p = gui_rf_preview_policy_finish rnd owner now cpu p"

lemma policy_act_ok:
  assumes "policy_ok p"
  shows "policy_ok (policy_act rnd a p)"
proof (cases a)
  case (Call_Register owner)
  then show ?thesis using register_ok(1) [OF assms] by (simp add: prod_eq_iff)
next
  case (Call_Acquire owner now)
  then show ?thesis using acquire_effect(1) [OF assms] by (simp add: prod_eq_iff)
qed (simp_all add: assms inv_pres)

interpretation preview: inv_machine "policy_act rnd" policy_ok
  by unfold_locales (rule policy_act_ok)

text \<open>The processor time a call charges.\<close>

fun call_cost :: "policy_call \<Rightarrow> rf_policy \<Rightarrow> nat" where
  "call_cost (Call_Finish owner now cpu) p = (if owner \<in> fst ` set (active p) then cpu else 0)"
| "call_cost (Call_Retire owner measured residual) p =
     (if owner \<in> set (counters p) \<and> initialized p
      then add_sat measured (min residual (accounting_quantum_cpu_us p)) else 0)"
| "call_cost _ p = 0"

text \<open>The policy with the time charged so far and the time the interval began.\<close>

type_synonym metered = "rf_policy \<times> nat \<times> nat"

definition metered_step :: "(rat \<Rightarrow> rat) \<Rightarrow> policy_call \<Rightarrow> metered \<Rightarrow> metered" where
  "metered_step rnd a m =
     (case m of (p, spent, since) \<Rightarrow>
      let q = policy_act rnd a p
      in (q, spent + call_cost a p, if initialized p then since else updated_us q))"

definition policy_run :: "(rat \<Rightarrow> rat) \<Rightarrow> policy_call list \<Rightarrow> rf_policy \<Rightarrow> metered" where
  "policy_run rnd acts p = fold (metered_step rnd) acts (p, 0, 0)"

section \<open>What a refill gives\<close>

lemma policy_refill_bound:
  assumes "0 < c"
  shows "1000000 * policy_refill c e \<le> e * c"
proof -
  let ?w = "e div 1000000" and ?r = "e mod 1000000"
  let ?f = "if UINT64_MAX div c < ?w then UINT64_MAX else ?w * c"
  have "\<not> UINT64_MAX div c < ?w \<Longrightarrow> ?w * c \<le> UINT64_MAX" "UINT64_MAX div c < ?w \<Longrightarrow> UINT64_MAX < ?w * c"
    using assms by (simp_all add: not_less div_less_iff_less_mult less_eq_div_iff_mult_less_eq)
  then have f: "?f \<le> UINT64_MAX" "?f \<le> ?w * c" by auto
  have "policy_refill c e \<le> ?w * c + ?r * c div 1000000"
    unfolding policy_refill_def Let_def using add_sat_sum [OF f(1), of "?r * c div 1000000"] f(2) by linarith
  then have "1000000 * policy_refill c e \<le> 1000000 * (?w * c) + ?r * c" by linarith
  also have "\<dots> = (1000000 * ?w + ?r) * c" by (simp only: add_mult_distrib mult.assoc)
  finally show ?thesis by simp
qed

lemma policy_refill_fits:
  assumes "0 < c" "c \<le> 8000000" "e < 2 ^ 60"
  shows "int (policy_refill c e) \<le> INT64_MAX"
proof -
  have "e * c \<le> (2 ^ 60 - 1) * 8000000" using assms by (intro mult_le_mono) auto
  then have "policy_refill c e \<le> 2 ^ 63 - 1" using policy_refill_bound [OF assms(1), of e] by simp
  then show ?thesis by (simp add: INT64_MAX_def)
qed

text \<open>A refresh of an initialised policy adds at most the share of the time that has passed.\<close>

lemma refresh_earns:
  assumes "policy_shape p" "credit_ok p" "initialized p" "cores_millionths p \<noteq> 0" "policy_now now p < 2 ^ 60"
  shows "1000000 * credit_cpu_us (policy_refresh rnd now p)
      \<le> 1000000 * credit_cpu_us p + int ((policy_now now p - updated_us p) * cores_millionths p)"
    "min 1000 (credit_cpu_us p) \<le> credit_cpu_us (policy_refresh rnd now p)"
proof -
  let ?e = "policy_now now p - updated_us p"
  have e: "(if initialized p \<and> updated_us p \<le> now then now - updated_us p else 0) = ?e"
    using assms(3) by (simp add: policy_now_def)
  have c: "0 < cores_millionths p" "cores_millionths p \<le> 8000000" using assms by (simp_all add: policy_shape_def)
  have fits: "int (policy_refill (cores_millionths p) ?e) \<le> INT64_MAX"
    by (rule policy_refill_fits [OF c]) (use assms(5) in linarith)
  have bound: "1000000 * int (policy_refill (cores_millionths p) ?e) \<le> int (?e * cores_millionths p)"
    using policy_refill_bound [OF c(1), of ?e] by linarith
  note u = unsettled_range [OF assms(1), of "policy_now now p"]
  note credit = refresh_credit(2) [OF assms(4), of rnd now, unfolded e Let_def if_P [OF assms(3)]]
  show "1000000 * credit_cpu_us (policy_refresh rnd now p)
      \<le> 1000000 * credit_cpu_us p + int ((policy_now now p - updated_us p) * cores_millionths p)"
    unfolding credit using fits bound u by (auto simp: min_def not_less)
  show "min 1000 (credit_cpu_us p) \<le> credit_cpu_us (policy_refresh rnd now p)"
    unfolding credit using u by (auto simp: min_def not_less)
qed

text \<open>The first refresh gives the capacity.\<close>

lemma refresh_first:
  assumes "policy_shape p" "\<not> initialized p" "cores_millionths p \<noteq> 0"
  shows "credit_cpu_us (policy_refresh rnd now p) = policy_capacity p" "updated_us (policy_refresh rnd now p) = now"
proof -
  have "policy_refill (cores_millionths p) 0 = 0" by (simp add: policy_refill_def add_sat_def UINT64_MAX_def)
  moreover note unsettled_range [OF assms(1), of now]
  ultimately show "credit_cpu_us (policy_refresh rnd now p) = policy_capacity p"
    using assms(2) by (simp add: refresh_credit(2) [OF assms(3)] policy_now_def)
  show "updated_us (policy_refresh rnd now p) = now" using assms(2) by (simp add: refresh_fields policy_now_def)
qed

section \<open>The meter\<close>

text \<open>Credit, charges and reservations together are covered by a start capital and the elapsed share.\<close>

definition meter_bound :: "nat \<Rightarrow> nat \<Rightarrow> rf_policy \<Rightarrow> nat \<Rightarrow> nat \<Rightarrow> bool" where
  "meter_bound c k p spent since =
     (since \<le> updated_us p \<and> - int spent \<le> credit_cpu_us p \<and>
      1000000 * (credit_cpu_us p + int spent + 1000 * int (length (active p)))
        \<le> 1000000 * int k + int ((updated_us p - since) * c))"

definition start_capital :: "nat \<Rightarrow> nat \<Rightarrow> nat" where
  "start_capital c quantum = max 1000 (c * 4000 div 1000000) + 64 * quantum"

definition meter_ok :: "nat \<Rightarrow> nat \<Rightarrow> nat \<Rightarrow> metered \<Rightarrow> bool" where
  "meter_ok c quantum n m =
     (case m of (p, spent, since) \<Rightarrow>
      policy_ok p \<and> c \<noteq> 0 \<and> cores_millionths p = c \<and> accounting_quantum_cpu_us p = quantum \<and>
      (\<not> initialized p \<longrightarrow> spent = 0 \<and> length (active p) \<le> n) \<and>
      (initialized p \<and> spent < 2 ^ 62 \<and> updated_us p < 2 ^ 60 \<longrightarrow>
       meter_bound c (start_capital c quantum + 1000 * n) p spent since))"

lemma meter_bound_le:
  assumes "meter_bound c k p spent since" "updated_us q = updated_us p" "- int spent' \<le> credit_cpu_us q"
    "credit_cpu_us q + int spent' + 1000 * int (length (active q))
      \<le> credit_cpu_us p + int spent + 1000 * int (length (active p))"
  shows "meter_bound c k q spent' since"
  using assms(1,3,4) unfolding meter_bound_def assms(2) by (auto intro: order_trans [rotated])

lemma meter_bound_same:
  assumes "updated_us q = updated_us p" "active q = active p" "credit_cpu_us q = credit_cpu_us p"
  shows "meter_bound c k q spent since = meter_bound c k p spent since"
  unfolding meter_bound_def assms ..

lemma refresh_meter_init:
  assumes "policy_shape p" "credit_ok p" "initialized p" "cores_millionths p = c" "c \<noteq> 0"
    and "policy_now now p < 2 ^ 60" "meter_bound c k p spent since"
  shows "meter_bound c k (policy_refresh rnd now p) spent since"
proof -
  have le: "updated_us p \<le> policy_now now p" using assms(3) by (simp add: policy_now_def)
  have since: "since \<le> updated_us p" using assms(7) by (simp add: meter_bound_def)
  have "(policy_now now p - since) * c = (policy_now now p - updated_us p) * c + (updated_us p - since) * c"
    using le since by (simp add: add_mult_distrib [symmetric])
  moreover note refresh_earns [OF assms(1-3) _ assms(6), of rnd]
  moreover have "- int spent \<le> credit_cpu_us (policy_refresh rnd now p)"
    using calculation(3) assms by (simp add: meter_bound_def min_def split: if_splits)
  ultimately show ?thesis using assms(4,5,7) le since by (simp add: meter_bound_def refresh_fields)
qed

lemma refresh_meter:
  assumes "meter_ok c quantum n (p, spent, since)" "spent < 2 ^ 62" "policy_now now p < 2 ^ 60"
  shows "meter_bound c (start_capital c quantum + 1000 * n) (policy_refresh rnd now p) spent
           (if initialized p then since else policy_now now p)"
proof -
  let ?k = "start_capital c quantum + 1000 * n"
  have ok: "policy_shape p" "credit_ok p" and c: "cores_millionths p = c" "c \<noteq> 0" "accounting_quantum_cpu_us p = quantum"
    using assms(1) by (simp_all add: meter_ok_def policy_ok_def)
  show ?thesis
  proof (cases "initialized p")
    case True
    then have "updated_us p < 2 ^ 60" using assms(3) by (simp add: policy_now_def split: if_splits)
    then have "meter_bound c ?k p spent since" using assms(1,2) True by (simp add: meter_ok_def)
    from refresh_meter_init [OF ok True c(1,2) assms(3) this] show ?thesis using True by simp
  next
    case False
    have "policy_capacity p \<le> int (start_capital c quantum)" "0 \<le> policy_capacity p"
      using capacity_range [of p] ok(1) c
      by (simp_all only: start_capital_def policy_shape_def policy_limits capacity_as_nat of_nat_le_iff of_nat_0_le_iff)
    then show ?thesis
      using refresh_first [OF ok(1) False] False c assms(1)
      by (simp add: meter_bound_def refresh_fields meter_ok_def policy_now_def)
  qed
qed

section \<open>Every call keeps the meter\<close>

lemma unregister_effect:
  fixes p owner defines "q \<equiv> gui_rf_preview_policy_unregister_counter owner p"
  assumes "policy_ok p"
  shows "active q = active p" "updated_us q = updated_us p" "initialized q = initialized p"
    "cores_millionths q = cores_millionths p" "accounting_quantum_cpu_us q = accounting_quantum_cpu_us p"
    "credit_cpu_us q \<le> credit_cpu_us p" "min 0 (credit_cpu_us p) \<le> credit_cpu_us q"
proof -
  let ?p = "p\<lparr>counters := remove1 owner (counters p)\<rparr>"
  have "policy_shape ?p" using assms(2) by (auto simp: policy_ok_def policy_shape_def length_remove1)
  from unsettled_range [OF this, of "updated_us p"] have "0 \<le> unsettled_capacity ?p (updated_us p)" by linarith
  then show "active q = active p" "updated_us q = updated_us p" "initialized q = initialized p"
    "cores_millionths q = cores_millionths p" "accounting_quantum_cpu_us q = accounting_quantum_cpu_us p"
    "credit_cpu_us q \<le> credit_cpu_us p" "min 0 (credit_cpu_us p) \<le> credit_cpu_us q"
    by (auto simp: q_def gui_rf_preview_policy_unregister_counter_def Let_def)
qed

text \<open>A retired counter pays before it goes.\<close>

lemma retire_effect:
  fixes p owner measured residual
  defines "q \<equiv> gui_rf_preview_policy_retire_counter owner measured residual p"
    and "cost \<equiv> call_cost (Call_Retire owner measured residual) p"
  assumes "policy_ok p" "cores_millionths p \<noteq> 0"
  shows "active q = active p" "updated_us q = updated_us p" "initialized q = initialized p"
    "cores_millionths q = cores_millionths p" "accounting_quantum_cpu_us q = accounting_quantum_cpu_us p"
    "initialized p \<Longrightarrow> credit_cpu_us q \<le> policy_charge cost (credit_cpu_us p)"
    "initialized p \<Longrightarrow> min 0 (policy_charge cost (credit_cpu_us p)) \<le> credit_cpu_us q"
proof -
  define p1 where "p1 = (if initialized p then p\<lparr>credit_cpu_us := policy_charge cost (credit_cpu_us p)\<rparr> else p)"
  have p1: "active p1 = active p" "updated_us p1 = updated_us p" "initialized p1 = initialized p"
    "cores_millionths p1 = cores_millionths p" "accounting_quantum_cpu_us p1 = accounting_quantum_cpu_us p"
    "initialized p \<Longrightarrow> credit_cpu_us p1 = policy_charge cost (credit_cpu_us p)"
    by (simp_all add: p1_def)
  have none: "p\<lparr>credit_cpu_us := policy_charge 0 (credit_cpu_us p)\<rparr> = p"
    using assms(3) by (simp add: policy_charge_def policy_ok_def credit_ok_def INT64_MAX_def)
  have ok: "policy_ok p1" using assms(3) charge_ok by (simp add: p1_def)
  have zero: "p1 = p" if "cost = 0" using none that by (simp add: p1_def)
  have "q = gui_rf_preview_policy_unregister_counter owner p1"
  proof (cases "owner \<in> set (counters p)")
    case True
    let ?r = "if accounting_quantum_cpu_us p < residual then accounting_quantum_cpu_us p else residual"
    have cost: "cost = (if initialized p then add_sat measured ?r else 0)"
      using True by (simp add: cost_def min_def)
    have "q = gui_rf_preview_policy_unregister_counter owner
        (if initialized p \<and> cores_millionths p \<noteq> 0 \<and> add_sat measured ?r \<noteq> 0
         then p\<lparr>credit_cpu_us := policy_charge (add_sat measured ?r) (credit_cpu_us p)\<rparr> else p)"
      using True by (simp only: q_def gui_rf_preview_policy_retire_counter_def Let_def) simp
    also have "(if initialized p \<and> cores_millionths p \<noteq> 0 \<and> add_sat measured ?r \<noteq> 0
         then p\<lparr>credit_cpu_us := policy_charge (add_sat measured ?r) (credit_cpu_us p)\<rparr> else p) = p1"
    proof (cases "cost = 0")
      case True
      then show ?thesis using zero cost by auto
    next
      case False
      then have "initialized p" "cost = add_sat measured ?r" using cost by (simp_all split: if_splits)
      then show ?thesis using False assms(4) unfolding p1_def by simp
    qed
    finally show ?thesis .
  next
    case False
    then have "cost = 0" by (simp add: cost_def)
    then show ?thesis using False zero
      by (simp add: q_def gui_rf_preview_policy_retire_counter_def gui_rf_preview_policy_unregister_counter_def)
  qed
  note u = unregister_effect [OF ok, of owner, folded this]
  show "active q = active p" "updated_us q = updated_us p" "initialized q = initialized p"
    "cores_millionths q = cores_millionths p" "accounting_quantum_cpu_us q = accounting_quantum_cpu_us p"
    "initialized p \<Longrightarrow> credit_cpu_us q \<le> policy_charge cost (credit_cpu_us p)"
    "initialized p \<Longrightarrow> min 0 (policy_charge cost (credit_cpu_us p)) \<le> credit_cpu_us q"
    using u p1 by simp_all
qed

text \<open>As long as the charges stay small, they are taken exactly.\<close>

lemma policy_charge_exact:
  assumes "- int spent \<le> credit" "spent + cost < 2 ^ 62"
  shows "policy_charge cost credit = credit - int cost"
proof -
  have "int spent + int cost < 4611686018427387904" using assms(2) by simp
  then show ?thesis using assms(1) by (simp add: policy_charge_def INT64_MAX_def INT64_MIN_def)
qed

lemma policy_settle_bound:
  assumes "- int spent \<le> credit" "spent + cpu < 2 ^ 62"
  shows "policy_settle cpu credit \<le> credit + 1000 - int cpu" "- int (spent + cpu) \<le> policy_settle cpu credit"
  using policy_charge_exact [OF assms(1), of "cpu - 1000"] assms
  by (auto simp: policy_settle_def Let_def GUI_RF_POLICY_RESERVE_CPU_US_def INT64_MAX_def)

lemma acquire_base_meter:
  fixes rnd owner now
  assumes "meter_ok c quantum n (p0, spent, since)"
  defines "p \<equiv> acquire_base rnd owner now p0"
  shows "policy_ok p" "cores_millionths p = c" "accounting_quantum_cpu_us p = quantum"
    "\<not> initialized p \<Longrightarrow> \<not> initialized p0 \<and> active p = active p0"
    "initialized p \<Longrightarrow> spent < 2 ^ 62 \<Longrightarrow> updated_us p < 2 ^ 60 \<Longrightarrow>
       meter_bound c (start_capital c quantum + 1000 * n) p spent (if initialized p0 then since else updated_us p)"
proof -
  obtain reg p1 where reg: "gui_rf_preview_policy_register_counter owner p0 = (reg, p1)" by fastforce
  have ok0: "policy_ok p0" "cores_millionths p0 = c" "accounting_quantum_cpu_us p0 = quantum"
    using assms(1) by (simp_all add: meter_ok_def)
  note r = register_ok [OF ok0(1) reg]
  have m1: "meter_ok c quantum n (p1, spent, since)"
    using assms(1) r meter_bound_same [OF r(6,3,2)] by (simp add: meter_ok_def)
  show "policy_ok p" unfolding p_def using ok0(1) by (rule acquire_base_ok)
  show "cores_millionths p = c" "accounting_quantum_cpu_us p = quantum"
    "\<not> initialized p \<Longrightarrow> \<not> initialized p0 \<and> active p = active p0"
    using ok0 r by (cases reg; simp add: p_def acquire_base_def reg refresh_fields)+
  assume p: "initialized p" "spent < 2 ^ 62" "updated_us p < 2 ^ 60"
  show "meter_bound c (start_capital c quantum + 1000 * n) p spent (if initialized p0 then since else updated_us p)"
  proof (cases reg)
    case True
    then have "p = policy_refresh rnd now p1" by (simp add: p_def acquire_base_def reg)
    then show ?thesis
      using refresh_meter [OF m1 p(2), of now rnd] p(3) r(5)
      by (simp add: refresh_fields cong: if_cong split del: if_split)
  next
    case False
    then have "p = p1" by (simp add: p_def acquire_base_def reg)
    then show ?thesis using m1 p r(5) by (simp add: meter_ok_def)
  qed
qed

lemma acquire_meter:
  assumes "meter_ok c quantum n (p, spent, since)"
  shows "meter_ok c quantum n (metered_step rnd (Call_Acquire owner now) (p, spent, since))"
proof -
  obtain granted wait q where a: "gui_rf_preview_policy_acquire rnd owner now p = (granted, wait, q)"
    by (metis prod_cases3)
  have ok: "policy_ok p" using assms by (simp add: meter_ok_def)
  note e = acquire_effect [OF ok a]
  note b = acquire_base_meter [OF assms, of rnd owner now]
  let ?b = "acquire_base rnd owner now p" and ?s = "if initialized p then since else updated_us q"
  have bound: "meter_bound c (start_capital c quantum + 1000 * n) q spent ?s"
    if q: "initialized q" "spent < 2 ^ 62" "updated_us q < 2 ^ 60"
  proof -
      have mb: "meter_bound c (start_capital c quantum + 1000 * n) ?b spent ?s"
      using b(5) q(2) q(1,3) [unfolded e(2,3)] unfolding e(3) by blast
    show ?thesis
    proof (cases granted)
      case True
      then have "active q = active ?b @ [(owner, updated_us ?b)]" "1000 \<le> credit_cpu_us ?b"
        "credit_cpu_us q = credit_cpu_us ?b - 1000"
        using e(7) b(2) assms by (auto simp: meter_ok_def)
      then show ?thesis by (intro meter_bound_le [OF mb e(3)]) simp_all
    next
      case False
      then show ?thesis using mb e(3,6) meter_bound_same [of q ?b] by simp
    qed
  qed
  have fresh: "spent = 0 \<and> length (active q) \<le> n" if "\<not> initialized q"
  proof -
    have "\<not> initialized ?b" "\<not> granted" using e(2,7) that by auto
    then have "\<not> initialized p" "active q = active p"
      using b(4) e(6) by simp_all
    then show ?thesis using assms by (simp add: meter_ok_def)
  qed
  have same: "cores_millionths q = c" "accounting_quantum_cpu_us q = quantum" "c \<noteq> 0"
    using b(2,3) e(4,5) assms by (simp_all add: meter_ok_def)
  show ?thesis
    using e(1) bound fresh same a by (simp add: meter_ok_def metered_step_def Let_def cong: if_cong split del: if_split)
qed

lemma finish_meter:
  assumes "meter_ok c quantum n (p, spent, since)"
  shows "meter_ok c quantum n (metered_step rnd (Call_Finish owner now cpu) (p, spent, since))"
proof (cases "owner \<in> fst ` set (active p)")
  case True
  let ?k = "start_capital c quantum + 1000 * n"
  have ok: "policy_ok p" "cores_millionths p = c" "c \<noteq> 0" "accounting_quantum_cpu_us p = quantum"
    using assms by (simp_all add: meter_ok_def)
  define p1 where "p1 = policy_refresh rnd now p"
  define s1 where "s1 = (if initialized p then since else policy_now now p)"
  define p2 where "p2 = p1\<lparr>active := remove_owner owner (active p1), credit_cpu_us := policy_settle cpu (credit_cpu_us p1)\<rparr>"
  define q where "q = gui_rf_preview_policy_finish rnd owner now cpu p"
  have p1: "active p1 = active p" "initialized p1" "updated_us p1 = policy_now now p" "cores_millionths p1 = c"
    "accounting_quantum_cpu_us p1 = quantum"
    using ok by (simp_all add: p1_def refresh_fields)
  have p2: "initialized p2" "updated_us p2 = policy_now now p" "cores_millionths p2 = c"
    "accounting_quantum_cpu_us p2 = quantum" "credit_cpu_us p2 = policy_settle cpu (credit_cpu_us p1)"
    using p1 by (simp_all add: p2_def)
  have q: "q = policy_refresh rnd (policy_now now p) p2"
    using True ok(2,3) p1(4)
    by (simp add: q_def gui_rf_preview_policy_finish_def Let_def p1_def [symmetric]) (simp add: p2_def)
  have now2: "policy_now (policy_now now p) p2 = policy_now now p" using p2 by (simp add: policy_now_def)
  have ok_q: "policy_ok q" unfolding q_def using ok(1) by (rule finish_ok)
  have ok_p1: "policy_ok p1" unfolding p1_def using ok(1) by (intro refresh_ok) (simp_all add: policy_ok_def)
  have "owner \<in> fst ` set (active p1)" using True p1(1) by simp
  then have shape: "policy_shape p2" "credit_ok p2" using settled_shape [OF ok_p1] by (simp_all add: p2_def)
  have bound: "meter_bound c ?k q (spent + cpu) s1" if small: "spent + cpu < 2 ^ 62" "policy_now now p < 2 ^ 60"
  proof -
    have b1: "meter_bound c ?k p1 spent s1"
      unfolding p1_def s1_def using small by (intro refresh_meter [OF assms]) simp_all
    have len: "length (active p) = Suc (length (active p2))"
      using remove_owner_length [OF True] p1(1) by (simp add: p2_def)
    note settle = policy_settle_bound [of spent "credit_cpu_us p1" cpu]
    have least: "- int spent \<le> credit_cpu_us p1" using b1 by (simp add: meter_bound_def)
    have "meter_bound c ?k p2 (spent + cpu) s1"
      by (rule meter_bound_le [OF b1]) (use settle [OF least small(1)] len p1 p2 in simp_all)
    then show ?thesis
      unfolding q using small(2) p2 now2 ok(3) shape by (intro refresh_meter_init) simp_all
  qed
  have "meter_ok c quantum n (q, spent + cpu, if initialized p then since else updated_us q)"
    using ok_q ok(2-4) bound q p2 now2 unfolding s1_def
    by (simp add: meter_ok_def refresh_fields cong: if_cong split del: if_split)
  then show ?thesis
    using True by (simp add: metered_step_def q_def Let_def cong: if_cong split del: if_split)
next
  case False
  then show ?thesis using assms
    by (simp add: metered_step_def gui_rf_preview_policy_finish_def Let_def meter_ok_def)
qed

lemma metered_step_ok:
  assumes "meter_ok c quantum n m"
  shows "meter_ok c quantum n (metered_step rnd a m)"
proof -
  obtain p spent since where m: "m = (p, spent, since)" by (cases m)
  have ok: "policy_ok p" "cores_millionths p \<noteq> 0" using assms by (simp_all add: m meter_ok_def)
  show ?thesis
  proof (cases a)
    case (Call_Register owner)
    obtain reg q where r: "gui_rf_preview_policy_register_counter owner p = (reg, q)" by fastforce
    note e = register_ok [OF ok(1) r]
    show ?thesis
      using assms e meter_bound_same [OF e(6,3,2)] by (simp add: m Call_Register r metered_step_def meter_ok_def Let_def)
  next
    case (Call_Unregister owner)
    note e = unregister_effect [OF ok(1), of owner]
    have "meter_bound c k (gui_rf_preview_policy_unregister_counter owner p) spent since"
      if "meter_bound c k p spent since" for k
      by (rule meter_bound_le [OF that e(2)])
        (use e that in \<open>auto simp: meter_bound_def min_def split: if_splits\<close>)
    then show ?thesis
      using assms e unregister_ok [OF ok(1)] by (simp add: m Call_Unregister metered_step_def meter_ok_def Let_def)
  next
    case (Call_Cancel owner)
    then show ?thesis
      using assms cancel_ok [OF ok(1)] meter_bound_same [of "gui_rf_preview_policy_cancel owner p" p]
      by (simp add: m metered_step_def meter_ok_def Let_def) (simp add: gui_rf_preview_policy_cancel_def)
  next
    case (Call_Retire owner measured residual)
    let ?q = "gui_rf_preview_policy_retire_counter owner measured residual p"
    define cost where "cost = call_cost (Call_Retire owner measured residual) p"
    note e = retire_effect [OF ok, of owner measured residual, folded cost_def]
    have none: "\<not> initialized p \<Longrightarrow> cost = 0" by (simp add: cost_def)
    have "meter_bound c k ?q (spent + cost) since"
      if b: "meter_bound c k p spent since" and "initialized p" and small: "spent + cost < 2 ^ 62" for k
    proof (rule meter_bound_le [OF b e(2)])
      have least: "- int spent \<le> credit_cpu_us p" using b by (simp add: meter_bound_def)
      note x = e(6,7) [OF \<open>initialized p\<close>, unfolded policy_charge_exact [OF least small]]
      show "- int (spent + cost) \<le> credit_cpu_us ?q" using x(2) least by (simp add: min_def split: if_splits)
      show "credit_cpu_us ?q + int (spent + cost) + 1000 * int (length (active ?q))
          \<le> credit_cpu_us p + int spent + 1000 * int (length (active p))" using x(1) e(1) by simp
    qed
    then have "meter_ok c quantum n (?q, spent + cost, if initialized p then since else updated_us ?q)"
      using assms e(1-5) none retire_counter_ok [OF ok(1), of owner measured residual] by (simp add: m meter_ok_def)
    then show ?thesis by (simp only: m Call_Retire metered_step_def prod.case Let_def policy_act.simps cost_def)
  qed (use assms acquire_meter finish_meter in \<open>simp_all add: m\<close>)
qed

interpretation meter: inv_machine "metered_step rnd" "meter_ok c quantum n"
  by unfold_locales (rule metered_step_ok)

section \<open>The budget\<close>

lemma run_meter:
  assumes "policy_ok p" "\<not> initialized p" "cores_millionths p \<noteq> 0"
  shows "meter_ok (cores_millionths p) (accounting_quantum_cpu_us p) (length (active p)) (policy_run rnd acts p)"
  unfolding policy_run_def by (rule meter.run_good) (use assms in \<open>simp add: meter_ok_def\<close>)


definition budget_sample_calls :: "policy_call list" where
  "budget_sample_calls = [Call_Acquire 7 0, Call_Finish 7 500 5000]"

lemmas sample_evaluation = policy_initializer_def Let_def policy_refresh_def policy_now_def policy_capacity_def
  policy_limits unsettled_capacity_def add_sat_def policy_refill_def UINT64_MAX_def INT64_MAX_def

definition sample_policy :: "nat list \<Rightarrow> nat \<Rightarrow> nat \<Rightarrow> int \<Rightarrow> (nat \<times> nat) list \<Rightarrow> rf_policy" where
  "sample_policy cs now deadline credit as =
     \<lparr>cores_millionths = 1000000, accounting_quantum_cpu_us = 0, counters = cs, updated_us = now,
      deadline_us = deadline, credit_cpu_us = credit, initialized = True, active = as, waiters = []\<rparr>"

lemma sample_acquire_1:
  "gui_rf_preview_policy_acquire id 7 0 (policy_initializer 0) = (True, 0, sample_policy [7] 0 0 3000 [(7, 0)])"
proof -
  have "policy_refresh id 0 (policy_initializer 0\<lparr>counters := [7]\<rparr>) = sample_policy [7] 0 0 4000 []"
    by (simp add: sample_evaluation sample_policy_def policy_deadline_def)
  then show ?thesis
    by (simp add: gui_rf_preview_policy_acquire_def gui_rf_preview_policy_register_counter_def policy_now_def
        policy_initializer_def Let_def policy_limits MAX_WAITERS_def policy_grant_def sample_policy_def
        policy_concurrency_def gui_rf_preview_policy_cancel_def)
qed

lemma sample_finish:
  "gui_rf_preview_policy_finish id 7 500 5000 (sample_policy [7] 0 0 3000 [(7, 0)]) = sample_policy [7] 500 2000 (- 500) []"
proof -
  have "policy_refresh id 500 (sample_policy [7] 0 0 3000 [(7, 0)]) = sample_policy [7] 500 500 3500 [(7, 0)]"
    by (simp add: sample_evaluation sample_policy_def policy_deadline_def)
  moreover have wait: "\<lfloor>1500999999 / 1000000 :: rat\<rfloor> = 1500" by (simp add: floor_eq_iff)
  moreover have "policy_settle 5000 3500 = - 500"
    by (simp add: policy_settle_def policy_charge_def policy_limits INT64_MAX_def INT64_MIN_def)
  moreover have "policy_refresh id 500 (sample_policy [7] 500 500 (- 500) []) = sample_policy [7] 500 2000 (- 500) []"
    by (simp add: sample_evaluation sample_policy_def policy_deadline_def wait)
  ultimately show ?thesis
    by (simp add: gui_rf_preview_policy_finish_def policy_now_def Let_def sample_policy_def)
qed

lemma sample_acquire_2:
  "gui_rf_preview_policy_acquire id 9 3000 (sample_policy [7] 500 2000 (- 500) []) =
     (True, 0, sample_policy [7, 9] 3000 3000 1000 [(9, 3000)])"
proof -
  have "policy_refresh id 3000 (sample_policy [7, 9] 500 2000 (- 500) []) = sample_policy [7, 9] 3000 3000 2000 []"
    by (simp add: sample_evaluation sample_policy_def policy_deadline_def)
  then show ?thesis
    by (simp add: gui_rf_preview_policy_acquire_def gui_rf_preview_policy_register_counter_def policy_now_def
        Let_def policy_limits policy_grant_def sample_policy_def policy_concurrency_def gui_rf_preview_policy_cancel_def)
qed

lemma budget_sample_run:
  "policy_run id budget_sample_calls (policy_initializer 0) = (sample_policy [7] 500 2000 (- 500) [], 5000, 0)"
  "policy_run id (budget_sample_calls @ [Call_Acquire 9 3000]) (policy_initializer 0) =
     (sample_policy [7, 9] 3000 3000 1000 [(9, 3000)], 5000, 0)"
proof -
  have start: "initialized (policy_initializer 0) = False" "initialized (sample_policy cs t d c as)"
    "active (sample_policy cs t d c as) = as" "updated_us (sample_policy cs t d c as) = t" for cs t d c as
    by (simp_all add: policy_initializer_def sample_policy_def)
  show r: "policy_run id budget_sample_calls (policy_initializer 0) = (sample_policy [7] 500 2000 (- 500) [], 5000, 0)"
    by (simp add: policy_run_def budget_sample_calls_def metered_step_def Let_def sample_acquire_1 sample_finish start)
  have "policy_run id (budget_sample_calls @ [Call_Acquire 9 3000]) (policy_initializer 0) =
      metered_step id (Call_Acquire 9 3000) (policy_run id budget_sample_calls (policy_initializer 0))"
    by (simp add: policy_run_def)
  then show "policy_run id (budget_sample_calls @ [Call_Acquire 9 3000]) (policy_initializer 0) =
     (sample_policy [7, 9] 3000 3000 1000 [(9, 3000)], 5000, 0)"
    unfolding r by (simp add: metered_step_def Let_def sample_acquire_2 start)
qed


section \<open>The first in the queue is served\<close>

lemma policy_refill_enough:
  assumes "0 < c"
  shows "min UINT64_MAX (e * c div 1000000) \<le> policy_refill c e"
proof -
  let ?w = "e div 1000000" and ?r = "e mod 1000000"
  have "e * c div 1000000 = (1000000 * (?w * c) + ?r * c) div 1000000"
    by (simp only: mult.assoc [symmetric] add_mult_distrib [symmetric]) simp
  also have "\<dots> = ?w * c + ?r * c div 1000000" by (simp only: div_mult_self2 [OF zero_neq_numeral [symmetric]] add.commute)
  finally have e: "e * c div 1000000 = ?w * c + ?r * c div 1000000" .
  show ?thesis
  proof (cases "UINT64_MAX div c < ?w")
    case True
    then show ?thesis by (simp add: policy_refill_def add_sat_min)
  next
    case False
    then have "?w * c \<le> UINT64_MAX" using assms by (simp add: not_less less_eq_div_iff_mult_less_eq)
    then show ?thesis using False by (simp add: policy_refill_def add_sat_min e)
  qed
qed

lemma refresh_serves:
  assumes "policy_ok p" "initialized p" "cores_millionths p \<noteq> 0" "updated_us p \<le> now"
    and paid: "1000000 * (1000 - credit_cpu_us p) \<le> int ((now - updated_us p) * cores_millionths p)"
  shows "1000 \<le> credit_cpu_us (policy_refresh rnd now p)"
proof -
  let ?x = "(now - updated_us p) * cores_millionths p"
  let ?r = "policy_refill (cores_millionths p) (now - updated_us p)"
  have shape: "policy_shape p" using assms(1) by (simp add: policy_ok_def)
  note u = unsettled_range [OF shape, of now]
  have now: "policy_now now p = now" using assms(4) by (simp add: policy_now_def)
  note credit = refresh_credit(2) [OF assms(3), of rnd now, unfolded now Let_def if_P [OF assms(2)] if_P [OF conjI [OF assms(2,4)]]]
  have "1000 - credit_cpu_us p \<le> int ?x div 1000000" using zdiv_mono1 [OF paid, of 1000000] by simp
  then have "1000 - credit_cpu_us p \<le> int (?x div 1000000)" by (simp add: zdiv_int)
  moreover have "min UINT64_MAX (?x div 1000000) \<le> ?r" using assms(3) by (intro policy_refill_enough) simp
  ultimately have "1000 \<le> credit_cpu_us p + int ?r" if "int ?r \<le> INT64_MAX"
    using that by (auto simp: min_def INT64_MAX_def UINT64_MAX_def split: if_splits)
  then show ?thesis unfolding credit using u by (auto simp: min_def not_less)
qed

text \<open>C39: The first in the queue is served: once a free worker slot exists and the configured share of the
  time since the last refresh covers what the credit lacks of a reservation, the request of a
  registered owner that heads the queue, or finds it empty, is granted at once, whatever the
  rounding, and whatever has been charged before.
\<close>

theorem first_waiter_served:
  assumes "policy_ok p" "initialized p" "cores_millionths p \<noteq> 0" "updated_us p \<le> now"
    and owner: "owner \<noteq> 0" "owner \<in> set (counters p)" "owner \<notin> fst ` set (active p)"
    and first: "waiters p = [] \<or> hd (waiters p) = owner" "length (active p) < policy_concurrency p"
    and paid: "1000000 * (1000 - credit_cpu_us p) \<le> int ((now - updated_us p) * cores_millionths p)"
  shows "\<exists>q. gui_rf_preview_policy_acquire rnd owner now p = (True, 0, q) \<and>
     active q = active p @ [(owner, now)] \<and> waiters q = remove1 owner (waiters p)"
proof -
  define p1 where "p1 = policy_refresh rnd now p"
  have reg: "gui_rf_preview_policy_register_counter owner p = (True, p)"
    using owner by (simp add: gui_rf_preview_policy_register_counter_def)
  have now: "policy_now now p = now" using assms(4) by (simp add: policy_now_def)
  have p1: "active p1 = active p" "waiters p1 = waiters p" "cores_millionths p1 = cores_millionths p"
    "policy_concurrency p1 = policy_concurrency p"
    by (simp_all add: p1_def refresh_fields policy_concurrency_def)
  have credit: "1000 \<le> credit_cpu_us p1" unfolding p1_def by (rule refresh_serves [OF assms(1-4) paid])
  let ?q = "if owner \<in> set (waiters p1) then p1 else p1\<lparr>waiters := waiters p1 @ [owner]\<rparr>"
  have queue: "hd (waiters ?q) = owner" "remove1 owner (waiters ?q) = remove1 owner (waiters p)"
    "owner \<in> set (waiters p1) \<or> length (waiters p1) \<noteq> MAX_WAITERS"
    using first(1) p1(2) by (cases "waiters p"; force simp: MAX_WAITERS_def)+
  have "policy_concurrency ?q = policy_concurrency p" using p1(3) by (simp add: policy_concurrency_def)
  then have "policy_grant owner now ?q = (True, 0, snd (snd (policy_grant owner now ?q)))"
    "active (snd (snd (policy_grant owner now ?q))) = active p @ [(owner, now)]"
    "waiters (snd (snd (policy_grant owner now ?q))) = remove1 owner (waiters p)"
    using queue p1 credit first(2)
    by (simp_all add: policy_grant_def GUI_RF_POLICY_RESERVE_CPU_US_def Let_def gui_rf_preview_policy_cancel_def
        remove1_append remove1_idem)
  moreover have "gui_rf_preview_policy_acquire rnd owner now p = policy_grant owner now ?q"
    using reg owner(1,3) queue(3) p1(1)
    by (auto simp: gui_rf_preview_policy_acquire_def Let_def now p1_def [symmetric])
  ultimately show ?thesis by metis
qed

lemma first_waiter_served_witness:
  "\<exists>q. gui_rf_preview_policy_acquire id 7 2000 (sample_policy [7] 500 2000 (- 500) []) = (True, 0, q) \<and>
     active q = [] @ [(7, 2000)] \<and> waiters q = remove1 7 []"
proof -
  have "policy_ok (sample_policy [7] 500 2000 (- 500) [])"
    by (simp add: policy_ok_def policy_shape_def credit_ok_def sample_policy_def sample_evaluation INT64_MIN_def)
  then show ?thesis
    using first_waiter_served [of "sample_policy [7] 500 2000 (- 500) []" 2000 7 id]
    by (simp add: sample_policy_def policy_concurrency_def)
qed

end
