(* ===== verification/Rf_Preview_Pressure.thy ===== *)
theory Rf_Preview_Pressure
  imports Prelude Complex_Main
begin

text \<open>
  When preview decoding pauses (misrc\_gui/processing/gui\_rf\_preview\_pressure.c): the state with
  its two timers, and the rule it implements, stated on the history of samples alone.
\<close>

section \<open>The state\<close>

record pressure =
  paused :: bool
  tracking_high :: bool
  tracking_low :: bool
  have_drops :: bool
  high_since_ms :: nat
  low_since_ms :: nat
  last_ms :: nat
  last_drops :: nat

definition pressure_zero :: pressure where
  "pressure_zero = \<lparr>paused = False, tracking_high = False, tracking_low = False, have_drops = False,
     high_since_ms = 0, low_since_ms = 0, last_ms = 0, last_drops = 0\<rparr>"

definition gui_rf_preview_pressure_fill_percent :: "(rat \<Rightarrow> rat) \<Rightarrow> nat \<Rightarrow> nat \<Rightarrow> nat \<Rightarrow> nat" where
  "gui_rf_preview_pressure_fill_percent rnd written read capacity =
     (if capacity = 0 \<or> written \<le> read then 0
      else let fill = written - read in
        if capacity \<le> fill then 100
        else nat \<lfloor>rnd (rnd (rnd (of_nat fill) * 100) / rnd (of_nat capacity))\<rfloor>)"

text \<open>The differences of times do not wrap: a timer that runs was started no later than the last call.\<close>

definition pressure_time :: "nat \<Rightarrow> pressure \<Rightarrow> pressure" where
  "pressure_time now s =
     (if now < last_ms s then s\<lparr>tracking_high := False, tracking_low := False, last_ms := now\<rparr>
      else s\<lparr>last_ms := now\<rparr>)"

definition pressure_high :: "nat \<Rightarrow> nat \<Rightarrow> pressure \<Rightarrow> pressure" where
  "pressure_high now level s0 =
     (let s = s0\<lparr>tracking_low := False\<rparr> in
      if 60 \<le> level
      then let s1 = (if tracking_high s then s else s\<lparr>tracking_high := True, high_since_ms := now\<rparr>) in
        if 150 \<le> now - high_since_ms s1 then s1\<lparr>paused := True, tracking_low := False\<rparr> else s1
      else s\<lparr>tracking_high := False\<rparr>)"

definition pressure_low :: "nat \<Rightarrow> nat \<Rightarrow> pressure \<Rightarrow> pressure" where
  "pressure_low now level s0 =
     (let s = s0\<lparr>tracking_high := False\<rparr> in
      if level \<le> 35
      then let s1 = (if tracking_low s then s else s\<lparr>tracking_low := True, low_since_ms := now\<rparr>) in
        if 2000 \<le> now - low_since_ms s1 then s1\<lparr>paused := False, tracking_low := False\<rparr> else s1
      else s\<lparr>tracking_low := False\<rparr>)"

definition gui_rf_preview_pressure_update ::
  "nat \<Rightarrow> nat \<Rightarrow> nat \<Rightarrow> nat \<Rightarrow> bool \<Rightarrow> pressure \<Rightarrow> bool \<times> pressure" where
  "gui_rf_preview_pressure_update now raw recording drops capturing s0 =
     (if \<not> capturing then (False, pressure_zero)
      else
        let s1 = pressure_time now s0;
            new_drop = (have_drops s1 \<and> last_drops s1 < drops);
            s = s1\<lparr>last_drops := drops, have_drops := True\<rparr>;
            level = (if recording < raw then raw else recording);
            s' = (if new_drop \<or> 85 \<le> level
                  then s\<lparr>paused := True, tracking_high := False, tracking_low := False\<rparr>
                  else if \<not> paused s then pressure_high now level s else pressure_low now level s)
        in (paused s', s'))"

text \<open>The fill level is a percentage, for every rounding that keeps the order and the bound.\<close>

lemma fill_percent_bound:
  assumes mono: "\<And>x y. x \<le> y \<Longrightarrow> rnd x \<le> rnd y" and exact: "rnd 100 = 100" "rnd (of_nat capacity) = of_nat capacity"
    and product: "rnd (of_nat capacity * 100) \<le> of_nat capacity * 100"
  shows "gui_rf_preview_pressure_fill_percent rnd written read capacity \<le> 100"
proof (cases "capacity = 0 \<or> written \<le> read \<or> capacity \<le> written - read")
  case False
  let ?f = "of_nat (written - read) :: rat"
  have "rnd ?f \<le> of_nat capacity" using mono [of ?f "of_nat capacity"] exact(2) False by simp
  then have "rnd (rnd ?f * 100) \<le> of_nat capacity * 100" using mono [of "rnd ?f * 100" "of_nat capacity * 100"] product by simp
  then have "rnd (rnd ?f * 100) / rnd (of_nat capacity) \<le> 100" using False exact(2) by (simp add: divide_le_eq mult.commute)
  then have "rnd (rnd (rnd ?f * 100) / rnd (of_nat capacity)) \<le> 100" using mono exact(1) by fastforce
  then have "nat \<lfloor>rnd (rnd (rnd ?f * 100) / rnd (of_nat capacity))\<rfloor> \<le> 100" by linarith
  then show ?thesis using False by (simp add: gui_rf_preview_pressure_fill_percent_def Let_def)
qed (auto simp: gui_rf_preview_pressure_fill_percent_def Let_def)

section \<open>The rule on the history\<close>

text \<open>A sample: its time, the two fill levels and the count of drops.\<close>

datatype sample = Sample (at_ms: nat) (raw_fill: nat) (record_fill: nat) (drop_count: nat)

definition level :: "sample \<Rightarrow> nat" where
  "level x = max (raw_fill x) (record_fill x)"

text \<open>Histories have the newest sample first.\<close>

definition dropped :: "sample list \<Rightarrow> bool" where
  "dropped h = (case h of x # y # _ \<Rightarrow> drop_count y < drop_count x | _ \<Rightarrow> False)"

definition busy :: "sample list \<Rightarrow> bool" where
  "busy h = (h \<noteq> [] \<and> 60 \<le> level (hd h))"

definition calm :: "sample list \<Rightarrow> bool" where
  "calm h = (h \<noteq> [] \<and> level (hd h) \<le> 35 \<and> \<not> dropped h)"

text \<open>When the unbroken sequence of samples with a property began, up to the newest sample.\<close>

fun began :: "(sample list \<Rightarrow> bool) \<Rightarrow> sample list \<Rightarrow> nat" where
  "began P [] = 0"
| "began P (x # h) = (if P h then began P h else at_ms x)"

fun pause_rule :: "sample list \<Rightarrow> bool" where
  "pause_rule [] = False"
| "pause_rule (x # h) =
     (if dropped (x # h) \<or> 85 \<le> level x then True
      else if pause_rule h then \<not> (calm (x # h) \<and> began calm (x # h) + 2000 \<le> at_ms x)
      else busy (x # h) \<and> began busy (x # h) + 150 \<le> at_ms x)"

definition pressure_feed :: "sample \<Rightarrow> pressure \<Rightarrow> pressure" where
  "pressure_feed x s = snd (gui_rf_preview_pressure_update (at_ms x) (raw_fill x) (record_fill x) (drop_count x) True s)"

definition follows :: "sample list \<Rightarrow> pressure \<Rightarrow> bool" where
  "follows h s =
     (paused s = pause_rule h \<and> have_drops s = (h \<noteq> []) \<and>
      (h \<noteq> [] \<longrightarrow> last_ms s = at_ms (hd h) \<and> last_drops s = drop_count (hd h)) \<and>
      (h = [] \<longrightarrow> last_ms s = 0) \<and>
      (\<not> paused s \<longrightarrow> tracking_high s = busy h \<and> (busy h \<longrightarrow> high_since_ms s = began busy h)) \<and>
      (paused s \<longrightarrow> tracking_low s = calm h \<and> (calm h \<longrightarrow> low_since_ms s = began calm h)))"

lemma pressure_feed_follows:
  assumes "follows h s" "h \<noteq> [] \<Longrightarrow> at_ms (hd h) \<le> at_ms x"
  shows "follows (x # h) (pressure_feed x s)"
proof -
  define s1 where "s1 = s\<lparr>last_ms := at_ms x, last_drops := drop_count x, have_drops := True\<rparr>"
  have drop: "(have_drops s \<and> last_drops s < drop_count x) = dropped (x # h)"
    using assms(1) by (cases h) (simp_all add: follows_def dropped_def)
  have "\<not> at_ms x < last_ms s" using assms by (cases "h = []") (simp_all add: follows_def)
  then have feed: "pressure_feed x s =
      (if dropped (x # h) \<or> 85 \<le> level x
       then s1\<lparr>paused := True, tracking_high := False, tracking_low := False\<rparr>
       else if \<not> paused s1 then pressure_high (at_ms x) (level x) s1 else pressure_low (at_ms x) (level x) s1)"
    using drop by (simp add: pressure_feed_def gui_rf_preview_pressure_update_def Let_def pressure_time_def s1_def
        level_def max_def not_le [symmetric])
  have last: "have_drops (pressure_feed x s)" "last_ms (pressure_feed x s) = at_ms x"
    "last_drops (pressure_feed x s) = drop_count x"
    unfolding feed by (simp_all add: s1_def pressure_high_def pressure_low_def Let_def)
  have old: "paused s1 = pause_rule h" "\<not> pause_rule h \<Longrightarrow> tracking_high s1 = busy h"
    "\<not> pause_rule h \<Longrightarrow> busy h \<Longrightarrow> high_since_ms s1 = began busy h"
    "pause_rule h \<Longrightarrow> tracking_low s1 = calm h"
    "pause_rule h \<Longrightarrow> calm h \<Longrightarrow> low_since_ms s1 = began calm h"
    using assms(1) by (auto simp: s1_def follows_def)
  have same: "busy (x # h) = (60 \<le> level x)" "calm (x # h) = (level x \<le> 35 \<and> \<not> dropped (x # h))"
    by (simp_all add: busy_def calm_def)
  have "paused (pressure_feed x s) = pause_rule (x # h) \<and>
      (\<not> paused (pressure_feed x s) \<longrightarrow> tracking_high (pressure_feed x s) = busy (x # h) \<and>
        (busy (x # h) \<longrightarrow> high_since_ms (pressure_feed x s) = began busy (x # h))) \<and>
      (paused (pressure_feed x s) \<longrightarrow> tracking_low (pressure_feed x s) = calm (x # h) \<and>
        (calm (x # h) \<longrightarrow> low_since_ms (pressure_feed x s) = began calm (x # h)))"
  proof (cases "dropped (x # h) \<or> 85 \<le> level x")
    case True
    then show ?thesis unfolding feed by (auto simp: same)
  next
    case now: False
    show ?thesis
    proof (cases "pause_rule h")
      case True
      then show ?thesis using now old unfolding feed
        by (auto simp: pressure_low_def Let_def same)
    next
      case False
      then show ?thesis using now old unfolding feed
        by (auto simp: pressure_high_def Let_def same)
    qed
  qed
  then show ?thesis using last by (simp add: follows_def)
qed

lemma pressure_run_follows:
  assumes "sorted (map at_ms xs)"
  shows "follows (rev xs) (fold pressure_feed xs pressure_zero)"
  using assms
proof (induction xs rule: rev_induct)
  case (snoc x xs)
  then have "follows (rev xs) (fold pressure_feed xs pressure_zero)" by (simp add: sorted_append)
  moreover have "at_ms (hd (rev xs)) \<le> at_ms x" if "rev xs \<noteq> []"
    using snoc.prems that by (auto simp: sorted_append hd_rev)
  ultimately show ?case using pressure_feed_follows [of "rev xs" _ x] by auto
qed (simp add: follows_def pressure_zero_def busy_def calm_def)



end
