(* ===== verification/Spec2Isabelle.thy ===== *)
theory Spec2Isabelle
  imports Ringbuffer_Concurrent Ddd_Device Ddd_Telemetry Ddd_Collection Ddd_Validators
    Extract Capture_Handler Record_Direct Monitor_Client Local_Save_Commit Ddd_Async_Stop
    Monitor_Framebox Rf_Stream_Marks_Calls Rf_Stream_Marks_Safety Remote_Fs
    Rf_Preview_Budget Rf_Preview_Pressure
begin

text \<open>
  A verification of the data paths of MISRC GUI, a program that captures sampled RF and video
  signals from USB devices, records them, and shows and records them on a second computer.
  Paths are below src/misrc\_tools.

  \<^bold>\<open>The program.\<close>  A capture thread receives blocks from a device, either as
  video frames whose lines carry samples (common/frame\_parser.c) or as USB transfers
  (misrc\_gui/input/gui\_ddd\_async.c, common/ddd\_protocol.c).  The blocks pass through rings
  (common/ringbuffer.c, common/buffer\_manager.c, common/rb\_event.c) to the extraction
  (common/extract.c), to the recorders (misrc\_gui/output/gui\_record\_direct.c with the spill
  store of gui\_record.c) and to the preview, for which gui\_rf\_stream\_marks.c keeps where the
  rates and epochs of the stream change; its decoders share a processor budget
  (gui\_rf\_preview\_policy.c) and pause under load (gui\_rf\_preview\_pressure.c).  The
  preview images go through a latest-frame
  box (misrc\_gui/net/gui\_monitor\_video\_framebox.c) to a video server, whose client takes
  them out of a byte stream (gui\_monitor\_video\_wire.c, gui\_monitor\_video\_client.c).  A
  recording may be written to the client instead of the local disk (monitor\_local\_save\_*.c,
  gui\_monitor\_local\_save.c).

  \<^bold>\<open>Theories.\<close>
  \<^item> Prelude: machine types, words as numbers, little- and big-endian fields, file contents,
    and the interfaces as locales: byte\_queue (a ring as a FIFO), spill\_store, header\_codec,
    guarded\_feed and chunked\_feed (consumers of a stream that do not depend on how it is
    cut), inv\_machine (state machines with an invariant).  Each is interpreted on the
    definitions of the theory that provides it.
  \<^item> Ringbuffer, Ringbuffer\_Concurrent: the ring of common/ringbuffer.c as a FIFO, and its
    atomic accesses interleaved by two threads, with the schedules that break it.
  \<^item> Ddd\_Device, Ddd\_Telemetry, Ddd\_Collection, Ddd\_Validators: common/ddd\_protocol.c; the
    device is a function from requests to answers.  Exactness of the stream validators, order
    and effect of the control transfers, overflow-free totals, device and rate selection.
  \<^item> Ddd\_Async, Ddd\_Async\_Order, Ddd\_Async\_Stop: the transfer queue; order and completeness
    of what it delivers against the view of the USB host, and that a stop is bounded.
  \<^item> Extract: every extractor and conversion of common/extract.c; one contract for all of
    them, saturation, and the audio splitting.
  \<^item> Frame\_Parser, Capture\_Handler: common/frame\_parser.c; what a valid frame delivers, the
    synchronisation states, and the audio filter.
  \<^item> Buffer\_Manager: common/buffer\_manager.c; invariant and accounting of all operations,
    the outcome of waits, and the sizes for a memory budget.
  \<^item> Spill\_File, Record\_Direct: the recording path; the accepted bytes are the output, the
    held block, the ring and the spill store in that order; and where the code loses this.
  \<^item> Monitor\_Wire, Monitor\_Client, Monitor\_Framebox: headers, stream reader, codec choice,
    decoding, and the latest-frame box in two threads.
  \<^item> Rf\_Stream\_Marks, Rf\_Stream\_Marks\_Calls, Rf\_Stream\_Marks\_Steps,
    Rf\_Stream\_Marks\_Safety: processing/gui\_rf\_stream\_marks.c; which blocks of the raw
    stream may be shown and with which rates and epochs, exactly in sessions of whole calls
    and safely in every interleaving of the atomic accesses, overflow recovery included.
  \<^item> Rf\_Preview\_Policy, Rf\_Preview\_Budget, Rf\_Preview\_Pressure: the budget of the
    preview decoders (processing/gui\_rf\_preview\_policy.c) keeps its state well formed, never
    grants more than its rate allows and serves the first in its queue; the pause
    (gui\_rf\_preview\_pressure.c) follows its rule on the history of samples.  Computations in
    double precision round with a function that is an argument.
  \<^item> Remote\_Fs: net/gui\_remote\_fs.c; which paths a client may look at, and that the pages
    of a listing are complete.  A client chooses the directory of its recordings with it.
  \<^item> Local\_Save\_Protocol, Local\_Save\_Files, Local\_Save\_Session, Local\_Save\_Refinement,
    Local\_Save\_Commit: frames and checksum, the receiver and its files, the sender with its
    queue and file proxies, and the proof that a committed recording leaves exactly the
    files that were written.

  \<^bold>\<open>State, effects, concurrency.\<close>  A struct is a record, a failing call an option
  or a flag, and state is passed explicitly.  Integers keep their width where they wrap; a
  count is a natural number where the code bounds it.  What an operating system, a library, a
  device or another thread answers is an argument: a record of results, a function, or a
  sequence with a counter of the answers used.  Two threads are sequences of atomic steps.
  Memory that one party guards with acquire and release accesses is sequential.

  \<^bold>\<open>Loops.\<close>  Loops over a buffer are structural.  The extractor loops of the audio
  splitting carry fuel of a quarter of the length plus one: every pass moves the index, which
  stops at that quarter, by three.  The writer's
  wait counts its retries down, the reader's wait is a partial\_function that is proved to
  return for every non-negative timeout.  The encoder choice has the eight attempts of the code.
  The proxy write loop ends because it copies or empties a full cache; the consume loop of the
  transfer queue because every pass takes a completed slot.  The main loop of the transfer queue
  has fuel, and Ddd\_Async\_Stop proves that some fuel is enough once capturing has stopped.

  \<^bold>\<open>Not modelled.\<close>  The user interface and its assets, the visualization and the
  signal decoding (floating point, judged by eye and ear), the device drivers and playback
  (threads around foreign libraries), the HTTP, JSON and remote-control parts of the network
  code, FLAC and WAV output, settings and updater, the command line tools, operating
  system wrappers, the assembly variants of the extractors, and the tests.  Their
  correctness lies in the libraries and devices they drive or in numerical quality.
\<close>

end
